(* ===== verification/TxPrelude.thy ===== *)
theory TxPrelude
  imports Main "HOL-Library.Word" "HOL-Library.Signed_Division"
begin

text \<open>
  Shared vocabulary of the development.

  \<^item> Go's \<^verbatim>\<open>byte\<close>, \<^verbatim>\<open>uint32\<close> and \<^verbatim>\<open>uint64\<close> are words; \<^verbatim>\<open>[]byte\<close> and \<^verbatim>\<open>string\<close> are
    lists of bytes.
  \<^item> Go's signed integers (\<^verbatim>\<open>int32\<close>, \<^verbatim>\<open>int64\<close>, \<^verbatim>\<open>int\<close>) are HOL integers, with
    the two's complement wrap-around written out by \<open>wrap\<close> where the code computes at a
    fixed width.
  \<^item> Code that mutates a receiver and may panic is a function from the state to an
    outcome and the state at that moment (\<open>('s, 'e, 'a) sm\<close>): a panic keeps the mutations
    made before it, as in Go.
\<close>

unbundle bit_operations_syntax

named_theorems sm_simps \<open>evaluation of the state-and-panic combinators\<close>
named_theorems sm_okE \<open>what a successful run of an operation tells about the states\<close>

section \<open>Bytes and machine integers\<close>

type_synonym byte = "8 word"
type_synonym bytes = "byte list"
type_synonym uint64 = "64 word"
type_synonym uint32 = "32 word"

definition str :: "string \<Rightarrow> bytes" where
  \<comment> \<open>the bytes of an ASCII literal\<close>
  "str s = map (\<lambda>c. of_nat (of_char c)) s"

definition len :: "'a list \<Rightarrow> int" where
  \<comment> \<open>Go's \<^verbatim>\<open>len\<close>, an \<^verbatim>\<open>int\<close>\<close>
  "len xs = int (length xs)"

definition wrap :: "nat \<Rightarrow> int \<Rightarrow> int" where
  "wrap w x = (x + 2 ^ (w - 1)) mod 2 ^ w - 2 ^ (w - 1)"

definition in_range :: "nat \<Rightarrow> int \<Rightarrow> bool" where
  "in_range w x \<longleftrightarrow> - (2 ^ (w - 1)) \<le> x \<and> x < 2 ^ (w - 1)"

abbreviation wrap64 :: "int \<Rightarrow> int" where "wrap64 \<equiv> wrap 64"
abbreviation is_int64 :: "int \<Rightarrow> bool" where "is_int64 \<equiv> in_range 64"

definition maxInt :: "nat \<Rightarrow> int" where "maxInt w = 2 ^ (w - 1) - 1"
definition minInt :: "nat \<Rightarrow> int" where "minInt w = - (2 ^ (w - 1))"

lemma len_nonneg [simp]: "0 \<le> len xs"
  by (simp add: len_def)

lemma len_Nil [simp]: "len [] = 0"
  and len_Cons [simp]: "len (x # xs) = 1 + len xs"
  and len_append [simp]: "len (xs @ ys) = len xs + len ys"
  by (simp_all add: len_def)

lemma len_map [simp]: "len (map f xs) = len xs"
  by (simp add: len_def)

lemma len_pos: "0 < len xs \<longleftrightarrow> xs \<noteq> []"
  by (simp add: len_def)

lemma len_eq_0 [simp]: "len xs = 0 \<longleftrightarrow> xs = []"
  by (simp add: len_def)

lemma double_half: "0 < w \<Longrightarrow> (2::int) ^ w = 2 * 2 ^ (w - 1)"
  by (cases w) auto

lemma wrap_id: "0 < w \<Longrightarrow> in_range w x \<Longrightarrow> wrap w x = x"
  by (simp add: wrap_def in_range_def double_half)

lemma wrap_in_range: "0 < w \<Longrightarrow> in_range w (wrap w x)"
proof -
  assume "0 < w"
  moreover have "0 \<le> (x + 2 ^ (w - 1)) mod 2 ^ w" "(x + 2 ^ (w - 1)) mod 2 ^ w < 2 ^ w"
    by simp_all
  ultimately show ?thesis
    by (simp add: wrap_def in_range_def double_half)
qed

lemma wrap64_id [simp]: "is_int64 x \<Longrightarrow> wrap64 x = x"
  by (simp add: wrap_id)

lemma wrap64_range [simp, intro]: "is_int64 (wrap64 x)"
  by (simp add: wrap_in_range)

lemma is_int64_iff: "is_int64 x \<longleftrightarrow> - 9223372036854775808 \<le> x \<and> x < 9223372036854775808"
  by (simp add: in_range_def)

lemma is_int64_word: "is_int64 (sint (x :: uint64))"
  using sint_range_size [of x] by (simp add: in_range_def word_size)

lemma sint_word_of_int64: "is_int64 i \<Longrightarrow> sint (word_of_int i :: uint64) = i"
  by (simp add: is_int64_iff signed_of_int signed_take_bit_int_eq_self)

lemma inj_on_pair: "f x \<noteq> f y \<Longrightarrow> inj_on f {x, y}"
  by auto

section \<open>State and panics\<close>

type_synonym ('s, 'e, 'a) sm = "'s \<Rightarrow> ('e + 'a) \<times> 's"

definition return :: "'a \<Rightarrow> ('s, 'e, 'a) sm" where
  "return x = (\<lambda>s. (Inr x, s))"

definition panic :: "'e \<Rightarrow> ('s, 'e, 'a) sm" where
  "panic e = (\<lambda>s. (Inl e, s))"

definition bind :: "('s, 'e, 'a) sm \<Rightarrow> ('a \<Rightarrow> ('s, 'e, 'b) sm) \<Rightarrow> ('s, 'e, 'b) sm" where
  "bind m f = (\<lambda>s. case m s of (Inl e, s') \<Rightarrow> (Inl e, s') | (Inr x, s') \<Rightarrow> f x s')"

definition andthen :: "('s, 'e, 'a) sm \<Rightarrow> ('s, 'e, 'b) sm \<Rightarrow> ('s, 'e, 'b) sm" where
  "andthen m k = bind m (\<lambda>_. k)"

definition gets :: "('s \<Rightarrow> 'a) \<Rightarrow> ('s, 'e, 'a) sm" where
  "gets f = (\<lambda>s. (Inr (f s), s))"

definition modify :: "('s \<Rightarrow> 's) \<Rightarrow> ('s, 'e, unit) sm" where
  "modify f = (\<lambda>s. (Inr (), f s))"

definition guard :: "bool \<Rightarrow> 'e \<Rightarrow> ('s, 'e, unit) sm" where
  \<comment> \<open>\<^verbatim>\<open>if !b { panic(e) }\<close>\<close>
  "guard b e = (if b then return () else panic e)"

primrec each :: "('a \<Rightarrow> ('s, 'e, unit) sm) \<Rightarrow> 'a list \<Rightarrow> ('s, 'e, unit) sm" where
  \<comment> \<open>\<^verbatim>\<open>for _, x := range xs { f(x) }\<close>\<close>
  "each f [] = return ()"
| "each f (x # xs) = andthen (f x) (each f xs)"

lemma return_run [sm_simps]: "return x s = (Inr x, s)"
  and panic_run [sm_simps]: "panic e s = (Inl e, s)"
  and gets_run [sm_simps]: "gets g s = (Inr (g s), s)"
  and modify_run [sm_simps]: "modify h s = (Inr (), h s)"
  by (simp_all add: return_def panic_def gets_def modify_def)

lemma guard_run [sm_simps]: "guard b e s = (if b then Inr () else Inl e, s)"
  by (simp add: guard_def sm_simps)

lemma bind_run_Inr [sm_simps]: "m s = (Inr x, s') \<Longrightarrow> bind m f s = f x s'"
  and bind_run_Inl [sm_simps]: "m s = (Inl e, s') \<Longrightarrow> bind m f s = (Inl e, s')"
  by (simp_all add: bind_def)

lemma andthen_run_Inr [sm_simps]: "m s = (Inr x, s') \<Longrightarrow> andthen m k s = k s'"
  and andthen_run_Inl [sm_simps]: "m s = (Inl e, s') \<Longrightarrow> andthen m k s = (Inl e, s')"
  by (simp_all add: andthen_def bind_def)

lemma bind_gets_run [sm_simps]: "bind (gets g) f s = f (g s) s"
  and andthen_modify_run [sm_simps]: "andthen (modify h) k s = k (h s)"
  and andthen_guard_run [sm_simps]: "andthen (guard b e) k s = (if b then k s else (Inl e, s))"
  by (simp_all add: bind_def andthen_def gets_def modify_def guard_def return_def panic_def)

lemma bind_assoc: "bind (bind m f) g = bind m (\<lambda>x. bind (f x) g)"
  by (rule ext) (simp add: bind_def split: prod.split sum.split)

lemma bind_panic [simp]: "bind (panic e) f = panic e"
  and andthen_panic [simp]: "andthen (panic e) k = panic e"
  and bind_return [simp]: "bind (return x) f = f x"
  and andthen_return [simp]: "andthen (return x) k = k"
  by (auto simp: bind_def andthen_def panic_def return_def)

lemma guard_True [simp]: "guard True e = return ()"
  and guard_False [simp]: "guard False e = panic e"
  by (simp_all add: guard_def)

lemma bind_ok [sm_okE]:
  "bind m f s = (Inr y, s'') \<longleftrightarrow> (\<exists>x s'. m s = (Inr x, s') \<and> f x s' = (Inr y, s''))"
  by (auto simp: bind_def split: prod.splits sum.splits)

lemma andthen_ok [sm_okE]:
  "andthen m k s = (Inr y, s'') \<longleftrightarrow> (\<exists>x s'. m s = (Inr x, s') \<and> k s' = (Inr y, s''))"
  by (simp add: andthen_def bind_ok)

lemma return_ok [sm_okE]: "return x s = (Inr y, s') \<longleftrightarrow> y = x \<and> s' = s"
  and panic_ok [sm_okE]: "panic e s = (Inr y, s') \<longleftrightarrow> False"
  and gets_ok [sm_okE]: "gets g s = (Inr z, s') \<longleftrightarrow> z = g s \<and> s' = s"
  and modify_ok [sm_okE]: "modify h s = (Inr u, s') \<longleftrightarrow> s' = h s"
  by (auto simp: return_def panic_def gets_def modify_def)

lemma guard_ok [sm_okE]: "guard b e s = (Inr u, s') \<longleftrightarrow> b \<and> s' = s"
  by (auto simp: guard_def return_def panic_def)

subsection \<open>Relations kept by every run\<close>

text \<open>
  \<open>stays R m\<close>: whatever the outcome of \<open>m\<close>, the states before and after are related by
  \<open>R\<close>. For a preorder \<open>R\<close> the property is compositional, so a fact such as ``the runlimit
  never grows'' is proved once per primitive.
\<close>

definition stays :: "('s \<Rightarrow> 's \<Rightarrow> bool) \<Rightarrow> ('s, 'e, 'a) sm \<Rightarrow> bool" where
  "stays R m \<longleftrightarrow> (\<forall>s. R s (snd (m s)))"

lemma staysD: "stays R m \<Longrightarrow> m s = (r, s') \<Longrightarrow> R s s'"
  unfolding stays_def by (metis snd_conv)

locale run_preorder =
  fixes R :: "'s \<Rightarrow> 's \<Rightarrow> bool"
  assumes run_refl: "R s s"
    and run_trans: "R s s' \<Longrightarrow> R s' s'' \<Longrightarrow> R s s''"
begin

lemma stays_return: "stays R (return x)"
  and stays_panic: "stays R (panic e)"
  and stays_gets: "stays R (gets g)"
  and stays_guard: "stays R (guard b e)"
  by (auto simp: stays_def sm_simps intro: run_refl)

lemma stays_bind:
  assumes "stays R m" and "\<And>x. stays R (f x)"
  shows "stays R (bind m f)"
  unfolding stays_def
proof
  fix s
  obtain r s' where m: "m s = (r, s')" by (cases "m s")
  from assms(1) m have 1: "R s s'" by (auto simp: stays_def dest: spec [of _ s])
  show "R s (snd (bind m f s))"
  proof (cases r)
    case (Inl e)
    with m 1 show ?thesis by (simp add: bind_def)
  next
    case (Inr x)
    from assms(2) have "R s' (snd (f x s'))" by (auto simp: stays_def)
    with 1 have "R s (snd (f x s'))" by (rule run_trans)
    with m Inr show ?thesis by (simp add: bind_def)
  qed
qed

lemma stays_bind_post:
  assumes "stays R m" and "\<And>x s s'. m s = (Inr x, s') \<Longrightarrow> R s' (snd (f x s'))"
  shows "stays R (bind m f)"
  unfolding stays_def
proof
  fix s
  obtain r s' where m: "m s = (r, s')" by (cases "m s")
  from assms(1) m have 1: "R s s'" by (auto simp: stays_def dest: spec [of _ s])
  with m show "R s (snd (bind m f s))"
    using assms(2) [of s _ s'] run_trans [of s s'] by (cases r) (auto simp: bind_def)
qed

lemma stays_andthen:
  "stays R m \<Longrightarrow> stays R k \<Longrightarrow> stays R (andthen m k)"
  by (simp add: andthen_def stays_bind)

lemma stays_if:
  "stays R m \<Longrightarrow> stays R k \<Longrightarrow> stays R (if b then m else k)"
  by simp

lemma stays_each: "(\<And>x. stays R (f x)) \<Longrightarrow> stays R (each f xs)"
  by (induction xs) (auto intro: stays_return stays_andthen)

lemma stays_option:
  "stays R m \<Longrightarrow> (\<And>x. stays R (f x)) \<Longrightarrow>
   stays R (case z of None \<Rightarrow> m | Some x \<Rightarrow> f x)"
  by (cases z) auto

lemma stays_sum:
  "(\<And>x. stays R (f x)) \<Longrightarrow> (\<And>x. stays R (g x)) \<Longrightarrow>
   stays R (case z of Inl x \<Rightarrow> f x | Inr x \<Rightarrow> g x)"
  by (cases z) auto

lemma stays_prod:
  "(\<And>x y. stays R (f x y)) \<Longrightarrow> stays R (case z of (x, y) \<Rightarrow> f x y)"
  by (cases z) auto

lemmas stays_intros =
  stays_return stays_panic stays_gets stays_guard stays_bind stays_andthen
  stays_if stays_each stays_option stays_sum stays_prod

end

end
