(* ===== verification/Checked.thy ===== *)
theory Checked
  imports TxPrelude
begin

text \<open>
  The package \<^verbatim>\<open>math/checked\<close> (\<^verbatim>\<open>src/math/checked/checked.go\<close>): arithmetic that reports
  overflow. The signed functions are translated once at a width \<open>w\<close>, since the 32-bit and
  64-bit functions of the package have the same text, and instantiated at 64 and 32; every
  subexpression that Go computes at that width is wrapped. The unsigned functions work on
  words. A result is Go's pair \<^verbatim>\<open>(result, ok)\<close>.

  The locale \<open>checked_op\<close> is the promise of the package: an operation returns the exact
  mathematical result exactly when that result is defined and representable, and
  \<^verbatim>\<open>(0, false)\<close> otherwise. Each function is an interpretation of it.
\<close>

section \<open>Signed operations\<close>

definition AddInt :: "nat \<Rightarrow> int \<Rightarrow> int \<Rightarrow> int \<times> bool" where
  "AddInt w a b =
     (if (b > 0 \<and> a > wrap w (maxInt w - b)) \<or> (b < 0 \<and> a < wrap w (minInt w - b))
      then (0, False) else (wrap w (a + b), True))"

definition SubInt :: "nat \<Rightarrow> int \<Rightarrow> int \<Rightarrow> int \<times> bool" where
  "SubInt w a b =
     (if (b > 0 \<and> a < wrap w (minInt w + b)) \<or> (b < 0 \<and> a > wrap w (maxInt w + b))
      then (0, False) else (wrap w (a - b), True))"

definition MulInt :: "nat \<Rightarrow> int \<Rightarrow> int \<Rightarrow> int \<times> bool" where
  "MulInt w a b =
     (if (a > 0 \<and> b > 0 \<and> a > wrap w (maxInt w sdiv b)) \<or>
         (a > 0 \<and> b \<le> 0 \<and> b < wrap w (minInt w sdiv a)) \<or>
         (a \<le> 0 \<and> b > 0 \<and> a < wrap w (minInt w sdiv b)) \<or>
         (a < 0 \<and> b \<le> 0 \<and> b < wrap w (maxInt w sdiv a))
      then (0, False) else (wrap w (a * b), True))"

definition DivInt :: "nat \<Rightarrow> int \<Rightarrow> int \<Rightarrow> int \<times> bool" where
  "DivInt w a b =
     (if b = 0 \<or> (a = minInt w \<and> b = -1) then (0, False) else (wrap w (a sdiv b), True))"

definition ModInt :: "nat \<Rightarrow> int \<Rightarrow> int \<Rightarrow> int \<times> bool" where
  "ModInt w a b =
     (if b = 0 \<or> (a = minInt w \<and> b = -1) then (0, False) else (wrap w (a smod b), True))"

definition NegateInt :: "nat \<Rightarrow> int \<Rightarrow> int \<times> bool" where
  "NegateInt w a = (if a = minInt w then (0, False) else (wrap w (- a), True))"

definition LshiftInt :: "nat \<Rightarrow> int \<Rightarrow> int \<Rightarrow> int \<times> bool" where
  "LshiftInt w a b =
     (if b < 0 \<or> b \<ge> int w then (0, False)
      else if (a \<ge> 0 \<and> a > maxInt w div 2 ^ nat b) \<or> (a < 0 \<and> a < minInt w div 2 ^ nat b)
      then (0, False)
      else (wrap w (a * 2 ^ nat b), True))"

definition RshiftInt64 :: "int \<Rightarrow> int \<Rightarrow> int \<times> bool" where
  "RshiftInt64 a b = (if b < 0 then (0, False) else (a div 2 ^ nat b, True))"

definition AddInt64 :: "int \<Rightarrow> int \<Rightarrow> int \<times> bool" where "AddInt64 = AddInt 64"
definition SubInt64 :: "int \<Rightarrow> int \<Rightarrow> int \<times> bool" where "SubInt64 = SubInt 64"
definition MulInt64 :: "int \<Rightarrow> int \<Rightarrow> int \<times> bool" where "MulInt64 = MulInt 64"
definition DivInt64 :: "int \<Rightarrow> int \<Rightarrow> int \<times> bool" where "DivInt64 = DivInt 64"
definition ModInt64 :: "int \<Rightarrow> int \<Rightarrow> int \<times> bool" where "ModInt64 = ModInt 64"
definition NegateInt64 :: "int \<Rightarrow> int \<times> bool" where "NegateInt64 = NegateInt 64"
definition LshiftInt64 :: "int \<Rightarrow> int \<Rightarrow> int \<times> bool" where "LshiftInt64 = LshiftInt 64"

definition AddInt32 :: "int \<Rightarrow> int \<Rightarrow> int \<times> bool" where "AddInt32 = AddInt 32"
definition SubInt32 :: "int \<Rightarrow> int \<Rightarrow> int \<times> bool" where "SubInt32 = SubInt 32"
definition MulInt32 :: "int \<Rightarrow> int \<Rightarrow> int \<times> bool" where "MulInt32 = MulInt 32"
definition DivInt32 :: "int \<Rightarrow> int \<Rightarrow> int \<times> bool" where "DivInt32 = DivInt 32"
definition ModInt32 :: "int \<Rightarrow> int \<Rightarrow> int \<times> bool" where "ModInt32 = ModInt 32"
definition NegateInt32 :: "int \<Rightarrow> int \<times> bool" where "NegateInt32 = NegateInt 32"
definition LshiftInt32 :: "int \<Rightarrow> int \<Rightarrow> int \<times> bool" where "LshiftInt32 = LshiftInt 32"

section \<open>Unsigned operations\<close>

definition AddUint :: "'w::len word \<Rightarrow> 'w word \<Rightarrow> 'w word \<times> bool" where
  "AddUint a b = (if - 1 - a < b then (0, False) else (a + b, True))"

definition SubUint :: "'w::len word \<Rightarrow> 'w word \<Rightarrow> 'w word \<times> bool" where
  "SubUint a b = (if a < b then (0, False) else (a - b, True))"

definition MulUint :: "'w::len word \<Rightarrow> 'w word \<Rightarrow> 'w word \<times> bool" where
  "MulUint a b = (if b > 0 \<and> a > (- 1) div b then (0, False) else (a * b, True))"

definition DivUint :: "'w::len word \<Rightarrow> 'w word \<Rightarrow> 'w word \<times> bool" where
  "DivUint a b = (if b = 0 then (0, False) else (a div b, True))"

definition ModUint :: "'w::len word \<Rightarrow> 'w word \<Rightarrow> 'w word \<times> bool" where
  "ModUint a b = (if b = 0 then (0, False) else (a mod b, True))"

definition LshiftUint :: "'w::len word \<Rightarrow> 'w word \<Rightarrow> 'w word \<times> bool" where
  "LshiftUint a b =
     (if unat b \<ge> LENGTH('w) then (0, False)
      else if a > drop_bit (unat b) (- 1) then (0, False)
      else (push_bit (unat b) a, True))"

definition AddUint64 :: "uint64 \<Rightarrow> uint64 \<Rightarrow> uint64 \<times> bool" where "AddUint64 = AddUint"
definition SubUint64 :: "uint64 \<Rightarrow> uint64 \<Rightarrow> uint64 \<times> bool" where "SubUint64 = SubUint"
definition MulUint64 :: "uint64 \<Rightarrow> uint64 \<Rightarrow> uint64 \<times> bool" where "MulUint64 = MulUint"
definition DivUint64 :: "uint64 \<Rightarrow> uint64 \<Rightarrow> uint64 \<times> bool" where "DivUint64 = DivUint"
definition ModUint64 :: "uint64 \<Rightarrow> uint64 \<Rightarrow> uint64 \<times> bool" where "ModUint64 = ModUint"
definition LshiftUint64 :: "uint64 \<Rightarrow> uint64 \<Rightarrow> uint64 \<times> bool" where "LshiftUint64 = LshiftUint"

definition AddUint32 :: "uint32 \<Rightarrow> uint32 \<Rightarrow> uint32 \<times> bool" where "AddUint32 = AddUint"
definition SubUint32 :: "uint32 \<Rightarrow> uint32 \<Rightarrow> uint32 \<times> bool" where "SubUint32 = SubUint"
definition MulUint32 :: "uint32 \<Rightarrow> uint32 \<Rightarrow> uint32 \<times> bool" where "MulUint32 = MulUint"
definition DivUint32 :: "uint32 \<Rightarrow> uint32 \<Rightarrow> uint32 \<times> bool" where "DivUint32 = DivUint"
definition ModUint32 :: "uint32 \<Rightarrow> uint32 \<Rightarrow> uint32 \<times> bool" where "ModUint32 = ModUint"
definition LshiftUint32 :: "uint32 \<Rightarrow> uint32 \<Rightarrow> uint32 \<times> bool" where "LshiftUint32 = LshiftUint"

section \<open>The contract of a checked operation\<close>

locale checked_op =
  fixes val :: "'v \<Rightarrow> int"
    and valid :: "'v \<Rightarrow> bool"
    and rng :: "int \<Rightarrow> bool"
    and f :: "'v \<Rightarrow> 'v \<Rightarrow> 'v \<times> bool"
    and defined :: "int \<Rightarrow> int \<Rightarrow> bool"
    and exact :: "int \<Rightarrow> int \<Rightarrow> int"
    and nought :: 'v
  assumes success: "valid a \<Longrightarrow> valid b \<Longrightarrow> defined (val a) (val b) \<Longrightarrow>
      rng (exact (val a) (val b)) \<Longrightarrow>
      \<exists>c. f a b = (c, True) \<and> val c = exact (val a) (val b) \<and> valid c"
    and failure: "valid a \<Longrightarrow> valid b \<Longrightarrow>
      \<not> (defined (val a) (val b) \<and> rng (exact (val a) (val b))) \<Longrightarrow> f a b = (nought, False)"
begin

lemma ok_iff: "valid a \<Longrightarrow> valid b \<Longrightarrow>
    snd (f a b) \<longleftrightarrow> defined (val a) (val b) \<and> rng (exact (val a) (val b))"
  using success [of a b] failure [of a b] by fastforce

lemma ok_val: "valid a \<Longrightarrow> valid b \<Longrightarrow> f a b = (c, True) \<Longrightarrow>
    val c = exact (val a) (val b) \<and> valid c"
  using success [of a b] failure [of a b] by fastforce

lemma fail_nought: "valid a \<Longrightarrow> valid b \<Longrightarrow> \<not> snd (f a b) \<Longrightarrow> f a b = (nought, False)"
  using success [of a b] failure [of a b] by fastforce

end

section \<open>Exactness of the signed operations\<close>

lemma int_div_less: "0 < b \<Longrightarrow> m div b < a \<longleftrightarrow> m < a * b" for a b m :: int
proof -
  assume b: "0 < b"
  have m: "m = m div b * b + m mod b" by simp
  have r: "0 \<le> m mod b" "m mod b < b" using b by simp_all
  show ?thesis
  proof
    assume "m div b < a"
    then have "(m div b + 1) * b \<le> a * b" using b by (intro mult_right_mono) auto
    then have "m div b * b + b \<le> a * b" by (simp add: distrib_right)
    with m r show "m < a * b" by linarith
  next
    assume lt: "m < a * b"
    show "m div b < a"
    proof (rule ccontr)
      assume "\<not> m div b < a"
      then have "a * b \<le> m div b * b" using b by (simp add: mult_right_mono)
      with lt m r show False by linarith
    qed
  qed
qed

lemma sdiv_pos_pos: "0 \<le> m \<Longrightarrow> 0 < b \<Longrightarrow> m sdiv b = m div b"
  and sdiv_neg_pos: "0 \<le> m \<Longrightarrow> 0 < b \<Longrightarrow> (- m) sdiv b = - (m div b)"
  and sdiv_pos_neg: "0 \<le> m \<Longrightarrow> b < 0 \<Longrightarrow> m sdiv b = - (m div (- b))"
  for m b :: int
  by (auto simp: signed_divide_int_def sgn_if)

lemma div_bounds: "0 < b \<Longrightarrow> 0 \<le> m \<Longrightarrow> 0 \<le> m div b \<and> m div b \<le> m" for m b :: int
  by (simp add: pos_imp_zdiv_nonneg_iff) (metis int_div_less less_add_one mult.commute
      mult_le_cancel_left1 not_less order_less_le order_trans zdiv_mono2 div_by_1 int_one_le_iff_zero_less zero_less_one)

lemma div_in_range: "0 < b \<Longrightarrow> 0 \<le> m \<Longrightarrow> m \<le> 2 ^ (w - 1) \<Longrightarrow> in_range w (- (m div b))"
  and div_in_range': "0 < b \<Longrightarrow> 0 \<le> m \<Longrightarrow> m < 2 ^ (w - 1) \<Longrightarrow> in_range w (m div b)"
  for m b :: int
  using div_bounds [of b m] zero_less_power [of "2::int" "w - 1"]
  unfolding in_range_def by linarith+

lemma AddInt_exact:
  assumes "0 < w" "in_range w a" "in_range w b"
  shows "AddInt w a b = (if in_range w (a + b) then (a + b, True) else (0, False))"
proof -
  have "b > 0 \<Longrightarrow> wrap w (maxInt w - b) = maxInt w - b"
    and "b < 0 \<Longrightarrow> wrap w (minInt w - b) = minInt w - b"
    using assms by (auto intro!: wrap_id simp: in_range_def maxInt_def minInt_def)
  then show ?thesis
    using assms wrap_id [of w "a + b"]
    by (auto simp: AddInt_def in_range_def maxInt_def minInt_def)
qed

lemma SubInt_exact:
  assumes "0 < w" "in_range w a" "in_range w b"
  shows "SubInt w a b = (if in_range w (a - b) then (a - b, True) else (0, False))"
proof -
  have "b > 0 \<Longrightarrow> wrap w (minInt w + b) = minInt w + b"
    and "b < 0 \<Longrightarrow> wrap w (maxInt w + b) = maxInt w + b"
    using assms by (auto intro!: wrap_id simp: in_range_def maxInt_def minInt_def)
  then show ?thesis
    using assms wrap_id [of w "a - b"]
    by (auto simp: SubInt_def in_range_def maxInt_def minInt_def)
qed

lemma NegateInt_exact:
  assumes "0 < w" "in_range w a"
  shows "NegateInt w a = (if in_range w (- a) then (- a, True) else (0, False))"
  using assms wrap_id [of w "- a"] by (auto simp: NegateInt_def in_range_def minInt_def)

lemma MulInt_exact:
  assumes w: "0 < w" and a: "in_range w a" and b: "in_range w b"
  shows "MulInt w a b = (if in_range w (a * b) then (a * b, True) else (0, False))"
proof -
  let ?h = "2 ^ (w - 1) :: int"
  have h: "0 < ?h" by simp
  have mx: "wrap w (maxInt w sdiv x) = (?h - 1) div x" if "0 < x" for x
    using that h by (simp add: maxInt_def sdiv_pos_pos wrap_id w div_in_range')
  have mn: "wrap w (minInt w sdiv x) = - (?h div x)" if "0 < x" for x
    using that h sdiv_neg_pos [of ?h x]
    by (simp only: minInt_def wrap_id w div_in_range less_imp_le order_refl)
  have mx': "wrap w (maxInt w sdiv x) = - ((?h - 1) div (- x))" if "x < 0" for x
    using that h by (simp add: maxInt_def sdiv_pos_neg wrap_id w div_in_range)
  note div_less = int_div_less [of b "?h - 1" a] int_div_less [of a ?h "- b"]
    int_div_less [of b ?h "- a"] int_div_less [of "- a" "?h - 1" "- b"]
  consider (pp) "a > 0" "b > 0" "a * b > 0" | (pn) "a > 0" "b \<le> 0" "a * b \<le> 0"
    | (np) "a < 0" "b > 0" "a * b \<le> 0" | (nn) "a < 0" "b \<le> 0" "0 \<le> a * b" | (z) "a = 0"
    by (cases "a = 0"; cases "a > 0"; cases "b > 0")
       (auto simp: mult_le_0_iff zero_le_mult_iff not_less)
  then show ?thesis
  proof cases
    case pp
    with h have "- ?h \<le> a * b" by linarith
    with pp h div_less(1) show ?thesis
      by (auto simp: MulInt_def mx in_range_def intro: wrap_id [OF w])
  next
    case pn
    with h have "a * b < ?h" by linarith
    with pn h div_less(2) show ?thesis
      by (auto simp: MulInt_def mn in_range_def mult.commute intro: wrap_id [OF w])
  next
    case np
    with h have "a * b < ?h" by linarith
    with np h div_less(3) show ?thesis
      by (auto simp: MulInt_def mn in_range_def intro: wrap_id [OF w])
  next
    case nn
    with h have "- ?h \<le> a * b" by linarith
    with nn h div_less(4) show ?thesis
      by (auto simp: MulInt_def mx' in_range_def mult.commute intro: wrap_id [OF w])
  next
    case z
    with h div_bounds [of b ?h] mn [of b] show ?thesis
      by (auto simp: MulInt_def in_range_def intro: wrap_id [OF w])
  qed
qed

lemma DivInt_exact:
  assumes "0 < w" "in_range w a" "in_range w b"
  shows "DivInt w a b =
    (if b \<noteq> 0 \<and> in_range w (a sdiv b) then (a sdiv b, True) else (0, False))"
proof (cases "b = 0 \<or> (a = minInt w \<and> b = -1)")
  case True
  then show ?thesis by (auto simp: DivInt_def in_range_def minInt_def)
next
  case False
  have "in_range w (a sdiv b)"
  proof (cases "b = - 1")
    case True
    with False assms show ?thesis by (auto simp: in_range_def minInt_def)
  next
    case nb: False
    have "\<bar>a\<bar> div \<bar>b\<bar> \<le> \<bar>a\<bar> div 2" if "b \<noteq> 1"
      using that nb False by (intro zdiv_mono2) auto
    moreover have "0 \<le> \<bar>a\<bar> div \<bar>b\<bar>" by (simp add: div_int_pos_iff)
    ultimately show ?thesis
      using assms False nb
      by (cases "b = 1") (auto simp: signed_divide_int_def in_range_def sgn_if abs_if split: if_splits)
  qed
  with False assms show ?thesis by (simp add: DivInt_def wrap_id)
qed

lemma ModInt_exact:
  assumes "0 < w" "in_range w a" "in_range w b"
  shows "ModInt w a b =
    (if b \<noteq> 0 \<and> in_range w (a sdiv b) then (a smod b, True) else (0, False))"
proof -
  have "in_range w (a smod b)" if "b \<noteq> 0"
    using smod_int_range [OF that, of a] assms that
    by (auto simp: in_range_def abs_if split: if_splits)
  moreover have "b = 0 \<or> (a = minInt w \<and> b = -1) \<longleftrightarrow> \<not> (b \<noteq> 0 \<and> in_range w (a sdiv b))"
    using DivInt_exact [OF assms] by (auto simp: DivInt_def split: if_splits)
  ultimately show ?thesis using assms by (auto simp: ModInt_def wrap_id)
qed

lemma LshiftInt_exact:
  assumes "0 < w" "in_range w a"
  shows "LshiftInt w a b =
    (if 0 \<le> b \<and> b < int w \<and> in_range w (a * 2 ^ nat b) then (a * 2 ^ nat b, True) else (0, False))"
proof -
  let ?h = "2 ^ (w - 1) :: int"
  have neg: "(- ?h) div 2 ^ nat b \<le> a \<longleftrightarrow> - ?h \<le> a * 2 ^ nat b" if "a < 0" "0 \<le> b" "b < int w"
  proof -
    have "?h = ?h div 2 ^ nat b * 2 ^ nat b"
      using that by (simp add: dvd_div_mult_self le_imp_power_dvd)
    then have "(- ?h) div 2 ^ nat b = - (?h div 2 ^ nat b)"
      by (metis minus_mult_left nonzero_mult_div_cancel_right power_not_zero zero_neq_numeral)
    with int_div_less [of "2 ^ nat b" ?h "- a"] show ?thesis
      by (simp add: not_less [symmetric]) (smt (verit))
  qed
  have pos: "maxInt w div 2 ^ nat b < a \<longleftrightarrow> ?h - 1 < a * 2 ^ nat b"
    using int_div_less [of "2 ^ nat b" "?h - 1" a] by (simp add: maxInt_def)
  have sgn: "0 \<le> a * 2 ^ nat b \<longleftrightarrow> 0 \<le> a" by (simp add: zero_le_mult_iff)
  have low: "- ?h \<le> a * 2 ^ nat b" if "0 \<le> a"
    using that sgn zero_less_power [of "2::int" "w - 1"] by linarith
  show ?thesis
    using neg pos sgn low assms wrap_id [of w "a * 2 ^ nat b"]
    by (auto simp: LshiftInt_def in_range_def minInt_def not_less not_le)
qed

section \<open>Exactness of the unsigned operations\<close>

lemma AddUint_exact:
  "AddUint a b = (if uint a + uint b < 2 ^ LENGTH('w) then (a + b, True) else (0, False))"
  "uint a + uint b < 2 ^ LENGTH('w) \<Longrightarrow> uint (a + b) = uint a + uint b"
  for a b :: "'w::len word"
proof -
  have "uint (- 1 - a) = 2 ^ LENGTH('w) - 1 - uint a"
    by (simp add: word_le_def uint_sub_if' unsigned_minus_1_eq_mask mask_eq_exp_minus_1)
  then show "AddUint a b =
      (if uint a + uint b < 2 ^ LENGTH('w) then (a + b, True) else (0, False))"
    by (auto simp: AddUint_def word_less_def)
  show "uint (a + b) = uint a + uint b" if "uint a + uint b < 2 ^ LENGTH('w)"
    using that by (simp add: uint_add_lem)
qed

lemma SubUint_exact:
  "SubUint a b = (if 0 \<le> uint a - uint b then (a - b, True) else (0, False))"
  "0 \<le> uint a - uint b \<Longrightarrow> uint (a - b) = uint a - uint b"
  for a b :: "'w::len word"
  by (simp add: SubUint_def word_less_def not_less) (simp add: uint_sub_lem)

lemma MulUint_exact:
  "MulUint a b = (if uint a * uint b < 2 ^ LENGTH('w) then (a * b, True) else (0, False))"
  "uint a * uint b < 2 ^ LENGTH('w) \<Longrightarrow> uint (a * b) = uint a * uint b"
  for a b :: "'w::len word"
proof -
  have "b > 0 \<and> a > (- 1) div b \<longleftrightarrow> \<not> uint a * uint b < 2 ^ LENGTH('w)"
  proof (cases "b = 0")
    case True
    then show ?thesis by simp
  next
    case False
    then have "0 < uint b" by (simp add: word_neq_0_conv word_less_def)
    then show ?thesis
      using int_div_less [of "uint b" "2 ^ LENGTH('w) - 1" "uint a"]
      by (auto simp: word_less_def uint_div unsigned_minus_1_eq_mask mask_eq_exp_minus_1)
  qed
  then show "MulUint a b =
      (if uint a * uint b < 2 ^ LENGTH('w) then (a * b, True) else (0, False))"
    by (auto simp: MulUint_def)
  show "uint (a * b) = uint a * uint b" if "uint a * uint b < 2 ^ LENGTH('w)"
    using that by (simp add: uint_mult_lem)
qed

lemma DivUint_exact:
  "DivUint a b = (if uint b \<noteq> 0 then (a div b, True) else (0, False))"
  "uint (a div b) = uint a div uint b"
  for a b :: "'w::len word"
  by (simp_all add: DivUint_def uint_div uint_0_iff)

lemma ModUint_exact:
  "ModUint a b = (if uint b \<noteq> 0 then (a mod b, True) else (0, False))"
  "uint (a mod b) = uint a mod uint b"
  for a b :: "'w::len word"
  by (simp_all add: ModUint_def uint_mod uint_0_iff)

lemma LshiftUint_exact:
  "LshiftUint a b =
     (if uint b < int LENGTH('w) \<and> uint a * 2 ^ unat b < 2 ^ LENGTH('w)
      then (push_bit (unat b) a, True) else (0, False))"
  "uint a * 2 ^ unat b < 2 ^ LENGTH('w) \<Longrightarrow> uint (push_bit (unat b) a) = uint a * 2 ^ unat b"
  for a b :: "'w::len word"
proof -
  have "uint (drop_bit (unat b) (- 1) :: 'w word) = (2 ^ LENGTH('w) - 1) div 2 ^ unat b"
    by (simp only: unsigned_drop_bit_eq)
       (simp add: take_bit_int_eq_self drop_bit_eq_div unsigned_minus_1_eq_mask mask_eq_exp_minus_1)
  then have big: "a > drop_bit (unat b) (- 1) \<longleftrightarrow> \<not> uint a * 2 ^ unat b < 2 ^ LENGTH('w)"
    using int_div_less [of "2 ^ unat b" "2 ^ LENGTH('w) - 1" "uint a"]
    by (simp only: word_less_def zero_less_power zero_less_numeral simp_thms) linarith
  have cnt: "unat b \<ge> LENGTH('w) \<longleftrightarrow> \<not> uint b < int LENGTH('w)"
    by (simp only: unat_eq_nat_uint le_nat_iff uint_ge_0 not_less)
  show "LshiftUint a b =
     (if uint b < int LENGTH('w) \<and> uint a * 2 ^ unat b < 2 ^ LENGTH('w)
      then (push_bit (unat b) a, True) else (0, False))"
    by (simp only: LshiftUint_def big cnt split: if_split) blast
  show "uint (push_bit (unat b) a) = uint a * 2 ^ unat b"
    if "uint a * 2 ^ unat b < 2 ^ LENGTH('w)"
    using that by (simp only: unsigned_push_bit_eq) (simp add: push_bit_eq_mult take_bit_int_eq_self)
qed

section \<open>The package satisfies the contract\<close>

abbreviation is_int32 :: "int \<Rightarrow> bool" where "is_int32 \<equiv> in_range 32"
abbreviation is_uint :: "nat \<Rightarrow> int \<Rightarrow> bool" where "is_uint w x \<equiv> 0 \<le> x \<and> x < 2 ^ w"

interpretation add64: checked_op "\<lambda>x. x" is_int64 is_int64 AddInt64 "\<lambda>_ _. True" "(+)" 0
  by unfold_locales (simp_all add: AddInt64_def AddInt_exact)

interpretation sub64: checked_op "\<lambda>x. x" is_int64 is_int64 SubInt64 "\<lambda>_ _. True" "(-)" 0
  by unfold_locales (simp_all add: SubInt64_def SubInt_exact)

interpretation mul64: checked_op "\<lambda>x. x" is_int64 is_int64 MulInt64 "\<lambda>_ _. True" "(*)" 0
  by unfold_locales (simp_all add: MulInt64_def MulInt_exact)

interpretation div64: checked_op "\<lambda>x. x" is_int64 is_int64 DivInt64 "\<lambda>_ b. b \<noteq> 0" "(sdiv)" 0
  by unfold_locales (simp_all add: DivInt64_def DivInt_exact)

interpretation add32: checked_op "\<lambda>x. x" is_int32 is_int32 AddInt32 "\<lambda>_ _. True" "(+)" 0
  by unfold_locales (simp_all add: AddInt32_def AddInt_exact)

interpretation sub32: checked_op "\<lambda>x. x" is_int32 is_int32 SubInt32 "\<lambda>_ _. True" "(-)" 0
  by unfold_locales (simp_all add: SubInt32_def SubInt_exact)

interpretation mul32: checked_op "\<lambda>x. x" is_int32 is_int32 MulInt32 "\<lambda>_ _. True" "(*)" 0
  by unfold_locales (simp_all add: MulInt32_def MulInt_exact)

interpretation div32: checked_op "\<lambda>x. x" is_int32 is_int32 DivInt32 "\<lambda>_ b. b \<noteq> 0" "(sdiv)" 0
  by unfold_locales (simp_all add: DivInt32_def DivInt_exact)

interpretation addu64: checked_op uint "\<lambda>_. True" "is_uint 64" AddUint64 "\<lambda>_ _. True" "(+)" 0
  by unfold_locales (simp_all add: AddUint64_def AddUint_exact)

interpretation subu64: checked_op uint "\<lambda>_. True" "is_uint 64" SubUint64 "\<lambda>_ _. True" "(-)" 0
proof unfold_locales
  fix a b :: uint64
  have "uint a < 2 ^ 64" "0 \<le> uint b" using uint_lt2p [of a] by simp_all
  then have "uint a - uint b < 2 ^ 64" by linarith
  then show "\<not> (True \<and> is_uint 64 (uint a - uint b)) \<Longrightarrow> SubUint64 a b = (0, False)"
    by (auto simp: SubUint64_def SubUint_exact)
qed (auto simp: SubUint64_def SubUint_exact)

interpretation mulu64: checked_op uint "\<lambda>_. True" "is_uint 64" MulUint64 "\<lambda>_ _. True" "(*)" 0
  by unfold_locales (simp_all add: MulUint64_def MulUint_exact)

interpretation addu32: checked_op uint "\<lambda>_. True" "is_uint 32" AddUint32 "\<lambda>_ _. True" "(+)" 0
  by unfold_locales (simp_all add: AddUint32_def AddUint_exact)

interpretation mulu32: checked_op uint "\<lambda>_. True" "is_uint 32" MulUint32 "\<lambda>_ _. True" "(*)" 0
  by unfold_locales (simp_all add: MulUint32_def MulUint_exact)

text \<open>
  The signed 64-bit operations of \<^verbatim>\<open>math/checked\<close> return the exact sum, difference,
  product, truncated quotient, negation and left shift exactly when it fits in an int64 (and
  the divisor is not zero, the shift count not out of range), and \<^verbatim>\<open>(0, false)\<close> otherwise;
  the remainder is returned exactly when the quotient is.
\<close>

theorem checked_int64_exact:
  assumes "is_int64 a" and "is_int64 b"
  shows "AddInt64 a b = (if is_int64 (a + b) then (a + b, True) else (0, False)) \<and>
    SubInt64 a b = (if is_int64 (a - b) then (a - b, True) else (0, False)) \<and>
    MulInt64 a b = (if is_int64 (a * b) then (a * b, True) else (0, False)) \<and>
    DivInt64 a b =
      (if b \<noteq> 0 \<and> is_int64 (a sdiv b) then (a sdiv b, True) else (0, False)) \<and>
    ModInt64 a b =
      (if b \<noteq> 0 \<and> is_int64 (a sdiv b) then (a smod b, True) else (0, False)) \<and>
    NegateInt64 a = (if is_int64 (- a) then (- a, True) else (0, False)) \<and>
    LshiftInt64 a b =
      (if 0 \<le> b \<and> b < 64 \<and> is_int64 (a * 2 ^ nat b) then (a * 2 ^ nat b, True) else (0, False))"
  using assms
  by (simp_all add: AddInt64_def SubInt64_def MulInt64_def DivInt64_def ModInt64_def
      NegateInt64_def LshiftInt64_def AddInt_exact SubInt_exact MulInt_exact DivInt_exact
      ModInt_exact NegateInt_exact LshiftInt_exact)

theorem checked_int64_exact_witness:
  "is_int64 4611686018427387904 \<and> is_int64 (-2) \<and>
   AddInt64 4611686018427387904 (-2) = (4611686018427387902, True) \<and>
   MulInt64 4611686018427387904 (-2) = (- 9223372036854775808, True) \<and>
   DivInt64 4611686018427387904 (-2) = (- 2305843009213693952, True) \<and>
   LshiftInt64 4611686018427387904 (-2) = (0, False)"
proof -
  have h: "is_int64 4611686018427387904" "is_int64 (-2)" by (simp_all add: is_int64_iff)
  show ?thesis
    using h checked_int64_exact [OF h] by (simp add: is_int64_iff)
qed

end
