(* ===== verification/Varint.thy ===== *)
theory Varint
  imports TxPrelude
begin

text \<open>
  The parts of Go's \<^verbatim>\<open>encoding/binary\<close> that the sources use: base-128 varints
  (\<^verbatim>\<open>PutUvarint\<close>, \<^verbatim>\<open>Uvarint\<close>) and 64-bit words in both byte orders. \<^verbatim>\<open>Uvarint\<close> returns
  Go's pair: the value and the number of bytes read, zero when the buffer ends too early
  and negative when the value overflows 64 bits.
\<close>

section \<open>Varints\<close>

function PutUvarint :: "uint64 \<Rightarrow> bytes" where
  "PutUvarint x =
     (if x \<ge> 0x80 then (ucast x OR 0x80) # PutUvarint (drop_bit 7 x) else [ucast x])"
  by pat_completeness auto
termination
proof (relation "measure unat")
  fix x :: uint64
  assume "x \<ge> 0x80"
  then have "128 \<le> unat x" by (simp add: word_le_nat_alt)
  moreover have "unat (drop_bit 7 x) = unat x div 128"
    by (simp only: unat_drop_bit_eq) (simp add: drop_bit_eq_div)
  ultimately show "(drop_bit 7 x, x) \<in> measure unat" by simp
qed simp

declare PutUvarint.simps [simp del]

fun uvarint_loop :: "uint64 \<Rightarrow> nat \<Rightarrow> nat \<Rightarrow> bytes \<Rightarrow> uint64 \<times> int" where
  "uvarint_loop x s i [] = (0, 0)"
| "uvarint_loop x s i (b # bs) =
     (if b < 0x80 then
        (if i > 9 \<or> (i = 9 \<and> b > 1) then (0, - (int i + 1))
         else (x OR push_bit s (ucast b), int i + 1))
      else uvarint_loop (x OR push_bit s (ucast (b AND 0x7f))) (s + 7) (Suc i) bs)"

definition Uvarint :: "bytes \<Rightarrow> uint64 \<times> int" where
  "Uvarint buf = uvarint_loop 0 0 0 buf"

lemma PutUvarint_nonempty [simp]: "PutUvarint x \<noteq> []"
  by (subst PutUvarint.simps) simp

lemma PutUvarint_small: "x < 0x80 \<Longrightarrow> PutUvarint x = [ucast x]"
  by (subst PutUvarint.simps) (simp add: not_le)

lemma bit_0x80: "bit (0x80 :: byte) n \<longleftrightarrow> n = 7"
  using bit_push_bit_iff [of 7 "1 :: byte" n] by (auto simp: push_bit_eq_mult bit_1_iff)

lemma bit_0x7f: "bit (0x7f :: byte) n \<longleftrightarrow> n < 7"
  using bit_mask_iff [of 7 n, where 'a = byte] by (auto simp: mask_eq_exp_minus_1)

lemma byte_less_0x80_iff: "b < 0x80 \<longleftrightarrow> \<not> bit b 7" for b :: byte
proof -
  have "bit (unat b) 7 \<longleftrightarrow> bit b 7" by (simp add: bit_unsigned_iff)
  then have "bit b 7 \<longleftrightarrow> odd (unat b div 128)" by (simp add: bit_iff_odd)
  moreover have "unat b < 256" using unsigned_less [of b, where 'a = nat] by simp
  then have "unat b div 128 = (if 128 \<le> unat b then 1 else 0)" by (auto intro: div_nat_eqI)
  ultimately show ?thesis by (simp add: word_less_nat_alt split: if_splits)
qed

lemma continuation_byte: "\<not> (ucast x OR 0x80 :: byte) < 0x80"
  by (simp add: byte_less_0x80_iff bit_or_iff bit_0x80)

lemma uvarint_group_bit:
  "bit (ucast ((ucast y OR 0x80 :: byte) AND 0x7f) :: uint64) m \<longleftrightarrow> m < 7 \<and> bit y m"
  for y :: uint64
  by (simp only: bit_ucast_iff bit_and_iff bit_or_iff bit_0x80 bit_0x7f) auto

lemma uvarint_step:
  "(acc OR push_bit s (ucast ((ucast y OR 0x80 :: byte) AND 0x7f))) OR push_bit (s + 7) (drop_bit 7 y)
   = acc OR push_bit s y" for acc y :: uint64
proof (rule bit_word_eqI)
  fix n
  assume "n < LENGTH(64)"
  show "bit ((acc OR push_bit s (ucast ((ucast y OR 0x80 :: byte) AND 0x7f)))
      OR push_bit (s + 7) (drop_bit 7 y)) n \<longleftrightarrow> bit (acc OR push_bit s y) n"
  proof (cases "s + 7 \<le> n")
    case True
    then have "7 + (n - (s + 7)) = n - s" by simp
    with True show ?thesis
      by (simp only: bit_or_iff bit_push_bit_iff bit_drop_bit_eq uvarint_group_bit o_apply) auto
  next
    case False
    then have "s \<le> n \<Longrightarrow> n - s < 7" by simp
    with False show ?thesis
      by (simp only: bit_or_iff bit_push_bit_iff bit_drop_bit_eq uvarint_group_bit o_apply) auto
  qed
qed

lemma uvarint_loop_PutUvarint:
  assumes "s = 7 * i" and "i \<le> 9" and "unat y * 2 ^ s < 2 ^ 64"
  shows "uvarint_loop acc s i (PutUvarint y @ rest) =
    (acc OR push_bit s y, int i + len (PutUvarint y))"
  using assms
proof (induction y arbitrary: acc s i rule: PutUvarint.induct)
  case (1 y)
  show ?case
  proof (cases "y \<ge> 0x80")
    case True
    then have y: "128 \<le> unat y" by (simp add: word_le_nat_alt)
    have d: "unat (drop_bit 7 y) = unat y div 128"
      by (simp only: unat_drop_bit_eq) (simp add: drop_bit_eq_div)
    have "unat y div 128 * 128 \<le> unat y" by simp
    then have "unat y div 128 * 128 * 2 ^ s \<le> unat y * 2 ^ s" by (rule mult_right_mono) simp
    moreover have "unat (drop_bit 7 y) * 2 ^ (s + 7) = unat y div 128 * 128 * 2 ^ s"
      by (simp only: d power_add) simp
    ultimately have b: "unat (drop_bit 7 y) * 2 ^ (s + 7) < 2 ^ 64"
      using "1.prems"(3) by linarith
    have "128 * 2 ^ s \<le> unat y * (2::nat) ^ s" using y by (rule mult_right_mono) simp
    moreover have "(2::nat) ^ (s + 7) = 128 * 2 ^ s" by (simp add: power_add)
    ultimately have "(2::nat) ^ (s + 7) < 2 ^ 64" using "1.prems"(3) by linarith
    then have "s + 7 < 64" by (rule power_less_imp_less_exp [rotated]) simp
    then have i: "Suc i \<le> 9" using "1.prems"(1) by simp
    have s: "s + 7 = 7 * Suc i" using "1.prems"(1) by simp
    show ?thesis
      using True "1.IH" [OF True s i b] continuation_byte [of y]
      by (subst (1 2) PutUvarint.simps) (simp add: uvarint_step add.assoc)
  next
    case False
    then have y: "unat y < 128" by (simp add: word_le_nat_alt not_le)
    have small: "(ucast y :: byte) < 0x80"
      using y by (simp add: word_less_nat_alt unsigned_ucast_eq take_bit_nat_eq_self)
    have nine: "\<not> (i = 9 \<and> (ucast y :: byte) > 1)"
    proof
      assume "i = 9 \<and> (ucast y :: byte) > 1"
      with y "1.prems" show False
        by (simp add: word_less_nat_alt unsigned_ucast_eq take_bit_nat_eq_self)
    qed
    have "unat (ucast (ucast y :: byte) :: uint64) = unat y"
      using y by (simp only: unsigned_ucast_eq) (simp add: unsigned_take_bit_eq take_bit_nat_eq_self)
    then have "ucast (ucast y :: byte) = y" by (simp only: word_unat_eq_iff)
    with False small nine "1.prems"(2) show ?thesis
      by (subst (1 2) PutUvarint.simps) (auto simp: not_le)
  qed
qed

lemma Uvarint_PutUvarint: "Uvarint (PutUvarint x @ rest) = (x, len (PutUvarint x))"
proof -
  have "unat x * 2 ^ 0 < 2 ^ 64" using unsigned_less [of x, where 'a = nat] by simp
  then show ?thesis
    using uvarint_loop_PutUvarint [of 0 0 x 0 rest] by (simp add: Uvarint_def)
qed

lemma Uvarint_PutUvarint': "Uvarint (PutUvarint x) = (x, len (PutUvarint x))"
  using Uvarint_PutUvarint [of x "[]"] by simp

lemma uvarint_loop_count:
  "uvarint_loop x s i bs = (y, n) \<Longrightarrow> n > 0 \<Longrightarrow> int i < n \<and> n \<le> int i + len bs \<and> n \<le> 10"
proof (induction bs arbitrary: x s i)
  case (Cons b bs)
  then show ?case by (fastforce split: if_splits)
qed simp

lemma Uvarint_count: "Uvarint bs = (y, n) \<Longrightarrow> n > 0 \<Longrightarrow> n \<le> len bs \<and> n \<le> 10"
  using uvarint_loop_count [of 0 0 0 bs y n] by (auto simp: Uvarint_def)

lemma uvarint_loop_prefix:
  "uvarint_loop x s i bs = (y, n) \<Longrightarrow> n > 0 \<Longrightarrow> uvarint_loop x s i (bs @ rest) = (y, n)"
  by (induction bs arbitrary: x s i) (auto split: if_splits)

lemma length_PutUvarint_pos [simp]: "0 < len (PutUvarint x)"
  using PutUvarint_nonempty [of x] by (cases "PutUvarint x") (auto simp: add_pos_nonneg)

lemma length_PutUvarint_le: "len (PutUvarint x) \<le> 10"
  using Uvarint_count [OF Uvarint_PutUvarint' [of x]] by simp

section \<open>Fixed-width words\<close>

definition PutUint64_le :: "uint64 \<Rightarrow> bytes" where
  \<comment> \<open>\<^verbatim>\<open>binary.LittleEndian.PutUint64\<close>\<close>
  "PutUint64_le v = map (\<lambda>i. ucast (drop_bit (8 * i) v)) [0..<8]"

definition PutUint64_be :: "uint64 \<Rightarrow> bytes" where
  \<comment> \<open>\<^verbatim>\<open>binary.BigEndian.PutUint64\<close>\<close>
  "PutUint64_be v = rev (PutUint64_le v)"

definition Uint64_le :: "bytes \<Rightarrow> uint64" where
  \<comment> \<open>\<^verbatim>\<open>binary.LittleEndian.Uint64\<close>, on a slice of at least eight bytes\<close>
  "Uint64_le b = foldr (\<lambda>x acc. ucast x OR push_bit 8 acc) (take 8 b) 0"

definition Uint64_be :: "bytes \<Rightarrow> uint64" where
  \<comment> \<open>\<^verbatim>\<open>binary.BigEndian.Uint64\<close>, on a slice of at least eight bytes\<close>
  "Uint64_be b = Uint64_le (rev (take 8 b))"

lemma length_PutUint64 [simp]: "length (PutUint64_le v) = 8" "length (PutUint64_be v) = 8"
  by (simp_all add: PutUint64_le_def PutUint64_be_def)

lemma foldr_bytes_bit:
  "bit (foldr (\<lambda>x acc. ucast x OR push_bit 8 acc) bs 0 :: uint64) n \<longleftrightarrow>
   n < 64 \<and> n div 8 < length bs \<and> bit (bs ! (n div 8)) (n mod 8)" for bs :: bytes
proof (induction bs arbitrary: n)
  case (Cons b bs)
  show ?case
  proof (cases "n < 8")
    case True
    then show ?thesis by (auto simp: bit_or_iff bit_push_bit_iff bit_ucast_iff)
  next
    case False
    then obtain m where n: "n = m + 8" by (metis add.commute le_add_diff_inverse not_less)
    have "\<not> bit b (m + 8)" using bit_imp_le_length [of b "m + 8"] by auto
    moreover have "(m + 8) div 8 = Suc (m div 8)" by simp
    ultimately show ?thesis using Cons.IH [of m]
      by (auto simp: n bit_or_iff bit_push_bit_iff bit_ucast_iff)
  qed
qed simp

lemma Uint64_le_bit:
  "8 \<le> length b \<Longrightarrow> bit (Uint64_le b) n \<longleftrightarrow> n < 64 \<and> bit (b ! (n div 8)) (n mod 8)"
  by (auto simp: Uint64_le_def foldr_bytes_bit)

lemma PutUint64_le_bit:
  "i < 8 \<Longrightarrow> bit (PutUint64_le v ! i) m \<longleftrightarrow> m < 8 \<and> bit v (8 * i + m)"
  by (auto simp: PutUint64_le_def bit_ucast_iff bit_drop_bit_eq)

lemma Uint64_le_PutUint64_le: "Uint64_le (PutUint64_le v @ rest) = v"
proof (rule bit_word_eqI)
  fix n
  assume n: "n < LENGTH(64)"
  have "bit (Uint64_le (PutUint64_le v @ rest)) n \<longleftrightarrow> bit (PutUint64_le v ! (n div 8)) (n mod 8)"
    using n by (auto simp: Uint64_le_bit nth_append)
  also have "\<dots> \<longleftrightarrow> bit v n" using n by (subst PutUint64_le_bit) auto
  finally show "bit (Uint64_le (PutUint64_le v @ rest)) n \<longleftrightarrow> bit v n" .
qed

lemma PutUint64_le_Uint64_le:
  assumes "length b = 8"
  shows "PutUint64_le (Uint64_le b) = b"
proof (rule nth_equalityI)
  fix i
  assume "i < length (PutUint64_le (Uint64_le b))"
  then have i: "i < 8" by simp
  show "PutUint64_le (Uint64_le b) ! i = b ! i"
  proof (rule bit_word_eqI)
    fix n
    assume "n < LENGTH(8)"
    with i have "8 * i + n < 64" "(8 * i + n) div 8 = i" "(8 * i + n) mod 8 = n" by simp_all
    with i assms \<open>n < LENGTH(8)\<close> show "bit (PutUint64_le (Uint64_le b) ! i) n \<longleftrightarrow> bit (b ! i) n"
      by (simp add: PutUint64_le_bit Uint64_le_bit)
  qed
qed (simp add: assms)

lemma Uint64_be_PutUint64_be: "Uint64_be (PutUint64_be v @ rest) = v"
  using Uint64_le_PutUint64_le [of v "[]"] by (simp add: Uint64_be_def PutUint64_be_def)

lemma PutUint64_be_Uint64_be: "length b = 8 \<Longrightarrow> PutUint64_be (Uint64_be b) = b"
  by (simp add: Uint64_be_def PutUint64_be_def PutUint64_le_Uint64_le)

end
