(* ===== verification/Opcodes.thy ===== *)
theory Opcodes
  imports Varint
begin

text \<open>
  The package \<^verbatim>\<open>protocol/txvm/op\<close>: the opcodes (\<^verbatim>\<open>op.go\<close>), the generated tables between
  opcodes and mnemonics (\<^verbatim>\<open>opgen.go\<close>) and the instruction decoder. An opcode is a byte;
  every constant of the const block is an abbreviation for its numeral, named with the
  prefix \<open>op_\<close>.
\<close>

section \<open>Opcodes and mnemonics\<close>

abbreviation op_Int :: byte where "op_Int \<equiv> 0x20"
abbreviation op_Add :: byte where "op_Add \<equiv> 0x21"
abbreviation op_Neg :: byte where "op_Neg \<equiv> 0x22"
abbreviation op_Mul :: byte where "op_Mul \<equiv> 0x23"
abbreviation op_Div :: byte where "op_Div \<equiv> 0x24"
abbreviation op_Mod :: byte where "op_Mod \<equiv> 0x25"
abbreviation op_GT :: byte where "op_GT \<equiv> 0x26"
abbreviation op_Not :: byte where "op_Not \<equiv> 0x27"
abbreviation op_And :: byte where "op_And \<equiv> 0x28"
abbreviation op_Or :: byte where "op_Or \<equiv> 0x29"
abbreviation op_Roll :: byte where "op_Roll \<equiv> 0x2a"
abbreviation op_Bury :: byte where "op_Bury \<equiv> 0x2b"
abbreviation op_Reverse :: byte where "op_Reverse \<equiv> 0x2c"
abbreviation op_Get :: byte where "op_Get \<equiv> 0x2d"
abbreviation op_Put :: byte where "op_Put \<equiv> 0x2e"
abbreviation op_Depth :: byte where "op_Depth \<equiv> 0x2f"
abbreviation op_Nonce :: byte where "op_Nonce \<equiv> 0x30"
abbreviation op_Merge :: byte where "op_Merge \<equiv> 0x31"
abbreviation op_Split :: byte where "op_Split \<equiv> 0x32"
abbreviation op_Issue :: byte where "op_Issue \<equiv> 0x33"
abbreviation op_Retire :: byte where "op_Retire \<equiv> 0x34"
abbreviation op_Amount :: byte where "op_Amount \<equiv> 0x35"
abbreviation op_AssetID :: byte where "op_AssetID \<equiv> 0x36"
abbreviation op_Anchor :: byte where "op_Anchor \<equiv> 0x37"
abbreviation op_VMHash :: byte where "op_VMHash \<equiv> 0x38"
abbreviation op_SHA256 :: byte where "op_SHA256 \<equiv> 0x39"
abbreviation op_SHA3 :: byte where "op_SHA3 \<equiv> 0x3a"
abbreviation op_CheckSig :: byte where "op_CheckSig \<equiv> 0x3b"
abbreviation op_Log :: byte where "op_Log \<equiv> 0x3c"
abbreviation op_PeekLog :: byte where "op_PeekLog \<equiv> 0x3d"
abbreviation op_TxID :: byte where "op_TxID \<equiv> 0x3e"
abbreviation op_Finalize :: byte where "op_Finalize \<equiv> 0x3f"
abbreviation op_Verify :: byte where "op_Verify \<equiv> 0x40"
abbreviation op_JumpIf :: byte where "op_JumpIf \<equiv> 0x41"
abbreviation op_Exec :: byte where "op_Exec \<equiv> 0x42"
abbreviation op_Call :: byte where "op_Call \<equiv> 0x43"
abbreviation op_Yield :: byte where "op_Yield \<equiv> 0x44"
abbreviation op_Wrap :: byte where "op_Wrap \<equiv> 0x45"
abbreviation op_Input :: byte where "op_Input \<equiv> 0x46"
abbreviation op_Output :: byte where "op_Output \<equiv> 0x47"
abbreviation op_Contract :: byte where "op_Contract \<equiv> 0x48"
abbreviation op_Seed :: byte where "op_Seed \<equiv> 0x49"
abbreviation op_Self :: byte where "op_Self \<equiv> 0x4a"
abbreviation op_Caller :: byte where "op_Caller \<equiv> 0x4b"
abbreviation op_ContractProgram :: byte where "op_ContractProgram \<equiv> 0x4c"
abbreviation op_TimeRange :: byte where "op_TimeRange \<equiv> 0x4d"
abbreviation op_Prv :: byte where "op_Prv \<equiv> 0x4e"
abbreviation op_Ext :: byte where "op_Ext \<equiv> 0x4f"
abbreviation op_Eq :: byte where "op_Eq \<equiv> 0x50"
abbreviation op_Dup :: byte where "op_Dup \<equiv> 0x51"
abbreviation op_Drop :: byte where "op_Drop \<equiv> 0x52"
abbreviation op_Peek :: byte where "op_Peek \<equiv> 0x53"
abbreviation op_Tuple :: byte where "op_Tuple \<equiv> 0x54"
abbreviation op_Untuple :: byte where "op_Untuple \<equiv> 0x55"
abbreviation op_Len :: byte where "op_Len \<equiv> 0x56"
abbreviation op_Field :: byte where "op_Field \<equiv> 0x57"
abbreviation op_Encode :: byte where "op_Encode \<equiv> 0x58"
abbreviation op_Cat :: byte where "op_Cat \<equiv> 0x59"
abbreviation op_Slice :: byte where "op_Slice \<equiv> 0x5a"
abbreviation op_BitNot :: byte where "op_BitNot \<equiv> 0x5b"
abbreviation op_BitAnd :: byte where "op_BitAnd \<equiv> 0x5c"
abbreviation op_BitOr :: byte where "op_BitOr \<equiv> 0x5d"
abbreviation op_BitXor :: byte where "op_BitXor \<equiv> 0x5e"

definition MinSmallInt :: byte where "MinSmallInt = 0"
definition MaxSmallInt :: byte where "MaxSmallInt = 0x1f"
definition MinPushdata :: byte where "MinPushdata = 0x5f"

definition op_names :: "(byte \<times> bytes) list" where
  \<comment> \<open>the array literal \<^verbatim>\<open>name\<close>: the entries that are set\<close>
  "op_names = [
     (op_Int, str ''int''),
     (op_Add, str ''add''),
     (op_Neg, str ''neg''),
     (op_Mul, str ''mul''),
     (op_Div, str ''div''),
     (op_Mod, str ''mod''),
     (op_GT, str ''gt''),
     (op_Not, str ''not''),
     (op_And, str ''and''),
     (op_Or, str ''or''),
     (op_Roll, str ''roll''),
     (op_Bury, str ''bury''),
     (op_Reverse, str ''reverse''),
     (op_Get, str ''get''),
     (op_Put, str ''put''),
     (op_Depth, str ''depth''),
     (op_Nonce, str ''nonce''),
     (op_Merge, str ''merge''),
     (op_Split, str ''split''),
     (op_Issue, str ''issue''),
     (op_Retire, str ''retire''),
     (op_Amount, str ''amount''),
     (op_AssetID, str ''assetid''),
     (op_Anchor, str ''anchor''),
     (op_VMHash, str ''vmhash''),
     (op_SHA256, str ''sha256''),
     (op_SHA3, str ''sha3''),
     (op_CheckSig, str ''checksig''),
     (op_Log, str ''log''),
     (op_PeekLog, str ''peeklog''),
     (op_TxID, str ''txid''),
     (op_Finalize, str ''finalize''),
     (op_Verify, str ''verify''),
     (op_JumpIf, str ''jumpif''),
     (op_Exec, str ''exec''),
     (op_Call, str ''call''),
     (op_Yield, str ''yield''),
     (op_Wrap, str ''wrap''),
     (op_Input, str ''input''),
     (op_Output, str ''output''),
     (op_Contract, str ''contract''),
     (op_Seed, str ''seed''),
     (op_Self, str ''self''),
     (op_Caller, str ''caller''),
     (op_ContractProgram, str ''contractprogram''),
     (op_TimeRange, str ''timerange''),
     (op_Prv, str ''prv''),
     (op_Ext, str ''ext''),
     (op_Eq, str ''eq''),
     (op_Dup, str ''dup''),
     (op_Drop, str ''drop''),
     (op_Peek, str ''peek''),
     (op_Tuple, str ''tuple''),
     (op_Untuple, str ''untuple''),
     (op_Len, str ''len''),
     (op_Field, str ''field''),
     (op_Encode, str ''encode''),
     (op_Cat, str ''cat''),
     (op_Slice, str ''slice''),
     (op_BitNot, str ''bitnot''),
     (op_BitAnd, str ''bitand''),
     (op_BitOr, str ''bitor''),
     (op_BitXor, str ''bitxor'')]"

definition op_codes :: "(bytes \<times> byte) list" where
  \<comment> \<open>the map literal \<^verbatim>\<open>code\<close>\<close>
  "op_codes = [
     (str ''int'', op_Int),
     (str ''add'', op_Add),
     (str ''neg'', op_Neg),
     (str ''mul'', op_Mul),
     (str ''div'', op_Div),
     (str ''mod'', op_Mod),
     (str ''gt'', op_GT),
     (str ''not'', op_Not),
     (str ''and'', op_And),
     (str ''or'', op_Or),
     (str ''roll'', op_Roll),
     (str ''bury'', op_Bury),
     (str ''reverse'', op_Reverse),
     (str ''get'', op_Get),
     (str ''put'', op_Put),
     (str ''depth'', op_Depth),
     (str ''nonce'', op_Nonce),
     (str ''merge'', op_Merge),
     (str ''split'', op_Split),
     (str ''issue'', op_Issue),
     (str ''retire'', op_Retire),
     (str ''amount'', op_Amount),
     (str ''assetid'', op_AssetID),
     (str ''anchor'', op_Anchor),
     (str ''vmhash'', op_VMHash),
     (str ''sha256'', op_SHA256),
     (str ''sha3'', op_SHA3),
     (str ''checksig'', op_CheckSig),
     (str ''log'', op_Log),
     (str ''peeklog'', op_PeekLog),
     (str ''txid'', op_TxID),
     (str ''finalize'', op_Finalize),
     (str ''verify'', op_Verify),
     (str ''jumpif'', op_JumpIf),
     (str ''exec'', op_Exec),
     (str ''call'', op_Call),
     (str ''yield'', op_Yield),
     (str ''wrap'', op_Wrap),
     (str ''input'', op_Input),
     (str ''output'', op_Output),
     (str ''contract'', op_Contract),
     (str ''seed'', op_Seed),
     (str ''self'', op_Self),
     (str ''caller'', op_Caller),
     (str ''contractprogram'', op_ContractProgram),
     (str ''timerange'', op_TimeRange),
     (str ''prv'', op_Prv),
     (str ''ext'', op_Ext),
     (str ''eq'', op_Eq),
     (str ''dup'', op_Dup),
     (str ''drop'', op_Drop),
     (str ''peek'', op_Peek),
     (str ''tuple'', op_Tuple),
     (str ''untuple'', op_Untuple),
     (str ''len'', op_Len),
     (str ''field'', op_Field),
     (str ''encode'', op_Encode),
     (str ''cat'', op_Cat),
     (str ''slice'', op_Slice),
     (str ''bitnot'', op_BitNot),
     (str ''bitand'', op_BitAnd),
     (str ''bitor'', op_BitOr),
     (str ''bitxor'', op_BitXor)]"

definition op_Name :: "byte \<Rightarrow> bytes option" where
  \<comment> \<open>\<^verbatim>\<open>name[opcode]\<close>: the array has 0x5f entries; an index beyond it panics, and an index
     that is not set is the empty string\<close>
  "op_Name opcode =
     (if opcode > op_BitXor then None
      else Some (case map_of op_names opcode of Some s \<Rightarrow> s | None \<Rightarrow> []))"

definition op_Code :: "bytes \<Rightarrow> byte \<times> bool" where
  "op_Code name = (case map_of op_codes name of Some v \<Rightarrow> (v, True) | None \<Rightarrow> (0, False))"

definition IsSmallIntOp :: "byte \<Rightarrow> bool" where
  "IsSmallIntOp opcode \<longleftrightarrow> opcode \<ge> MinSmallInt \<and> opcode \<le> MaxSmallInt"

definition IsSmallInt :: "int \<Rightarrow> bool" where
  "IsSmallInt n \<longleftrightarrow> 0 \<le> n \<and> n \<le> uint (MaxSmallInt - MinSmallInt)"

definition IsPushdataOp :: "byte \<Rightarrow> bool" where
  "IsPushdataOp opcode \<longleftrightarrow> opcode \<ge> MinPushdata"

section \<open>Decoding an instruction\<close>

datatype decode_error = EmptyProgram | InvalidUvarint | ShortPushdata

definition DecodeInst :: "bytes \<Rightarrow> decode_error + (byte \<times> bytes \<times> int)" where
  "DecodeInst prog =
     (if prog = [] then Inl EmptyProgram
      else case Uvarint prog of (opcode, n) \<Rightarrow>
        if n \<le> 0 then Inl InvalidUvarint
        else if opcode < ucast MinPushdata then Inr (ucast opcode, [], n)
        else let l = opcode - ucast MinPushdata; r = word_of_int n + l in
          if word_of_int (len prog) < r then Inl ShortPushdata
          else Inr (MinPushdata, take (unat r - nat n) (drop (nat n) prog), sint r))"

section \<open>Lemmas on the decoder\<close>

lemma byte_le_iff_unat: "(a :: byte) \<le> b \<longleftrightarrow> unat a \<le> unat b"
  by (simp add: word_le_nat_alt)

lemma DecodeInst_op: "b < MinPushdata \<Longrightarrow> DecodeInst (b # rest) = Inr (b, [], 1)"
proof -
  assume b: "b < MinPushdata"
  then have small: "b < 0x80" by (simp add: MinPushdata_def word_less_nat_alt)
  have "(ucast b :: uint64) < ucast MinPushdata"
    using b by (simp add: word_less_nat_alt MinPushdata_def unsigned_ucast_eq
        order.strict_trans1 [OF take_bit_nat_less_eq_self])
  moreover have "(ucast (ucast b :: uint64) :: byte) = b"
    by (rule bit_word_eqI) (auto simp: bit_ucast_iff)
  ultimately show ?thesis using small by (simp add: DecodeInst_def Uvarint_def)
qed

lemma DecodeInst_opcode:
  "DecodeInst p = Inr (opcode, d, n) \<Longrightarrow> opcode \<le> MinPushdata"
  "DecodeInst p = Inr (opcode, d, n) \<Longrightarrow> opcode < MinPushdata \<Longrightarrow> d = [] \<and> 0 < n"
proof -
  have *: "(ucast x :: byte) < MinPushdata" if "x < ucast MinPushdata" for x :: uint64
    using that by (simp add: word_less_nat_alt MinPushdata_def unsigned_ucast_eq unsigned_take_bit_eq take_bit_nat_eq_self)
  show "DecodeInst p = Inr (opcode, d, n) \<Longrightarrow> opcode \<le> MinPushdata"
    "DecodeInst p = Inr (opcode, d, n) \<Longrightarrow> opcode < MinPushdata \<Longrightarrow> d = [] \<and> 0 < n"
    by (auto simp: DecodeInst_def Let_def split: if_splits prod.splits dest: * intro: less_imp_le [OF *])
qed

lemma DecodeInst_pushdata:
  assumes pre: "pre = PutUvarint (word_of_int (len d) + ucast MinPushdata)"
    and bound: "len pre + len d + len rest < 2 ^ 63"
  shows "DecodeInst (pre @ d @ rest) = Inr (MinPushdata, d, len pre + len d)"
proof -
  let ?op = "word_of_int (len d) + ucast MinPushdata :: uint64"
  have d: "length d < 2 ^ 63" "length pre \<le> 10" "0 < length pre"
    using bound length_PutUvarint_le [of ?op] length_PutUvarint_pos [of ?op] pre
    by (simp_all add: len_def)
  have uop: "unat ?op = length d + 95"
    using d by (simp add: MinPushdata_def len_def unat_word_ariths unat_of_nat)
  then have big: "\<not> ?op < ucast MinPushdata"
    by (simp add: word_less_nat_alt MinPushdata_def)
  have ur: "unat (word_of_int (len pre) + (?op - ucast MinPushdata) :: uint64) = length pre + length d"
    using d by (simp add: len_def unat_word_ariths unat_of_nat)
  have "is_int64 (len pre + len d)"
  proof -
    have "len pre + len d + len rest < 9223372036854775808" using bound by simp
    then show ?thesis
      unfolding is_int64_iff using len_nonneg [of pre] len_nonneg [of d] len_nonneg [of rest]
      by (intro conjI) linarith+
  qed
  then have sr: "sint (word_of_int (len pre) + (?op - ucast MinPushdata) :: uint64) = len pre + len d"
    using sint_word_of_int64 [of "len pre + len d"] by simp
  have "length (pre @ d @ rest) < 2 ^ 63" using bound by (simp add: len_def)
  then have "unat (word_of_int (len (pre @ d @ rest)) :: uint64) = length (pre @ d @ rest)"
    unfolding len_def by (simp only: of_int_of_nat_eq unat_of_nat) simp
  then have "\<not> word_of_int (len (pre @ d @ rest)) < word_of_int (len pre) + (?op - ucast MinPushdata)"
    by (simp only: word_less_nat_alt ur) simp
  moreover have "Uvarint (pre @ d @ rest) = (?op, len pre)" "pre \<noteq> []"
    using Uvarint_PutUvarint [of ?op "d @ rest"] by (simp_all add: pre)
  ultimately show ?thesis
    using big ur sr d by (simp add: DecodeInst_def Let_def) (simp add: len_def)
qed

end
