(* ===== verification/Items.thy ===== *)
theory Items
  imports Checked Opcodes
begin

text \<open>
  Stack items of the virtual machine: \<^verbatim>\<open>item.go\<close> (plain data, their encoding as programs,
  \<^verbatim>\<open>uninspect\<close>) and \<^verbatim>\<open>entries.go\<close> (values and contracts). The Go interface \<^verbatim>\<open>Data\<close> is
  the datatype \<open>data\<close>, the interface \<^verbatim>\<open>Item\<close> the datatype \<open>item\<close>; a \<^verbatim>\<open>*contract\<close> on a
  stack is owned by that stack (no instruction copies it), so it is modelled by its value.
  A stack keeps Go's slice order: the top is the last element.

  The lemmas show that \<^verbatim>\<open>inspect\<close> and \<^verbatim>\<open>uninspect\<close> are inverse and bound the encoding.
\<close>

section \<open>Errors\<close>

datatype vmerror =
    ErrResidue | ErrRunlimit | ErrVersion | ErrStackRange | ErrRange | ErrType | ErrFields
  | ErrUnderflow | ErrIntOverflow | ErrExt | ErrInt | ErrNonEmpty | ErrUnportable | ErrPrv
  | ErrVerifyFail | ErrJump | ErrNegAmount | ErrSplit | ErrMergeAsset | ErrAnchorVal
  | ErrBitLen | ErrSliceRange | ErrUnfinalized | ErrSigSize | ErrPubSize | ErrSignature
  | ErrFinalized
  | ErrDecode decode_error
  | RuntimeError \<comment> \<open>a Go runtime panic: index out of range, nil function\<close>
  | OutOfFuel \<comment> \<open>the interpreter of the model ran out of fuel\<close>

section \<open>Plain data\<close>

datatype data = Int64 int | Bytes bytes | Tuple "data list"

definition IntCode :: byte where "IntCode = 0x5a"
definition BytesCode :: byte where "BytesCode = 0x53"
definition TupleCode :: byte where "TupleCode = 0x54"

definition writePushdata :: "bytes \<Rightarrow> bytes" where
  "writePushdata d = PutUvarint (word_of_int (len d) + ucast MinPushdata) @ d"

definition encode_Int :: "int \<Rightarrow> bytes" where
  "encode_Int i =
     (if IsSmallInt i then [MinSmallInt + word_of_int i]
      else writePushdata (PutUvarint (word_of_int i)) @ [op_Int])"

fun Encode :: "data \<Rightarrow> bytes" where
  "Encode (Int64 i) = encode_Int i"
| "Encode (Bytes b) = writePushdata b"
| "Encode (Tuple ts) = concat (map Encode ts) @ encode_Int (len ts) @ [op_Tuple]"

fun inspect_data :: "data \<Rightarrow> data list" where
  "inspect_data (Int64 i) = [Bytes [IntCode], Int64 i]"
| "inspect_data (Bytes b) = [Bytes [BytesCode], Bytes b]"
| "inspect_data (Tuple t) = [Bytes [TupleCode], Tuple t]"

section \<open>Values and contracts\<close>

definition InputCode :: byte where "InputCode = 0x49"
definition OutputCode :: byte where "OutputCode = 0x4f"
definition LogCode :: byte where "LogCode = 0x4c"
definition TimerangeCode :: byte where "TimerangeCode = 0x52"
definition NonceCode :: byte where "NonceCode = 0x4e"
definition IssueCode :: byte where "IssueCode = 0x41"
definition RetireCode :: byte where "RetireCode = 0x58"
definition FinalizeCode :: byte where "FinalizeCode = 0x46"
definition ValueCode :: byte where "ValueCode = 0x56"
definition ContractCode :: byte where "ContractCode = 0x43"
definition WrappedContractCode :: byte where "WrappedContractCode = 0x57"

lemmas typecode_defs =
  IntCode_def BytesCode_def TupleCode_def InputCode_def OutputCode_def LogCode_def
  TimerangeCode_def NonceCode_def IssueCode_def RetireCode_def FinalizeCode_def ValueCode_def
  ContractCode_def WrappedContractCode_def

record vmvalue = \<comment> \<open>the struct \<^verbatim>\<open>value\<close>\<close>
  amount :: int
  assetID :: bytes
  anchor :: bytes

datatype item = Data data | Value vmvalue | Contract contract
  and contract = MkContract (typecode: byte) (seed: bytes) (program: bytes) (stack: "item list")

definition isZero :: "vmvalue \<Rightarrow> bool" where
  "isZero v \<longleftrightarrow> amount v = 0"

fun isPortable :: "item \<Rightarrow> bool" where
  "isPortable (Data d) = True"
| "isPortable (Value v) = True"
| "isPortable (Contract c) = (typecode c = WrappedContractCode)"

fun isDroppable :: "item \<Rightarrow> bool" where
  "isDroppable (Data d) = True"
| "isDroppable (Value v) = isZero v"
| "isDroppable (Contract c) = False"

definition inspect_value :: "vmvalue \<Rightarrow> data list" where
  "inspect_value v = [Bytes [ValueCode], Int64 (amount v), Bytes (assetID v), Bytes (anchor v)]"

fun inspect :: "item \<Rightarrow> data list"
and inspect_contract :: "contract \<Rightarrow> data list" where
  "inspect (Data d) = inspect_data d"
| "inspect (Value v) = inspect_value v"
| "inspect (Contract c) = inspect_contract c"
| "inspect_contract (MkContract tc sd pr st) =
     [Bytes [tc], Bytes sd, Bytes pr] @ map (\<lambda>x. Tuple (inspect x)) st"

definition extractTypeCode :: "data list \<Rightarrow> vmerror + byte" where
  "extractTypeCode t =
     (case t of [] \<Rightarrow> Inl RuntimeError
      | Bytes [c] # _ \<Rightarrow> Inr c
      | _ \<Rightarrow> Inr 0)"

fun uninspect_value :: "data list \<Rightarrow> vmerror + vmvalue" where
  "uninspect_value [t0, t1, t2, t3] =
     (if extractTypeCode [t0, t1, t2, t3] \<noteq> Inr ValueCode then Inl ErrFields
      else case t1 of Int64 a \<Rightarrow>
        (case t2 of Bytes asset \<Rightarrow>
          (case t3 of Bytes anc \<Rightarrow> Inr \<lparr>amount = a, assetID = asset, anchor = anc\<rparr>
           | _ \<Rightarrow> Inl ErrFields)
         | _ \<Rightarrow> Inl ErrFields)
       | _ \<Rightarrow> Inl ErrFields)"
| "uninspect_value _ = Inl ErrFields"

function (sequential) uninspect :: "data list \<Rightarrow> vmerror + item"
and uninspect_contract :: "data list \<Rightarrow> vmerror + contract"
and uninspect_stack :: "data list \<Rightarrow> vmerror + item list" where
  "uninspect [] = Inl ErrFields"
| "uninspect (Bytes [code] # t) =
     (if code = IntCode then
        (case t of [] \<Rightarrow> Inl RuntimeError
         | Int64 i # _ \<Rightarrow> Inr (Data (Int64 i))
         | _ \<Rightarrow> Inl ErrFields)
      else if code = BytesCode then
        (case t of [] \<Rightarrow> Inl RuntimeError
         | Bytes b # _ \<Rightarrow> Inr (Data (Bytes b))
         | _ \<Rightarrow> Inl ErrFields)
      else if code = TupleCode then
        (case t of [] \<Rightarrow> Inl RuntimeError
         | Tuple ts # _ \<Rightarrow> Inr (Data (Tuple ts))
         | _ \<Rightarrow> Inl ErrFields)
      else if code = ValueCode then
        (case uninspect_value (Bytes [code] # t) of Inl e \<Rightarrow> Inl e | Inr v \<Rightarrow> Inr (Value v))
      else if code = ContractCode \<or> code = WrappedContractCode then
        (case uninspect_contract (Bytes [code] # t) of Inl e \<Rightarrow> Inl e | Inr c \<Rightarrow> Inr (Contract c))
      else Inl ErrFields)"
| "uninspect (t0 # t) = Inl ErrFields"
| "uninspect_contract (t0 # t1 # t2 # t) =
     (case extractTypeCode (t0 # t1 # t2 # t) of Inl e \<Rightarrow> Inl e | Inr typ \<Rightarrow>
        if \<not> (typ = ContractCode \<or> typ = WrappedContractCode) then Inl ErrFields
        else case t1 of Bytes sd \<Rightarrow>
          (case t2 of Bytes pr \<Rightarrow>
            (case uninspect_stack t of Inl e \<Rightarrow> Inl e
             | Inr st \<Rightarrow> Inr (MkContract typ sd pr st))
           | _ \<Rightarrow> Inl ErrFields)
         | _ \<Rightarrow> Inl ErrFields)"
| "uninspect_contract _ = Inl ErrFields"
| "uninspect_stack [] = Inr []"
| "uninspect_stack (Tuple sub # t) =
     (case uninspect sub of Inl e \<Rightarrow> Inl e | Inr y \<Rightarrow>
       (case uninspect_stack t of Inl e \<Rightarrow> Inl e | Inr ys \<Rightarrow> Inr (y # ys)))"
| "uninspect_stack (t0 # t) = Inl ErrFields"
  by pat_completeness auto
termination
  by (relation "measure (\<lambda>z. case z of Inl t \<Rightarrow> 2 * size_list size t + 1
        | Inr (Inl t) \<Rightarrow> 2 * size_list size t
        | Inr (Inr t) \<Rightarrow> 2 * size_list size t + 1)") auto

section \<open>Well-formed items\<close>

text \<open>
  The Go types bound every \<^verbatim>\<open>Int\<close> and every amount to an int64; a contract's type code is
  one of the two contract codes.
\<close>

fun data_ok :: "data \<Rightarrow> bool" where
  "data_ok (Int64 i) = is_int64 i"
| "data_ok (Bytes b) = True"
| "data_ok (Tuple ts) = list_all data_ok ts"

definition value_ok :: "vmvalue \<Rightarrow> bool" where
  "value_ok v \<longleftrightarrow> is_int64 (amount v)"

definition code_ok :: "byte \<Rightarrow> bool" where
  "code_ok c \<longleftrightarrow> c = ContractCode \<or> c = WrappedContractCode"

fun item_ok :: "item \<Rightarrow> bool"
and contract_ok :: "contract \<Rightarrow> bool" where
  "item_ok (Data d) = data_ok d"
| "item_ok (Value v) = value_ok v"
| "item_ok (Contract c) = contract_ok c"
| "contract_ok (MkContract tc sd pr st) = (code_ok tc \<and> list_all item_ok st)"

lemma contract_ok_sel: "contract_ok c \<longleftrightarrow> code_ok (typecode c) \<and> list_all item_ok (stack c)"
  by (cases c) simp

section \<open>Inspection round trip\<close>

lemma extractTypeCode_Bytes [simp]: "extractTypeCode (Bytes [c] # t) = Inr c"
  by (simp add: extractTypeCode_def)

lemma uninspect_value_inspect [simp]: "uninspect_value (inspect_value v) = Inr v"
  by (simp add: inspect_value_def)

lemma uninspect_inspect_data [simp]: "uninspect (inspect_data d) = Inr (Data d)"
  by (cases d) (simp_all add: typecode_defs)

lemma uninspect_inspect: "item_ok x \<Longrightarrow> uninspect (inspect x) = Inr x"
  and uninspect_inspect_contract: "contract_ok c \<Longrightarrow> uninspect_contract (inspect_contract c) = Inr c"
proof (induction x and c rule: inspect_inspect_contract.induct)
  case (2 v)
  then show ?case by (simp add: inspect_value_def typecode_defs)
next
  case (3 c)
  obtain tc sd pr st where c: "c = MkContract tc sd pr st" by (cases c)
  with 3 show ?case by (auto simp: code_ok_def typecode_defs)
next
  case (4 tc sd pr st)
  from "4.prems" "4.IH" have "\<And>x. x \<in> set st \<Longrightarrow> uninspect (inspect x) = Inr x"
    by (auto simp: list_all_iff)
  then have "uninspect_stack (map (\<lambda>x. Tuple (inspect x)) st) = Inr st"
    by (induction st) auto
  with "4.prems" show ?case by (auto simp: code_ok_def)
qed simp

lemma uninspect_value_ok: "uninspect_value t = Inr v \<Longrightarrow> list_all data_ok t \<Longrightarrow> value_ok v"
  by (induction t rule: uninspect_value.induct)
     (auto simp: value_ok_def split: if_splits data.splits)

lemma uninspect_ok: "uninspect t = Inr x \<Longrightarrow> list_all data_ok t \<Longrightarrow> item_ok x"
  and uninspect_contract_ok: "uninspect_contract t' = Inr c \<Longrightarrow> list_all data_ok t' \<Longrightarrow> contract_ok c"
  and uninspect_stack_ok: "uninspect_stack t'' = Inr st \<Longrightarrow> list_all data_ok t'' \<Longrightarrow> list_all item_ok st"
proof (induction t and t' and t'' arbitrary: x and c and st
    rule: uninspect_uninspect_contract_uninspect_stack.induct)
  case (2 code t)
  then show ?case
    by (auto split: if_splits list.splits data.splits sum.splits dest: uninspect_value_ok)
qed (auto split: if_splits data.splits sum.splits simp: code_ok_def)

lemma inspect_data_data_ok: "data_ok d \<Longrightarrow> list_all data_ok (inspect_data d)"
  by (cases d) auto

lemma inspect_ok: "item_ok x \<Longrightarrow> list_all data_ok (inspect x)"
  and inspect_contract_data_ok: "contract_ok c \<Longrightarrow> list_all data_ok (inspect_contract c)"
  by (induction x and c rule: inspect_inspect_contract.induct)
     (auto simp: inspect_value_def value_ok_def list_all_iff dest!: inspect_data_data_ok)

section \<open>Amounts held by items\<close>

text \<open>
  \<open>item_worth a x\<close> is the number of units of asset \<open>a\<close> held by \<open>x\<close>: the amount of a
  value, and everything on the stack of a contract.
\<close>

definition value_worth :: "bytes \<Rightarrow> vmvalue \<Rightarrow> int" where
  "value_worth a v = (if assetID v = a then amount v else 0)"

fun item_worth :: "bytes \<Rightarrow> item \<Rightarrow> int"
and contract_worth :: "bytes \<Rightarrow> contract \<Rightarrow> int" where
  "item_worth a (Data d) = 0"
| "item_worth a (Value v) = value_worth a v"
| "item_worth a (Contract c) = contract_worth a c"
| "contract_worth a (MkContract tc sd pr st) = sum_list (map (item_worth a) st)"

definition stack_worth :: "bytes \<Rightarrow> item list \<Rightarrow> int" where
  "stack_worth a st = sum_list (map (item_worth a) st)"

lemma stack_worth_simps [simp]:
  "stack_worth a [] = 0"
  "stack_worth a (x # xs) = item_worth a x + stack_worth a xs"
  "stack_worth a (xs @ ys) = stack_worth a xs + stack_worth a ys"
  "stack_worth a (rev xs) = stack_worth a xs"
  by (simp_all add: stack_worth_def sum_list_rev flip: rev_map)

lemma contract_worth_stack: "contract_worth a c = stack_worth a (stack c)"
  by (cases c) (simp add: stack_worth_def)

lemma stack_worth_Data [simp]: "stack_worth a (map Data ds) = 0"
  by (induction ds) auto

end
