(* ===== verification/Crypto.thy ===== *)
theory Crypto
  imports TxPrelude
begin

text \<open>
  The cryptographic primitives the protocol calls, as one record: cSHAKE128 and SHA3-256
  (\<^verbatim>\<open>crypto/sha3\<close>), SHA-256 (\<^verbatim>\<open>crypto/sha256\<close>) and Ed25519 verification
  (\<^verbatim>\<open>crypto/ed25519\<close>). Every definition that hashes or verifies takes the record as its
  first argument. \<open>VMHash\<close> is the hash of \<^verbatim>\<open>protocol/txvm/crypto.go\<close>.
\<close>

record crypto =
  CShakeSum128 :: "nat \<Rightarrow> bytes \<Rightarrow> bytes \<Rightarrow> bytes \<Rightarrow> bytes" \<comment> \<open>\<^verbatim>\<open>len(hash)\<close>, data, n, s\<close>
  Sum256 :: "bytes \<Rightarrow> bytes"
  sha256 :: "bytes \<Rightarrow> bytes"
  ed25519_Verify :: "bytes \<Rightarrow> bytes \<Rightarrow> bytes \<Rightarrow> bool" \<comment> \<open>public key, message, signature\<close>

definition VMHash :: "('z) crypto_scheme \<Rightarrow> bytes \<Rightarrow> bytes \<Rightarrow> bytes" where
  "VMHash C f x = CShakeSum128 C 32 x [] (str ''ChainVM.'' @ f)"

definition SignatureSize :: int where "SignatureSize = 64"
definition PublicKeySize :: int where "PublicKeySize = 32"

text \<open>A concrete record with digests of the documented sizes, for evaluating examples.\<close>

definition pad :: "nat \<Rightarrow> bytes \<Rightarrow> bytes" where
  "pad n x = take n (x @ replicate n 0)"

definition sample_crypto :: crypto where
  "sample_crypto = \<lparr>CShakeSum128 = (\<lambda>n x _ s. pad n (rev x @ s)), Sum256 = pad 32,
     sha256 = pad 32, ed25519_Verify = (\<lambda>pk msg sig. take 32 sig = pk)\<rparr>"

lemma length_pad [simp]: "length (pad n x) = n"
  by (simp add: pad_def)

end
