(* ===== verification/Merkle.thy ===== *)
theory Merkle
  imports Crypto
begin

text \<open>
  Merkle binary trees, \<^verbatim>\<open>protocol/merkle/merkle.go\<close>. Writing pieces to a pooled SHA3-256
  hasher and reading 32 bytes is \<open>Sum256\<close> of their concatenation.

  \<^verbatim>\<open>math.Log2\<close> of an integer below $2^{47}$ rounds down to the exact binary logarithm when it
  is converted to \<^verbatim>\<open>uint\<close>; a slice of slices cannot be that long, so the model takes the
  exact logarithm.
\<close>

fun log2floor :: "nat \<Rightarrow> nat" where
  \<comment> \<open>\<^verbatim>\<open>uint(math.Log2(float64(n)))\<close>\<close>
  "log2floor n = (if n < 2 then 0 else Suc (log2floor (n div 2)))"

declare log2floor.simps [simp del]

definition prevPowerOfTwo :: "nat \<Rightarrow> nat" where
  "prevPowerOfTwo n = (if n AND (n - 1) = 0 then n div 2 else 2 ^ log2floor n)"

definition leafPrefix :: bytes where "leafPrefix = [0x00]"
definition interiorPrefix :: bytes where "interiorPrefix = [0x01]"

lemma log2floor_bounds: "0 < n \<Longrightarrow> 2 ^ log2floor n \<le> n \<and> n < 2 * 2 ^ log2floor n"
proof (induction n rule: log2floor.induct)
  case (1 n)
  show ?case
  proof (cases "n < 2")
    case True
    with "1.prems" show ?thesis by (subst (1 2) log2floor.simps) simp
  next
    case False
    then have "2 ^ log2floor (n div 2) \<le> n div 2 \<and> n div 2 < 2 * 2 ^ log2floor (n div 2)"
      using "1.IH" by simp
    with False show ?thesis by (subst (1 2) log2floor.simps) auto
  qed
qed

text \<open>A number with \<open>n AND (n - 1) = 0\<close> is zero or a power of two.\<close>

lemma and_pred_power: "0 < n \<Longrightarrow> n AND (n - 1) = 0 \<Longrightarrow> n = 2 ^ log2floor n" for n :: nat
proof (induction n rule: log2floor.induct)
  case (1 n)
  show ?case
  proof (cases "n < 2")
    case True
    with "1.prems" show ?thesis by (subst log2floor.simps) simp
  next
    case False
    show ?thesis
    proof (cases "even n")
      case True
      then obtain m where n: "n = 2 * m" by blast
      with False have m: "0 < m" "n - 1 = 2 * (m - 1) + 1" by auto
      have "m AND (m - 1) = 0"
        using "1.prems"(2) and_nat_rec [of n "n - 1"] m n by simp
      with False m n have "m = 2 ^ log2floor m" using "1.IH" by simp
      with n False show ?thesis by (subst log2floor.simps) simp
    next
      case odd: False
      then obtain m where n: "n = 2 * m + 1" using oddE by blast
      with False have "0 < m" by simp
      have "n AND (n - 1) = 2 * m" using and_nat_rec [of n "n - 1"] n by simp
      with "1.prems"(2) \<open>0 < m\<close> show ?thesis by simp
    qed
  qed
qed

lemma prevPowerOfTwo_bounds:
  assumes "2 \<le> n"
  shows "prevPowerOfTwo n < n \<and> n \<le> 2 * prevPowerOfTwo n \<and> (\<exists>e. prevPowerOfTwo n = 2 ^ e)"
proof (cases "n AND (n - 1) = 0")
  case True
  with assms have n: "n = 2 ^ log2floor n" by (intro and_pred_power) auto
  with assms obtain e where "log2floor n = Suc e" by (cases "log2floor n") auto
  with n have "n = 2 * 2 ^ e" by simp
  with True assms show ?thesis by (auto simp: prevPowerOfTwo_def)
next
  case False
  have "n \<noteq> 2 ^ log2floor n"
  proof
    assume n: "n = 2 ^ log2floor n"
    have "n AND (n - 1) = take_bit (log2floor n) n"
      using n by (metis mask_eq_exp_minus_1 take_bit_eq_mask)
    also have "\<dots> = 0" using n by (metis take_bit_eq_mod mod_self)
    finally show False using False by simp
  qed
  with log2floor_bounds [of n] assms False show ?thesis by (auto simp: prevPowerOfTwo_def)
qed

function Root :: "('z) crypto_scheme \<Rightarrow> bytes list \<Rightarrow> bytes" where
  "Root C items =
     (if length items = 0 then Sum256 C []
      else if length items = 1 then Sum256 C (leafPrefix @ items ! 0)
      else
        let k = prevPowerOfTwo (length items);
            left = Root C (take k items);
            right = Root C (drop k items)
        in Sum256 C (interiorPrefix @ left @ right))"
  by pat_completeness auto
termination
proof (relation "measure (length \<circ> snd)", goal_cases)
  case (2 C items k)
  then have "2 \<le> length items" by linarith
  with 2 show ?case using prevPowerOfTwo_bounds [of "length items"] by auto
next
  case (3 C items k left)
  then have "2 \<le> length items" by linarith
  with 3 show ?case using prevPowerOfTwo_bounds [of "length items"] by auto
qed simp

declare Root.simps [simp del]

section \<open>The root binds the list of items\<close>

text \<open>
  \<open>hashed C items\<close> are the strings hashed in the course of computing \<open>Root C items\<close>. The
  prefixes keep leaves, interior nodes and the empty tree apart, so two lists with the same
  root are equal unless two of these strings collide.
\<close>

function hashed :: "('z) crypto_scheme \<Rightarrow> bytes list \<Rightarrow> bytes set" where
  "hashed C items =
     (if length items = 0 then {[]}
      else if length items = 1 then {leafPrefix @ items ! 0}
      else
        let k = prevPowerOfTwo (length items) in
        insert (interiorPrefix @ Root C (take k items) @ Root C (drop k items))
          (hashed C (take k items) \<union> hashed C (drop k items)))"
  by pat_completeness auto
termination
proof (relation "measure (length \<circ> snd)", goal_cases)
  case (2 C items k)
  then have "2 \<le> length items" by linarith
  with 2 show ?case using prevPowerOfTwo_bounds [of "length items"] by auto
next
  case (3 C items k)
  then have "2 \<le> length items" by linarith
  with 3 show ?case using prevPowerOfTwo_bounds [of "length items"] by auto
qed simp

declare hashed.simps [simp del]

definition preimage :: "('z) crypto_scheme \<Rightarrow> bytes list \<Rightarrow> bytes" where
  "preimage C items =
     (if length items = 0 then []
      else if length items = 1 then leafPrefix @ items ! 0
      else interiorPrefix @ Root C (take (prevPowerOfTwo (length items)) items)
        @ Root C (drop (prevPowerOfTwo (length items)) items))"

lemma Root_preimage: "Root C items = Sum256 C (preimage C items)"
  by (subst Root.simps) (simp add: preimage_def Let_def)

lemma preimage_hashed: "preimage C items \<in> hashed C items"
  by (subst hashed.simps) (simp add: preimage_def Let_def)

lemma preimage_cases:
  obtains (empty) "xs = []" "preimage C xs = []"
  | (leaf) x where "xs = [x]" "preimage C xs = leafPrefix @ x"
  | (node) l r where "xs = l @ r" "length l < length xs" "length r < length xs"
      "preimage C xs = interiorPrefix @ Root C l @ Root C r"
      "hashed C l \<subseteq> hashed C xs" "hashed C r \<subseteq> hashed C xs"
proof (cases "2 \<le> length xs")
  case True
  define k where "k = prevPowerOfTwo (length xs)"
  have "k < length xs" "0 < k"
    using prevPowerOfTwo_bounds [OF True] True by (auto simp: k_def)
  moreover have "hashed C (take k xs) \<subseteq> hashed C xs" "hashed C (drop k xs) \<subseteq> hashed C xs"
    using True by (auto simp: hashed.simps [of C xs] Let_def k_def)
  ultimately show ?thesis
    using True by (intro node [of "take k xs" "drop k xs"]) (auto simp: preimage_def k_def)
next
  case False
  then have "xs = [] \<or> (\<exists>x. xs = [x])" by (cases xs; cases "tl xs") auto
  then show ?thesis using empty leaf by (auto simp: preimage_def)
qed

lemma Root_inject:
  assumes size: "\<And>x. length (Sum256 C x) = 32"
    and inj: "inj_on (Sum256 C) (hashed C xs \<union> hashed C ys)"
    and root: "Root C xs = Root C ys"
  shows "xs = ys"
  using inj root
proof (induction xs arbitrary: ys rule: length_induct)
  case (1 xs)
  have "preimage C xs = preimage C ys"
    using inj_onD [OF "1.prems"(1)] "1.prems"(2) preimage_hashed [of C xs] preimage_hashed [of C ys]
    by (simp add: Root_preimage)
  note eq = this [unfolded leafPrefix_def interiorPrefix_def]
  show ?case
  proof (cases C xs rule: preimage_cases)
    case empty
    with eq show ?thesis by (cases C ys rule: preimage_cases) (auto simp: leafPrefix_def interiorPrefix_def)
  next
    case (leaf x)
    with eq show ?thesis by (cases C ys rule: preimage_cases) (auto simp: leafPrefix_def interiorPrefix_def)
  next
    case xs: (node l r)
    show ?thesis
    proof (cases C ys rule: preimage_cases)
      case empty
      with eq xs show ?thesis by (simp add: interiorPrefix_def)
    next
      case (leaf x)
      with eq xs show ?thesis by (simp add: leafPrefix_def interiorPrefix_def)
    next
      case ys: (node l' r')
      with eq xs have "Root C l = Root C l'" "Root C r = Root C r'"
        by (simp_all add: append_eq_append_conv Root_preimage size)
      moreover have "inj_on (Sum256 C) (hashed C l \<union> hashed C l')"
        "inj_on (Sum256 C) (hashed C r \<union> hashed C r')"
        by (rule inj_on_subset [OF "1.prems"(1)]; use xs ys in blast)+
      ultimately have "l = l'" "r = r'" using "1.IH" xs by blast+
      with xs ys show ?thesis by simp
    qed
  qed
qed

text \<open>
  C40: a transaction or block merkle root commits to the whole list of items: two lists with
  the same root are equal, provided SHA3-256 (whose digests are 32 bytes) does not collide on
  the strings hashed for these two lists.
\<close>

theorem merkle_root_binds:
  assumes "\<And>x. length (Sum256 C x) = 32"
    and "inj_on (Sum256 C) (hashed C xs \<union> hashed C ys)"
  shows "Root C xs = Root C ys \<longleftrightarrow> xs = ys"
  using Root_inject [OF assms] by blast

theorem merkle_root_binds_witness:
  "(\<forall>x. length (Sum256 sample_crypto x) = 32) \<and>
   inj_on (Sum256 sample_crypto) (hashed sample_crypto [[1]] \<union> hashed sample_crypto [[2]]) \<and>
   Root sample_crypto [[1]] \<noteq> Root sample_crypto [[2]]"
proof -
  have size: "length (Sum256 sample_crypto x) = 32" for x
    by (simp add: sample_crypto_def)
  have inj: "inj_on (Sum256 sample_crypto) (hashed sample_crypto [[1]] \<union> hashed sample_crypto [[2]])"
    unfolding hashed.simps [of sample_crypto "[[1]]"] hashed.simps [of sample_crypto "[[2]]"]
    by (simp add: leafPrefix_def sample_crypto_def) (simp add: pad_def)
  show ?thesis
    using size inj merkle_root_binds [of sample_crypto "[[1]]" "[[2]]", OF size inj] by simp
qed

text \<open>The value computed: \<open>prevPowerOfTwo n\<close> is the power of two \<open>k\<close> with \<open>k < n \<le> 2 k\<close>.\<close>

theorem prevPowerOfTwo_correct:
  "2 \<le> n \<Longrightarrow> prevPowerOfTwo n = k \<longleftrightarrow> (\<exists>e. k = 2 ^ e) \<and> k < n \<and> n \<le> 2 * k"
proof -
  assume n: "2 \<le> n"
  have "k = k'" if "k = 2 ^ e" "k' = 2 ^ e'" "k < n" "n \<le> 2 * k" "k' < n" "n \<le> 2 * k'"
    for k k' e e' :: nat
  proof -
    have "(2::nat) ^ e < 2 ^ Suc e'" "(2::nat) ^ e' < 2 ^ Suc e" using that by auto
    then have "e < Suc e'" "e' < Suc e" by (simp_all only: power_strict_increasing_iff one_less_numeral_iff semiring_norm)
    then have "e = e'" by simp
    with that show ?thesis by simp
  qed
  with prevPowerOfTwo_bounds [OF n] show ?thesis by blast
qed

theorem prevPowerOfTwo_correct_witness: "(2::nat) \<le> 6 \<and> prevPowerOfTwo 6 = 4"
proof -
  have "(\<exists>e. (4::nat) = 2 ^ e)" by (rule exI [of _ 2]) simp
  then show ?thesis using prevPowerOfTwo_correct [of 6 4] by simp
qed

end
