(* ===== verification/VMState.thy ===== *)
theory VMState
  imports Items Merkle
begin

text \<open>
  The state of the virtual machine (\<^verbatim>\<open>vm.go\<close>), the stack type (\<^verbatim>\<open>stack.go\<close>), runlimit
  charging, the transaction log (\<^verbatim>\<open>log.go\<close>), hooks (\<^verbatim>\<open>hook.go\<close>) and the accessors that
  the instructions are written with.

  \<^item> \<open>'o vm\<close> is the struct \<^verbatim>\<open>VM\<close>. Callbacks observe the machine and record what they see
    outside it; that outside state is the field \<open>obs\<close>, and a callback is a function from
    the machine to the new outside state. Callbacks get the machine through its exported,
    read-only API, so they do not change any other field.
  \<^item> \<open>'o env\<close> holds what does not change during a run: the cryptographic primitives and
    the registered callbacks.
  \<^item> An instruction is an \<open>('o, 'a) act\<close>: it maps a machine to its outcome (a panic or a
    value) and the machine at that moment.
\<close>

section \<open>State\<close>

record run =
  pc :: int
  prog :: bytes

record 'o vm =
  txVersion :: int
  runlimit :: int
  extension :: bool
  stopAfterFinalize :: bool
  argstack :: "item list"
  run :: run
  runstack :: "run list"
  unwinding :: bool
  contract :: contract
  caller :: bytes
  vdata :: bytes
  opcode :: byte
  TxID :: bytes
  Log :: "data list list"
  Finalized :: bool
  obs :: 'o

type_synonym 'o hook = "'o vm \<Rightarrow> 'o"

record 'o env = crypto +
  onFinalize :: "'o hook list"
  onLog :: "'o hook list"
  beforeStep :: "'o hook list"
  afterStep :: "'o hook list"
  onExit :: "'o hook list"

type_synonym ('o, 'a) act = "('o vm, vmerror, 'a) sm"

definition emptySeed :: bytes where "emptySeed = replicate 32 0"
definition zeroAssetID :: bytes where "zeroAssetID = replicate 32 0"

definition runHooks :: "'o hook list \<Rightarrow> 'o vm \<Rightarrow> 'o vm" where
  "runHooks hooks vm = foldl (\<lambda>v h. v\<lparr>obs := h v\<rparr>) vm hooks"

fun set_stack :: "item list \<Rightarrow> contract \<Rightarrow> contract" where
  "set_stack st (MkContract tc sd pr _) = MkContract tc sd pr st"

fun set_program :: "bytes \<Rightarrow> contract \<Rightarrow> contract" where
  "set_program pr (MkContract tc sd _ st) = MkContract tc sd pr st"

fun set_typecode :: "byte \<Rightarrow> contract \<Rightarrow> contract" where
  "set_typecode tc (MkContract _ sd pr st) = MkContract tc sd pr st"

abbreviation cstack :: "'o vm \<Rightarrow> item list" where
  "cstack vm \<equiv> stack (contract vm)"

definition put_stack :: "item list \<Rightarrow> 'o vm \<Rightarrow> 'o vm" where
  "put_stack st vm = vm\<lparr>contract := set_stack st (contract vm)\<rparr>"

lemma set_stack_sel [simp]:
  "stack (set_stack st c) = st" "typecode (set_stack st c) = typecode c"
  "seed (set_stack st c) = seed c" "program (set_stack st c) = program c"
  by (cases c; simp)+

lemma set_program_sel [simp]:
  "stack (set_program pr c) = stack c" "typecode (set_program pr c) = typecode c"
  "seed (set_program pr c) = seed c" "program (set_program pr c) = pr"
  by (cases c; simp)+

lemma set_typecode_sel [simp]:
  "stack (set_typecode tc c) = stack c" "typecode (set_typecode tc c) = tc"
  "seed (set_typecode tc c) = seed c" "program (set_typecode tc c) = program c"
  by (cases c; simp)+

lemma put_stack_sel [simp]:
  "cstack (put_stack st vm) = st" "argstack (put_stack st vm) = argstack vm"
  "runlimit (put_stack st vm) = runlimit vm" "Log (put_stack st vm) = Log vm"
  "Finalized (put_stack st vm) = Finalized vm" "unwinding (put_stack st vm) = unwinding vm"
  "run (put_stack st vm) = run vm" "runstack (put_stack st vm) = runstack vm"
  "caller (put_stack st vm) = caller vm" "TxID (put_stack st vm) = TxID vm"
  "obs (put_stack st vm) = obs vm" "txVersion (put_stack st vm) = txVersion vm"
  "extension (put_stack st vm) = extension vm"
  "stopAfterFinalize (put_stack st vm) = stopAfterFinalize vm"
  "seed (contract (put_stack st vm)) = seed (contract vm)"
  "program (contract (put_stack st vm)) = program (contract vm)"
  "typecode (contract (put_stack st vm)) = typecode (contract vm)"
  "vdata (put_stack st vm) = vdata vm" "opcode (put_stack st vm) = opcode vm"
  by (simp_all add: put_stack_def)

section \<open>Stacks\<close>

definition stack_peek :: "item list \<Rightarrow> int \<Rightarrow> item option" where
  \<comment> \<open>the index can only leave the int64 range for an \<open>n\<close> near the smallest int64, where
     it is out of range on either reading\<close>
  "stack_peek s n =
     (let index = len s - 1 - n in
      if index < 0 \<or> index \<ge> len s then None else Some (s ! nat index))"

definition stack_push :: "item list \<Rightarrow> item \<Rightarrow> item list" where
  "stack_push s v = s @ [v]"

definition stack_pop :: "item list \<Rightarrow> item option \<times> item list" where
  "stack_pop s =
     (case stack_peek s 0 of
        Some res \<Rightarrow> (Some res, take (length s - 1) s)
      | None \<Rightarrow> (None, s))"

function stack_popN :: "item list \<Rightarrow> int \<Rightarrow> item list \<times> item list" where
  \<comment> \<open>the popped items, top first, and the remaining stack\<close>
  "stack_popN s n =
     (if n > 0 \<and> len s > 0 then
        (case stack_popN (take (length s - 1) s) (n - 1) of
           (res, s') \<Rightarrow> (s ! (length s - 1) # res, s'))
      else ([], s))"
  by pat_completeness auto
termination
  by (relation "measure (length \<circ> fst)") (auto simp: len_def)

declare stack_popN.simps [simp del]

definition stack_isEmpty :: "item list \<Rightarrow> bool" where
  "stack_isEmpty s \<longleftrightarrow> len s = 0"

definition stack_roll :: "item list \<Rightarrow> int \<Rightarrow> vmerror + item list" where
  "stack_roll s n =
     (if n < 0 \<or> n \<ge> len s then Inl ErrStackRange
      else let i = nat (len s - 1 - n) in Inr (take i s @ drop (i + 1) s @ [s ! i]))"

definition stack_bury :: "item list \<Rightarrow> int \<Rightarrow> vmerror + item list" where
  "stack_bury s n =
     (if n < 0 \<or> n \<ge> len s then Inl ErrStackRange
      else
        let it = s ! (length s - 1); s' = take (length s - 1) s; i = nat (len s' - n)
        in Inr (take i s' @ [it] @ drop i s'))"

lemma stack_pop_Nil [simp]: "stack_pop [] = (None, [])"
  by (simp add: stack_pop_def stack_peek_def)

lemma stack_pop_snoc [simp]: "stack_pop (s @ [x]) = (Some x, s)"
  by (simp add: stack_pop_def stack_peek_def len_def nth_append)

lemma stack_pop_Some: "stack_pop s = (Some x, s') \<longleftrightarrow> s = s' @ [x]"
  by (cases s rule: rev_cases) auto

lemma stack_pop_None: "stack_pop s = (None, s') \<longleftrightarrow> s = [] \<and> s' = []"
  by (cases s rule: rev_cases) auto

lemma stack_peek_0: "stack_peek s 0 = Some x \<longleftrightarrow> (\<exists>s'. s = s' @ [x])"
  by (cases s rule: rev_cases) (auto simp: stack_peek_def len_def nth_append)

lemma stack_peek_in_set: "stack_peek s n = Some x \<Longrightarrow> x \<in> set s"
  by (auto simp: stack_peek_def Let_def len_def split: if_splits)

lemma stack_popN_eq: "stack_popN s n = (take (nat n) (rev s), take (length s - nat n) s)"
proof (induction s arbitrary: n rule: rev_induct)
  case Nil
  then show ?case by (simp add: stack_popN.simps)
next
  case (snoc x s)
  show ?case
  proof (cases "n > 0")
    case True
    then have "nat n = Suc (nat (n - 1))" by simp
    with True snoc [of "n - 1"] show ?thesis
      by (simp add: stack_popN.simps [of "s @ [x]"] nth_append Suc_diff_le)
  next
    case False
    then show ?thesis by (simp add: stack_popN.simps [of "s @ [x]"])
  qed
qed

lemma stack_roll_Inr:
  "stack_roll s n = Inr s' \<longleftrightarrow> (\<exists>a x b. s = a @ x # b \<and> len b = n \<and> s' = a @ b @ [x])"
proof
  assume l: "stack_roll s n = Inr s'"
  define i where "i = nat (len s - 1 - n)"
  from l have n: "0 \<le> n" "n < len s" and s': "s' = take i s @ drop (i + 1) s @ [s ! i]"
    by (auto simp: stack_roll_def Let_def i_def split: if_splits)
  from n have "i < length s" "len (drop (i + 1) s) = n" by (auto simp: i_def len_def)
  with s' show "\<exists>a x b. s = a @ x # b \<and> len b = n \<and> s' = a @ b @ [x]"
    by (metis Suc_eq_plus1 id_take_nth_drop)
next
  assume "\<exists>a x b. s = a @ x # b \<and> len b = n \<and> s' = a @ b @ [x]"
  then show "stack_roll s n = Inr s'"
    by (auto simp: stack_roll_def Let_def len_def nth_append)
qed

lemma stack_bury_Inr:
  "stack_bury s n = Inr s' \<longleftrightarrow> (\<exists>a x b. s = a @ b @ [x] \<and> len b = n \<and> s' = a @ x # b)"
proof
  assume l: "stack_bury s n = Inr s'"
  then have n: "0 \<le> n" "n < len s" by (auto simp: stack_bury_def split: if_splits)
  then obtain t x where s: "s = t @ [x]" by (cases s rule: rev_cases) auto
  define i where "i = nat (len t - n)"
  have "s' = take i t @ x # drop i t" using l n s
    by (auto simp: stack_bury_def Let_def i_def)
  moreover have "len (drop i t) = n" using n s by (auto simp: i_def len_def)
  ultimately show "\<exists>a x b. s = a @ b @ [x] \<and> len b = n \<and> s' = a @ x # b"
    using s by (metis append.assoc append_take_drop_id)
next
  assume "\<exists>a x b. s = a @ b @ [x] \<and> len b = n \<and> s' = a @ x # b"
  then show "stack_bury s n = Inr s'"
    by (auto simp: stack_bury_def Let_def len_def)
qed

section \<open>Primitive actions\<close>

definition charge :: "int \<Rightarrow> ('o, unit) act" where
  "charge n =
     andthen (modify (\<lambda>vm. vm\<lparr>runlimit := runlimit vm - n\<rparr>))
       (bind (gets runlimit) (\<lambda>r. guard (\<not> r < 0) ErrRunlimit))"

definition push :: "item \<Rightarrow> ('o, unit) act" where
  "push v = modify (\<lambda>vm. put_stack (stack_push (cstack vm) v) vm)"

definition pushBool :: "bool \<Rightarrow> ('o, unit) act" where
  "pushBool b = push (Data (Int64 (if b then 1 else 0)))"

definition pop :: "('o, item) act" where
  "pop = bind (gets (\<lambda>vm. stack_pop (cstack vm))) (\<lambda>(res, s).
     case res of
       Some x \<Rightarrow> andthen (modify (put_stack s)) (return x)
     | None \<Rightarrow> panic ErrUnderflow)"

definition popData :: "('o, data) act" where
  "popData = bind pop (\<lambda>x. case x of Data d \<Rightarrow> return d | _ \<Rightarrow> panic ErrType)"

definition popBool :: "('o, bool) act" where
  "popBool = bind popData (\<lambda>v. return (case v of Int64 n \<Rightarrow> n \<noteq> 0 | _ \<Rightarrow> True))"

definition popBytes :: "('o, bytes) act" where
  "popBytes = bind pop (\<lambda>x. case x of Data (Bytes b) \<Rightarrow> return b | _ \<Rightarrow> panic ErrType)"

definition popInt :: "('o, int) act" where
  "popInt = bind pop (\<lambda>x. case x of Data (Int64 n) \<Rightarrow> return n | _ \<Rightarrow> panic ErrType)"

definition popTuple :: "('o, data list) act" where
  "popTuple = bind pop (\<lambda>x. case x of Data (Tuple t) \<Rightarrow> return t | _ \<Rightarrow> panic ErrType)"

definition popValue :: "('o, vmvalue) act" where
  "popValue = bind pop (\<lambda>x. case x of Value v \<Rightarrow> return v | _ \<Rightarrow> panic ErrType)"

definition popZeroValue :: "('o, vmvalue) act" where
  "popZeroValue = bind popValue (\<lambda>v. andthen (guard (isZero v) ErrAnchorVal) (return v))"

definition peekNth :: "int \<Rightarrow> ('o, item) act" where
  "peekNth n = bind (gets (\<lambda>vm. stack_peek (cstack vm) n)) (\<lambda>r.
     case r of Some x \<Rightarrow> return x | None \<Rightarrow> panic ErrStackRange)"

definition peek :: "('o, item) act" where
  "peek = bind (gets (\<lambda>vm. stack_peek (cstack vm) 0)) (\<lambda>r.
     case r of Some x \<Rightarrow> return x | None \<Rightarrow> panic ErrUnderflow)"

definition peekValue :: "('o, vmvalue) act" where
  "peekValue = bind peek (\<lambda>x. case x of Value v \<Rightarrow> return v | _ \<Rightarrow> panic ErrType)"

definition chargeCopy :: "data \<Rightarrow> ('o, unit) act" where
  "chargeCopy v =
     (let (cost, ok) =
        (case v of
           Bytes b \<Rightarrow> AddInt64 1 (len b)
         | Tuple t \<Rightarrow> AddInt64 1 (len t)
         | Int64 n \<Rightarrow> (0, True))
      in andthen (guard ok ErrIntOverflow) (charge cost))"

definition chargeCreate :: "item \<Rightarrow> ('o, unit) act" where
  "chargeCreate v =
     (let (cost, ok) =
        (case v of
           Value _ \<Rightarrow> (128, True)
         | Contract _ \<Rightarrow> (128, True)
         | Data (Bytes b) \<Rightarrow> AddInt64 1 (len b)
         | Data (Tuple t) \<Rightarrow> AddInt64 1 (len t)
         | Data (Int64 n) \<Rightarrow> (0, True))
      in andthen (guard ok ErrIntOverflow) (charge cost))"

definition createValue :: "int \<Rightarrow> bytes \<Rightarrow> bytes \<Rightarrow> ('o, vmvalue) act" where
  "createValue amt aid anc =
     andthen (charge 128) (return \<lparr>amount = amt, assetID = aid, anchor = anc\<rparr>)"

definition ContractSeed :: "('z) crypto_scheme \<Rightarrow> bytes \<Rightarrow> bytes" where
  "ContractSeed C p = VMHash C (str ''ContractSeed'') p"

definition createContract :: "('z) crypto_scheme \<Rightarrow> bytes \<Rightarrow> ('o, contract) act" where
  "createContract C p =
     andthen (charge 128) (return (MkContract ContractCode (ContractSeed C p) p []))"

lemma pop_ok: "pop s = (Inr x, s') \<longleftrightarrow> (\<exists>st. cstack s = st @ [x] \<and> s' = put_stack st s)"
  by (cases "cstack s" rule: rev_cases) (auto simp: pop_def sm_simps)

lemma pop_typed_ok:
  "popData s = (Inr d, s') \<longleftrightarrow> (\<exists>st. cstack s = st @ [Data d] \<and> s' = put_stack st s)"
  "popInt s = (Inr i, s') \<longleftrightarrow> (\<exists>st. cstack s = st @ [Data (Int64 i)] \<and> s' = put_stack st s)"
  "popBytes s = (Inr b, s') \<longleftrightarrow> (\<exists>st. cstack s = st @ [Data (Bytes b)] \<and> s' = put_stack st s)"
  "popTuple s = (Inr t, s') \<longleftrightarrow> (\<exists>st. cstack s = st @ [Data (Tuple t)] \<and> s' = put_stack st s)"
  "popValue s = (Inr v, s') \<longleftrightarrow> (\<exists>st. cstack s = st @ [Value v] \<and> s' = put_stack st s)"
  unfolding popData_def popInt_def popBytes_def popTuple_def popValue_def bind_ok pop_ok
  by (auto simp: sm_okE split: item.split_asm data.split_asm)

section \<open>The transaction log\<close>

definition vmlog :: "'o env \<Rightarrow> data list \<Rightarrow> ('o, data list) act" where
  "vmlog E v = bind (gets Finalized) (\<lambda>fin.
     andthen (guard (\<not> fin) ErrFinalized)
    (andthen (chargeCreate (Data (Tuple v)))
    (andthen (modify (\<lambda>vm. vm\<lparr>Log := Log vm @ [v]\<rparr>))
    (andthen (modify (runHooks (onLog E)))
    (return v)))))"

definition NonceTuple :: "bytes \<Rightarrow> bytes \<Rightarrow> bytes \<Rightarrow> int \<Rightarrow> data list" where
  "NonceTuple callerSeed selfSeed blockID expTimeMS =
     [Bytes [NonceCode], Bytes callerSeed, Bytes selfSeed, Bytes blockID, Int64 expTimeMS]"

definition NonceHash :: "('z) crypto_scheme \<Rightarrow> data list \<Rightarrow> bytes" where
  "NonceHash C nonce = VMHash C (str ''Nonce'') (Encode (Tuple nonce))"

definition logNonce :: "'o env \<Rightarrow> bytes \<Rightarrow> int \<Rightarrow> ('o, data list) act" where
  "logNonce E blockID ex = bind (gets caller) (\<lambda>cl. bind (gets (seed \<circ> contract)) (\<lambda>sd.
     vmlog E (NonceTuple cl sd blockID ex)))"

definition logTimeRange :: "'o env \<Rightarrow> int \<Rightarrow> int \<Rightarrow> ('o, data list) act" where
  "logTimeRange E mintime maxtime = bind (gets (seed \<circ> contract)) (\<lambda>sd.
     vmlog E [Bytes [TimerangeCode], Bytes sd, Int64 mintime, Int64 maxtime])"

definition logOutput :: "'o env \<Rightarrow> bytes \<Rightarrow> ('o, data list) act" where
  "logOutput E snapshotID = bind (gets caller) (\<lambda>cl.
     vmlog E [Bytes [OutputCode], Bytes cl, Bytes snapshotID])"

definition logInput :: "'o env \<Rightarrow> bytes \<Rightarrow> ('o, data list) act" where
  "logInput E snapshotID = bind (gets (seed \<circ> contract)) (\<lambda>sd.
     vmlog E [Bytes [InputCode], Bytes sd, Bytes snapshotID])"

definition logFinalize :: "'o env \<Rightarrow> bytes \<Rightarrow> ('o, data list) act" where
  "logFinalize E anc = bind (gets (seed \<circ> contract)) (\<lambda>sd. bind (gets txVersion) (\<lambda>ver.
     vmlog E [Bytes [FinalizeCode], Bytes sd, Int64 ver, Bytes anc]))"

definition logRetirement :: "'o env \<Rightarrow> int \<Rightarrow> bytes \<Rightarrow> bytes \<Rightarrow> ('o, data list) act" where
  "logRetirement E amt aid anc = bind (gets (seed \<circ> contract)) (\<lambda>sd.
     vmlog E [Bytes [RetireCode], Bytes sd, Int64 amt, Bytes aid, Bytes anc])"

definition logIssuance :: "'o env \<Rightarrow> int \<Rightarrow> bytes \<Rightarrow> bytes \<Rightarrow> ('o, data list) act" where
  "logIssuance E amt aid anc = bind (gets caller) (\<lambda>cl.
     vmlog E [Bytes [IssueCode], Bytes cl, Int64 amt, Bytes aid, Bytes anc])"

end
