(* ===== verification/VMOps.thy ===== *)
theory VMOps
  imports VMState
begin

text \<open>
  The instructions of the virtual machine, one definition per Go function \<^verbatim>\<open>op...\<close>, in the
  order of the source files \<^verbatim>\<open>stack.go\<close>, \<^verbatim>\<open>data.go\<close>, \<^verbatim>\<open>math.go\<close>, \<^verbatim>\<open>boolean.go\<close>,
  \<^verbatim>\<open>bitwise.go\<close>, \<^verbatim>\<open>strings.go\<close>, \<^verbatim>\<open>values.go\<close>, \<^verbatim>\<open>anchors.go\<close>, \<^verbatim>\<open>crypto.go\<close>,
  \<^verbatim>\<open>log.go\<close>, \<^verbatim>\<open>tx.go\<close>, \<^verbatim>\<open>time.go\<close>, \<^verbatim>\<open>control.go\<close>, \<^verbatim>\<open>contract.go\<close>,
  \<^verbatim>\<open>introspection.go\<close> and \<^verbatim>\<open>opgen.go\<close>. The two instructions that run a nested program take
  the procedure that runs it as the argument \<open>ex\<close>; the interpreter closes the recursion.
\<close>

section \<open>Stack instructions (stack.go)\<close>

definition replace_stack :: "vmerror + item list \<Rightarrow> ('o, unit) act" where
  \<comment> \<open>\<^verbatim>\<open>if err != nil { panic(err) }\<close> after a method that replaces the stack\<close>
  "replace_stack r = (case r of Inl e \<Rightarrow> panic e | Inr s \<Rightarrow> modify (put_stack s))"

definition opRoll :: "('o, unit) act" where
  "opRoll = bind popInt (\<lambda>n.
     andthen (bind (gets cstack) (\<lambda>s. replace_stack (stack_roll s n))) (charge n))"

definition opBury :: "('o, unit) act" where
  "opBury = bind popInt (\<lambda>n.
     andthen (bind (gets cstack) (\<lambda>s. replace_stack (stack_bury s n))) (charge n))"

definition opReverse :: "('o, unit) act" where
  "opReverse = bind popInt (\<lambda>n. bind (gets cstack) (\<lambda>s.
     case stack_popN s n of (vals, s') \<Rightarrow>
       andthen (modify (put_stack s'))
      (andthen (guard (len vals = n) ErrStackRange)
      (andthen (modify (put_stack (s' @ vals)))
      (charge n)))))"

definition opDepth :: "('o, unit) act" where
  "opDepth = bind (gets argstack) (\<lambda>a. push (Data (Int64 (wrap64 (len a)))))"

definition opPeek :: "('o, unit) act" where
  "opPeek = bind popInt (\<lambda>n. bind (peekNth n) (\<lambda>x.
     case x of Data d \<Rightarrow> andthen (chargeCopy d) (push (Data d)) | _ \<Rightarrow> panic ErrType))"

section \<open>Data instructions (data.go)\<close>

definition opDup :: "('o, unit) act" where
  "opDup = bind peek (\<lambda>x.
     case x of Data d \<Rightarrow> andthen (chargeCopy d) (push (Data d)) | _ \<Rightarrow> panic ErrType)"

definition opDrop :: "('o, unit) act" where
  "opDrop = bind pop (\<lambda>x. guard (isDroppable x) ErrType)"

definition opEq :: "('o, unit) act" where
  "opEq = bind popData (\<lambda>v1. bind popData (\<lambda>v2.
     pushBool (case v1 of
         Int64 n1 \<Rightarrow> (case v2 of Int64 n2 \<Rightarrow> n1 = n2 | _ \<Rightarrow> False)
       | Bytes b1 \<Rightarrow> (case v2 of Bytes b2 \<Rightarrow> b1 = b2 | _ \<Rightarrow> False)
       | Tuple _ \<Rightarrow> False)))"

definition opLen :: "('o, unit) act" where
  "opLen = bind popData (\<lambda>d. case d of
       Bytes b \<Rightarrow> push (Data (Int64 (wrap64 (len b))))
     | Tuple t \<Rightarrow> push (Data (Int64 (wrap64 (len t))))
     | Int64 _ \<Rightarrow> panic ErrType)"

primrec popDatas :: "nat \<Rightarrow> ('o, data list) act" where
  \<comment> \<open>the loop of \<^verbatim>\<open>opTuple\<close>: the last item popped has index 0\<close>
  "popDatas 0 = return []"
| "popDatas (Suc n) = bind popData (\<lambda>v. bind (popDatas n) (\<lambda>vals. return (vals @ [v])))"

definition opTuple :: "('o, unit) act" where
  "opTuple = bind popInt (\<lambda>n. bind (gets cstack) (\<lambda>s.
     andthen (guard (\<not> (n > len s \<or> n < 0)) ErrUnderflow)
    (bind (popDatas (nat n)) (\<lambda>vals.
     andthen (chargeCreate (Data (Tuple vals)))
    (push (Data (Tuple vals)))))))"

definition opUntuple :: "('o, unit) act" where
  "opUntuple = bind popTuple (\<lambda>t.
     andthen (each (\<lambda>v. push (Data v)) t)
    (andthen (push (Data (Int64 (wrap64 (len t)))))
    (charge (len t))))"

definition opField :: "('o, unit) act" where
  "opField = bind popInt (\<lambda>n. bind popTuple (\<lambda>t.
     andthen (guard (\<not> (n < 0 \<or> n \<ge> len t)) ErrRange)
    (andthen (chargeCopy (t ! nat n))
    (push (Data (t ! nat n))))))"

definition opEncode :: "('o, unit) act" where
  "opEncode = bind popData (\<lambda>x. let s = Encode x in
     andthen (chargeCreate (Data (Bytes s))) (push (Data (Bytes s))))"

definition opInt :: "('o, unit) act" where
  "opInt = bind popBytes (\<lambda>a. case Uvarint a of (res, n) \<Rightarrow>
     andthen (guard (\<not> n \<le> 0) ErrInt) (push (Data (Int64 (sint res)))))"

section \<open>Arithmetic (math.go)\<close>

definition binOp :: "(int \<Rightarrow> int \<Rightarrow> int \<times> bool) \<Rightarrow> ('o, unit) act" where
  "binOp f = bind popInt (\<lambda>b. bind popInt (\<lambda>a. case f a b of (res, ok) \<Rightarrow>
     andthen (guard ok ErrIntOverflow) (push (Data (Int64 res)))))"

definition opAdd :: "('o, unit) act" where "opAdd = binOp AddInt64"
definition opMul :: "('o, unit) act" where "opMul = binOp MulInt64"
definition opDiv :: "('o, unit) act" where "opDiv = binOp DivInt64"
definition opMod :: "('o, unit) act" where "opMod = binOp ModInt64"

definition opNeg :: "('o, unit) act" where
  "opNeg = bind popInt (\<lambda>a. case NegateInt64 a of (res, ok) \<Rightarrow>
     andthen (guard ok ErrIntOverflow) (push (Data (Int64 res))))"

definition opGT :: "('o, unit) act" where
  "opGT = bind popInt (\<lambda>b. bind popInt (\<lambda>a. pushBool (a > b)))"

section \<open>Booleans (boolean.go)\<close>

definition opNot :: "('o, unit) act" where
  "opNot = bind popBool (\<lambda>b. pushBool (\<not> b))"

definition opAnd :: "('o, unit) act" where
  "opAnd = bind popBool (\<lambda>q. bind popBool (\<lambda>p. pushBool (p \<and> q)))"

definition opOr :: "('o, unit) act" where
  "opOr = bind popBool (\<lambda>q. bind popBool (\<lambda>p. pushBool (p \<or> q)))"

section \<open>Bitwise operations (bitwise.go)\<close>

definition opBitNot :: "('o, unit) act" where
  "opBitNot = bind popBytes (\<lambda>s. let t = map NOT s in
     andthen (chargeCreate (Data (Bytes t))) (push (Data (Bytes t))))"

definition bitOp :: "(byte \<Rightarrow> byte \<Rightarrow> byte) \<Rightarrow> ('o, unit) act" where
  "bitOp f = bind popBytes (\<lambda>b. bind popBytes (\<lambda>a.
     andthen (guard (len a = len b) ErrBitLen)
    (let c = map2 f a b in
     andthen (chargeCreate (Data (Bytes c))) (push (Data (Bytes c))))))"

definition opBitAnd :: "('o, unit) act" where "opBitAnd = bitOp (AND)"
definition opBitOr :: "('o, unit) act" where "opBitOr = bitOp (OR)"
definition opBitXor :: "('o, unit) act" where "opBitXor = bitOp (XOR)"

section \<open>Strings (strings.go)\<close>

definition opCat :: "('o, unit) act" where
  "opCat = bind popBytes (\<lambda>b. bind popBytes (\<lambda>a. let c = a @ b in
     andthen (chargeCreate (Data (Bytes c))) (push (Data (Bytes c)))))"

definition opSlice :: "('o, unit) act" where
  "opSlice = bind popInt (\<lambda>end'. bind popInt (\<lambda>start. bind popBytes (\<lambda>s.
     andthen (guard (\<not> (start < 0 \<or> end' < start \<or> end' > len s)) ErrSliceRange)
    (let s2 = take (nat end' - nat start) (drop (nat start) s) in
     andthen (chargeCreate (Data (Bytes s2))) (push (Data (Bytes s2)))))))"

section \<open>Values (values.go)\<close>

definition AssetID :: "('z) crypto_scheme \<Rightarrow> bytes \<Rightarrow> bytes \<Rightarrow> bytes" where
  "AssetID C contractSeed tag = VMHash C (str ''AssetID'') (contractSeed @ tag)"

definition opIssue :: "'o env \<Rightarrow> ('o, unit) act" where
  "opIssue E = bind popBytes (\<lambda>tag. bind popInt (\<lambda>amt.
     andthen (guard (\<not> amt < 0) ErrNegAmount)
    (bind popZeroValue (\<lambda>z. bind (gets (seed \<circ> contract)) (\<lambda>sd.
     let aid = AssetID E sd tag in
     bind (createValue amt aid (anchor z)) (\<lambda>val.
     andthen (push (Value val))
    (andthen (logIssuance E amt aid (anchor z)) (return ()))))))))"

definition opAmount :: "('o, unit) act" where
  "opAmount = bind peekValue (\<lambda>val. push (Data (Int64 (amount val))))"

definition opAssetID :: "('o, unit) act" where
  "opAssetID = bind peekValue (\<lambda>val.
     andthen (chargeCopy (Bytes (assetID val))) (push (Data (Bytes (assetID val)))))"

definition opSplit :: "'o env \<Rightarrow> ('o, unit) act" where
  "opSplit E = bind popInt (\<lambda>amt.
     andthen (guard (\<not> amt < 0) ErrNegAmount)
    (bind popValue (\<lambda>a.
     andthen (guard (\<not> amt > amount a) ErrSplit)
    (bind (createValue (amount a - amt) (assetID a) (VMHash E (str ''Split1'') (anchor a))) (\<lambda>b.
     bind (createValue amt (assetID a) (VMHash E (str ''Split2'') (anchor a))) (\<lambda>c.
     andthen (push (Value b)) (push (Value c))))))))"

definition opMerge :: "'o env \<Rightarrow> ('o, unit) act" where
  "opMerge E = bind popValue (\<lambda>a. bind popValue (\<lambda>b.
     andthen (guard (assetID a = assetID b) ErrMergeAsset)
    (case AddInt64 (amount a) (amount b) of (amt, ok) \<Rightarrow>
     andthen (guard ok ErrIntOverflow)
    (bind (createValue amt (assetID a) (VMHash E (str ''Merge'') (anchor a @ anchor b))) (\<lambda>val.
     push (Value val))))))"

definition opRetire :: "'o env \<Rightarrow> ('o, unit) act" where
  "opRetire E = bind popValue (\<lambda>val.
     andthen (logRetirement E (amount val) (assetID val) (anchor val)) (return ()))"

section \<open>Anchors (anchors.go)\<close>

definition opNonce :: "'o env \<Rightarrow> ('o, unit) act" where
  "opNonce E = bind popInt (\<lambda>ex. bind popBytes (\<lambda>blockid.
     bind (logNonce E blockid ex) (\<lambda>nonce.
     andthen (logTimeRange E 0 ex)
    (bind (createValue 0 zeroAssetID (NonceHash E nonce)) (\<lambda>a.
     push (Value a))))))"

definition opAnchor :: "('o, unit) act" where
  "opAnchor = bind peekValue (\<lambda>v.
     andthen (chargeCopy (Bytes (anchor v))) (push (Data (Bytes (anchor v)))))"

section \<open>Cryptography (crypto.go)\<close>

definition pushHash :: "bytes \<Rightarrow> ('o, unit) act" where
  "pushHash h = andthen (chargeCreate (Data (Bytes h))) (push (Data (Bytes h)))"

definition opVMHash :: "'o env \<Rightarrow> ('o, unit) act" where
  "opVMHash E = bind popBytes (\<lambda>f. bind popBytes (\<lambda>x. pushHash (VMHash E f x)))"

definition opSHA256 :: "'o env \<Rightarrow> ('o, unit) act" where
  "opSHA256 E = bind popBytes (\<lambda>a. pushHash (sha256 E a))"

definition opSHA3 :: "'o env \<Rightarrow> ('o, unit) act" where
  "opSHA3 E = bind popBytes (\<lambda>a. pushHash (Sum256 E a))"

definition checkEd25519 :: "'o env \<Rightarrow> bytes \<Rightarrow> bytes \<Rightarrow> bytes \<Rightarrow> ('o, unit) act" where
  "checkEd25519 E msg pubkey sig =
     andthen (guard (len sig = SignatureSize) ErrSigSize)
    (andthen (guard (len pubkey = PublicKeySize) ErrPubSize)
    (guard (ed25519_Verify E pubkey msg sig) ErrSignature))"

definition opCheckSig :: "'o env \<Rightarrow> ('o, unit) act" where
  "opCheckSig E = bind popData (\<lambda>scheme. bind popBytes (\<lambda>sig. bind popBytes (\<lambda>pubkey.
     bind popBytes (\<lambda>msg.
     if len sig = 0 then pushBool False
     else
       andthen (charge 2048)
      (andthen (if scheme = Int64 0 then checkEd25519 E msg pubkey sig
                else bind (gets extension) (\<lambda>ext. guard ext ErrExt))
      (pushBool True))))))"

section \<open>The log (log.go), transactions (tx.go) and time (time.go)\<close>

definition opLog :: "'o env \<Rightarrow> ('o, unit) act" where
  "opLog E = bind popData (\<lambda>d. bind (gets (seed \<circ> contract)) (\<lambda>sd.
     andthen (vmlog E [Bytes [LogCode], Bytes sd, d]) (return ())))"

definition opPeekLog :: "('o, unit) act" where
  "opPeekLog = bind popInt (\<lambda>i. bind (gets Log) (\<lambda>l.
     andthen (guard (\<not> (i < 0 \<or> i \<ge> len l)) ErrRange)
    (andthen (chargeCopy (Tuple (l ! nat i)))
    (push (Data (Tuple (l ! nat i)))))))"

definition opFinalize :: "'o env \<Rightarrow> ('o, unit) act" where
  "opFinalize E = bind popZeroValue (\<lambda>z.
     andthen (logFinalize E (anchor z))
    (andthen (modify (\<lambda>vm. vm\<lparr>Finalized := True\<rparr>))
    (andthen (modify (\<lambda>vm. vm\<lparr>TxID := Root E (map (\<lambda>t. Encode (Tuple t)) (Log vm))\<rparr>))
    (modify (runHooks (onFinalize E))))))"

definition opTxID :: "('o, unit) act" where
  "opTxID = bind (gets Finalized) (\<lambda>fin.
     andthen (guard fin ErrUnfinalized)
    (bind (gets TxID) (\<lambda>i. andthen (chargeCopy (Bytes i)) (push (Data (Bytes i))))))"

definition opTimeRange :: "'o env \<Rightarrow> ('o, unit) act" where
  "opTimeRange E = bind popInt (\<lambda>mx. bind popInt (\<lambda>mn.
     andthen (logTimeRange E mn mx) (return ())))"

section \<open>Control flow (control.go)\<close>

definition opVerify :: "('o, unit) act" where
  "opVerify = bind popBool (\<lambda>b. guard b ErrVerifyFail)"

definition opJumpIf :: "('o, unit) act" where
  "opJumpIf = bind popInt (\<lambda>offset. bind popBool (\<lambda>cond.
     if \<not> cond then return ()
     else bind (gets run) (\<lambda>r. case AddInt64 (pc r) offset of (dest, ok) \<Rightarrow>
       andthen (guard ok ErrIntOverflow)
      (andthen (guard (\<not> (dest < 0 \<or> dest > len (prog r))) ErrJump)
      (modify (\<lambda>vm. vm\<lparr>run := (run vm)\<lparr>pc := dest\<rparr>\<rparr>))))))"

definition opExec :: "(bytes \<Rightarrow> ('o, unit) act) \<Rightarrow> ('o, unit) act" where
  "opExec ex = bind popBytes ex"

section \<open>Contracts (contract.go)\<close>

definition contractSnapshot :: "('z) crypto_scheme \<Rightarrow> data list \<Rightarrow> bytes \<times> bytes" where
  "contractSnapshot C t =
     (let encoded = Encode (Tuple t) in (encoded, VMHash C (str ''SnapshotID'') encoded))"

definition snapshot :: "('z) crypto_scheme \<Rightarrow> contract \<Rightarrow> bytes \<times> bytes" where
  "snapshot C con = contractSnapshot C (inspect_contract con)"

definition stackPortable :: "item list \<Rightarrow> bool" where
  "stackPortable s = list_all isPortable s"

definition opContract :: "'o env \<Rightarrow> ('o, unit) act" where
  "opContract E = bind popBytes (\<lambda>p. bind (createContract E p) (\<lambda>con. push (Contract con)))"

definition opCall :: "(bytes \<Rightarrow> ('o, unit) act) \<Rightarrow> ('o, unit) act" where
  "opCall ex = bind pop (\<lambda>it. case it of
      Contract con0 \<Rightarrow>
       (let con = set_typecode ContractCode con0 in
        bind (gets contract) (\<lambda>prevContract. bind (gets caller) (\<lambda>prevCaller.
        andthen (modify (\<lambda>vm. vm\<lparr>caller := seed (contract vm)\<rparr>))
       (andthen (modify (\<lambda>vm. vm\<lparr>contract := con\<rparr>))
       (andthen (ex (program con))
       (bind (gets (\<lambda>vm. \<not> unwinding vm \<and> len (cstack vm) > 0)) (\<lambda>residue.
        andthen (guard (\<not> residue) ErrNonEmpty)
       (modify (\<lambda>vm. vm\<lparr>unwinding := False, contract := prevContract, caller := prevCaller\<rparr>)))))))))
    | _ \<Rightarrow> panic ErrType)"

definition opOutput :: "'o env \<Rightarrow> ('o, unit) act" where
  "opOutput E = bind (gets cstack) (\<lambda>s.
     andthen (guard (stackPortable s) ErrUnportable)
    (bind popBytes (\<lambda>p.
     andthen (modify (\<lambda>vm. vm\<lparr>contract := set_program p (contract vm)\<rparr>))
    (bind (gets (\<lambda>vm. snapshot E (contract vm))) (\<lambda>(snap, snapshotID).
     andthen (chargeCreate (Data (Bytes snap)))
    (andthen (logOutput E snapshotID)
    (modify (\<lambda>vm. vm\<lparr>unwinding := True\<rparr>))))))))"

definition opInput :: "'o env \<Rightarrow> ('o, unit) act" where
  "opInput E = bind popTuple (\<lambda>t. let snapshotID = snd (contractSnapshot E t) in
     case uninspect_contract t of
       Inl e \<Rightarrow> panic e
     | Inr con \<Rightarrow>
         andthen (chargeCreate (Contract con))
        (andthen (push (Contract con))
        (andthen (logInput E snapshotID) (return ()))))"

definition opYield :: "('o, unit) act" where
  "opYield = bind popBytes (\<lambda>p.
     andthen (modify (\<lambda>vm. vm\<lparr>contract := set_program p (contract vm)\<rparr>))
    (andthen (modify (\<lambda>vm. vm\<lparr>argstack := stack_push (argstack vm) (Contract (contract vm))\<rparr>))
    (modify (\<lambda>vm. vm\<lparr>unwinding := True\<rparr>))))"

definition opWrap :: "('o, unit) act" where
  "opWrap = bind (gets cstack) (\<lambda>s.
     andthen (guard (stackPortable s) ErrUnportable)
    (bind popBytes (\<lambda>p.
     andthen (modify (\<lambda>vm. vm\<lparr>contract := set_typecode WrappedContractCode (contract vm)\<rparr>))
    (andthen (modify (\<lambda>vm. vm\<lparr>contract := set_program p (contract vm)\<rparr>))
    (andthen (modify (\<lambda>vm. vm\<lparr>argstack := stack_push (argstack vm) (Contract (contract vm))\<rparr>))
    (modify (\<lambda>vm. vm\<lparr>unwinding := True\<rparr>)))))))"

definition opContractProgram :: "('o, unit) act" where
  "opContractProgram = bind (gets (program \<circ> contract)) (\<lambda>p.
     andthen (chargeCopy (Bytes p)) (push (Data (Bytes p))))"

definition opSelf :: "('o, unit) act" where
  "opSelf = bind (gets (seed \<circ> contract)) (\<lambda>s.
     andthen (chargeCopy (Bytes s)) (push (Data (Bytes s))))"

definition opSeed :: "('o, unit) act" where
  "opSeed = bind peek (\<lambda>x. case x of
      Contract c \<Rightarrow> andthen (chargeCopy (Bytes (seed c))) (push (Data (Bytes (seed c))))
    | _ \<Rightarrow> panic ErrType)"

definition opCaller :: "('o, unit) act" where
  "opCaller = bind (gets caller) (\<lambda>s.
     andthen (chargeCopy (Bytes s)) (push (Data (Bytes s))))"

definition opGet :: "('o, unit) act" where
  "opGet = bind (gets (\<lambda>vm. stack_pop (argstack vm))) (\<lambda>(res, s).
     case res of
       Some x \<Rightarrow> andthen (modify (\<lambda>vm. vm\<lparr>argstack := s\<rparr>)) (push x)
     | None \<Rightarrow> panic ErrUnderflow)"

definition opPut :: "('o, unit) act" where
  "opPut = bind pop (\<lambda>x. modify (\<lambda>vm. vm\<lparr>argstack := stack_push (argstack vm) x\<rparr>))"

definition opExt :: "('o, unit) act" where
  "opExt = bind (gets extension) (\<lambda>ext.
     andthen (guard ext ErrExt) (bind popData (\<lambda>_. return ())))"

definition opPrv :: "('o, unit) act" where
  "opPrv = panic ErrPrv"

section \<open>Introspection (introspection.go)\<close>

definition Version :: "'o vm \<Rightarrow> int" where "Version vm = txVersion vm"
definition Runlimit :: "'o vm \<Rightarrow> int" where "Runlimit vm = runlimit vm"
definition OpCode :: "'o vm \<Rightarrow> byte" where "OpCode vm = opcode vm"
definition StackLen :: "'o vm \<Rightarrow> int" where "StackLen vm = len (cstack vm)"
definition Seed :: "'o vm \<Rightarrow> bytes" where "Seed vm = seed (contract vm)"

definition StackItem :: "'o vm \<Rightarrow> int \<Rightarrow> data option" where
  \<comment> \<open>\<open>None\<close> is an index panic\<close>
  "StackItem vm i =
     (if 0 \<le> i \<and> i < len (cstack vm) then Some (Tuple (inspect (cstack vm ! nat i))) else None)"

section \<open>Dispatch (opgen.go)\<close>

definition opTable :: "'o env \<Rightarrow> (bytes \<Rightarrow> ('o, unit) act) \<Rightarrow> (byte \<times> ('o, unit) act) list" where
  "opTable E ex =
     [(op_Int, opInt), (op_Add, opAdd), (op_Neg, opNeg), (op_Mul, opMul), (op_Div, opDiv),
      (op_Mod, opMod), (op_GT, opGT), (op_Not, opNot), (op_And, opAnd), (op_Or, opOr),
      (op_Roll, opRoll), (op_Bury, opBury), (op_Reverse, opReverse), (op_Get, opGet),
      (op_Put, opPut), (op_Depth, opDepth), (op_Nonce, opNonce E), (op_Merge, opMerge E),
      (op_Split, opSplit E), (op_Issue, opIssue E), (op_Retire, opRetire E),
      (op_Amount, opAmount), (op_AssetID, opAssetID), (op_Anchor, opAnchor),
      (op_VMHash, opVMHash E), (op_SHA256, opSHA256 E), (op_SHA3, opSHA3 E),
      (op_CheckSig, opCheckSig E), (op_Log, opLog E), (op_PeekLog, opPeekLog),
      (op_TxID, opTxID), (op_Finalize, opFinalize E), (op_Verify, opVerify),
      (op_JumpIf, opJumpIf), (op_Exec, opExec ex), (op_Call, opCall ex), (op_Yield, opYield),
      (op_Wrap, opWrap), (op_Input, opInput E), (op_Output, opOutput E),
      (op_Contract, opContract E), (op_Seed, opSeed), (op_Self, opSelf), (op_Caller, opCaller),
      (op_ContractProgram, opContractProgram), (op_TimeRange, opTimeRange E), (op_Prv, opPrv),
      (op_Ext, opExt), (op_Eq, opEq), (op_Dup, opDup), (op_Drop, opDrop), (op_Peek, opPeek),
      (op_Tuple, opTuple), (op_Untuple, opUntuple), (op_Len, opLen), (op_Field, opField),
      (op_Encode, opEncode), (op_Cat, opCat), (op_Slice, opSlice), (op_BitNot, opBitNot),
      (op_BitAnd, opBitAnd), (op_BitOr, opBitOr), (op_BitXor, opBitXor)]"

definition opFuncs :: "'o env \<Rightarrow> (bytes \<Rightarrow> ('o, unit) act) \<Rightarrow> byte \<Rightarrow> ('o, unit) act" where
  \<comment> \<open>a slot that is not set is a nil function\<close>
  "opFuncs E ex opc =
     (case map_of (opTable E ex) opc of Some f \<Rightarrow> f | None \<Rightarrow> panic RuntimeError)"

lemma opFuncs_code [code]:
  \<comment> \<open>the same dispatch as a chain of tests, for evaluation\<close>
  "opFuncs E ex opc =
    (if opc = op_Int then opInt else if opc = op_Add then opAdd else if opc = op_Neg then opNeg else
     if opc = op_Mul then opMul else if opc = op_Div then opDiv else if opc = op_Mod then opMod else
     if opc = op_GT then opGT else if opc = op_Not then opNot else if opc = op_And then opAnd else
     if opc = op_Or then opOr else if opc = op_Roll then opRoll else if opc = op_Bury then opBury else
     if opc = op_Reverse then opReverse else if opc = op_Get then opGet else if opc = op_Put then opPut else
     if opc = op_Depth then opDepth else if opc = op_Nonce then opNonce E else if opc = op_Merge then opMerge E else
     if opc = op_Split then opSplit E else if opc = op_Issue then opIssue E else if opc = op_Retire then opRetire E else
     if opc = op_Amount then opAmount else if opc = op_AssetID then opAssetID else if opc = op_Anchor then opAnchor else
     if opc = op_VMHash then opVMHash E else if opc = op_SHA256 then opSHA256 E else if opc = op_SHA3 then opSHA3 E else
     if opc = op_CheckSig then opCheckSig E else if opc = op_Log then opLog E else
     if opc = op_PeekLog then opPeekLog else if opc = op_TxID then opTxID else
     if opc = op_Finalize then opFinalize E else if opc = op_Verify then opVerify else
     if opc = op_JumpIf then opJumpIf else if opc = op_Exec then opExec ex else if opc = op_Call then opCall ex else
     if opc = op_Yield then opYield else if opc = op_Wrap then opWrap else if opc = op_Input then opInput E else
     if opc = op_Output then opOutput E else if opc = op_Contract then opContract E else
     if opc = op_Seed then opSeed else if opc = op_Self then opSelf else if opc = op_Caller then opCaller else
     if opc = op_ContractProgram then opContractProgram else if opc = op_TimeRange then opTimeRange E else
     if opc = op_Prv then opPrv else if opc = op_Ext then opExt else if opc = op_Eq then opEq else
     if opc = op_Dup then opDup else if opc = op_Drop then opDrop else if opc = op_Peek then opPeek else
     if opc = op_Tuple then opTuple else if opc = op_Untuple then opUntuple else if opc = op_Len then opLen else
     if opc = op_Field then opField else if opc = op_Encode then opEncode else if opc = op_Cat then opCat else
     if opc = op_Slice then opSlice else if opc = op_BitNot then opBitNot else if opc = op_BitAnd then opBitAnd else
     if opc = op_BitOr then opBitOr else if opc = op_BitXor then opBitXor else panic RuntimeError)"
  by (simp add: opFuncs_def opTable_def)

end
