(* ===== verification/VMExec.thy ===== *)
theory VMExec
  imports VMOps
begin

text \<open>
  The interpreter (\<^verbatim>\<open>vm.go\<close>) and its options (\<^verbatim>\<open>option.go\<close>). Go's \<^verbatim>\<open>exec\<close> is recursive
  through \<^verbatim>\<open>step\<close>, \<^verbatim>\<open>opExec\<close> and \<^verbatim>\<open>opCall\<close>; here its loop takes fuel, one unit per
  instruction, and running out is the error \<open>OutOfFuel\<close>. Every instruction costs at least one
  unit of runlimit, so \<open>Suc (nat runlimit)\<close> units of fuel always suffice: see theory VMSafety.
\<close>

section \<open>Executing programs\<close>

definition step :: "'o env \<Rightarrow> (bytes \<Rightarrow> ('o, unit) act) \<Rightarrow> ('o, unit) act" where
  "step E ex = bind (gets run) (\<lambda>r.
     case DecodeInst (drop (nat (pc r)) (prog r)) of
       Inl err \<Rightarrow> panic (ErrDecode err)
     | Inr (opc, d, n) \<Rightarrow>
         andthen (modify (\<lambda>vm. vm\<lparr>opcode := opc, vdata := d\<rparr>))
        (andthen (modify (runHooks (beforeStep E)))
        (andthen (charge 1)
        (andthen (modify (\<lambda>vm. vm\<lparr>run := (run vm)\<lparr>pc := pc (run vm) + n\<rparr>\<rparr>))
        (andthen
          (if IsSmallIntOp opc then push (Data (Int64 (uint (opc - MinSmallInt))))
           else if IsPushdataOp opc then
             andthen (chargeCreate (Data (Bytes d))) (push (Data (Bytes d)))
           else opFuncs E ex opc)
        (modify (runHooks (afterStep E))))))))"

definition exec_with :: "('o, unit) act \<Rightarrow> bytes \<Rightarrow> ('o, unit) act" where
  \<comment> \<open>\<^verbatim>\<open>exec\<close> around its loop \<open>body\<close>; the deferred function runs on every outcome\<close>
  "exec_with body p = (\<lambda>vm.
     let nested = len (prog (run vm)) > 0;
         vm1 = (if nested then vm\<lparr>runstack := runstack vm @ [run vm]\<rparr> else vm);
         (res, vm2) = body (vm1\<lparr>run := \<lparr>pc = 0, prog = p\<rparr>\<rparr>)
     in (res,
         if nested then
           vm2\<lparr>run := runstack vm2 ! (length (runstack vm2) - 1),
               runstack := take (length (runstack vm2) - 1) (runstack vm2)\<rparr>
         else vm2))"

primrec loop :: "'o env \<Rightarrow> nat \<Rightarrow> ('o, unit) act" where
  "loop E 0 = panic OutOfFuel"
| "loop E (Suc fuel) =
     bind (gets (\<lambda>vm. pc (run vm) < len (prog (run vm)))) (\<lambda>more.
     if \<not> more then return ()
     else bind (gets unwinding) (\<lambda>u.
       if u then return ()
       else andthen (step E (exec_with (loop E fuel)))
         (bind (gets (\<lambda>vm. Finalized vm \<and> stopAfterFinalize vm)) (\<lambda>stop.
          if stop then return () else loop E fuel))))"

definition exec :: "'o env \<Rightarrow> nat \<Rightarrow> bytes \<Rightarrow> ('o, unit) act" where
  "exec E fuel p = exec_with (loop E fuel) p"

definition validate :: "'o env \<Rightarrow> nat \<Rightarrow> bytes \<Rightarrow> ('o, unit) act" where
  "validate E fuel txprog = bind (gets runlimit) (\<lambda>r.
     andthen (guard (\<not> len txprog > r) ErrRunlimit)
    (andthen (exec E fuel txprog)
    (bind (gets (\<lambda>vm. \<not> stopAfterFinalize vm \<and>
        (\<not> stack_isEmpty (cstack vm) \<or> \<not> stack_isEmpty (argstack vm)))) (\<lambda>residue.
     guard (\<not> residue) ErrResidue))))"

section \<open>Options\<close>

datatype 'o Option =
    OnLog "'o hook list"
  | OnFinalize "'o hook list"
  | BeforeStep "'o hook list"
  | AfterStep "'o hook list"
  | StopAfterFinalize
  | EnableExtension
  | GetRunlimit "int \<Rightarrow> 'o \<Rightarrow> 'o" \<comment> \<open>how the caller's variable is assigned\<close>

fun apply_Option :: "'o Option \<Rightarrow> 'o env \<times> 'o vm \<Rightarrow> 'o env \<times> 'o vm" where
  "apply_Option (OnLog h) (E, vm) = (E\<lparr>onLog := onLog E @ h\<rparr>, vm)"
| "apply_Option (OnFinalize h) (E, vm) = (E\<lparr>onFinalize := onFinalize E @ h\<rparr>, vm)"
| "apply_Option (BeforeStep h) (E, vm) = (E\<lparr>beforeStep := beforeStep E @ h\<rparr>, vm)"
| "apply_Option (AfterStep h) (E, vm) = (E\<lparr>afterStep := afterStep E @ h\<rparr>, vm)"
| "apply_Option StopAfterFinalize (E, vm) = (E, vm\<lparr>stopAfterFinalize := True\<rparr>)"
| "apply_Option EnableExtension (E, vm) = (E, vm\<lparr>extension := True\<rparr>)"
| "apply_Option (GetRunlimit assign) (E, vm) =
     (E\<lparr>onExit := onExit E @ [\<lambda>v. assign (runlimit v) (obs v)]\<rparr>, vm)"

definition init_env :: "crypto \<Rightarrow> 'o env" where
  "init_env C = crypto.extend C
     \<lparr>onFinalize = [], onLog = [], beforeStep = [], afterStep = [], onExit = []\<rparr>"

definition init_vm :: "'o \<Rightarrow> bytes \<Rightarrow> int \<Rightarrow> int \<Rightarrow> 'o vm" where
  "init_vm w p version limit =
     \<lparr>txVersion = version, runlimit = limit, extension = False, stopAfterFinalize = False,
      argstack = [], run = \<lparr>pc = 0, prog = []\<rparr>, runstack = [], unwinding = False,
      contract = MkContract ContractCode emptySeed p [], caller = emptySeed, vdata = [],
      opcode = 0, TxID = replicate 32 0, Log = [], Finalized = False, obs = w\<rparr>"

definition vm_fuel :: "'o vm \<Rightarrow> nat" where
  "vm_fuel vm = Suc (nat (runlimit vm))"

definition Validate ::
  "crypto \<Rightarrow> 'o \<Rightarrow> bytes \<Rightarrow> int \<Rightarrow> int \<Rightarrow> 'o Option list \<Rightarrow> 'o vm option \<times> vmerror option" where
  \<comment> \<open>the machine (nil for a bad version) and the error (nil on success)\<close>
  "Validate C w p version limit opts =
     (if version < 3 then (None, Some ErrVersion)
      else case fold apply_Option opts (init_env C, init_vm w p version limit) of (E, vm) \<Rightarrow>
        (case validate E (vm_fuel vm) p vm of (res, vm') \<Rightarrow>
           (Some (runHooks (onExit E) vm'),
            case res of Inl e \<Rightarrow> Some e | Inr _ \<Rightarrow> None)))"

section \<open>Relations every execution respects\<close>

text \<open>
  The interface of a fact about whole executions: a preorder on machines that every
  primitive state change respects is respected by every instruction, by every step and by
  every execution, whatever its outcome.
\<close>

lemma runHooks_obs: "\<exists>w. runHooks hs vm = vm\<lparr>obs := w\<rparr>"
proof (induction hs arbitrary: vm)
  case Nil
  then show ?case by (simp add: runHooks_def) (metis vm.surjective vm.update_convs(16))
next
  case (Cons h hs)
  from Cons.IH [of "vm\<lparr>obs := h vm\<rparr>"] show ?case by (simp add: runHooks_def)
qed

lemma wrap64_shift: "\<exists>q. wrap64 x = x - 18446744073709551616 * q"
proof
  show "wrap64 x = x - 18446744073709551616 * ((x + 9223372036854775808) div 18446744073709551616)"
    by (simp add: wrap_def minus_mult_div_eq_mod [symmetric])
qed

lemma AddInt64_one_nonneg:
  assumes n: "0 \<le> n" and res: "AddInt64 1 n = (c, True)"
  shows "0 \<le> c"
proof (cases "n = 0")
  case True
  with res show ?thesis by (auto simp: AddInt64_def AddInt_def wrap_def)
next
  case False
  define w where "w = wrap64 (9223372036854775807 - n)"
  from False n res have c: "c = wrap64 (1 + n)" and le: "1 \<le> w"
    by (auto simp: AddInt64_def AddInt_def maxInt_def w_def split: if_splits)
  obtain q where q: "c = 1 + n - 18446744073709551616 * q"
    using wrap64_shift [of "1 + n"] c by auto
  obtain q' where q': "w = 9223372036854775807 - n - 18446744073709551616 * q'"
    using wrap64_shift unfolding w_def by blast
  have b: "- 9223372036854775808 \<le> c" "w < 9223372036854775808"
    using wrap64_range [of "1 + n"] wrap64_range [of "9223372036854775807 - n"] c
    by (simp_all add: is_int64_iff w_def)
  define k where "k = q + q'"
  from q q' have k: "c = 9223372036854775808 - w - 18446744073709551616 * k"
    by (simp add: k_def algebra_simps)
  with b le have "18446744073709551616 * k < 18446744073709551616 * 1" by linarith
  then have "k \<le> 0" by simp
  with k b show ?thesis by linarith
qed

text \<open>Charging for data either overflows or charges a cost that is not negative.\<close>

lemma charge_for_cases:
  assumes "0 \<le> n"
  obtains (cost) c where "0 \<le> c" "AddInt64 1 n = (c, True)"
  | (overflow) c where "AddInt64 1 n = (c, False)"
  using AddInt64_one_nonneg [OF assms] by (cases "AddInt64 1 n") (metis (full_types))

lemma charge_runlimit: "charge n s = (r, s') \<Longrightarrow> \<exists>l. s' = s\<lparr>runlimit := l\<rparr>"
  by (auto simp: charge_def sm_simps)

lemma chargeCopy_runlimit: "chargeCopy v s = (r, s') \<Longrightarrow> \<exists>l. s' = s\<lparr>runlimit := l\<rparr>"
  using vm.surjective [of s] charge_runlimit [of _ s r s']
  by (auto simp: chargeCopy_def Let_def guard_def andthen_def bind_def return_def panic_def
    split: prod.splits if_splits intro: exI [of _ "runlimit s"])

lemma chargeCreate_runlimit: "chargeCreate v s = (r, s') \<Longrightarrow> \<exists>l. s' = s\<lparr>runlimit := l\<rparr>"
  using vm.surjective [of s] charge_runlimit [of _ s r s']
  by (auto simp: chargeCreate_def Let_def guard_def andthen_def bind_def return_def panic_def
    split: prod.splits if_splits intro: exI [of _ "runlimit s"])

lemma logFinalize_Finalized:
  assumes "logFinalize E b s = (Inr x, s')"
  shows "\<not> Finalized s'"
proof -
  obtain v where log: "vmlog E v s = (Inr x, s')"
    using assms by (auto simp: logFinalize_def sm_okE)
  obtain s1 where "\<not> Finalized s" and c: "chargeCreate (Data (Tuple v)) s = (Inr (), s1)"
    and s': "s' = runHooks (onLog E) (s1\<lparr>Log := Log s1 @ [v]\<rparr>)"
    using log by (auto simp: vmlog_def sm_okE)
  with chargeCreate_runlimit [OF c] runHooks_obs [of "onLog E" "s1\<lparr>Log := Log s1 @ [v]\<rparr>"]
  show ?thesis by auto
qed

locale vm_relation = run_preorder R for R :: "'o vm \<Rightarrow> 'o vm \<Rightarrow> bool" +
  fixes E :: "'o env"
  assumes R_stack: "R vm (put_stack s vm)"
    and R_charge: "0 \<le> n \<Longrightarrow> R vm (vm\<lparr>runlimit := runlimit vm - n\<rparr>)"
    and R_argstack: "R vm (vm\<lparr>argstack := s\<rparr>)"
    and R_contract: "R vm (vm\<lparr>contract := c\<rparr>)"
    and R_caller: "R vm (vm\<lparr>caller := b\<rparr>)"
    and R_unwinding: "R vm (vm\<lparr>unwinding := u\<rparr>)"
    and R_pc: "R vm (vm\<lparr>run := (run vm)\<lparr>pc := i\<rparr>\<rparr>)"
    and R_inst: "R vm (vm\<lparr>opcode := opc, vdata := d\<rparr>)"
    and R_obs: "R vm (vm\<lparr>obs := w\<rparr>)"
    and R_log: "\<not> Finalized vm \<Longrightarrow> R vm (vm\<lparr>Log := Log vm @ [t]\<rparr>)"
    and R_finalize: "\<not> Finalized vm \<Longrightarrow> 
      R vm (vm\<lparr>Finalized := True, TxID := Root E (map (\<lambda>t. Encode (Tuple t)) (Log vm))\<rparr>)"
    and R_exec: "stays R (loop E fuel) \<Longrightarrow> stays R (exec_with (loop E fuel) p)"
begin

lemma stays_modify: "(\<And>vm. R vm (f vm)) \<Longrightarrow> stays R (modify f)"
  by (simp add: stays_def sm_simps)

lemma stays_charge: "0 \<le> n \<Longrightarrow> stays R (charge n)"
  unfolding charge_def by (intro stays_intros stays_modify R_charge)

lemma stays_hooks: "stays R (modify (runHooks hs))"
proof (rule stays_modify)
  fix vm
  show "R vm (runHooks hs vm)" using runHooks_obs [of hs vm] by (auto intro: R_obs)
qed

lemma stays_push: "stays R (push v)"
  unfolding push_def by (intro stays_modify R_stack)

lemma stays_pop: "stays R pop"
  unfolding pop_def by (intro stays_intros stays_modify R_stack)

lemma stays_cost: "0 \<le> n \<Longrightarrow>
  stays R (case AddInt64 1 n of (cost, ok) \<Rightarrow> andthen (guard ok e) (charge cost))"
  by (erule charge_for_cases [of n]) (auto intro!: stays_intros stays_charge)

lemma stays_chargeCopy: "stays R (chargeCopy d)"
  unfolding chargeCopy_def Let_def
  by (cases d) (simp_all add: stays_cost stays_charge)

lemma stays_chargeCreate: "stays R (chargeCreate v)"
proof (cases v)
  case (Data d)
  then show ?thesis unfolding chargeCreate_def Let_def
    by (cases d) (simp_all add: stays_cost stays_charge)
qed (simp_all add: chargeCreate_def stays_charge)

lemma stays_item: "(\<And>d. stays R (f d)) \<Longrightarrow> (\<And>v. stays R (g v)) \<Longrightarrow> (\<And>c. stays R (h c)) \<Longrightarrow>
   stays R (case x of Data d \<Rightarrow> f d | Value v \<Rightarrow> g v | Contract c \<Rightarrow> h c)"
  by (cases x) auto

lemma stays_data: "(\<And>d. stays R (f d)) \<Longrightarrow> (\<And>v. stays R (g v)) \<Longrightarrow> (\<And>c. stays R (h c)) \<Longrightarrow>
   stays R (case x of Int64 d \<Rightarrow> f d | Bytes v \<Rightarrow> g v | Tuple c \<Rightarrow> h c)"
  by (cases x) auto

lemmas stays_basic =
  stays_intros stays_item stays_data stays_push stays_pop stays_chargeCopy stays_chargeCreate
  stays_hooks stays_modify R_stack R_argstack R_contract R_caller R_unwinding R_pc R_inst R_obs

lemma stays_popData: "stays R popData"
  and stays_popBytes: "stays R popBytes"
  and stays_popInt: "stays R popInt"
  and stays_popTuple: "stays R popTuple"
  and stays_popValue: "stays R popValue"
  unfolding popData_def popBytes_def popInt_def popTuple_def popValue_def
  by (intro stays_basic)+

lemma stays_popBool: "stays R popBool"
  and stays_popZeroValue: "stays R popZeroValue"
  and stays_peek: "stays R peek"
  and stays_peekNth: "stays R (peekNth n)"
  and stays_pushBool: "stays R (pushBool b)"
  unfolding popBool_def popZeroValue_def peek_def peekNth_def pushBool_def
  by (intro stays_basic stays_popData stays_popValue)+

lemma stays_peekValue: "stays R peekValue"
  unfolding peekValue_def by (intro stays_basic stays_peek)

lemma stays_create:
  "stays R (createValue amt aid anc)" "stays R (createContract C p)"
  unfolding createValue_def createContract_def by (intro stays_basic stays_charge; simp)+

lemma stays_popDatas: "stays R (popDatas n)"
  by (induction n) (auto intro!: stays_basic stays_popData)

lemma stays_vmlog: "stays R (vmlog E v)"
  unfolding stays_def
proof
  fix s
  show "R s (snd (vmlog E v s))"
  proof (cases "Finalized s")
    case True
    then show ?thesis by (simp add: vmlog_def sm_simps run_refl)
  next
    case False
    obtain r s1 where c: "chargeCreate (Data (Tuple v)) s = (r, s1)"
      by (cases "chargeCreate (Data (Tuple v)) s")
    have R1: "R s s1" using stays_chargeCreate [of "Data (Tuple v)"] c
      by (auto simp: stays_def dest: spec [of _ s])
    from chargeCreate_runlimit [OF c] False have fin: "\<not> Finalized s1" by auto
    have "R s1 (s1\<lparr>Log := Log s1 @ [v]\<rparr>)" using fin by (rule R_log)
    moreover have "R (s1\<lparr>Log := Log s1 @ [v]\<rparr>) (runHooks (onLog E) (s1\<lparr>Log := Log s1 @ [v]\<rparr>))"
      using stays_hooks [of "onLog E"] by (simp add: stays_def sm_simps)
    ultimately have "R s (runHooks (onLog E) (s1\<lparr>Log := Log s1 @ [v]\<rparr>))"
      using R1 run_trans by blast
    with c R1 False show ?thesis by (cases r) (simp_all add: vmlog_def sm_simps)
  qed
qed

lemma stays_logs:
  "stays R (logNonce E b x)" "stays R (logTimeRange E m n)" "stays R (logOutput E b)"
  "stays R (logInput E b)" "stays R (logFinalize E b)" "stays R (logRetirement E m b d)"
  "stays R (logIssuance E m b d)"
  unfolding logNonce_def logTimeRange_def logOutput_def logInput_def logFinalize_def
    logRetirement_def logIssuance_def
  by (intro stays_basic stays_vmlog)+

lemmas stays_calls =
  stays_basic stays_popData stays_popBytes stays_popInt stays_popTuple stays_popValue
  stays_popBool stays_popZeroValue stays_peek stays_peekNth stays_pushBool stays_peekValue
  stays_create stays_popDatas stays_vmlog stays_logs

lemma stays_replace_stack: "stays R (replace_stack r)"
  unfolding replace_stack_def by (intro stays_calls)

lemma stays_guarded:
  "(b \<Longrightarrow> stays R m) \<Longrightarrow> stays R (andthen (guard b e) m)"
  by (cases b) (auto intro: stays_panic)

lemma stays_opRoll: "stays R opRoll"
  unfolding opRoll_def
proof (rule stays_bind [OF stays_popInt])
  fix n
  show "stays R (andthen (bind (gets cstack) (\<lambda>s. replace_stack (stack_roll s n))) (charge n))"
  proof (cases "n < 0")
    case True
    then show ?thesis
      by (simp add: stack_roll_def replace_stack_def andthen_def bind_assoc)
        (intro stays_intros)
  next
    case False
    then show ?thesis by (intro stays_calls stays_replace_stack stays_charge) simp
  qed
qed

lemma stays_opBury: "stays R opBury"
  unfolding opBury_def
proof (rule stays_bind [OF stays_popInt])
  fix n
  show "stays R (andthen (bind (gets cstack) (\<lambda>s. replace_stack (stack_bury s n))) (charge n))"
  proof (cases "n < 0")
    case True
    then show ?thesis
      by (simp add: stack_bury_def replace_stack_def andthen_def bind_assoc)
        (intro stays_intros)
  next
    case False
    then show ?thesis by (intro stays_calls stays_replace_stack stays_charge) simp
  qed
qed

lemma stays_opReverse: "stays R opReverse"
  unfolding opReverse_def
proof (rule stays_bind [OF stays_popInt], rule stays_bind [OF stays_gets], rule stays_prod)
  fix n :: int and s vals s'
  have "stays R (andthen (guard (len vals = n) ErrStackRange)
      (andthen (modify (put_stack (s' @ vals))) (charge n)))"
    by (rule stays_guarded) (auto intro!: stays_andthen stays_modify R_stack stays_charge)
  then show "stays R (andthen (modify (put_stack s')) (andthen (guard (len vals = n) ErrStackRange)
      (andthen (modify (put_stack (s' @ vals))) (charge n))))"
    by (rule stays_andthen [OF stays_modify [OF R_stack]])
qed

lemma stays_stack_ops: "stays R opDepth" "stays R opPeek"
  unfolding opDepth_def opPeek_def by (intro stays_calls)+

lemma stays_data_ops:
  "stays R opDup" "stays R opDrop" "stays R opEq" "stays R opLen" "stays R opTuple"
  "stays R opUntuple" "stays R opField" "stays R opEncode" "stays R opInt"
  unfolding opDup_def opDrop_def opEq_def opLen_def opTuple_def opUntuple_def opField_def
    opEncode_def opInt_def Let_def
  by (intro stays_calls stays_charge len_nonneg)+

lemma stays_math_ops:
  "stays R opAdd" "stays R opMul" "stays R opDiv" "stays R opMod" "stays R opNeg" "stays R opGT"
  "stays R opNot" "stays R opAnd" "stays R opOr" "stays R opBitNot" "stays R opBitAnd"
  "stays R opBitOr" "stays R opBitXor" "stays R opCat" "stays R opSlice"
  unfolding opAdd_def opMul_def opDiv_def opMod_def binOp_def opNeg_def opGT_def opNot_def
    opAnd_def opOr_def opBitNot_def opBitAnd_def opBitOr_def opBitXor_def bitOp_def opCat_def
    opSlice_def Let_def
  by (intro stays_calls)+

lemma stays_value_ops:
  "stays R (opIssue E)" "stays R opAmount" "stays R opAssetID" "stays R (opSplit E)"
  "stays R (opMerge E)" "stays R (opRetire E)" "stays R (opNonce E)" "stays R opAnchor"
  unfolding opIssue_def opAmount_def opAssetID_def opSplit_def opMerge_def opRetire_def
    opNonce_def opAnchor_def Let_def
  by (intro stays_calls)+

lemma stays_crypto_ops:
  "stays R (opVMHash E)" "stays R (opSHA256 E)" "stays R (opSHA3 E)" "stays R (opCheckSig E)"
  unfolding opVMHash_def opSHA256_def opSHA3_def opCheckSig_def pushHash_def checkEd25519_def
  by (intro stays_calls stays_charge zero_le_numeral)+

lemma stays_log_ops:
  "stays R (opLog E)" "stays R opPeekLog" "stays R opTxID" "stays R (opTimeRange E)"
  unfolding opLog_def opPeekLog_def opTxID_def opTimeRange_def
  by (intro stays_calls)+

lemma stays_control_ops:
  "stays R opVerify" "stays R opJumpIf"
  unfolding opVerify_def opJumpIf_def Let_def
  by (intro stays_calls)+

lemma stays_unwind_ops:
  "stays R opYield" "stays R opWrap"
  unfolding opYield_def opWrap_def Let_def
  by (intro stays_calls)+

lemma stays_seed_ops:
  "stays R opContractProgram" "stays R opSelf" "stays R opSeed" "stays R opCaller"
  unfolding opContractProgram_def opSelf_def opSeed_def opCaller_def Let_def
  by (intro stays_calls)+

lemma stays_arg_ops:
  "stays R opGet" "stays R opPut" "stays R opExt" "stays R opPrv"
  unfolding opGet_def opPut_def opExt_def opPrv_def Let_def
  by (intro stays_calls)+

lemma stays_contract_ops:
  "stays R (opInput E)" "stays R (opOutput E)" "stays R (opContract E)"
  unfolding opInput_def opOutput_def opContract_def Let_def
  by (intro stays_calls)+

lemma stays_opFinalize: "stays R (opFinalize E)"
  unfolding opFinalize_def
proof (rule stays_bind [OF stays_popZeroValue])
  fix z
  let ?id = "\<lambda>vm. Root E (map (\<lambda>t. Encode (Tuple t)) (Log vm))"
  show "stays R (andthen (logFinalize E (anchor z))
    (andthen (modify (\<lambda>vm. vm\<lparr>Finalized := True\<rparr>))
    (andthen (modify (\<lambda>vm. vm\<lparr>TxID := ?id vm\<rparr>)) (modify (runHooks (onFinalize E))))))"
    unfolding andthen_def [of "logFinalize E (anchor z)"]
  proof (rule stays_bind_post [OF stays_logs(5)])
    fix x and s s' :: "'o vm"
    assume "logFinalize E (anchor z) s = (Inr x, s')"
    then have "\<not> Finalized s'" by (rule logFinalize_Finalized)
    then have "R s' (s'\<lparr>Finalized := True, TxID := ?id s'\<rparr>)" by (rule R_finalize)
    moreover have "R vm (runHooks (onFinalize E) vm)" for vm
      using stays_hooks [of "onFinalize E"] by (simp add: stays_def sm_simps)
    ultimately show "R s' (snd (andthen (modify (\<lambda>vm. vm\<lparr>Finalized := True\<rparr>))
      (andthen (modify (\<lambda>vm. vm\<lparr>TxID := ?id vm\<rparr>)) (modify (runHooks (onFinalize E)))) s'))"
      by (auto simp: sm_simps intro: run_trans)
  qed
qed

lemma R_return: "R vm (vm\<lparr>unwinding := u, contract := c, caller := b\<rparr>)"
  by (rule run_trans [OF R_unwinding run_trans [OF R_contract R_caller]])

lemma stays_nested:
  assumes "\<And>p. stays R (ex p)"
  shows "stays R (opExec ex)" and "stays R (opCall ex)"
  unfolding opExec_def opCall_def Let_def
  by (intro stays_calls assms R_return)+

lemma stays_opTable:
  assumes "\<And>p. stays R (ex p)"
  shows "list_all (\<lambda>(_, m). stays R m) (opTable E ex)"
  unfolding opTable_def
  by (simp add: stays_opRoll stays_opBury stays_opReverse stays_stack_ops stays_data_ops
      stays_math_ops stays_value_ops stays_crypto_ops stays_log_ops stays_control_ops
      stays_unwind_ops stays_seed_ops stays_arg_ops stays_contract_ops stays_opFinalize stays_nested [OF assms])

lemma stays_opFuncs:
  assumes "\<And>p. stays R (ex p)"
  shows "stays R (opFuncs E ex opc)"
  unfolding opFuncs_def
proof (cases "map_of (opTable E ex) opc")
  case (Some m)
  then have "(opc, m) \<in> set (opTable E ex)" by (rule map_of_SomeD)
  with stays_opTable [of ex, OF assms] Some
  show "stays R (case map_of (opTable E ex) opc of None \<Rightarrow> panic RuntimeError | Some f \<Rightarrow> f)"
    by (auto simp: list_all_iff)
qed (simp add: stays_panic)

lemma stays_step:
  assumes "\<And>p. stays R (ex p)"
  shows "stays R (step E ex)"
  unfolding step_def
  by (intro stays_calls stays_charge zero_le_one stays_opFuncs assms)

lemma stays_loop: "stays R (loop E fuel)"
proof (induction fuel)
  case (Suc fuel)
  then show ?case by simp (intro stays_calls stays_step R_exec)
qed (simp add: stays_panic)

lemma stays_exec: "stays R (exec E fuel p)"
  unfolding exec_def by (rule R_exec [OF stays_loop])

lemma stays_validate: "stays R (validate E fuel p)"
  unfolding validate_def by (intro stays_calls stays_exec)

lemmas validate_relates = staysD [OF stays_validate]
  and exec_relates = staysD [OF stays_exec]
  and loop_relates = staysD [OF stays_loop]

end

end
