(* ===== verification/VMSafety.thy ===== *)
theory VMSafety
  imports VMExec
begin

text \<open>
  Safety of whole executions: the runlimit bounds them, so the interpreter terminates; the log
  grows only at its end and is frozen once the transaction is finalized; the transaction
  ID is the Merkle root of the log; nested programs leave the run stack as they found it.
\<close>

section \<open>Relations kept by every execution\<close>

definition spends :: "'o vm \<Rightarrow> 'o vm \<Rightarrow> bool" where
  "spends s s' \<longleftrightarrow> runlimit s' \<le> runlimit s"

definition log_grows :: "'o vm \<Rightarrow> 'o vm \<Rightarrow> bool" where
  "log_grows s s' \<longleftrightarrow> (\<exists>l. Log s' = Log s @ l) \<and>
     (Finalized s \<longrightarrow> Finalized s' \<and> Log s' = Log s \<and> TxID s' = TxID s)"

definition same_config :: "'o vm \<Rightarrow> 'o vm \<Rightarrow> bool" where
  "same_config s s' \<longleftrightarrow> txVersion s' = txVersion s \<and> extension s' = extension s \<and>
     stopAfterFinalize s' = stopAfterFinalize s"

definition same_frame :: "'o vm \<Rightarrow> 'o vm \<Rightarrow> bool" where
  \<comment> \<open>while some program runs, what it calls returns to it\<close>
  "same_frame s s' \<longleftrightarrow>
     (prog (run s) \<noteq> [] \<longrightarrow> prog (run s') = prog (run s) \<and> runstack s' = runstack s)"

definition txid_root :: "'o env \<Rightarrow> 'o vm \<Rightarrow> bool" where
  "txid_root E s \<longleftrightarrow>
     (Finalized s \<longrightarrow> TxID s = Root E (map (\<lambda>t. Encode (Tuple t)) (Log s)))"

definition keeps_txid :: "'o env \<Rightarrow> 'o vm \<Rightarrow> 'o vm \<Rightarrow> bool" where
  "keeps_txid E s s' \<longleftrightarrow> (txid_root E s \<longrightarrow> txid_root E s')"

text \<open>Entering and leaving a nested program, for a relation that does not look at the frames.\<close>

lemma stays_exec_with:
  assumes body: "stays R body"
    and enter: "\<And>vm r rs s. R (vm\<lparr>runstack := rs, run := r\<rparr>) s = R vm s"
    and leave: "\<And>s vm r rs. R s (vm\<lparr>run := r, runstack := rs\<rparr>) = R s vm"
  shows "stays R (exec_with body p)"
  unfolding stays_def
proof
  fix s
  have enter1: "R (s\<lparr>run := r\<rparr>) t = R s t" for r t
    using enter [where vm = s and r = r and rs = "runstack s"] by simp
  have enter2: "R (s\<lparr>runstack := rs, run := r\<rparr>) t = R s t" for r rs t
    using enter [where vm = s and r = r and rs = rs] by simp
  have b: "R vm (snd (body vm))" for vm using body by (simp add: stays_def)
  show "R s (snd (exec_with body p s))"
    using b [of "s\<lparr>run := \<lparr>pc = 0, prog = p\<rparr>\<rparr>"]
      b [of "s\<lparr>runstack := runstack s @ [run s], run := \<lparr>pc = 0, prog = p\<rparr>\<rparr>"]
    by (auto simp: exec_with_def Let_def enter1 enter2 leave split: prod.split)
qed

interpretation spend: vm_relation spends E for E
  by unfold_locales (auto simp: spends_def put_stack_def intro!: stays_exec_with)

interpretation logs: vm_relation log_grows E for E
  by unfold_locales (auto simp: log_grows_def put_stack_def intro!: stays_exec_with)

interpretation config: vm_relation same_config E for E
  by unfold_locales (auto simp: same_config_def put_stack_def intro!: stays_exec_with)

interpretation txid: vm_relation "keeps_txid E" E for E
  by unfold_locales
    (auto simp: keeps_txid_def txid_root_def put_stack_def intro!: stays_exec_with)

lemma exec_with_loop_Nil:
  "snd (loop E fuel (vm\<lparr>run := \<lparr>pc = i, prog = []\<rparr>\<rparr>)) = vm\<lparr>run := \<lparr>pc = i, prog = []\<rparr>\<rparr>" if "0 \<le> i"
  using that by (cases fuel) (simp_all add: bind_def gets_def return_def panic_def)

lemma runstack_body:
  assumes "stays same_frame (loop E fuel)" and "0 \<le> i"
    and "loop E fuel (vm\<lparr>run := \<lparr>pc = i, prog = p\<rparr>\<rparr>) = (r, vm')"
  shows "runstack vm' = runstack vm"
proof (cases "p = []")
  case True
  with assms(2,3) exec_with_loop_Nil [of i E fuel vm] show ?thesis by simp
next
  case False
  with staysD [OF assms(1,3)] show ?thesis by (simp add: same_frame_def)
qed

lemma exec_with_nested:
  assumes "stays same_frame (loop E fuel)" and "prog (run vm) \<noteq> []"
    and "exec_with (loop E fuel) p vm = (r, vm')"
  shows "run vm' = run vm \<and> runstack vm' = runstack vm"
proof -
  let ?s1 = "vm\<lparr>runstack := runstack vm @ [run vm], run := \<lparr>pc = 0, prog = p\<rparr>\<rparr>"
  obtain r2 vm2 where body: "loop E fuel ?s1 = (r2, vm2)" by (cases "loop E fuel ?s1")
  have "runstack vm2 = runstack vm @ [run vm]"
    using runstack_body [OF assms(1) _ body] by simp
  with assms(2,3) body show ?thesis
    by (auto simp: exec_with_def Let_def nth_append len_def)
qed

lemma frame_exec_with:
  assumes "stays same_frame (loop E fuel)"
  shows "stays same_frame (exec_with (loop E fuel) p)"
  unfolding stays_def same_frame_def
  using exec_with_nested [OF assms] by (metis prod.collapse)

interpretation frame: vm_relation same_frame E for E
  by unfold_locales (auto simp: same_frame_def put_stack_def intro: frame_exec_with)

lemmas exec_restores = exec_with_nested [OF frame.stays_loop]

end
