(* ===== verification/VMType.thy ===== *)
theory VMType
  imports VMSafety
begin

text \<open>
  The type invariant of the machine and the bound on its running time. Every item on every
  stack is well formed (its integers are int64 values, its contracts carry a contract type
  code), every logged tuple is well formed, and the runlimit is not negative and below the
  fuel of the interpreter. Each instruction keeps the invariant and returns well-formed
  results; none runs out of fuel.
\<close>

section \<open>Triples\<close>

definition safe :: "('s \<Rightarrow> bool) \<Rightarrow> ('s, vmerror, 'a) sm \<Rightarrow> ('a \<Rightarrow> bool) \<Rightarrow> bool" where
  "safe I m Q \<longleftrightarrow> (\<forall>s. I s \<longrightarrow>
     (case m s of (Inl e, s') \<Rightarrow> e \<noteq> OutOfFuel | (Inr x, s') \<Rightarrow> I s' \<and> Q x))"

lemma safeD: "safe I m Q \<Longrightarrow> I s \<Longrightarrow>
  case m s of (Inl e, s') \<Rightarrow> e \<noteq> OutOfFuel | (Inr x, s') \<Rightarrow> I s' \<and> Q x"
  by (simp add: safe_def)

lemma safe_return: "Q x \<Longrightarrow> safe I (return x) Q"
  and safe_panic: "e \<noteq> OutOfFuel \<Longrightarrow> safe I (panic e) Q"
  and safe_modify: "(\<And>s. I s \<Longrightarrow> I (f s)) \<Longrightarrow> safe I (modify f) (\<lambda>_. True)"
  and safe_gets: "(\<And>s. I s \<Longrightarrow> Q (g s)) \<Longrightarrow> safe I (gets g) Q"
  and safe_guard: "e \<noteq> OutOfFuel \<Longrightarrow> safe I (guard b e) (\<lambda>_. b)"
  by (auto simp: safe_def sm_simps)

lemma safe_bind:
  assumes "safe I m P" and "\<And>x. P x \<Longrightarrow> safe I (f x) Q"
  shows "safe I (bind m f) Q"
  unfolding safe_def
proof (intro allI impI)
  fix s
  assume s: "I s"
  obtain r s' where m: "m s = (r, s')" by (cases "m s")
  show "case bind m f s of (Inl e, s') \<Rightarrow> e \<noteq> OutOfFuel | (Inr x, s') \<Rightarrow> I s' \<and> Q x"
  proof (cases r)
    case (Inl e)
    with assms(1) s m show ?thesis by (auto simp: safe_def bind_def dest: spec [of _ s])
  next
    case (Inr x)
    with assms(1) s m have "I s'" "P x" by (auto simp: safe_def dest!: spec [of _ s])
    with assms(2) have "case f x s' of (Inl e, s') \<Rightarrow> e \<noteq> OutOfFuel | (Inr x, s') \<Rightarrow> I s' \<and> Q x"
      by (simp add: safe_def)
    with m Inr show ?thesis by (simp add: bind_def)
  qed
qed

lemma safe_andthen:
  "safe I m P \<Longrightarrow> (\<And>x. P x \<Longrightarrow> safe I k Q) \<Longrightarrow> safe I (andthen m k) Q"
  unfolding andthen_def by (rule safe_bind)

lemma safe_weaken: "safe I m P \<Longrightarrow> (\<And>x. P x \<Longrightarrow> Q x) \<Longrightarrow> safe I m Q"
  by (fastforce simp: safe_def split: prod.splits sum.splits)

lemma safe_if: "(b \<Longrightarrow> safe I m Q) \<Longrightarrow> (\<not> b \<Longrightarrow> safe I k Q) \<Longrightarrow> safe I (if b then m else k) Q"
  by simp

lemma safe_option: "(z = None \<Longrightarrow> safe I m Q) \<Longrightarrow> (\<And>x. z = Some x \<Longrightarrow> safe I (f x) Q) \<Longrightarrow>
   safe I (case z of None \<Rightarrow> m | Some x \<Rightarrow> f x) Q"
  by (cases z) auto

lemma safe_sum: "(\<And>x. z = Inl x \<Longrightarrow> safe I (f x) Q) \<Longrightarrow> (\<And>x. z = Inr x \<Longrightarrow> safe I (g x) Q) \<Longrightarrow>
   safe I (case z of Inl x \<Rightarrow> f x | Inr x \<Rightarrow> g x) Q"
  by (cases z) auto

lemma safe_prod: "(\<And>x y. z = (x, y) \<Longrightarrow> safe I (f x y) Q) \<Longrightarrow>
   safe I (case z of (x, y) \<Rightarrow> f x y) Q"
  by (cases z) auto

lemma safe_item: "(\<And>d. z = Data d \<Longrightarrow> safe I (f d) Q) \<Longrightarrow> (\<And>v. z = Value v \<Longrightarrow> safe I (g v) Q) \<Longrightarrow>
   (\<And>c. z = Contract c \<Longrightarrow> safe I (h c) Q) \<Longrightarrow>
   safe I (case z of Data d \<Rightarrow> f d | Value v \<Rightarrow> g v | Contract c \<Rightarrow> h c) Q"
  by (cases z) auto

lemma safe_data: "(\<And>n. z = Int64 n \<Longrightarrow> safe I (f n) Q) \<Longrightarrow> (\<And>b. z = Bytes b \<Longrightarrow> safe I (g b) Q) \<Longrightarrow>
   (\<And>t. z = Tuple t \<Longrightarrow> safe I (h t) Q) \<Longrightarrow>
   safe I (case z of Int64 n \<Rightarrow> f n | Bytes b \<Rightarrow> g b | Tuple t \<Rightarrow> h t) Q"
  by (cases z) auto

lemma safe_each: "(\<And>x. x \<in> set xs \<Longrightarrow> safe I (f x) (\<lambda>_. True)) \<Longrightarrow> safe I (each f xs) (\<lambda>_. True)"
  by (induction xs) (auto intro!: safe_return intro: safe_andthen)

lemma safe_guard_any: "e \<noteq> OutOfFuel \<Longrightarrow> safe I (guard b e) (\<lambda>_. True)"
  by (erule safe_weaken [OF safe_guard]) simp

lemma safe_gets_any: "safe I (gets g) (\<lambda>_. True)"
  by (rule safe_gets) simp

lemmas safe_control =
  safe_bind safe_andthen safe_if safe_option safe_sum safe_prod safe_item safe_data

section \<open>The invariant\<close>

definition vm_ok :: "nat \<Rightarrow> 'o vm \<Rightarrow> bool" where
  "vm_ok n s \<longleftrightarrow> contract_ok (contract s) \<and> list_all item_ok (argstack s) \<and>
     list_all (list_all data_ok) (Log s) \<and> is_int64 (txVersion s) \<and>
     0 \<le> runlimit s \<and> runlimit s < int n"

abbreviation sound :: "nat \<Rightarrow> ('o, 'a) act \<Rightarrow> ('a \<Rightarrow> bool) \<Rightarrow> bool" where
  "sound n \<equiv> safe (vm_ok n)"

lemma vm_ok_stack: "vm_ok n s \<Longrightarrow> list_all item_ok (cstack s)"
  by (simp add: vm_ok_def contract_ok_sel)

lemma vm_ok_put_stack: "vm_ok n s \<Longrightarrow> list_all item_ok st \<Longrightarrow> vm_ok n (put_stack st s)"
  by (simp add: vm_ok_def contract_ok_sel put_stack_def)

lemma vm_ok_hooks: "vm_ok n s \<Longrightarrow> vm_ok n (runHooks hs s)"
  using runHooks_obs [of hs s] by (auto simp: vm_ok_def)

lemma sound_hooks: "sound n (modify (runHooks hs)) (\<lambda>_. True)"
  by (rule safe_modify) (rule vm_ok_hooks)

lemma sound_charge: "0 \<le> c \<Longrightarrow> sound n (charge c) (\<lambda>_. True)"
  by (auto simp: safe_def charge_def sm_simps vm_ok_def)

lemma sound_push: "item_ok v \<Longrightarrow> sound n (push v) (\<lambda>_. True)"
  unfolding push_def
  by (rule safe_modify) (auto simp: stack_push_def intro!: vm_ok_put_stack dest: vm_ok_stack)

lemma sound_pop: "sound n pop item_ok"
  unfolding safe_def
proof (intro allI impI)
  fix s
  assume s: "vm_ok n s"
  show "case pop s of (Inl e, s') \<Rightarrow> e \<noteq> OutOfFuel | (Inr x, s') \<Rightarrow> vm_ok n s' \<and> item_ok x"
    using vm_ok_stack [OF s] s
    by (cases "cstack s" rule: rev_cases)
      (auto simp: pop_def bind_def gets_def panic_def sm_simps intro: vm_ok_put_stack)
qed

lemma sound_cost: "0 \<le> l \<Longrightarrow> e \<noteq> OutOfFuel \<Longrightarrow>
  sound n (case AddInt64 1 l of (cost, ok) \<Rightarrow> andthen (guard ok e) (charge cost)) (\<lambda>_. True)"
  by (erule charge_for_cases [of l]) (auto intro: sound_charge safe_panic)

lemma sound_chargeCopy: "sound n (chargeCopy d) (\<lambda>_. True)"
  unfolding chargeCopy_def Let_def
  by (cases d) (simp_all add: sound_cost sound_charge)

lemma sound_chargeCreate: "sound n (chargeCreate v) (\<lambda>_. True)"
proof (cases v)
  case (Data d)
  then show ?thesis unfolding chargeCreate_def Let_def
    by (cases d) (simp_all add: sound_cost sound_charge)
qed (simp_all add: chargeCreate_def sound_charge)

lemma sound_peekNth: "sound n (peekNth i) item_ok"
  and sound_peek: "sound n peek item_ok"
  by (auto simp: safe_def peekNth_def peek_def bind_def gets_def return_def panic_def list_all_iff
      split: option.splits dest!: vm_ok_stack stack_peek_in_set)

lemma sound_popData: "sound n popData data_ok"
  and sound_popBytes: "sound n popBytes (\<lambda>_. True)"
  and sound_popInt: "sound n popInt is_int64"
  and sound_popTuple: "sound n popTuple (list_all data_ok)"
  and sound_popValue: "sound n popValue value_ok"
  unfolding popData_def popBytes_def popInt_def popTuple_def popValue_def
  by (rule safe_bind [OF sound_pop],
      auto split: item.split data.split intro!: safe_return safe_panic)+

lemma sound_peekValue: "sound n peekValue value_ok"
  unfolding peekValue_def
  by (rule safe_bind [OF sound_peek], auto split: item.split intro!: safe_return safe_panic)

lemma sound_popBool: "sound n popBool (\<lambda>_. True)"
  unfolding popBool_def by (rule safe_bind [OF sound_popData], simp add: safe_return)

lemma sound_popZeroValue: "sound n popZeroValue value_ok"
  unfolding popZeroValue_def
  by (rule safe_bind [OF sound_popValue], rule safe_andthen [OF safe_guard], simp, rule safe_return)

lemma sound_pushBool: "sound n (pushBool b) (\<lambda>_. True)"
  unfolding pushBool_def by (rule sound_push) (simp add: is_int64_iff)

lemma sound_popDatas: "sound n (popDatas m) (list_all data_ok)"
  by (induction m) (auto intro!: safe_return safe_bind [OF sound_popData] elim: safe_bind)

lemma sound_createValue:
  "is_int64 amt \<Longrightarrow> sound n (createValue amt aid anc) value_ok"
  unfolding createValue_def
  by (rule safe_andthen [OF sound_charge]) (auto simp: value_ok_def intro: safe_return)

lemma sound_createContract: "sound n (createContract C p) contract_ok"
  unfolding createContract_def
  by (rule safe_andthen [OF sound_charge]) (auto simp: code_ok_def intro: safe_return)

lemma sound_gets:
  "sound n (gets cstack) (list_all item_ok)"
  "sound n (gets argstack) (list_all item_ok)"
  "sound n (gets Log) (list_all (list_all data_ok))"
  "sound n (gets contract) contract_ok"
  "sound n (gets txVersion) is_int64"
  by (auto simp: safe_def vm_ok_def contract_ok_sel sm_simps)

lemmas sound_prims =
  safe_control safe_return safe_panic safe_guard safe_guard_any sound_gets safe_gets_any sound_hooks
  sound_charge sound_push sound_pop sound_chargeCopy sound_chargeCreate sound_peekNth sound_peek
  sound_popData sound_popBytes sound_popInt sound_popTuple sound_popValue sound_peekValue
  sound_popBool sound_popZeroValue sound_pushBool sound_popDatas sound_createValue
  sound_createContract

lemma sound_vmlog: "list_all data_ok v \<Longrightarrow> sound n (vmlog E v) (\<lambda>_. True)"
  unfolding vmlog_def
  by ((rule sound_prims safe_modify | force simp: vm_ok_def)+)

lemma sound_logs:
  "is_int64 x \<Longrightarrow> sound n (logNonce E b x) (\<lambda>_. True)"
  "is_int64 x \<Longrightarrow> is_int64 y \<Longrightarrow> sound n (logTimeRange E x y) (\<lambda>_. True)"
  "sound n (logOutput E b) (\<lambda>_. True)"
  "sound n (logInput E b) (\<lambda>_. True)"
  "sound n (logFinalize E b) (\<lambda>_. True)"
  "is_int64 x \<Longrightarrow> sound n (logRetirement E x b d) (\<lambda>_. True)"
  "is_int64 x \<Longrightarrow> sound n (logIssuance E x b d) (\<lambda>_. True)"
  unfolding logNonce_def logTimeRange_def logOutput_def logInput_def logFinalize_def
    logRetirement_def logIssuance_def NonceTuple_def
  by ((rule sound_prims sound_vmlog | simp)+)

lemmas sound_rules = sound_prims sound_vmlog sound_logs

section \<open>Every instruction keeps the invariant\<close>

lemma nth_int_mem: "0 \<le> i \<Longrightarrow> i < len xs \<Longrightarrow> xs ! nat i \<in> set xs"
  by (auto simp: len_def)

lemma stack_roll_ok: "stack_roll s n = Inr s' \<Longrightarrow> list_all item_ok s \<Longrightarrow> list_all item_ok s'"
  and stack_bury_ok: "stack_bury s n = Inr s' \<Longrightarrow> list_all item_ok s \<Longrightarrow> list_all item_ok s'"
  by (auto simp: stack_roll_Inr stack_bury_Inr)

lemma stack_roll_error: "stack_roll s n = Inl e \<Longrightarrow> e = ErrStackRange"
  and stack_bury_error: "stack_bury s n = Inl e \<Longrightarrow> e = ErrStackRange"
  by (auto simp: stack_roll_def stack_bury_def Let_def split: if_splits)

lemma stack_roll_neg: "n < 0 \<Longrightarrow> stack_roll s n = Inl ErrStackRange"
  and stack_bury_neg: "n < 0 \<Longrightarrow> stack_bury s n = Inl ErrStackRange"
  by (simp_all add: stack_roll_def stack_bury_def)

lemma stack_popN_ok: "stack_popN s n = (vals, s') \<Longrightarrow> list_all item_ok s \<Longrightarrow>
  list_all item_ok vals \<and> list_all item_ok s'"
  by (auto simp: stack_popN_eq list_all_iff dest: in_set_takeD)

lemma sound_put_stack: "list_all item_ok st \<Longrightarrow> sound n (modify (put_stack st)) (\<lambda>_. True)"
  by (rule safe_modify) (rule vm_ok_put_stack)

lemma sound_replace_stack:
  fixes i :: int
  assumes "\<And>s s'. f s i = Inr s' \<Longrightarrow> list_all item_ok s \<Longrightarrow> list_all item_ok s'"
    and "\<And>s e. f s i = Inl e \<Longrightarrow> e = ErrStackRange"
    and "\<And>s. i < 0 \<Longrightarrow> f s i = Inl ErrStackRange"
  shows "sound n (bind (gets cstack) (\<lambda>s. replace_stack (f s i))) (\<lambda>_. 0 \<le> i)"
proof (rule safe_bind [OF sound_gets(1)])
  fix s
  assume s: "list_all item_ok s"
  show "sound n (replace_stack (f s i)) (\<lambda>_. 0 \<le> i)"
  proof (cases "f s i")
    case (Inl e)
    with assms(2) show ?thesis by (auto simp: replace_stack_def intro: safe_panic)
  next
    case (Inr s')
    with assms(1) s have "sound n (modify (put_stack s')) (\<lambda>_. True)"
      by (intro sound_put_stack)
    with Inr assms(3) [of s] show ?thesis
      by (cases "i < 0") (simp_all add: replace_stack_def not_less)
  qed
qed

lemma sound_opRoll: "sound n opRoll (\<lambda>_. True)"
  and sound_opBury: "sound n opBury (\<lambda>_. True)"
  unfolding opRoll_def opBury_def
  by (rule safe_bind [OF sound_popInt], rule safe_andthen [OF sound_replace_stack sound_charge];
      auto simp: stack_roll_neg stack_bury_neg
        dest: stack_roll_ok stack_roll_error stack_bury_ok stack_bury_error)+

lemma sound_opReverse: "sound n opReverse (\<lambda>_. True)"
  unfolding opReverse_def
  by ((rule sound_rules sound_put_stack | (auto dest: stack_popN_ok)[1])+)

lemma sound_stack_ops: "sound n opDepth (\<lambda>_. True)" "sound n opPeek (\<lambda>_. True)"
  unfolding opDepth_def opPeek_def
  by ((rule sound_rules | simp)+)

lemma sound_data_ops:
  "sound n opDup (\<lambda>_. True)" "sound n opDrop (\<lambda>_. True)" "sound n opEq (\<lambda>_. True)"
  "sound n opLen (\<lambda>_. True)" "sound n opTuple (\<lambda>_. True)" "sound n opUntuple (\<lambda>_. True)"
  "sound n opField (\<lambda>_. True)" "sound n opEncode (\<lambda>_. True)" "sound n opInt (\<lambda>_. True)"
  unfolding opDup_def opDrop_def opEq_def opLen_def opTuple_def opUntuple_def opField_def
    opEncode_def opInt_def Let_def
  by ((rule sound_rules safe_each | simp add: is_int64_word list_all_iff nth_int_mem)+)

lemma is_int64_0: "is_int64 0"
  by (simp add: is_int64_iff)

lemma AddInt64_ok: "AddInt64 a b = (c, ok) \<Longrightarrow> is_int64 c"
  and MulInt64_ok: "MulInt64 a b = (c, ok) \<Longrightarrow> is_int64 c"
  and NegateInt64_ok: "NegateInt64 a = (c, ok) \<Longrightarrow> is_int64 c"
  and DivInt64_ok: "DivInt64 a b = (c, ok) \<Longrightarrow> is_int64 c"
  and ModInt64_ok: "ModInt64 a b = (c, ok) \<Longrightarrow> is_int64 c"
  by (auto simp: AddInt64_def AddInt_def MulInt64_def MulInt_def NegateInt64_def NegateInt_def
      DivInt64_def DivInt_def ModInt64_def ModInt_def is_int64_0 split: if_splits)

lemma sound_binOp:
  "(\<And>a b c ok. f a b = (c, ok) \<Longrightarrow> is_int64 c) \<Longrightarrow> sound n (binOp f) (\<lambda>_. True)"
  unfolding binOp_def by ((rule sound_rules | simp)+)

lemma sound_math_ops:
  "sound n opAdd (\<lambda>_. True)" "sound n opMul (\<lambda>_. True)" "sound n opDiv (\<lambda>_. True)"
  "sound n opMod (\<lambda>_. True)"
  unfolding opAdd_def opMul_def opDiv_def opMod_def
  by (rule sound_binOp, erule AddInt64_ok MulInt64_ok DivInt64_ok ModInt64_ok)+

lemma sound_logic_ops:
  "sound n opNeg (\<lambda>_. True)" "sound n opGT (\<lambda>_. True)"
  "sound n opNot (\<lambda>_. True)" "sound n opAnd (\<lambda>_. True)" "sound n opOr (\<lambda>_. True)"
  "sound n opBitNot (\<lambda>_. True)" "sound n opBitAnd (\<lambda>_. True)" "sound n opBitOr (\<lambda>_. True)"
  "sound n opBitXor (\<lambda>_. True)" "sound n opCat (\<lambda>_. True)" "sound n opSlice (\<lambda>_. True)"
  unfolding opNeg_def opGT_def opNot_def opAnd_def opOr_def opBitNot_def opBitAnd_def
    opBitOr_def opBitXor_def bitOp_def opCat_def opSlice_def Let_def
  by ((rule sound_rules | simp add: NegateInt64_ok)+)

lemma split_amount_ok: "is_int64 amt \<Longrightarrow> value_ok a \<Longrightarrow> \<not> amt < 0 \<Longrightarrow> \<not> amt > amount a \<Longrightarrow>
  is_int64 (amount a - amt)"
  by (simp add: value_ok_def is_int64_iff)

lemma sound_value_ops:
  "sound n (opIssue E) (\<lambda>_. True)" "sound n opAmount (\<lambda>_. True)" "sound n opAssetID (\<lambda>_. True)"
  "sound n (opSplit E) (\<lambda>_. True)" "sound n (opMerge E) (\<lambda>_. True)"
  "sound n (opRetire E) (\<lambda>_. True)" "sound n (opNonce E) (\<lambda>_. True)" "sound n opAnchor (\<lambda>_. True)"
  unfolding opIssue_def opAmount_def opAssetID_def opSplit_def opMerge_def opRetire_def
    opNonce_def opAnchor_def Let_def
  by ((rule sound_rules | simp add: split_amount_ok AddInt64_ok is_int64_0 | simp add: value_ok_def)+)

lemma sound_crypto_ops:
  "sound n (opVMHash E) (\<lambda>_. True)" "sound n (opSHA256 E) (\<lambda>_. True)"
  "sound n (opSHA3 E) (\<lambda>_. True)" "sound n (opCheckSig E) (\<lambda>_. True)"
  unfolding opVMHash_def opSHA256_def opSHA3_def opCheckSig_def pushHash_def checkEd25519_def
  by ((rule sound_rules | simp)+)

lemma log_nth_ok: "list_all (list_all data_ok) l \<Longrightarrow> 0 \<le> i \<Longrightarrow> i < len l \<Longrightarrow> list_all data_ok (l ! nat i)"
  using nth_int_mem [of i l] by (simp add: list_all_iff)

lemma sound_log_ops:
  "sound n (opLog E) (\<lambda>_. True)" "sound n opPeekLog (\<lambda>_. True)" "sound n opTxID (\<lambda>_. True)"
  "sound n (opTimeRange E) (\<lambda>_. True)"
  unfolding opLog_def opPeekLog_def opTxID_def opTimeRange_def
  by ((rule sound_rules | simp add: log_nth_ok)+)

lemma sound_opFinalize: "sound n (opFinalize E) (\<lambda>_. True)"
  unfolding opFinalize_def
  by ((rule sound_rules safe_modify | simp add: vm_ok_def)+)

lemma sound_control_ops: "sound n opVerify (\<lambda>_. True)" "sound n opJumpIf (\<lambda>_. True)"
  "sound n opContractProgram (\<lambda>_. True)" "sound n opSelf (\<lambda>_. True)" "sound n opSeed (\<lambda>_. True)"
  "sound n opCaller (\<lambda>_. True)" "sound n opExt (\<lambda>_. True)" "sound n opPrv (\<lambda>_. True)"
  unfolding opVerify_def opJumpIf_def opContractProgram_def opSelf_def opSeed_def opCaller_def
    opExt_def opPrv_def
  by ((rule sound_rules safe_modify | simp add: vm_ok_def)+)

lemma vm_ok_contract: "vm_ok n s \<Longrightarrow> contract_ok (contract s)"
  and vm_ok_set_contract: "vm_ok n s \<Longrightarrow> contract_ok c \<Longrightarrow> vm_ok n (s\<lparr>contract := c\<rparr>)"
  and vm_ok_push_arg: "vm_ok n s \<Longrightarrow> item_ok x \<Longrightarrow> vm_ok n (s\<lparr>argstack := stack_push (argstack s) x\<rparr>)"
  by (auto simp: vm_ok_def stack_push_def)

lemma contract_ok_set:
  "contract_ok c \<Longrightarrow> contract_ok (set_program p c)"
  "contract_ok c \<Longrightarrow> code_ok t \<Longrightarrow> contract_ok (set_typecode t c)"
  by (cases c; simp)+

lemma sound_modify_ok:
  "sound n (modify (\<lambda>vm. vm\<lparr>contract := set_program p (contract vm)\<rparr>)) (\<lambda>_. True)"
  "sound n (modify (\<lambda>vm. vm\<lparr>contract := set_typecode WrappedContractCode (contract vm)\<rparr>)) (\<lambda>_. True)"
  "sound n (modify (\<lambda>vm. vm\<lparr>argstack := stack_push (argstack vm) (Contract (contract vm))\<rparr>)) (\<lambda>_. True)"
  "sound n (modify (\<lambda>vm. vm\<lparr>unwinding := u\<rparr>)) (\<lambda>_. True)"
  "item_ok x \<Longrightarrow> sound n (modify (\<lambda>vm. vm\<lparr>argstack := stack_push (argstack vm) x\<rparr>)) (\<lambda>_. True)"
  "list_all item_ok st \<Longrightarrow> sound n (modify (\<lambda>vm. vm\<lparr>argstack := st\<rparr>)) (\<lambda>_. True)"
  "contract_ok c \<Longrightarrow> sound n (modify (\<lambda>vm. vm\<lparr>contract := c\<rparr>)) (\<lambda>_. True)"
  by (auto intro!: safe_modify simp: vm_ok_def stack_push_def contract_ok_set code_ok_def)

lemma sound_unwind_ops: "sound n opYield (\<lambda>_. True)" "sound n opWrap (\<lambda>_. True)"
  "sound n (opOutput E) (\<lambda>_. True)" "sound n (opContract E) (\<lambda>_. True)"
  "sound n opPut (\<lambda>_. True)"
  unfolding opYield_def opWrap_def opOutput_def opContract_def opPut_def
  by ((rule sound_rules sound_modify_ok | simp)+)

lemma sound_opGet: "sound n opGet (\<lambda>_. True)"
  unfolding safe_def
proof (intro allI impI)
  fix s
  assume s: "vm_ok n s"
  then show "case opGet s of (Inl e, s') \<Rightarrow> e \<noteq> OutOfFuel | (Inr x, s') \<Rightarrow> vm_ok n s' \<and> True"
    by (cases "argstack s" rule: rev_cases)
      (auto simp: opGet_def bind_def gets_def panic_def push_def sm_simps stack_push_def
        vm_ok_def contract_ok_sel)
qed

lemma uninspect_value_error: "uninspect_value t = Inl e \<Longrightarrow> e = ErrFields"
  by (induction t rule: uninspect_value.induct) (auto split: if_splits data.splits)

lemma uninspect_error: "uninspect t = Inl e \<Longrightarrow> e \<noteq> OutOfFuel"
  and uninspect_contract_error: "uninspect_contract t' = Inl e' \<Longrightarrow> e' \<noteq> OutOfFuel"
  and uninspect_stack_error: "uninspect_stack t'' = Inl e'' \<Longrightarrow> e'' \<noteq> OutOfFuel"
proof (induction t and t' and t'' arbitrary: e and e' and e''
    rule: uninspect_uninspect_contract_uninspect_stack.induct)
  case (2 code t)
  then show ?case
    by (auto split: if_splits list.splits data.splits sum.splits dest: uninspect_value_error)
qed (auto split: if_splits list.splits data.splits sum.splits simp: extractTypeCode_def)

lemma sound_opInput: "sound n (opInput E) (\<lambda>_. True)"
  unfolding opInput_def Let_def
  by ((rule sound_rules | simp add: uninspect_contract_error uninspect_contract_ok)+)

lemma sound_opExec: "(\<And>p. sound n (ex p) (\<lambda>_. True)) \<Longrightarrow> sound n (opExec ex) (\<lambda>_. True)"
  unfolding opExec_def by (rule safe_bind [OF sound_popBytes])

lemma sound_opCall: "(\<And>p. sound n (ex p) (\<lambda>_. True)) \<Longrightarrow> sound n (opCall ex) (\<lambda>_. True)"
  unfolding opCall_def Let_def
  by ((rule sound_rules sound_modify_ok safe_modify | assumption |
       simp add: contract_ok_set code_ok_def | simp add: vm_ok_def)+)

lemma sound_opTable:
  assumes "\<And>p. sound n (ex p) (\<lambda>_. True)"
  shows "list_all (\<lambda>(_, m). sound n m (\<lambda>_. True)) (opTable E ex)"
  unfolding opTable_def
  by (simp add: sound_opRoll sound_opBury sound_opReverse sound_stack_ops sound_data_ops
      sound_math_ops sound_logic_ops sound_value_ops sound_crypto_ops sound_log_ops
      sound_opFinalize sound_control_ops sound_unwind_ops sound_opGet sound_opInput
      sound_opExec [OF assms] sound_opCall [OF assms])

lemma sound_opFuncs:
  assumes "\<And>p. sound n (ex p) (\<lambda>_. True)"
  shows "sound n (opFuncs E ex opc) (\<lambda>_. True)"
proof (cases "map_of (opTable E ex) opc")
  case (Some m)
  then have "(opc, m) \<in> set (opTable E ex)" by (rule map_of_SomeD)
  with sound_opTable [of n ex E, OF assms] Some show ?thesis
    by (auto simp: opFuncs_def list_all_iff)
qed (simp add: opFuncs_def safe_panic)

section \<open>Executions keep the invariant and end\<close>

text \<open>A step that spends at least one unit of runlimit lowers the bound.\<close>

definition drops :: "nat \<Rightarrow> ('o, 'a) act \<Rightarrow> ('a \<Rightarrow> bool) \<Rightarrow> bool" where
  "drops n m Q \<longleftrightarrow> (\<forall>s. vm_ok (Suc n) s \<longrightarrow>
     (case m s of (Inl e, s') \<Rightarrow> e \<noteq> OutOfFuel | (Inr x, s') \<Rightarrow> vm_ok n s' \<and> Q x))"

lemma drops_charge: "sound n k Q \<Longrightarrow> drops n (andthen (charge 1) k) Q"
  for k :: "('o, 'a) act"
  unfolding drops_def
proof (intro allI impI)
  fix s :: "'o vm"
  assume k: "sound n k Q" and s: "vm_ok (Suc n) s"
  show "case andthen (charge 1) k s of (Inl e, s') \<Rightarrow> e \<noteq> OutOfFuel | (Inr x, s') \<Rightarrow> vm_ok n s' \<and> Q x"
  proof (cases "runlimit s - 1 < 0")
    case True
    then show ?thesis by (simp add: charge_def sm_simps)
  next
    case False
    with s have "vm_ok n (s\<lparr>runlimit := runlimit s - 1\<rparr>)" by (simp add: vm_ok_def)
    moreover from False have "andthen (charge 1) k s = k (s\<lparr>runlimit := runlimit s - 1\<rparr>)"
      by (simp add: charge_def sm_simps)
    ultimately show ?thesis using k by (simp add: safe_def)
  qed
qed

lemma drops_bind:
  fixes m :: "('o, 'a) act"
  assumes m: "sound (Suc n) m P" and f: "\<And>x. P x \<Longrightarrow> drops n (f x) Q"
  shows "drops n (bind m f) Q"
  unfolding drops_def
proof (intro allI impI)
  fix s :: "'o vm"
  assume s: "vm_ok (Suc n) s"
  obtain r s' where ms: "m s = (r, s')" by (cases "m s")
  show "case bind m f s of (Inl e, s') \<Rightarrow> e \<noteq> OutOfFuel | (Inr x, s') \<Rightarrow> vm_ok n s' \<and> Q x"
  proof (cases r)
    case (Inl e)
    with m s ms show ?thesis by (auto simp: safe_def bind_def dest: spec [of _ s])
  next
    case (Inr x)
    with m s ms have "vm_ok (Suc n) s'" "P x" by (auto simp: safe_def dest!: spec [of _ s])
    with f have "case f x s' of (Inl e, s') \<Rightarrow> e \<noteq> OutOfFuel | (Inr x, s') \<Rightarrow> vm_ok n s' \<and> Q x"
      by (simp add: drops_def)
    with ms Inr show ?thesis by (simp add: bind_def)
  qed
qed

lemma drops_andthen: "sound (Suc n) m P \<Longrightarrow> (\<And>x. P x \<Longrightarrow> drops n k Q) \<Longrightarrow> drops n (andthen m k) Q"
  unfolding andthen_def by (rule drops_bind)

lemma drops_then:
  fixes m :: "('o, 'a) act"
  assumes m: "drops n m P" and k: "sound n k Q"
  shows "drops n (andthen m k) Q"
  unfolding drops_def
proof (intro allI impI)
  fix s :: "'o vm"
  assume s: "vm_ok (Suc n) s"
  obtain r s' where ms: "m s = (r, s')" by (cases "m s")
  with m s have "case r of Inl e \<Rightarrow> e \<noteq> OutOfFuel | Inr x \<Rightarrow> vm_ok n s'"
    by (auto simp: drops_def split: sum.split dest!: spec [of _ s])
  with ms k show "case andthen m k s of (Inl e, s') \<Rightarrow> e \<noteq> OutOfFuel | (Inr x, s') \<Rightarrow> vm_ok n s' \<and> Q x"
    by (cases r) (auto simp: andthen_def bind_def safe_def)
qed

lemma vm_ok_mono: "vm_ok n s \<Longrightarrow> n \<le> n' \<Longrightarrow> vm_ok n' s"
  by (simp add: vm_ok_def)

lemma drops_sound: "drops n m Q \<Longrightarrow> sound (Suc n) m Q"
  unfolding drops_def safe_def by (fastforce split: prod.splits sum.splits intro: vm_ok_mono)

lemma is_int64_uint_byte: "is_int64 (uint (b :: byte))"
  using unsigned_less [of b, where 'a = int] unsigned_greater_eq [of b, where 'a = int]
  unfolding is_int64_iff by (intro conjI) (linarith, simp)

lemma step_drops:
  assumes "\<And>p. sound n (ex p) (\<lambda>_. True)"
  shows "drops n (step E ex) (\<lambda>_. True)"
  unfolding step_def
proof (rule drops_bind [OF safe_gets_any])
  fix r
  show "drops n (case DecodeInst (drop (nat (pc r)) (prog r)) of Inl err \<Rightarrow> panic (ErrDecode err)
     | Inr (opc, d, i) \<Rightarrow>
         andthen (modify (\<lambda>vm. vm\<lparr>opcode := opc, vdata := d\<rparr>))
        (andthen (modify (runHooks (beforeStep E)))
        (andthen (charge 1)
        (andthen (modify (\<lambda>vm. vm\<lparr>run := (run vm)\<lparr>pc := pc (run vm) + i\<rparr>\<rparr>))
        (andthen
          (if IsSmallIntOp opc then push (Data (Int64 (uint (opc - MinSmallInt))))
           else if IsPushdataOp opc then
             andthen (chargeCreate (Data (Bytes d))) (push (Data (Bytes d)))
           else opFuncs E ex opc)
        (modify (runHooks (afterStep E)))))))) (\<lambda>_. True)"
  proof (cases "DecodeInst (drop (nat (pc r)) (prog r))")
    case (Inl e)
    then show ?thesis by (simp add: drops_def sm_simps)
  next
    case (Inr z)
    obtain opc d i where z: "z = (opc, d, i)" by (cases z)
    have "sound n
        (andthen (modify (\<lambda>vm. vm\<lparr>run := (run vm)\<lparr>pc := pc (run vm) + i\<rparr>\<rparr>))
        (andthen
          (if IsSmallIntOp opc then push (Data (Int64 (uint (opc - MinSmallInt))))
           else if IsPushdataOp opc then
             andthen (chargeCreate (Data (Bytes d))) (push (Data (Bytes d)))
           else opFuncs E ex opc)
        (modify (runHooks (afterStep E))))) (\<lambda>_. True)"
      by ((rule sound_rules sound_opFuncs assms safe_modify |
           simp add: is_int64_uint_byte | simp add: vm_ok_def)+)
    then show ?thesis unfolding Inr z sum.case prod.case
      by (intro drops_andthen [OF safe_modify] drops_andthen [OF sound_hooks] drops_charge)
        (simp_all add: vm_ok_def)
  qed
qed

lemma vm_ok_frame [simp]: "vm_ok n (s\<lparr>run := r\<rparr>) = vm_ok n s"
  "vm_ok n (s\<lparr>runstack := rs\<rparr>) = vm_ok n s"
  by (simp_all add: vm_ok_def)

lemma sound_exec_with:
  fixes body :: "('o, unit) act"
  assumes body: "sound n body (\<lambda>_. True)"
  shows "sound n (exec_with body p) (\<lambda>_. True)"
  unfolding safe_def
proof (intro allI impI)
  fix s :: "'o vm"
  assume s: "vm_ok n s"
  define s1 where "s1 = (if len (prog (run s)) > 0 then s\<lparr>runstack := runstack s @ [run s]\<rparr> else s)
    \<lparr>run := \<lparr>pc = 0, prog = p\<rparr>\<rparr>"
  have "vm_ok n s1" using s by (simp add: s1_def)
  from safeD [OF body this] show "case exec_with body p s of (Inl e, s') \<Rightarrow> e \<noteq> OutOfFuel | (Inr x, s') \<Rightarrow> vm_ok n s' \<and> True"
    by (cases "body s1") (auto simp: exec_with_def Let_def s1_def [symmetric] split: sum.splits)
qed

lemma sound_loop: "sound n (loop E n) (\<lambda>_. True)"
proof (induction n)
  case 0
  show ?case by (auto simp: safe_def vm_ok_def)
next
  case (Suc n)
  have step: "drops n (step E (exec_with (loop E n))) (\<lambda>_. True)"
    using Suc by (intro step_drops sound_exec_with)
  have "sound n (bind (gets (\<lambda>vm. Finalized vm \<and> stopAfterFinalize vm)) (\<lambda>stop.
          if stop then return () else loop E n)) (\<lambda>_. True)"
    using Suc by (auto intro!: safe_bind [OF safe_gets_any] safe_if safe_return)
  from drops_sound [OF drops_then [OF step this]] show ?case
    by (auto intro!: safe_bind [OF safe_gets_any] safe_if safe_return)
qed

lemma sound_exec: "sound n (exec E n p) (\<lambda>_. True)"
  unfolding exec_def by (rule sound_exec_with [OF sound_loop])

lemma sound_validate: "sound n (validate E n p) (\<lambda>_. True)"
  unfolding validate_def by ((rule sound_rules sound_exec | simp)+)

lemma validate_ends: "vm_ok n s \<Longrightarrow> validate E n p s = (r, s') \<Longrightarrow>
  case r of Inl e \<Rightarrow> e \<noteq> OutOfFuel | Inr _ \<Rightarrow> vm_ok n s'"
  using safeD [OF sound_validate [of n E p]] by (fastforce split: sum.splits)

end
