(* ===== verification/VMValidate.thy ===== *)
theory VMValidate
  imports VMType
begin

text \<open>
  What a caller of \<^verbatim>\<open>Validate\<close> may rely on: it always returns, its outcome does not depend
  on the fuel of the model, the machine it returns is well formed, and its transaction ID is
  the Merkle root of its log.
\<close>

section \<open>Fuel\<close>

definition extends :: "('o, 'a) act \<Rightarrow> ('o, 'a) act \<Rightarrow> bool" where
  \<comment> \<open>\<open>m'\<close> agrees with \<open>m\<close> wherever \<open>m\<close> does not run out of fuel\<close>
  "extends m m' \<longleftrightarrow> (\<forall>s. fst (m s) \<noteq> Inl OutOfFuel \<longrightarrow> m' s = m s)"

lemma extends_refl: "extends m m"
  by (simp add: extends_def)

lemma extends_trans: "extends m m' \<Longrightarrow> extends m' m'' \<Longrightarrow> extends m m''"
  by (simp add: extends_def)

lemma extends_bind:
  fixes m m' :: "('o, 'a) act"
  assumes m: "extends m m'" and f: "\<And>x. extends (f x) (f' x)"
  shows "extends (bind m f) (bind m' f')"
  unfolding extends_def
proof (intro allI impI)
  fix s :: "'o vm"
  assume fuel: "fst (bind m f s) \<noteq> Inl OutOfFuel"
  obtain r s' where ms: "m s = (r, s')" by (cases "m s")
  with fuel have "fst (m s) \<noteq> Inl OutOfFuel" by (auto simp: bind_def)
  with m have "m' s = m s" by (simp add: extends_def)
  with ms fuel f show "bind m' f' s = bind m f s"
    by (auto simp: bind_def extends_def split: sum.splits)
qed

lemma extends_andthen: "extends m m' \<Longrightarrow> extends k k' \<Longrightarrow> extends (andthen m k) (andthen m' k')"
  unfolding andthen_def by (rule extends_bind)

lemma extends_if: "extends m m' \<Longrightarrow> extends k k' \<Longrightarrow>
  extends (if b then m else k) (if b then m' else k')"
  by simp

lemma extends_nested:
  assumes "\<And>p. extends (ex p) (ex' p)"
  shows "extends (opExec ex) (opExec ex')" "extends (opCall ex) (opCall ex')"
  unfolding opExec_def opCall_def Let_def
  by (intro extends_bind extends_refl assms,
      intro extends_bind extends_refl)
    (auto split: item.split intro!: extends_bind extends_andthen extends_refl assms)

lemma extends_opTable:
  assumes "\<And>p. extends (ex p) (ex' p)"
  shows "list_all2 (\<lambda>(c, m) (c', m'). c = c' \<and> extends m m') (opTable E ex) (opTable E ex')"
  unfolding opTable_def by (simp add: extends_refl extends_nested [OF assms])

lemma map_of_list_all2:
  "list_all2 (\<lambda>(c, m) (c', m'). c = c' \<and> P m m') xs ys \<Longrightarrow>
   rel_option P (map_of xs k) (map_of ys k)"
  by (induction rule: list_all2_induct) auto

lemma extends_opFuncs:
  assumes "\<And>p. extends (ex p) (ex' p)"
  shows "extends (opFuncs E ex opc) (opFuncs E ex' opc)"
  using map_of_list_all2 [OF extends_opTable [of ex ex', OF assms], of E opc]
  unfolding opFuncs_def by (auto simp: extends_refl split: option.splits elim: option.rel_cases)

lemma extends_step:
  assumes "\<And>p. extends (ex p) (ex' p)"
  shows "extends (step E ex) (step E ex')"
  unfolding step_def
  by (rule extends_bind [OF extends_refl])
    (auto split: sum.split prod.split intro!: extends_andthen extends_refl extends_opFuncs assms)

lemma extends_exec_with:
  fixes body body' :: "('o, unit) act"
  assumes "extends body body'"
  shows "extends (exec_with body p) (exec_with body' p)"
  unfolding extends_def
proof (intro allI impI)
  fix s :: "'o vm"
  assume fuel: "fst (exec_with body p s) \<noteq> Inl OutOfFuel"
  define s1 where "s1 = (if len (prog (run s)) > 0 then s\<lparr>runstack := runstack s @ [run s]\<rparr> else s)
    \<lparr>run := \<lparr>pc = 0, prog = p\<rparr>\<rparr>"
  from fuel have "fst (body s1) \<noteq> Inl OutOfFuel"
    by (simp add: exec_with_def Let_def s1_def [symmetric] split: prod.splits)
  with assms have "body' s1 = body s1" by (simp add: extends_def)
  then show "exec_with body' p s = exec_with body p s"
    by (simp add: exec_with_def Let_def s1_def [symmetric])
qed

lemma extends_loop_cong: "extends (loop E n) (loop E m) \<Longrightarrow> extends (loop E (Suc n)) (loop E (Suc m))"
  unfolding loop.simps(2)
  by (intro extends_bind extends_if extends_andthen extends_refl extends_step extends_exec_with)

lemma extends_loop: "n \<le> n' \<Longrightarrow> extends (loop E n) (loop E n')"
proof (induction n arbitrary: n')
  case 0
  show ?case by (simp add: extends_def panic_def)
next
  case (Suc n)
  then obtain m where "n' = Suc m" "n \<le> m" by (cases n') auto
  with Suc.IH show ?case by (auto intro: extends_loop_cong simp del: loop.simps)
qed

lemma extends_validate: "n \<le> n' \<Longrightarrow> extends (validate E n p) (validate E n' p)"
  unfolding validate_def exec_def
  by (intro extends_bind extends_andthen extends_refl extends_exec_with extends_loop)

lemma validate_fuel:
  assumes "vm_ok n s" and "n \<le> n'"
  shows "validate E n' p s = validate E n p s"
proof -
  obtain r s' where v: "validate E n p s = (r, s')" by (cases "validate E n p s")
  from validate_ends [OF assms(1) v] have "fst (validate E n p s) \<noteq> Inl OutOfFuel"
    by (auto simp: v)
  with extends_validate [OF assms(2), of E p] show ?thesis by (simp add: extends_def)
qed

section \<open>Options\<close>

lemma apply_Option_vm: "apply_Option op (E, vm) = (E', vm') \<Longrightarrow>
  vm'\<lparr>stopAfterFinalize := False, extension := False\<rparr> =
  vm\<lparr>stopAfterFinalize := False, extension := False\<rparr> \<and> crypto.truncate E' = crypto.truncate E"
  by (cases op) (auto simp: crypto.truncate_def)

lemma fold_Option_vm: "fold apply_Option opts (E, vm) = (E', vm') \<Longrightarrow>
  vm'\<lparr>stopAfterFinalize := False, extension := False\<rparr> =
  vm\<lparr>stopAfterFinalize := False, extension := False\<rparr> \<and> crypto.truncate E' = crypto.truncate E"
proof (induction opts arbitrary: E vm)
  case (Cons op opts)
  obtain E1 vm1 where 1: "apply_Option op (E, vm) = (E1, vm1)" by (cases "apply_Option op (E, vm)")
  with Cons.prems have "fold apply_Option opts (E1, vm1) = (E', vm')" by simp
  with Cons.IH [OF this] apply_Option_vm [OF 1] show ?case by auto
qed simp

lemma Root_cong: "Sum256 C = Sum256 C' \<Longrightarrow> Root C items = Root C' items"
proof (induction items rule: length_induct)
  case (1 items)
  show ?case
  proof (cases "length items \<le> 1")
    case True
    then have "items = [] \<or> length items = 1" by (cases items) auto
    with 1 show ?thesis by (auto simp: Root.simps [of _ items])
  next
    case False
    let ?k = "prevPowerOfTwo (length items)"
    from False have "length (take ?k items) < length items" "length (drop ?k items) < length items"
      using prevPowerOfTwo_bounds [of "length items"] by auto
    with 1 have "Root C (take ?k items) = Root C' (take ?k items)"
      "Root C (drop ?k items) = Root C' (drop ?k items)" by blast+
    with False 1 show ?thesis by (simp add: Root.simps [of _ items] Let_def)
  qed
qed

text \<open>The machine and the environment with which \<^verbatim>\<open>Validate\<close> starts the program.\<close>

lemma Validate_cases:
  assumes "\<not> version < 3"
  obtains E vm0 res vm where
    "fold apply_Option opts (init_env C, init_vm w p version limit) = (E, vm0)"
    "validate E (vm_fuel vm0) p vm0 = (res, vm)"
    "Validate C w p version limit opts =
       (Some (runHooks (onExit E) vm), case res of Inl e \<Rightarrow> Some e | Inr _ \<Rightarrow> None)"
    "vm0\<lparr>stopAfterFinalize := False, extension := False\<rparr> = init_vm w p version limit"
    "Sum256 E = Sum256 C"
proof -
  obtain E vm0 where f: "fold apply_Option opts (init_env C, init_vm w p version limit) = (E, vm0)"
    by (cases "fold apply_Option opts (init_env C, init_vm w p version limit)")
  obtain res vm where v: "validate E (vm_fuel vm0) p vm0 = (res, vm)"
    by (cases "validate E (vm_fuel vm0) p vm0")
  have "crypto.truncate E = crypto.truncate (init_env C :: 'a env)"
    using fold_Option_vm [OF f] by blast
  then have "Sum256 E = Sum256 C"
    by (simp add: crypto.truncate_def init_env_def crypto.extend_def)
  moreover have "vm0\<lparr>stopAfterFinalize := False, extension := False\<rparr> = init_vm w p version limit"
    using fold_Option_vm [OF f] by (simp add: init_vm_def)
  ultimately show ?thesis
    using that [OF f v] assms f v by (simp add: Validate_def)
qed

lemma init_vm_eq:
  assumes "vm0\<lparr>stopAfterFinalize := False, extension := False\<rparr> = init_vm w p version limit"
  shows "runlimit vm0 = limit" "Log vm0 = []" "\<not> Finalized vm0" "argstack vm0 = []"
    "contract vm0 = MkContract ContractCode emptySeed p []" "txVersion vm0 = version"
    "obs vm0 = w" "\<not> unwinding vm0" "run vm0 = \<lparr>pc = 0, prog = []\<rparr>" "runstack vm0 = []"
    "caller vm0 = emptySeed"
  using arg_cong [OF assms, of runlimit] arg_cong [OF assms, of Log]
    arg_cong [OF assms, of Finalized] arg_cong [OF assms, of argstack]
    arg_cong [OF assms, of contract] arg_cong [OF assms, of txVersion]
    arg_cong [OF assms, of obs] arg_cong [OF assms, of unwinding] arg_cong [OF assms, of run]
    arg_cong [OF assms, of runstack] arg_cong [OF assms, of caller]
  by (simp_all add: init_vm_def)

lemma init_vm_ok:
  assumes "vm0\<lparr>stopAfterFinalize := False, extension := False\<rparr> = init_vm w p version limit"
    and "is_int64 version" and "0 \<le> limit"
  shows "vm_ok (vm_fuel vm0) vm0"
  using assms(2,3) init_vm_eq [OF assms(1)]
  by (simp add: vm_fuel_def vm_ok_def code_ok_def)

lemma validate_short: "runlimit vm < len p \<Longrightarrow> validate E n p vm = (Inl ErrRunlimit, vm)"
  by (simp add: validate_def sm_simps)

lemma fold_Option_stop: "fold apply_Option opts (E, vm) = (E', vm') \<Longrightarrow>
  stopAfterFinalize vm' \<longleftrightarrow> stopAfterFinalize vm \<or> StopAfterFinalize \<in> set opts"
proof (induction opts arbitrary: E vm)
  case (Cons op opts)
  obtain E1 vm1 where 1: "apply_Option op (E, vm) = (E1, vm1)" by (cases "apply_Option op (E, vm)")
  then have "stopAfterFinalize vm1 \<longleftrightarrow> stopAfterFinalize vm \<or> op = StopAfterFinalize"
    by (cases op) auto
  with Cons.IH [of E1 vm1] Cons.prems 1 show ?case by auto
qed simp

lemma validate_ok_empty:
  assumes "validate E n p s = (Inr u, s')"
  shows "len p \<le> runlimit s" and "\<not> stopAfterFinalize s' \<Longrightarrow> cstack s' = [] \<and> argstack s' = []"
  using assms by (auto simp: validate_def sm_okE stack_isEmpty_def)

lemma runHooks_sel [simp]:
  "runlimit (runHooks hs vm) = runlimit vm" "Log (runHooks hs vm) = Log vm"
  "Finalized (runHooks hs vm) = Finalized vm" "TxID (runHooks hs vm) = TxID vm"
  "contract (runHooks hs vm) = contract vm" "argstack (runHooks hs vm) = argstack vm"
  "unwinding (runHooks hs vm) = unwinding vm"
  using runHooks_obs [of hs vm] by auto

section \<open>A sample run\<close>

definition sample_prog :: bytes where
  \<comment> \<open>an empty block ID, expiration 5, \<^verbatim>\<open>nonce finalize\<close>\<close>
  "sample_prog = [MinPushdata, 5, op_Nonce, op_Finalize]"

definition sample_run :: "unit vm option \<times> vmerror option" where
  "sample_run = Validate sample_crypto () sample_prog 3 1000 []"

lemma sample_run_ok: "snd sample_run = None \<and> map_option Finalized (fst sample_run) = Some True \<and>
   map_option (length \<circ> Log) (fst sample_run) = Some 3"
  by code_simp

definition sample_exec :: "(vmerror + unit) \<times> unit vm" where
  "sample_exec = exec (init_env sample_crypto) 20 sample_prog
     ((init_vm () sample_prog 3 1000)\<lparr>run := \<lparr>pc = 1, prog = [op_Exec]\<rparr>\<rparr>)"

lemma sample_exec_ok: "fst sample_exec = Inr () \<and> length (Log (snd sample_exec)) = 3"
  by code_simp

lemma sample_exec_eq: "exec (init_env sample_crypto) 20 sample_prog
     ((init_vm () sample_prog 3 1000)\<lparr>run := \<lparr>pc = 1, prog = [op_Exec]\<rparr>\<rparr>) =
     (fst sample_exec, snd sample_exec)"
  by (simp add: sample_exec_def)

section \<open>What Validate promises\<close>

text \<open>
  C18: Validate always returns a verdict. For every program, version, runlimit and list of
  options the run ends without exhausting the fuel \<open>Suc (nat runlimit)\<close>, and any larger
  amount of fuel gives the same outcome and the same machine: the model's bound is not a
  bound on the program.
\<close>

theorem Validate_terminates:
  assumes "is_int64 version"
    and "fold apply_Option opts (init_env C, init_vm w p version limit) = (E, vm0)"
    and "vm_fuel vm0 \<le> n"
  shows "snd (Validate C w p version limit opts) \<noteq> Some OutOfFuel \<and>
    validate E n p vm0 = validate E (vm_fuel vm0) p vm0"
proof (cases "0 \<le> limit")
  case True
  have vm0: "vm0\<lparr>stopAfterFinalize := False, extension := False\<rparr> = init_vm w p version limit"
    using fold_Option_vm [OF assms(2)] by (simp add: init_vm_def)
  obtain r s where v: "validate E (vm_fuel vm0) p vm0 = (r, s)"
    by (cases "validate E (vm_fuel vm0) p vm0")
  have ok: "vm_ok (vm_fuel vm0) vm0" by (rule init_vm_ok [OF vm0 assms(1) True])
  from validate_ends [OF ok v] validate_fuel [OF ok assms(3)] v show ?thesis
    by (auto simp: Validate_def assms(2) split: sum.splits)
next
  case False
  have "runlimit vm0 = limit"
    using init_vm_eq(1) [of vm0 w p version limit] fold_Option_vm [OF assms(2)]
    by (simp add: init_vm_def)
  with False len_nonneg [of p] have "runlimit vm0 < len p" by linarith
  then show ?thesis by (simp add: Validate_def assms(2) validate_short)
qed

theorem Validate_terminates_witness:
  "snd (Validate sample_crypto () sample_prog 3 1000 []) \<noteq> Some OutOfFuel \<and>
   validate (init_env sample_crypto) 5000 sample_prog (init_vm () sample_prog 3 1000) =
   validate (init_env sample_crypto) 1001 sample_prog (init_vm () sample_prog 3 1000)"
  using Validate_terminates [of 3 "[]" sample_crypto "()" sample_prog 1000
      "init_env sample_crypto" "init_vm () sample_prog 3 1000" 5000]
  by (simp add: is_int64_iff vm_fuel_def init_vm_def)

text \<open>
  C19: The verdict of Validate. The returned machine never has more runlimit than was given,
  its transaction ID, once finalized, is the Merkle root of the encoded log, and on success
  its log and its stacks are well formed, its runlimit is not negative, and no item is left
  on a stack (unless the caller asked to stop at finalize).
\<close>

theorem Validate_result:
  assumes "Validate C w p version limit opts = (Some vm, err)" and "is_int64 version"
  shows "runlimit vm \<le> limit \<and>
    (Finalized vm \<longrightarrow> TxID vm = Root C (map (\<lambda>t. Encode (Tuple t)) (Log vm))) \<and>
    (err = None \<longrightarrow> len p \<le> limit \<and> 0 \<le> runlimit vm \<and> list_all (list_all data_ok) (Log vm) \<and>
       list_all item_ok (cstack vm) \<and> list_all item_ok (argstack vm) \<and>
       (StopAfterFinalize \<notin> set opts \<longrightarrow> cstack vm = [] \<and> argstack vm = []))"
proof -
  from assms(1) have "\<not> version < 3" by (auto simp: Validate_def)
  then obtain E vm0 res vm1 where
    f: "fold apply_Option opts (init_env C, init_vm w p version limit) = (E, vm0)"
    and v: "validate E (vm_fuel vm0) p vm0 = (res, vm1)"
    and V: "Validate C w p version limit opts =
       (Some (runHooks (onExit E) vm1), case res of Inl e \<Rightarrow> Some e | Inr _ \<Rightarrow> None)"
    and vm0: "vm0\<lparr>stopAfterFinalize := False, extension := False\<rparr> = init_vm w p version limit"
    and C: "Sum256 E = Sum256 C"
    by (rule Validate_cases)
  note init = init_vm_eq [OF vm0]
  from V assms(1) have vm: "vm = runHooks (onExit E) vm1"
    and err: "err = None \<longleftrightarrow> (\<exists>u. res = Inr u)" by (auto split: sum.splits)
  have "runlimit vm \<le> limit"
    using spend.validate_relates [OF v] init by (simp add: spends_def vm)
  moreover have "Finalized vm \<longrightarrow> TxID vm = Root C (map (\<lambda>t. Encode (Tuple t)) (Log vm))"
    using txid.validate_relates [OF v] init Root_cong [OF C]
    by (simp add: keeps_txid_def txid_root_def vm)
  moreover have "err = None \<longrightarrow> len p \<le> limit \<and> 0 \<le> runlimit vm \<and>
    list_all (list_all data_ok) (Log vm) \<and> list_all item_ok (cstack vm) \<and>
    list_all item_ok (argstack vm) \<and>
    (StopAfterFinalize \<notin> set opts \<longrightarrow> cstack vm = [] \<and> argstack vm = [])"
  proof
    assume "err = None"
    with err obtain u where u: "res = Inr u" by blast
    note ok = validate_ok_empty [OF v [unfolded u]]
    from ok(1) init len_nonneg [of p] have "len p \<le> limit" "0 \<le> limit" by linarith+
    then have "vm_ok (vm_fuel vm0) vm1"
      using validate_ends [OF init_vm_ok [OF vm0 assms(2)] v] u by simp
    moreover have "stopAfterFinalize vm1 \<longleftrightarrow> StopAfterFinalize \<in> set opts"
      using config.validate_relates [OF v] fold_Option_stop [OF f]
      by (simp add: same_config_def init_vm_def)
    ultimately show "len p \<le> limit \<and> 0 \<le> runlimit vm \<and>
      list_all (list_all data_ok) (Log vm) \<and> list_all item_ok (cstack vm) \<and>
      list_all item_ok (argstack vm) \<and>
      (StopAfterFinalize \<notin> set opts \<longrightarrow> cstack vm = [] \<and> argstack vm = [])"
      using ok(2) \<open>len p \<le> limit\<close> by (auto simp: vm vm_ok_def contract_ok_sel)
  qed
  ultimately show ?thesis by blast
qed

theorem Validate_result_witness:
  "\<exists>vm. sample_run = (Some vm, None) \<and> Finalized vm \<and>
     TxID vm = Root sample_crypto (map (\<lambda>t. Encode (Tuple t)) (Log vm)) \<and>
     runlimit vm \<le> 1000 \<and> cstack vm = []"
proof -
  obtain vm where vm: "sample_run = (Some vm, None)" "Finalized vm"
    using sample_run_ok by (metis (no_types, lifting) map_option_eq_Some prod.collapse)
  with Validate_result [OF vm(1) [unfolded sample_run_def]] show ?thesis
    by (intro exI [of _ vm]) (simp add: is_int64_iff)
qed

text \<open>
  C20: The log only grows at its end and is frozen by finalize. Whatever program runs on a
  machine and however it ends, the log before is a prefix of the log after, and if the
  machine was finalized it still is, with the same log and the same transaction ID.
\<close>

theorem exec_log_append_only:
  assumes "exec E n p vm = (r, vm')"
  shows "(\<exists>new. Log vm' = Log vm @ new) \<and>
    (Finalized vm \<longrightarrow> Finalized vm' \<and> Log vm' = Log vm \<and> TxID vm' = TxID vm)"
  using logs.exec_relates [OF assms] by (simp add: log_grows_def)

theorem exec_log_append_only_witness:
  "fst sample_exec = Inr () \<and> length (Log (snd sample_exec)) = 3 \<and>
   (\<exists>new. Log (snd sample_exec) = [] @ new)"
  using exec_log_append_only [OF sample_exec_eq]
    sample_exec_ok by (simp add: init_vm_def)

text \<open>
  A nested program returns to its caller. When a program is running, executing another
  one (by exec or call), with success or panic, restores the caller's program, its program
  counter and the run stack, and leaves the version and the options alone.
\<close>

theorem exec_restores_frame:
  assumes "exec E n p vm = (r, vm')" and "prog (run vm) \<noteq> []"
  shows "run vm' = run vm \<and> runstack vm' = runstack vm \<and> txVersion vm' = txVersion vm \<and>
    stopAfterFinalize vm' = stopAfterFinalize vm \<and> extension vm' = extension vm"
  using exec_restores [OF assms(2) assms(1) [unfolded exec_def]] config.exec_relates [OF assms(1)]
  by (simp add: same_config_def)

theorem exec_restores_frame_witness:
  "fst sample_exec = Inr () \<and> run (snd sample_exec) = \<lparr>pc = 1, prog = [op_Exec]\<rparr> \<and>
   runstack (snd sample_exec) = []"
  using exec_restores_frame [OF sample_exec_eq]
    sample_exec_ok by (simp add: init_vm_def)

end
