(* ===== verification/VMEncode.thy ===== *)
theory VMEncode
  imports VMValidate
begin

text \<open>
  The encoding of plain data is a program: executing \<^verbatim>\<open>Encode(d)\<close> pushes \<open>d\<close>, at a cost that
  is computed here exactly. As a consequence the encoding is injective, which is what makes
  the hashes of encoded tuples (transaction IDs, snapshot IDs, nonces) commit to the tuples.
\<close>

section \<open>Running straight-line code\<close>

definition advances :: "'o vm \<Rightarrow> 'o vm \<Rightarrow> int \<Rightarrow> int \<Rightarrow> item list \<Rightarrow> bool" where
  \<comment> \<open>\<open>n\<close> bytes of program consumed, \<open>c\<close> units of runlimit spent, the stack is now \<open>st\<close>\<close>
  "advances vm vm' n c st \<longleftrightarrow> (\<exists>opc d. vm' = vm\<lparr>opcode := opc, vdata := d,
     run := (run vm)\<lparr>pc := pc (run vm) + n\<rparr>, runlimit := runlimit vm - c,
     contract := set_stack st (contract vm)\<rparr>)"

definition quiet :: "'o env \<Rightarrow> 'o vm \<Rightarrow> bool" where
  \<comment> \<open>no step callbacks, and nothing that stops the interpreter\<close>
  "quiet E vm \<longleftrightarrow> beforeStep E = [] \<and> afterStep E = [] \<and> \<not> unwinding vm \<and>
     \<not> (Finalized vm \<and> stopAfterFinalize vm)"

definition runs :: "'o env \<Rightarrow> 'o vm \<Rightarrow> 'o vm \<Rightarrow> int \<Rightarrow> bool" where
  \<comment> \<open>the interpreter gets from \<open>vm\<close> to \<open>vm'\<close> with at most \<open>c\<close> instructions\<close>
  "runs E vm vm' c \<longleftrightarrow> (\<exists>k. int k \<le> c \<and> (\<forall>fuel. loop E (k + fuel) vm = loop E fuel vm'))"

definition executes :: "'o env \<Rightarrow> bytes \<Rightarrow> int \<Rightarrow> item list \<Rightarrow> item list \<Rightarrow> bool" where
  \<comment> \<open>wherever \<open>code\<close> stands in a program, running it costs \<open>c\<close> and replaces the items \<open>xs\<close>
     on top of the stack by \<open>ys\<close>\<close>
  "executes E code c xs ys \<longleftrightarrow> (\<forall>vm pre post st.
     quiet E vm \<longrightarrow> prog (run vm) = pre @ code @ post \<longrightarrow> pc (run vm) = len pre \<longrightarrow>
     len (prog (run vm)) < 2 ^ 63 \<longrightarrow> c \<le> runlimit vm \<longrightarrow> cstack vm = st @ xs \<longrightarrow>
     (\<exists>vm'. runs E vm vm' c \<and> advances vm vm' (len code) c (st @ ys)))"

lemma set_stack_set_stack [simp]: "set_stack st (set_stack st' c) = set_stack st c"
  by (cases c) simp

lemma advances_trans:
  "advances vm vm' n c st \<Longrightarrow> advances vm' vm'' n' c' st' \<Longrightarrow> advances vm vm'' (n + n') (c + c') st'"
  unfolding advances_def by (clarsimp simp: algebra_simps) (intro exI, rule refl)

lemma advances_sel:
  assumes "advances vm vm' n c st"
  shows "cstack vm' = st" "prog (run vm') = prog (run vm)" "pc (run vm') = pc (run vm) + n"
    "runlimit vm' = runlimit vm - c" "quiet E vm' = quiet E vm"
  using assms by (auto simp: advances_def quiet_def)

lemma runs_trans: "runs E vm vm' c \<Longrightarrow> runs E vm' vm'' c' \<Longrightarrow> runs E vm vm'' (c + c')"
  unfolding runs_def
proof (elim exE conjE)
  fix k k'
  assume "int k \<le> c" "\<forall>fuel. loop E (k + fuel) vm = loop E fuel vm'"
    "int k' \<le> c'" "\<forall>fuel. loop E (k' + fuel) vm' = loop E fuel vm''"
  then show "\<exists>k. int k \<le> c + c' \<and> (\<forall>fuel. loop E (k + fuel) vm = loop E fuel vm'')"
    by (intro exI [of _ "k + k'"]) (simp add: add.assoc)
qed

lemma executes_append:
  assumes 1: "executes E code c xs ys" and 2: "executes E code' c' ys zs" and c': "0 \<le> c'"
  shows "executes E (code @ code') (c + c') xs zs"
  unfolding executes_def
proof (intro allI impI)
  fix vm pre post st
  assume q: "quiet E vm" and p: "prog (run vm) = pre @ (code @ code') @ post"
    and pc: "pc (run vm) = len pre" and l: "len (prog (run vm)) < 2 ^ 63"
    and r: "c + c' \<le> runlimit vm" and st: "cstack vm = st @ xs"
  from p have "prog (run vm) = pre @ code @ (code' @ post)" by simp
  moreover from r c' have "c \<le> runlimit vm" by simp
  ultimately obtain vm1 where r1: "runs E vm vm1 c" and a1: "advances vm vm1 (len code) c (st @ ys)"
    using 1 q pc l st unfolding executes_def by blast
  note s = advances_sel [OF a1]
  have "prog (run vm1) = (pre @ code) @ code' @ post" "pc (run vm1) = len (pre @ code)"
    using s p pc by simp_all
  moreover have "len (prog (run vm1)) < 2 ^ 63" "c' \<le> runlimit vm1" "quiet E vm1"
    using s l r q by simp_all
  ultimately obtain vm2 where r2: "runs E vm1 vm2 c'"
    and a2: "advances vm1 vm2 (len code') c' (st @ zs)"
    using 2 s(1) unfolding executes_def by blast
  show "\<exists>vm'. runs E vm vm' (c + c') \<and> advances vm vm' (len (code @ code')) (c + c') (st @ zs)"
    using runs_trans [OF r1 r2] advances_trans [OF a1 a2] by auto
qed

lemma executes_frame: "executes E code c xs ys \<Longrightarrow> executes E code c (zs @ xs) (zs @ ys)"
  unfolding executes_def by (metis append.assoc)

lemma executes_Nil: "executes E [] 0 xs xs" for E :: "'o env"
  unfolding executes_def
proof (intro allI impI)
  fix vm :: "'o vm" and st
  assume "cstack vm = st @ xs"
  then have "advances vm vm 0 0 (st @ xs)" unfolding advances_def
    by (intro exI [of _ "opcode vm"] exI [of _ "vdata vm"]) (cases "contract vm"; simp)
  moreover have "runs E vm vm 0" by (auto simp: runs_def intro!: exI [of _ 0])
  ultimately show "\<exists>vm'. runs E vm vm' 0 \<and> advances vm vm' (len []) 0 (st @ xs)" by auto
qed

text \<open>A single instruction, given what its step does.\<close>

lemma executes_step:
  assumes code: "code \<noteq> []" and c: "1 \<le> c"
    and step: "\<And>vm pre post st. quiet E vm \<Longrightarrow> prog (run vm) = pre @ code @ post \<Longrightarrow>
      pc (run vm) = len pre \<Longrightarrow> len (prog (run vm)) < 2 ^ 63 \<Longrightarrow> c \<le> runlimit vm \<Longrightarrow>
      cstack vm = st @ xs \<Longrightarrow>
      \<exists>vm'. (\<forall>ex. step E ex vm = (Inr (), vm')) \<and> advances vm vm' (len code) c (st @ ys)"
  shows "executes E code c xs ys"
  unfolding executes_def
proof (intro allI impI)
  fix vm pre post st
  assume q: "quiet E vm" and p: "prog (run vm) = pre @ code @ post"
    and pc: "pc (run vm) = len pre" and l: "len (prog (run vm)) < 2 ^ 63" and r: "c \<le> runlimit vm"
    and st: "cstack vm = st @ xs"
  have "0 < len code" using code by (simp add: len_def)
  then have "len pre < len pre + len code + len post" using len_nonneg [of post] by linarith
  then have more: "pc (run vm) < len (prog (run vm))" using p pc by simp
  obtain vm' where s: "\<And>ex. step E ex vm = (Inr (), vm')"
    and a: "advances vm vm' (len code) c (st @ ys)" using step [OF q p pc l r st] by blast
  have "loop E (1 + fuel) vm = loop E fuel vm'" for fuel
    using more q s advances_sel(5) [OF a, of E]
    by (auto simp: sm_simps quiet_def)
  then have "runs E vm vm' c" using c unfolding runs_def by (intro exI [of _ 1]) simp
  with a show "\<exists>vm'. runs E vm vm' c \<and> advances vm vm' (len code) c (st @ ys)" by blast
qed

lemma nat_len [simp]: "nat (len xs) = length xs"
  by (simp add: len_def)

lemma quiet_hooks: "quiet E vm \<Longrightarrow> runHooks (beforeStep E) = (\<lambda>v. v) \<and> runHooks (afterStep E) = (\<lambda>v. v)"
  by (auto simp: quiet_def runHooks_def)

text \<open>Decoding at the program counter, and the machine at the moment the handler starts.\<close>

definition fetched :: "'o vm \<Rightarrow> byte \<Rightarrow> bytes \<Rightarrow> int \<Rightarrow> 'o vm" where
  "fetched vm opc d n = vm\<lparr>opcode := opc, vdata := d, runlimit := runlimit vm - 1,
     run := (run vm)\<lparr>pc := pc (run vm) + n\<rparr>\<rparr>"

lemma step_fetch:
  assumes "quiet E vm" and "prog (run vm) = pre @ code @ post" and "pc (run vm) = len pre"
    and "DecodeInst (code @ post) = Inr (opc, d, n)" and "1 \<le> runlimit vm"
  shows "step E ex vm =
     andthen (if IsSmallIntOp opc then push (Data (Int64 (uint (opc - MinSmallInt))))
           else if IsPushdataOp opc then
             andthen (chargeCreate (Data (Bytes d))) (push (Data (Bytes d)))
           else opFuncs E ex opc) (return ()) (fetched vm opc d n)"
  using assms quiet_hooks [OF assms(1)]
  by (simp add: step_def sm_simps charge_def fetched_def)
     (simp add: modify_def return_def)

definition handler :: "'o env \<Rightarrow> (bytes \<Rightarrow> ('o, unit) act) \<Rightarrow> byte \<Rightarrow> bytes \<Rightarrow> ('o, unit) act" where
  "handler E ex opc d = (if IsSmallIntOp opc then push (Data (Int64 (uint (opc - MinSmallInt))))
     else if IsPushdataOp opc then andthen (chargeCreate (Data (Bytes d))) (push (Data (Bytes d)))
     else opFuncs E ex opc)"

lemma executes_instr:
  fixes E :: "'o env"
  assumes decode: "\<And>post. len (code @ post) < 2 ^ 63 \<Longrightarrow> DecodeInst (code @ post) = Inr (opc, d, len code)"
    and code: "code \<noteq> []" and c: "1 \<le> c"
    and run: "\<And>(vm :: 'o vm) st ex. cstack vm = st @ xs \<Longrightarrow> c - 1 \<le> runlimit vm \<Longrightarrow>
      handler E ex opc d vm = (Inr (), put_stack (st @ ys) (vm\<lparr>runlimit := runlimit vm - (c - 1)\<rparr>))"
  shows "executes E code c xs ys"
proof (rule executes_step [OF code c])
  fix vm :: "'o vm" and pre post st
  assume *: "quiet E vm" "prog (run vm) = pre @ code @ post" "pc (run vm) = len pre"
    and l: "len (prog (run vm)) < 2 ^ 63" and r: "c \<le> runlimit vm" and st: "cstack vm = st @ xs"
  let ?vm = "fetched vm opc d (len code)"
  let ?vm' = "put_stack (st @ ys) (?vm\<lparr>runlimit := runlimit ?vm - (c - 1)\<rparr>)"
  have "len (code @ post) < 2 ^ 63" using l * (2) len_nonneg [of pre] by (simp del: len_nonneg)
  from step_fetch [OF * decode [OF this]] r c
  have "step E ex vm = andthen (handler E ex opc d) (return ()) ?vm" for ex
    by (simp add: handler_def)
  moreover have "handler E ex opc d ?vm = (Inr (), ?vm')" for ex
    using st r by (intro run) (simp_all add: fetched_def)
  ultimately have "\<forall>ex. step E ex vm = (Inr (), ?vm')" by (simp add: sm_simps)
  moreover have "advances vm ?vm' (len code) c (st @ ys)"
    unfolding advances_def fetched_def put_stack_def by (intro exI) simp
  ultimately show "\<exists>vm'. (\<forall>ex. step E ex vm = (Inr (), vm')) \<and> advances vm vm' (len code) c (st @ ys)"
    by blast
qed

section \<open>The instructions an encoding uses\<close>

lemma handler_op: "\<not> IsSmallIntOp opc \<Longrightarrow> \<not> IsPushdataOp opc \<Longrightarrow> map_of (opTable E ex) opc = Some f \<Longrightarrow>
  handler E ex opc d = f"
  by (simp add: handler_def opFuncs_def)

lemma executes_small_int:
  assumes "IsSmallInt i"
  shows "executes E [MinSmallInt + word_of_int i] 1 [] [Data (Int64 i)]"
proof -
  let ?opc = "MinSmallInt + word_of_int i"
  have i: "0 \<le> i" "i \<le> 31" using assms by (simp_all add: IsSmallInt_def MinSmallInt_def MaxSmallInt_def)
  then have u: "uint (word_of_int i :: byte) = i" by (simp add: uint_word_of_int_eq take_bit_int_eq_self)
  have small: "IsSmallIntOp ?opc" "?opc < MinPushdata"
    using i u by (simp_all add: IsSmallIntOp_def MinSmallInt_def MaxSmallInt_def MinPushdata_def
        word_le_def word_less_def)
  show ?thesis
    by (rule executes_instr [of _ ?opc "[]"])
      (auto simp: DecodeInst_op small handler_def push_def sm_simps stack_push_def u)
qed

lemma charge_ok: "0 \<le> n \<Longrightarrow> n \<le> runlimit vm \<Longrightarrow> charge n vm = (Inr (), vm\<lparr>runlimit := runlimit vm - n\<rparr>)"
  by (simp add: charge_def sm_simps)

lemma AddInt64_len:
  assumes "len xs < 2 ^ 63 - 1"
  shows "AddInt64 1 (len xs) = (1 + len xs, True)"
proof -
  have r: "is_int64 (1 + len xs)" "is_int64 (9223372036854775807 - len xs)"
    using assms len_nonneg [of xs] unfolding is_int64_iff by (simp_all del: len_nonneg)
  show ?thesis using assms r len_nonneg [of xs]
    by (simp add: AddInt64_def AddInt_def maxInt_def del: len_nonneg)
qed

lemma executes_pushdata:
  assumes "len b < 2 ^ 63 - 1"
  shows "executes E (writePushdata b) (2 + len b) [] [Data (Bytes b)]"
proof (rule executes_instr [of _ MinPushdata b])
  show "DecodeInst (writePushdata b @ post) = Inr (MinPushdata, b, len (writePushdata b))"
    if "len (writePushdata b @ post) < 2 ^ 63" for post
    using that DecodeInst_pushdata [OF refl, of b post] by (simp add: writePushdata_def)
next
  fix vm :: "'a vm" and st ex
  assume "cstack vm = st @ []" "2 + len b - 1 \<le> runlimit vm"
  then show "handler E ex MinPushdata b vm =
     (Inr (), put_stack (st @ [Data (Bytes b)]) (vm\<lparr>runlimit := runlimit vm - (2 + len b - 1)\<rparr>))"
    using assms by (simp add: handler_def IsSmallIntOp_def MinPushdata_def MaxSmallInt_def MinSmallInt_def
        IsPushdataOp_def chargeCreate_def AddInt64_len charge_ok sm_simps push_def stack_push_def
        put_stack_def)
qed (simp_all add: writePushdata_def)

lemma pop_run: "cstack vm = st @ [x] \<Longrightarrow> pop vm = (Inr x, put_stack st vm)"
  by (simp add: pop_def sm_simps)

lemma pop_typed_run:
  "cstack vm = st @ [Data d] \<Longrightarrow> popData vm = (Inr d, put_stack st vm)"
  "cstack vm = st @ [Data (Bytes b)] \<Longrightarrow> popBytes vm = (Inr b, put_stack st vm)"
  "cstack vm = st @ [Data (Int64 i)] \<Longrightarrow> popInt vm = (Inr i, put_stack st vm)"
  by (simp_all add: popData_def popBytes_def popInt_def sm_simps pop_run)

lemma put_stack_put_stack [simp]: "put_stack st (put_stack st' vm) = put_stack st vm"
  by (simp add: put_stack_def)

lemma executes_op_Int:
  assumes "is_int64 i"
  shows "executes E [op_Int] 1 [Data (Bytes (PutUvarint (word_of_int i)))] [Data (Int64 i)]"
proof (rule executes_instr [of _ op_Int "[]"])
  show "DecodeInst ([op_Int] @ post) = Inr (op_Int, [], len [op_Int])" for post
    by (simp add: DecodeInst_op MinPushdata_def)
next
  fix vm :: "'a vm" and st ex
  assume st: "cstack vm = st @ [Data (Bytes (PutUvarint (word_of_int i)))]"
  have "handler E ex op_Int [] = opInt"
    by (rule handler_op)
      (simp_all add: opTable_def IsSmallIntOp_def IsPushdataOp_def MinPushdata_def MaxSmallInt_def MinSmallInt_def)
  with st assms show "handler E ex op_Int [] vm =
    (Inr (), put_stack (st @ [Data (Int64 i)]) (vm\<lparr>runlimit := runlimit vm - (1 - 1)\<rparr>))"
    by (simp add: opInt_def sm_simps not_le pop_typed_run Uvarint_PutUvarint' sint_word_of_int64
        push_def stack_push_def)
qed simp_all

lemma popDatas_run: "cstack vm = st @ map Data ds \<Longrightarrow> popDatas (length ds) vm = (Inr ds, put_stack st vm)"
proof (induction ds arbitrary: vm rule: rev_induct)
  case Nil
  then show ?case by (cases "contract vm") (simp add: sm_simps put_stack_def)
next
  case (snoc d ds)
  then have "popData vm = (Inr d, put_stack (st @ map Data ds) vm)"
    by (intro pop_typed_run) simp
  with snoc.IH [of "put_stack (st @ map Data ds) vm"] show ?case by (simp add: sm_simps)
qed

lemma executes_op_Tuple:
  assumes "len ds < 2 ^ 63 - 1"
  shows "executes E [op_Tuple] (2 + len ds) (map Data ds @ [Data (Int64 (len ds))]) [Data (Tuple ds)]"
proof (rule executes_instr [of _ op_Tuple "[]"])
  show "DecodeInst ([op_Tuple] @ post) = Inr (op_Tuple, [], len [op_Tuple])" for post
    by (simp add: DecodeInst_op MinPushdata_def)
next
  fix vm :: "'a vm" and st ex
  assume st: "cstack vm = st @ map Data ds @ [Data (Int64 (len ds))]"
    and r: "2 + len ds - 1 \<le> runlimit vm"
  have h: "handler E ex op_Tuple [] = opTuple"
    by (rule handler_op)
      (simp_all add: opTable_def IsSmallIntOp_def IsPushdataOp_def MinPushdata_def MaxSmallInt_def MinSmallInt_def)
  have i: "popInt vm = (Inr (len ds), put_stack (st @ map Data ds) vm)"
    using st by (intro pop_typed_run) simp
  have d: "popDatas (nat (len ds)) (put_stack (st @ map Data ds) vm) = (Inr ds, put_stack st vm)"
    using popDatas_run [of "put_stack (st @ map Data ds) vm" st ds] by simp
  show "handler E ex op_Tuple [] vm =
    (Inr (), put_stack (st @ [Data (Tuple ds)]) (vm\<lparr>runlimit := runlimit vm - (2 + len ds - 1)\<rparr>))"
    unfolding h opTuple_def using r assms i d
    by (simp add: sm_simps chargeCreate_def AddInt64_len charge_ok push_def stack_push_def)
      (simp add: put_stack_def not_less)
qed simp_all

section \<open>Executing an encoding\<close>

definition int_cost :: "int \<Rightarrow> int" where
  "int_cost i = (if IsSmallInt i then 1 else 3 + len (PutUvarint (word_of_int i)))"

fun enc_cost :: "data \<Rightarrow> int" where
  "enc_cost (Int64 i) = int_cost i"
| "enc_cost (Bytes b) = 2 + len b"
| "enc_cost (Tuple ts) = sum_list (map enc_cost ts) + (int_cost (len ts) + (2 + len ts))"

lemma int_cost_nonneg: "0 \<le> int_cost i"
  by (simp add: int_cost_def)

lemma enc_cost_nonneg: "0 \<le> enc_cost d"
  by (induction d rule: enc_cost.induct)
    (auto simp: int_cost_nonneg intro!: add_nonneg_nonneg sum_list_nonneg)

lemma executes_encode_Int:
  assumes "is_int64 i"
  shows "executes E (encode_Int i) (int_cost i) [] [Data (Int64 i)]"
proof (cases "IsSmallInt i")
  case True
  then show ?thesis using executes_small_int [OF True] by (simp add: encode_Int_def int_cost_def)
next
  case False
  have "len (PutUvarint (word_of_int i)) < 2 ^ 63 - 1"
    using length_PutUvarint_le [of "word_of_int i"] by simp
  from executes_append [OF executes_pushdata [OF this] executes_op_Int [OF assms]] False
  show ?thesis by (simp add: encode_Int_def int_cost_def algebra_simps)
qed

lemma len_encode_Int_pos: "1 \<le> len (encode_Int i)"
  using len_nonneg [of "writePushdata (PutUvarint (word_of_int i))"]
  by (simp add: encode_Int_def del: len_nonneg)

lemma len_writePushdata: "1 + len b \<le> len (writePushdata b)"
  using length_PutUvarint_pos [of "word_of_int (len b) + ucast MinPushdata"]
  by (simp add: writePushdata_def del: length_PutUvarint_pos)

lemma len_Encode_pos: "1 \<le> len (Encode d)"
proof (cases d)
  case (Bytes b)
  then show ?thesis using len_writePushdata [of b] len_nonneg [of b] by (simp del: len_nonneg)
next
  case (Tuple ts)
  have "0 \<le> len (concat (map Encode ts))" by simp
  with Tuple len_encode_Int_pos [of "len ts"] show ?thesis by simp
qed (simp add: len_encode_Int_pos)

lemma len_concat_Encode: "len ts \<le> len (concat (map Encode ts))"
proof (induction ts)
  case (Cons t ts)
  then show ?case using len_Encode_pos [of t] by simp
qed simp

lemma executes_concat:
  assumes "\<And>d. d \<in> set ts \<Longrightarrow> executes E (Encode d) (enc_cost d) [] [Data d]"
  shows "executes E (concat (map Encode ts)) (sum_list (map enc_cost ts)) [] (map Data ts)"
  using assms
proof (induction ts)
  case Nil
  show ?case by (simp add: executes_Nil)
next
  case (Cons t ts)
  have "executes E (concat (map Encode ts)) (sum_list (map enc_cost ts)) ([Data t] @ []) ([Data t] @ map Data ts)"
    using Cons by (intro executes_frame) simp
  moreover have "0 \<le> sum_list (map enc_cost ts)" by (rule sum_list_nonneg) (auto simp: enc_cost_nonneg)
  ultimately show ?case
    using executes_append [of E "Encode t" "enc_cost t" "[]" "[Data t]"] Cons.prems [of t] by simp
qed

lemma executes_Encode:
  "data_ok d \<Longrightarrow> len (Encode d) < 2 ^ 63 \<Longrightarrow> executes E (Encode d) (enc_cost d) [] [Data d]"
proof (induction d rule: Encode.induct)
  case (1 i)
  then show ?case by (simp add: executes_encode_Int)
next
  case (2 b)
  then show ?case using len_writePushdata [of b] by (simp add: executes_pushdata)
next
  case (3 ts)
  have mem: "len (Encode t) \<le> len (concat (map Encode ts))" if "t \<in> set ts" for t
    using that by (induction ts) (auto simp: add_increasing add_increasing2)
  have l: "len (concat (map Encode ts)) + len (encode_Int (len ts)) + 1 < 2 ^ 63"
    using 3 by (simp add: algebra_simps)
  have c1: "executes E (concat (map Encode ts)) (sum_list (map enc_cost ts)) [] (map Data ts)"
  proof (rule executes_concat)
    fix t assume t: "t \<in> set ts"
    with 3 have "data_ok t" by (simp add: list_all_iff)
    moreover have "len (Encode t) < 2 ^ 63"
      using mem [OF t] l len_nonneg [of "encode_Int (len ts)"] by linarith
    ultimately show "executes E (Encode t) (enc_cost t) [] [Data t]" using "3.IH" [OF t] by simp
  qed
  have n1: "len ts < 2 ^ 63 - 1"
    using l len_encode_Int_pos [of "len ts"] len_concat_Encode [of ts] by linarith
  have n2: "is_int64 (len ts)"
    using n1 len_nonneg [of ts] unfolding is_int64_iff by (simp del: len_nonneg)
  have "executes E (encode_Int (len ts)) (int_cost (len ts)) (map Data ts)
      (map Data ts @ [Data (Int64 (len ts))])"
    using executes_frame [OF executes_encode_Int [OF n2], of E "map Data ts"] by simp
  then have "executes E (encode_Int (len ts) @ [op_Tuple]) (int_cost (len ts) + (2 + len ts))
      (map Data ts) [Data (Tuple ts)]"
    by (rule executes_append [OF _ executes_op_Tuple [OF n1]]) simp
  from executes_append [OF c1 this] show ?case
    by (simp add: int_cost_nonneg)
qed

definition run_after :: "bytes \<Rightarrow> 'o vm \<Rightarrow> run" where
  \<comment> \<open>an execution inside a program returns to it; one at the top level leaves the finished program\<close>
  "run_after code vm = (if len (prog (run vm)) > 0 then run vm else \<lparr>pc = len code, prog = code\<rparr>)"

lemma exec_executes_eq:
  assumes code: "executes E code c [] ys" and "len code < 2 ^ 63" and "c \<le> runlimit vm"
    and "beforeStep E = []" and "afterStep E = []" and "\<not> unwinding vm"
    and "\<not> (Finalized vm \<and> stopAfterFinalize vm)" and "c < int fuel"
  shows "\<exists>opc dat. exec E fuel code vm = (Inr (), vm\<lparr>runlimit := runlimit vm - c,
    contract := set_stack (cstack vm @ ys) (contract vm), run := run_after code vm, opcode := opc, vdata := dat\<rparr>)"
proof -
  define s1 where "s1 = (if len (prog (run vm)) > 0 then vm\<lparr>runstack := runstack vm @ [run vm]\<rparr> else vm)
    \<lparr>run := \<lparr>pc = 0, prog = code\<rparr>\<rparr>"
  have s1: "quiet E s1" "prog (run s1) = [] @ code @ []" "pc (run s1) = len []"
    "len (prog (run s1)) < 2 ^ 63" "c \<le> runlimit s1" "cstack s1 = cstack vm @ []"
    using assms by (simp_all add: s1_def quiet_def)
  then obtain s2 where r: "runs E s1 s2 c"
    and a: "advances s1 s2 (len code) c (cstack vm @ ys)"
    using code unfolding executes_def by blast
  from r obtain k where "int k \<le> c" "\<And>n. loop E (k + n) s1 = loop E n s2"
    by (auto simp: runs_def)
  moreover obtain n where "fuel = k + Suc n" 
    using assms(8) calculation(1) less_iff_Suc_add [of k fuel] by auto
  ultimately have "loop E fuel s1 = loop E (Suc n) s2" by (simp only:)
  also have "\<dots> = (Inr (), s2)"
    using advances_sel [OF a] s1 by (simp add: sm_simps)
  finally have "exec E fuel code vm = (Inr (), if len (prog (run vm)) > 0 then
           s2\<lparr>run := runstack s2 ! (length (runstack s2) - 1),
               runstack := take (length (runstack s2) - 1) (runstack s2)\<rparr>
         else s2)"
    by (simp add: exec_def exec_with_def Let_def s1_def [symmetric])
  moreover from a obtain opc dat where "s2 = s1\<lparr>opcode := opc, vdata := dat, run := (run s1)\<lparr>pc := pc (run s1) + len code\<rparr>,
      runlimit := runlimit s1 - c, contract := set_stack (cstack vm @ ys) (contract s1)\<rparr>" by (auto simp: advances_def)
  ultimately show ?thesis
    by (intro exI [of _ opc] exI [of _ dat]) (cases vm, simp add: s1_def run_after_def)
qed

lemma exec_executes:
  assumes "executes E code c [] ys" and "len code < 2 ^ 63" and "c \<le> runlimit vm"
    and "beforeStep E = []" and "afterStep E = []" and "\<not> unwinding vm"
    and "\<not> (Finalized vm \<and> stopAfterFinalize vm)" and "c < int fuel"
  shows "\<exists>vm'. exec E fuel code vm = (Inr (), vm') \<and> cstack vm' = cstack vm @ ys \<and>
    runlimit vm' = runlimit vm - c \<and> argstack vm' = argstack vm \<and> Log vm' = Log vm"
  using exec_executes_eq [OF assms] by auto

lemma exec_Encode_run:
  assumes "data_ok d" and "len (Encode d) < 2 ^ 63" and "enc_cost d \<le> runlimit vm"
    and "beforeStep E = []" and "afterStep E = []" and "\<not> unwinding vm"
    and "\<not> (Finalized vm \<and> stopAfterFinalize vm)" and "enc_cost d < int fuel"
  shows "\<exists>vm'. exec E fuel (Encode d) vm = (Inr (), vm') \<and> cstack vm' = cstack vm @ [Data d] \<and>
    runlimit vm' = runlimit vm - enc_cost d \<and> argstack vm' = argstack vm \<and> Log vm' = Log vm"
  using executes_Encode [OF assms(1,2)] assms(2-8) by (rule exec_executes)

lemma Encode_inj:
  assumes "data_ok d" "data_ok d'" "len (Encode d) < 2 ^ 63" and eq: "Encode d = Encode d'"
  shows "d = d'"
proof -
  define c where "c = max (enc_cost d) (enc_cost d')"
  define vm where "vm = init_vm () [] 3 c"
  let ?E = "init_env sample_crypto :: unit env" and ?n = "Suc (nat c)"
  have vm: "runlimit vm = c" "\<not> unwinding vm" "\<not> Finalized vm" "cstack vm = []"
    "beforeStep ?E = []" "afterStep ?E = []"
    by (simp_all add: vm_def init_vm_def init_env_def crypto.extend_def)
  have c: "enc_cost d \<le> c" "enc_cost d' \<le> c" "enc_cost d < int ?n" "enc_cost d' < int ?n"
    using enc_cost_nonneg [of d] by (auto simp: c_def max_def)
  obtain vm' where "exec ?E ?n (Encode d) vm = (Inr (), vm')" "cstack vm' = [Data d]"
    using exec_Encode_run [of d vm ?E ?n] assms vm c by auto
  moreover obtain vm'' where "exec ?E ?n (Encode d') vm = (Inr (), vm'')" "cstack vm'' = [Data d']"
    using exec_Encode_run [of d' vm ?E ?n] assms vm c by auto
  ultimately show ?thesis using eq by simp
qed

text \<open>
  C2: Executing the encoding of a datum pushes exactly that datum. On any machine with the given runlimit the program
  \<open>Encode d\<close> runs to its end and costs exactly \<open>enc_cost d\<close>. The machine is the one before it with \<open>d\<close> on top of the stack of the
  current contract; apart from the runlimit only the registers of the decoder differ (the last opcode and its data, and, at
  the top level where no program is running, the program that has just ended).
\<close>

theorem exec_Encode:
  assumes "data_ok d" and "len (Encode d) < 2 ^ 63" and "enc_cost d \<le> runlimit vm"
    and "beforeStep E = []" and "afterStep E = []" and "\<not> unwinding vm"
    and "\<not> (Finalized vm \<and> stopAfterFinalize vm)" and "enc_cost d < int fuel"
  shows "\<exists>opc dat. exec E fuel (Encode d) vm = (Inr (), vm\<lparr>runlimit := runlimit vm - enc_cost d,
    contract := set_stack (cstack vm @ [Data d]) (contract vm), run := run_after (Encode d) vm, opcode := opc, vdata := dat\<rparr>)"
  using executes_Encode [OF assms(1,2)] assms(2-8) by (rule exec_executes_eq)

theorem exec_Encode_witness:
  "\<exists>vm'. exec (init_env sample_crypto) 100 (Encode (Tuple [Int64 (-7), Bytes [1, 2]]))
      (init_vm () [] 3 1000) = (Inr (), vm') \<and>
    cstack vm' = [Data (Tuple [Int64 (-7), Bytes [1, 2]])]"
proof -
  let ?d = "Tuple [Int64 (-7), Bytes [1, 2]]"
  let ?vm = "init_vm () [] 3 1000" and ?E = "init_env sample_crypto :: unit env"
  have "len (Encode ?d) < 2 ^ 63 \<and> enc_cost ?d \<le> 1000 \<and> enc_cost ?d < 100" by code_simp
  moreover have "data_ok ?d" by (simp add: is_int64_iff)
  moreover have vm: "runlimit ?vm = 1000" "\<not> unwinding ?vm" "\<not> Finalized ?vm" "cstack ?vm = []" "beforeStep ?E = []" "afterStep ?E = []"
    by (simp_all add: init_vm_def init_env_def crypto.extend_def)
  ultimately obtain opc dat where "exec ?E 100 (Encode ?d) ?vm = (Inr (), ?vm\<lparr>runlimit := 1000 - enc_cost ?d,
      contract := set_stack [Data ?d] (contract ?vm), run := run_after (Encode ?d) ?vm, opcode := opc, vdata := dat\<rparr>)"
    using exec_Encode [of ?d ?vm ?E 100] by auto
  then show ?thesis by (intro exI conjI) (assumption, simp)
qed

text \<open>
  The encoding of data is injective: well-formed data with the same encoding are equal.
\<close>

theorem Encode_injective:
  assumes "data_ok d" and "data_ok d'" and "len (Encode d) < 2 ^ 63"
  shows "Encode d = Encode d' \<longleftrightarrow> d = d'"
  using Encode_inj [OF assms] by blast

theorem Encode_injective_witness:
  "Encode (Tuple [Int64 1, Bytes []]) \<noteq> Encode (Tuple [Int64 1, Tuple []])"
proof -
  have "len (Encode (Tuple [Int64 1, Bytes []])) < 2 ^ 63" by code_simp
  with Encode_injective [of "Tuple [Int64 1, Bytes []]" "Tuple [Int64 1, Tuple []]"] show ?thesis
    by (simp add: is_int64_iff)
qed

lemma snapshot_id: "snd (snapshot C c) = VMHash C (str ''SnapshotID'') (fst (snapshot C c))"
  by (simp add: snapshot_def contractSnapshot_def Let_def)

text \<open>
  C8: A snapshot ID commits to the whole contract. Two well-formed contracts have the same
  snapshot ID only if they have the same type code, seed, program and stack, provided the
  hash does not collide on their two encodings.
\<close>

theorem snapshot_binds_contract:
  assumes "contract_ok c" and "contract_ok c'" and "len (fst (snapshot C c)) < 2 ^ 63"
    and "inj_on (VMHash C (str ''SnapshotID'')) {fst (snapshot C c), fst (snapshot C c')}"
  shows "snd (snapshot C c) = snd (snapshot C c') \<longleftrightarrow> c = c'"
proof
  assume "snd (snapshot C c) = snd (snapshot C c')"
  then have "fst (snapshot C c) = fst (snapshot C c')"
    unfolding snapshot_id by (rule inj_onD [OF assms(4)]) simp_all
  then have "Tuple (inspect_contract c) = Tuple (inspect_contract c')"
    using assms(1-3) inspect_contract_data_ok
    by (intro Encode_inj) (simp_all add: snapshot_def contractSnapshot_def Let_def)
  then have "Inr c = uninspect_contract (inspect_contract c')"
    using uninspect_inspect_contract [OF assms(1)] by (simp only: data.inject)
  then show "c = c'" by (simp only: uninspect_inspect_contract [OF assms(2)] sum.inject)
qed simp

theorem snapshot_binds_contract_witness:
  "snd (snapshot sample_crypto (MkContract ContractCode [1] [2] [])) \<noteq>
   snd (snapshot sample_crypto (MkContract ContractCode [1] [3] []))"
proof -
  let ?c = "MkContract ContractCode [1] [2] []" and ?c' = "MkContract ContractCode [1] [3] []"
  have "VMHash sample_crypto (str ''SnapshotID'') (fst (snapshot sample_crypto ?c)) \<noteq>
    VMHash sample_crypto (str ''SnapshotID'') (fst (snapshot sample_crypto ?c'))" by code_simp
  then have "inj_on (VMHash sample_crypto (str ''SnapshotID''))
      {fst (snapshot sample_crypto ?c), fst (snapshot sample_crypto ?c')}"
    by (rule inj_on_pair)
  moreover have "len (fst (snapshot sample_crypto ?c)) < 2 ^ 63" by code_simp
  ultimately show ?thesis
    using snapshot_binds_contract [of ?c ?c' sample_crypto] by (simp add: code_ok_def)
qed

end
