(* ===== verification/VMBalance.thy ===== *)
theory VMBalance
  imports VMEncode
begin

text \<open>
  Conservation of value. Values enter the machine by \<^verbatim>\<open>issue\<close> and \<^verbatim>\<open>input\<close> and leave it by
  \<^verbatim>\<open>retire\<close> and \<^verbatim>\<open>output\<close>; every other instruction only moves, splits or merges them. An
  observer of the log keeps, for one asset, the amounts that entered and that left.
\<close>

section \<open>What the log says about an asset\<close>

fun tuple_flow :: "bytes \<Rightarrow> item list \<Rightarrow> data list \<Rightarrow> int \<times> int" where
  \<comment> \<open>units of asset \<open>a\<close> that enter and leave with a logged tuple; \<open>st\<close> is the stack of the
     current contract at that moment\<close>
  "tuple_flow a st [Bytes [c], _, Int64 n, Bytes aid, _] =
     (if aid \<noteq> a then (0, 0)
      else if c = IssueCode then (n, 0)
      else if c = RetireCode then (0, n)
      else (0, 0))"
| "tuple_flow a st [Bytes [c], _, Bytes _] =
     (if c = InputCode then (item_worth a (last st), 0)
      else if c = OutputCode then (0, stack_worth a st)
      else (0, 0))"
| "tuple_flow a st _ = (0, 0)"

definition flow :: "bytes \<Rightarrow> 'o vm \<Rightarrow> int" where
  "flow a vm = (case tuple_flow a (cstack vm) (last (Log vm)) of (i, j) \<Rightarrow> i - j)"

definition held :: "bytes \<Rightarrow> 'o vm \<Rightarrow> int" where
  \<comment> \<open>a contract that is being left (yielded, wrapped or output) no longer holds its stack\<close>
  "held a vm = (if unwinding vm then 0 else stack_worth a (cstack vm)) + stack_worth a (argstack vm)"

section \<open>The balance of a run\<close>

locale ledger =
  fixes E :: "'o env" and a :: bytes and bal :: "'o \<Rightarrow> int"
  assumes on_log: "bal (obs (runHooks (onLog E) vm)) = bal (obs vm) + flow a vm"
    and on_finalize: "bal (obs (runHooks (onFinalize E) vm)) = bal (obs vm)"
    and before_step: "bal (obs (runHooks (beforeStep E) vm)) = bal (obs vm)"
    and after_step: "bal (obs (runHooks (afterStep E) vm)) = bal (obs vm)"
begin

definition excess :: "'o vm \<Rightarrow> int" where
  "excess vm = held a vm - bal (obs vm)"

text \<open>\<open>shifts m f\<close>: a successful run of \<open>m\<close> that returns \<open>x\<close> changes the excess by \<open>f x\<close>.\<close>

definition shifts :: "('o, 'x) act \<Rightarrow> ('x \<Rightarrow> int) \<Rightarrow> bool" where
  "shifts m f \<longleftrightarrow> (\<forall>s x s'. \<not> unwinding s \<longrightarrow> m s = (Inr x, s') \<longrightarrow>
     \<not> unwinding s' \<and> excess s' = excess s + f x)"

text \<open>
  \<open>balanced n m\<close>: on a well-formed machine a successful run of \<open>m\<close> leaves the excess unchanged;
  it may end with the current contract unwinding.
\<close>

definition balanced :: "nat \<Rightarrow> ('o, unit) act \<Rightarrow> bool" where
  "balanced n m \<longleftrightarrow> (\<forall>s s'. vm_ok n s \<longrightarrow> \<not> unwinding s \<longrightarrow> m s = (Inr (), s') \<longrightarrow>
     excess s' = excess s)"

lemma shiftsI:
  "(\<And>s x s'. \<not> unwinding s \<Longrightarrow> m s = (Inr x, s') \<Longrightarrow> \<not> unwinding s' \<and> excess s' = excess s + f x) \<Longrightarrow>
   shifts m f"
  unfolding shifts_def by blast

lemma shiftsD:
  assumes "shifts m f" "\<not> unwinding s" "m s = (Inr x, s')"
  shows "\<not> unwinding s'" "excess s' = excess s + f x"
  using assms unfolding shifts_def by blast+

lemma shifts_bind:
  assumes m: "shifts m f" and k: "\<And>x. shifts (k x) (\<lambda>y. h y - f x)"
  shows "shifts (bind m k) h"
proof (rule shiftsI)
  fix s y s'
  assume s: "\<not> unwinding s" and r: "bind m k s = (Inr y, s')"
  from r obtain x s1 where 1: "m s = (Inr x, s1)" and 2: "k x s1 = (Inr y, s')"
    by (auto simp: bind_ok)
  note m1 = shiftsD [OF m s 1]
  note k1 = shiftsD [OF k m1(1) 2]
  show "\<not> unwinding s' \<and> excess s' = excess s + h y" using k1 m1(2) by simp
qed

lemma shifts_andthen:
  assumes "shifts m f" and "\<And>x. shifts k (\<lambda>y. h y - f x)"
  shows "shifts (andthen m k) h"
  using assms unfolding andthen_def by (rule shifts_bind)

lemma shifts_panic: "shifts (panic e) h"
  by (rule shiftsI) (simp add: panic_ok)

lemma shifts_guard: "(b \<Longrightarrow> shifts k h) \<Longrightarrow> shifts (andthen (guard b e) k) h"
  by (cases b) (simp_all add: shifts_panic)

lemma shifts_return: "h x = 0 \<Longrightarrow> shifts (return x) h"
  and shifts_gets: "shifts (gets g) (\<lambda>_. 0)"
  by (rule shiftsI; simp add: return_ok gets_ok)+

lemma shifts_last_guard: "(b \<Longrightarrow> h () = 0) \<Longrightarrow> shifts (guard b e) h"
  by (cases b) (simp_all add: shifts_panic shifts_return)

lemma shifts_if: "(b \<Longrightarrow> shifts m h) \<Longrightarrow> (\<not> b \<Longrightarrow> shifts k h) \<Longrightarrow> shifts (if b then m else k) h"
  by simp

lemma shifts_option: "(z = None \<Longrightarrow> shifts m h) \<Longrightarrow> (\<And>x. z = Some x \<Longrightarrow> shifts (f x) h) \<Longrightarrow>
   shifts (case z of None \<Rightarrow> m | Some x \<Rightarrow> f x) h"
  by (cases z) auto

lemma shifts_prod: "(\<And>x y. z = (x, y) \<Longrightarrow> shifts (f x y) h) \<Longrightarrow> shifts (case z of (x, y) \<Rightarrow> f x y) h"
  by (cases z) auto

lemma shifts_item: "(\<And>d. z = Data d \<Longrightarrow> shifts (f d) q) \<Longrightarrow> (\<And>v. z = Value v \<Longrightarrow> shifts (g v) q) \<Longrightarrow>
   (\<And>c. z = Contract c \<Longrightarrow> shifts (h c) q) \<Longrightarrow>
   shifts (case z of Data d \<Rightarrow> f d | Value v \<Rightarrow> g v | Contract c \<Rightarrow> h c) q"
  by (cases z) auto

lemma shifts_data: "(\<And>n. z = Int64 n \<Longrightarrow> shifts (f n) q) \<Longrightarrow> (\<And>b. z = Bytes b \<Longrightarrow> shifts (g b) q) \<Longrightarrow>
   (\<And>t. z = Tuple t \<Longrightarrow> shifts (h t) q) \<Longrightarrow>
   shifts (case z of Int64 n \<Rightarrow> f n | Bytes b \<Rightarrow> g b | Tuple t \<Rightarrow> h t) q"
  by (cases z) auto

lemma shifts_weaken: "shifts m f \<Longrightarrow> (\<And>x. h x = f x) \<Longrightarrow> shifts m h"
  by (rule shiftsI) (metis shiftsD)

lemma balancedI:
  "(\<And>s s'. vm_ok n s \<Longrightarrow> \<not> unwinding s \<Longrightarrow> m s = (Inr (), s') \<Longrightarrow> excess s' = excess s) \<Longrightarrow>
   balanced n m"
  unfolding balanced_def by blast

lemma balancedD:
  "balanced n m \<Longrightarrow> vm_ok n s \<Longrightarrow> \<not> unwinding s \<Longrightarrow> m s = (Inr (), s') \<Longrightarrow> excess s' = excess s"
  unfolding balanced_def by blast

lemma shifts_balanced: "shifts m (\<lambda>_. 0) \<Longrightarrow> balanced n m"
  by (rule balancedI) (use shiftsD(2) in fastforce)

text \<open>Primitive actions.\<close>

lemma shifts_modify:
  assumes "\<And>s. \<not> unwinding s \<Longrightarrow> \<not> unwinding (f s) \<and> excess (f s) = excess s + d"
  shows "shifts (modify f) (\<lambda>_. d)"
  by (rule shiftsI) (simp add: modify_ok assms)

lemma shifts_runlimit:
  assumes "\<And>s r s'. m s = (r, s') \<Longrightarrow> \<exists>l. s' = s\<lparr>runlimit := l\<rparr>"
  shows "shifts m (\<lambda>_. 0)"
proof (rule shiftsI)
  fix s x s'
  assume "\<not> unwinding s" and "m s = (Inr x, s')"
  with assms [of s "Inr x" s'] show "\<not> unwinding s' \<and> excess s' = excess s + 0"
    by (auto simp: excess_def held_def)
qed

lemma shifts_charge: "shifts (charge n) (\<lambda>_. 0)"
  by (rule shifts_runlimit) (rule charge_runlimit)

lemma shifts_chargeCreate: "shifts (chargeCreate v) (\<lambda>_. 0)"
  by (rule shifts_runlimit) (rule chargeCreate_runlimit)

lemma shifts_chargeCopy: "shifts (chargeCopy v) (\<lambda>_. 0)"
  by (rule shifts_runlimit) (rule chargeCopy_runlimit)

lemma shifts_push: "shifts (push v) (\<lambda>_. item_worth a v)"
  unfolding push_def by (rule shifts_modify) (simp add: excess_def held_def stack_push_def)

lemma shifts_pop: "shifts pop (\<lambda>x. - item_worth a x)"
proof (rule shiftsI)
  fix s :: "'o vm" and x s'
  assume s: "\<not> unwinding s" and p: "pop s = (Inr x, s')"
  then show "\<not> unwinding s' \<and> excess s' = excess s + - item_worth a x"
    by (cases "cstack s" rule: rev_cases)
      (auto simp: pop_def sm_simps excess_def held_def)
qed

lemma shifts_popData: "shifts popData (\<lambda>_. 0)"
  and shifts_popBytes: "shifts popBytes (\<lambda>_. 0)"
  and shifts_popInt: "shifts popInt (\<lambda>_. 0)"
  and shifts_popTuple: "shifts popTuple (\<lambda>_. 0)"
  and shifts_popValue: "shifts popValue (\<lambda>v. - value_worth a v)"
  unfolding popData_def popBytes_def popInt_def popTuple_def popValue_def
  by (rule shifts_bind [OF shifts_pop];
      auto split: item.split data.split intro!: shifts_return shifts_panic)+

lemma shifts_popZeroValue: "shifts popZeroValue (\<lambda>_. 0)"
  unfolding popZeroValue_def
  by (rule shifts_bind [OF shifts_popValue], rule shifts_guard, rule shifts_return)
    (simp add: value_worth_def isZero_def)

lemma shifts_popBool: "shifts popBool (\<lambda>_. 0)"
  unfolding popBool_def by (rule shifts_bind [OF shifts_popData], rule shifts_return) simp

lemma shifts_pushBool: "shifts (pushBool b) (\<lambda>_. 0)"
  unfolding pushBool_def by (rule shifts_weaken [OF shifts_push]) simp

lemma shifts_peek: "shifts peek (\<lambda>_. 0)" and shifts_peekNth: "shifts (peekNth n) (\<lambda>_. 0)"
  unfolding peek_def peekNth_def
  by (rule shifts_bind [OF shifts_gets]; auto intro!: shifts_option shifts_panic shifts_return)+

lemma shifts_peekValue: "shifts peekValue (\<lambda>_. 0)"
  unfolding peekValue_def
  by (rule shifts_bind [OF shifts_peek]; auto intro!: shifts_item shifts_panic shifts_return)

lemma shifts_popDatas: "shifts (popDatas n) (\<lambda>_. 0)"
proof (induction n)
  case (Suc n)
  then show ?case
    by (auto intro!: shifts_bind [OF shifts_popData] shifts_bind [where f = "\<lambda>_. 0"] shifts_return)
qed (simp add: shifts_return)

lemma shifts_createValue: "shifts (createValue amt aid anc) (\<lambda>_. 0)"
  and shifts_createContract: "shifts (createContract C p) (\<lambda>_. 0)"
  unfolding createValue_def createContract_def
  by (rule shifts_andthen [OF shifts_charge], rule shifts_return, simp)+

lemma shifts_createValue_bind:
  assumes "shifts (k \<lparr>amount = amt, assetID = aid, anchor = anc\<rparr>) h"
  shows "shifts (bind (createValue amt aid anc) k) h"
proof -
  have "bind (createValue amt aid anc) k = andthen (charge 128) (k \<lparr>amount = amt, assetID = aid, anchor = anc\<rparr>)"
    by (simp add: createValue_def andthen_def bind_assoc)
  moreover have "shifts (andthen (charge 128) (k \<lparr>amount = amt, assetID = aid, anchor = anc\<rparr>)) h"
    by (rule shifts_andthen [OF shifts_charge]) (simp add: assms)
  ultimately show ?thesis by simp
qed

lemma shifts_createContract_bind:
  assumes "\<And>con. stack con = [] \<Longrightarrow> shifts (k con) h"
  shows "shifts (bind (createContract C p) k) h"
proof -
  let ?con = "MkContract ContractCode (ContractSeed C p) p []"
  have "bind (createContract C p) k = andthen (charge 128) (k ?con)"
    by (simp add: createContract_def andthen_def bind_assoc)
  moreover have "shifts (andthen (charge 128) (k ?con)) h"
    by (rule shifts_andthen [OF shifts_charge]) (simp add: assms)
  ultimately show ?thesis by simp
qed

lemma vmlog_run:
  assumes "vmlog E v s = (Inr x, s')"
  obtains l where "s' = runHooks (onLog E) (s\<lparr>runlimit := l, Log := Log s @ [v]\<rparr>)" "x = v"
    "\<not> Finalized s"
proof -
  from assms obtain s1 where c: "chargeCreate (Data (Tuple v)) s = (Inr (), s1)"
    and "s' = runHooks (onLog E) (s1\<lparr>Log := Log s1 @ [v]\<rparr>)" "x = v" "\<not> Finalized s"
    by (auto simp: vmlog_def sm_okE)
  with chargeCreate_runlimit [OF c] that show ?thesis by auto
qed

lemma vmlog_excess:
  assumes "vmlog E v s = (Inr x, s')"
  shows "unwinding s' = unwinding s" "contract s' = contract s" "argstack s' = argstack s"
    "excess s' = excess s - (case tuple_flow a (cstack s) v of (i, j) \<Rightarrow> i - j)"
  using assms
  by (auto elim!: vmlog_run simp: excess_def held_def on_log flow_def)

lemma shifts_vmlog:
  assumes "\<And>st. tuple_flow a st v = (i, j)"
  shows "shifts (vmlog E v) (\<lambda>_. j - i)"
  by (rule shiftsI) (simp add: vmlog_excess assms)

lemmas shifts_prims = shifts_gets shifts_charge shifts_chargeCreate shifts_chargeCopy shifts_push
  shifts_pushBool shifts_pop shifts_popData shifts_popBytes shifts_popInt shifts_popTuple
  shifts_popValue shifts_popZeroValue shifts_popBool shifts_peek shifts_peekNth shifts_peekValue
  shifts_popDatas

lemmas shifts_rules =
  shifts_guard shifts_createValue_bind shifts_createContract_bind shifts_bind shifts_andthen
  shifts_panic shifts_last_guard shifts_if shifts_option shifts_prod
  shifts_item shifts_data shifts_return shifts_prims [THEN shifts_weaken]

section \<open>Instructions that keep every value\<close>

lemma shifts_stack_ops: "shifts opDepth (\<lambda>_. 0)" "shifts opPeek (\<lambda>_. 0)" "shifts opDup (\<lambda>_. 0)"
  unfolding opDepth_def opPeek_def opDup_def
  by ((rule refl shifts_rules | simp)+)

lemma shifts_replace_stack:
  assumes "\<And>st st'. f st = Inr st' \<Longrightarrow> stack_worth a st' = stack_worth a st"
  shows "shifts (bind (gets cstack) (\<lambda>st. replace_stack (f st))) (\<lambda>_. 0)"
proof (rule shiftsI)
  fix s :: "'o vm" and x s'
  assume "\<not> unwinding s" and "bind (gets cstack) (\<lambda>st. replace_stack (f st)) s = (Inr x, s')"
  then show "\<not> unwinding s' \<and> excess s' = excess s + 0"
    by (auto simp: sm_simps replace_stack_def panic_def modify_def excess_def held_def assms
        split: sum.splits)
qed

lemma shifts_move_ops: "shifts opRoll (\<lambda>_. 0)" "shifts opBury (\<lambda>_. 0)"
  unfolding opRoll_def opBury_def
  by (rule shifts_bind [OF shifts_popInt], rule shifts_andthen [OF shifts_replace_stack],
      auto simp: stack_roll_Inr stack_bury_Inr shifts_charge)+

lemma stack_popN_worth: "stack_popN st n = (vals, st') \<Longrightarrow> stack_worth a st' + stack_worth a vals = stack_worth a st"
proof -
  assume "stack_popN st n = (vals, st')"
  then have v: "vals = rev (drop (length st - nat n) st)" and st': "st' = take (length st - nat n) st"
    by (auto simp: stack_popN_eq take_rev)
  have "stack_worth a st' + stack_worth a vals = stack_worth a (take (length st - nat n) st @ drop (length st - nat n) st)"
    unfolding v st' by (simp only: stack_worth_simps)
  then show ?thesis by simp
qed

lemma shifts_opReverse: "shifts opReverse (\<lambda>_. 0)"
  unfolding opReverse_def
proof (rule shifts_bind [OF shifts_popInt], simp only: diff_zero, rule shiftsI)
  fix n x :: int and s s' :: "'o vm" and u :: unit
  let ?m = "bind (gets cstack) (\<lambda>st. case stack_popN st n of (vals, st') \<Rightarrow>
       andthen (modify (put_stack st'))
      (andthen (guard (len vals = n) ErrStackRange)
      (andthen (modify (put_stack (st' @ vals))) (charge n))))"
  assume s: "\<not> unwinding s" and m: "?m s = (Inr u, s')"
  obtain vals st' where p: "stack_popN (cstack s) n = (vals, st')" by (cases "stack_popN (cstack s) n")
  with m have "charge n (put_stack (st' @ vals) s) = (Inr u, s')"
    by (simp add: sm_simps put_stack_def split: if_splits)
  from charge_runlimit [OF this] s show "\<not> unwinding s' \<and> excess s' = excess s + 0"
    using stack_popN_worth [OF p] by (auto simp: excess_def held_def)
qed

lemma shifts_each_Data: "shifts (each (\<lambda>v. push (Data v)) t) (\<lambda>_. 0)"
  by (induction t) (auto intro!: shifts_return shifts_andthen [where f = "\<lambda>_. 0"] shifts_push [THEN shifts_weaken])

lemma droppable_worth: "isDroppable x \<Longrightarrow> item_worth a x = 0"
  by (cases x) (auto simp: isZero_def value_worth_def)

lemma shifts_data_ops:
  "shifts opDrop (\<lambda>_. 0)" "shifts opEq (\<lambda>_. 0)" "shifts opLen (\<lambda>_. 0)" "shifts opTuple (\<lambda>_. 0)"
  "shifts opUntuple (\<lambda>_. 0)" "shifts opField (\<lambda>_. 0)" "shifts opEncode (\<lambda>_. 0)"
  "shifts opInt (\<lambda>_. 0)"
  unfolding opDrop_def opEq_def opLen_def opTuple_def opUntuple_def opField_def opEncode_def
    opInt_def Let_def
  by ((rule refl shifts_each_Data shifts_rules | simp add: droppable_worth)+)

lemma shifts_math_ops:
  "shifts opAdd (\<lambda>_. 0)" "shifts opMul (\<lambda>_. 0)" "shifts opDiv (\<lambda>_. 0)" "shifts opMod (\<lambda>_. 0)"
  "shifts opNeg (\<lambda>_. 0)" "shifts opGT (\<lambda>_. 0)" "shifts opNot (\<lambda>_. 0)" "shifts opAnd (\<lambda>_. 0)"
  "shifts opOr (\<lambda>_. 0)" "shifts opBitNot (\<lambda>_. 0)" "shifts opBitAnd (\<lambda>_. 0)"
  "shifts opBitOr (\<lambda>_. 0)" "shifts opBitXor (\<lambda>_. 0)" "shifts opCat (\<lambda>_. 0)" "shifts opSlice (\<lambda>_. 0)"
  unfolding opAdd_def opMul_def opDiv_def opMod_def binOp_def opNeg_def opGT_def opNot_def
    opAnd_def opOr_def opBitNot_def opBitAnd_def opBitOr_def opBitXor_def bitOp_def opCat_def
    opSlice_def Let_def
  by ((rule refl shifts_rules | simp)+)

lemma shifts_crypto_ops:
  "shifts (opVMHash E) (\<lambda>_. 0)" "shifts (opSHA256 E) (\<lambda>_. 0)" "shifts (opSHA3 E) (\<lambda>_. 0)"
  "shifts (opCheckSig E) (\<lambda>_. 0)"
  unfolding opVMHash_def opSHA256_def opSHA3_def opCheckSig_def pushHash_def checkEd25519_def
  by ((rule refl shifts_rules | simp)+)

lemma shifts_read_ops:
  "shifts opAmount (\<lambda>_. 0)" "shifts opAssetID (\<lambda>_. 0)" "shifts opAnchor (\<lambda>_. 0)"
  "shifts opPeekLog (\<lambda>_. 0)" "shifts opTxID (\<lambda>_. 0)" "shifts opVerify (\<lambda>_. 0)"
  "shifts opContractProgram (\<lambda>_. 0)" "shifts opSelf (\<lambda>_. 0)" "shifts opSeed (\<lambda>_. 0)"
  "shifts opCaller (\<lambda>_. 0)" "shifts opExt (\<lambda>_. 0)" "shifts opPrv (\<lambda>_. 0)"
  unfolding opAmount_def opAssetID_def opAnchor_def opPeekLog_def opTxID_def opVerify_def
    opContractProgram_def opSelf_def opSeed_def opCaller_def opExt_def opPrv_def
  by ((rule refl shifts_rules | simp)+)

section \<open>Instructions that log\<close>

lemma shifts_log_entries:
  "shifts (logNonce E bid ex) (\<lambda>_. 0)" "shifts (logTimeRange E mn mx) (\<lambda>_. 0)"
  "shifts (logFinalize E anc) (\<lambda>_. 0)"
  unfolding logNonce_def logTimeRange_def logFinalize_def NonceTuple_def
  by ((rule shifts_bind [OF shifts_gets])+,
      rule shifts_weaken [OF shifts_vmlog], simp add: typecode_defs, simp)+

lemma shifts_logIssuance: "shifts (logIssuance E amt aid anc) (\<lambda>_. - (if aid = a then amt else 0))"
  unfolding logIssuance_def
  by (rule shifts_bind [OF shifts_gets],
      rule shifts_weaken [OF shifts_vmlog [where i = "if aid = a then amt else 0" and j = 0]])
    (simp_all add: typecode_defs)

lemma shifts_logRetirement: "shifts (logRetirement E amt aid anc) (\<lambda>_. if aid = a then amt else 0)"
  unfolding logRetirement_def
  by (rule shifts_bind [OF shifts_gets],
      rule shifts_weaken [OF shifts_vmlog [where j = "if aid = a then amt else 0" and i = 0]])
    (simp_all add: typecode_defs)

lemma shifts_vmlog_LogCode: "shifts (vmlog E [Bytes [LogCode], Bytes sd, d]) (\<lambda>_. 0)"
  by (rule shifts_weaken [OF shifts_vmlog [where i = 0 and j = 0]])
    (cases d; simp add: typecode_defs)+

lemmas shifts_logs = shifts_log_entries [THEN shifts_weaken] shifts_logIssuance [THEN shifts_weaken]
  shifts_logRetirement [THEN shifts_weaken] shifts_vmlog_LogCode [THEN shifts_weaken]

lemma shifts_value_ops:
  "shifts (opIssue E) (\<lambda>_. 0)" "shifts (opSplit E) (\<lambda>_. 0)" "shifts (opRetire E) (\<lambda>_. 0)"
  "shifts (opNonce E) (\<lambda>_. 0)" "shifts (opLog E) (\<lambda>_. 0)" "shifts (opTimeRange E) (\<lambda>_. 0)"
  unfolding opIssue_def opSplit_def opRetire_def opNonce_def opLog_def opTimeRange_def Let_def
  by ((rule refl shifts_logs shifts_rules | simp add: value_worth_def)+)

lemma shifts_opContract: "shifts (opContract E) (\<lambda>_. 0)"
  unfolding opContract_def
  by ((rule refl shifts_rules | simp add: contract_worth_stack)+)

lemma excess_fields [simp]:
  "excess (s\<lparr>Finalized := b\<rparr>) = excess s" "excess (s\<lparr>TxID := h\<rparr>) = excess s"
  "excess (s\<lparr>run := r\<rparr>) = excess s" "excess (s\<lparr>runstack := rs\<rparr>) = excess s"
  "excess (s\<lparr>caller := h\<rparr>) = excess s" "excess (s\<lparr>runlimit := l\<rparr>) = excess s"
  "excess (s\<lparr>opcode := opc\<rparr>) = excess s" "excess (s\<lparr>vdata := d\<rparr>) = excess s"
  by (simp_all add: excess_def held_def)

lemma excess_hooks [simp]:
  "excess (runHooks (beforeStep E) s) = excess s" "excess (runHooks (afterStep E) s) = excess s"
  "excess (runHooks (onFinalize E) s) = excess s"
  by (simp_all add: excess_def held_def before_step after_step on_finalize)

lemma shifts_modify_0:
  assumes "\<And>s. unwinding (f s) = unwinding s \<and> excess (f s) = excess s" and "h () = 0"
  shows "shifts (modify f) h"
  by (rule shifts_weaken [OF shifts_modify [where d = 0]]) (simp_all add: assms)

lemma shifts_opFinalize: "shifts (opFinalize E) (\<lambda>_. 0)"
  unfolding opFinalize_def
  by ((rule refl shifts_logs shifts_modify_0 shifts_rules | simp)+)

lemma shifts_opJumpIf: "shifts opJumpIf (\<lambda>_. 0)"
  unfolding opJumpIf_def
  by ((rule refl shifts_modify_0 shifts_rules | simp)+)

lemma shifts_opPut: "shifts opPut (\<lambda>_. 0)"
  unfolding opPut_def
proof (rule shifts_bind [OF shifts_pop])
  fix x
  show "shifts (modify (\<lambda>vm. vm\<lparr>argstack := stack_push (argstack vm) x\<rparr>)) (\<lambda>_. 0 - - item_worth a x)"
    by (rule shifts_modify) (simp add: excess_def held_def stack_push_def)
qed

lemma shifts_opGet: "shifts opGet (\<lambda>_. 0)"
proof (rule shiftsI)
  fix s :: "'o vm" and x s'
  assume "\<not> unwinding s" and "opGet s = (Inr x, s')"
  then show "\<not> unwinding s' \<and> excess s' = excess s + 0"
    by (cases "argstack s" rule: rev_cases)
      (auto simp: opGet_def sm_simps push_def stack_push_def excess_def held_def)
qed

section \<open>Merging, and entering and leaving contracts\<close>

lemma balanced_opMerge: "balanced n (opMerge E)"
proof (rule balancedI)
  fix s s'
  assume ok: "vm_ok n s" and u: "\<not> unwinding s" and m: "opMerge E s = (Inr (), s')"
  from m obtain v v' st where st: "cstack s = st @ [Value v', Value v]" and aid: "assetID v = assetID v'"
    by (auto simp: opMerge_def sm_okE pop_typed_ok case_prod_beta)
  from vm_ok_stack [OF ok] st have r: "is_int64 (amount v)" "is_int64 (amount v')"
    by (auto simp: value_ok_def)
  have sh: "shifts (case AddInt64 (amount v) (amount v') of (amt, ok) \<Rightarrow>
       andthen (guard ok ErrIntOverflow)
      (bind (createValue amt (assetID v) (VMHash E (str ''Merge'') (anchor v @ anchor v'))) (\<lambda>val.
       push (Value val)))) (\<lambda>_. value_worth a v + value_worth a v')"
    by ((rule refl shifts_rules | force simp: value_worth_def aid dest: add64.ok_val [OF r])+)
  from m st have r: "(case AddInt64 (amount v) (amount v') of (amt, ok) \<Rightarrow>
       andthen (guard ok ErrIntOverflow)
      (bind (createValue amt (assetID v) (VMHash E (str ''Merge'') (anchor v @ anchor v'))) (\<lambda>val.
       push (Value val)))) (put_stack st s) = (Inr (), s')"
    by (auto simp: opMerge_def sm_okE pop_typed_ok case_prod_beta)
  show "excess s' = excess s"
    using shiftsD(2) [OF sh _ r] u st by (simp add: excess_def held_def)
qed

lemma logInput_excess:
  assumes "logInput E h s = (Inr x, s')" and "cstack s = st @ [y]"
  shows "excess s' = excess s - item_worth a y" "unwinding s' = unwinding s"
proof -
  obtain v where "vmlog E v s = (Inr x, s')" "tuple_flow a (cstack s) v = (item_worth a y, 0)"
    using assms by (auto simp: logInput_def sm_okE typecode_defs)
  then show "excess s' = excess s - item_worth a y" "unwinding s' = unwinding s"
    by (simp_all add: vmlog_excess)
qed

lemma logOutput_excess:
  assumes "logOutput E h s = (Inr x, s')"
  shows "excess s' = excess s + stack_worth a (cstack s)" "unwinding s' = unwinding s"
    "contract s' = contract s"
proof -
  obtain v where "vmlog E v s = (Inr x, s')" "tuple_flow a (cstack s) v = (0, stack_worth a (cstack s))"
    using assms by (auto simp: logOutput_def sm_okE typecode_defs)
  then show "excess s' = excess s + stack_worth a (cstack s)" "unwinding s' = unwinding s"
    "contract s' = contract s"
    by (simp_all add: vmlog_excess)
qed

lemma shifts_opInput: "shifts (opInput E) (\<lambda>_. 0)"
  unfolding opInput_def Let_def
proof (rule shifts_bind [OF shifts_popTuple], simp only: diff_zero)
  fix t
  let ?id = "snd (contractSnapshot E t)"
  show "shifts (case uninspect_contract t of Inl e \<Rightarrow> panic e
     | Inr con \<Rightarrow> andthen (chargeCreate (Contract con))
        (andthen (push (Contract con)) (andthen (logInput E ?id) (return ())))) (\<lambda>_. 0)"
  proof (cases "uninspect_contract t")
    case (Inl e)
    then show ?thesis by (simp add: shifts_panic)
  next
    case (Inr con)
    have "shifts (andthen (push (Contract con)) (andthen (logInput E ?id) (return ()))) (\<lambda>_. 0)"
    proof (rule shiftsI)
      fix s :: "'o vm" and x s'
      let ?s1 = "put_stack (cstack s @ [Contract con]) s"
      assume u: "\<not> unwinding s"
        and m: "andthen (push (Contract con)) (andthen (logInput E ?id) (return ())) s = (Inr x, s')"
      from m obtain y where "logInput E ?id ?s1 = (Inr y, s')"
        by (auto simp: push_def stack_push_def sm_okE)
      note l = logInput_excess [OF this, of "cstack s" "Contract con"]
      show "\<not> unwinding s' \<and> excess s' = excess s + 0"
        using l u by (simp add: excess_def held_def)
    qed
    then show ?thesis
      using shifts_andthen [OF shifts_chargeCreate, of _ "\<lambda>_. 0" "Contract con"] Inr by simp
  qed
qed

lemma balanced_opOutput: "balanced n (opOutput E)"
proof (rule balancedI)
  fix s s' :: "'o vm"
  assume u: "\<not> unwinding s" and m: "opOutput E s = (Inr (), s')"
  from m obtain p st h x s1 s2 i where st: "cstack s = st @ [Data (Bytes p)]"
    and c: "chargeCreate (Data (Bytes h)) ((put_stack st s)\<lparr>contract := set_program p (contract (put_stack st s))\<rparr>) = (Inr (), s1)"
    and l: "logOutput E i s1 = (Inr x, s2)" and s': "s' = s2\<lparr>unwinding := True\<rparr>"
    by (auto simp: opOutput_def sm_okE pop_typed_ok case_prod_beta)
  from c have s1: "\<not> unwinding s1" "cstack s1 = st" "excess s1 = excess s"
    using chargeCreate_runlimit [OF c] u st by (auto simp: excess_def held_def)
  note out = logOutput_excess [OF l]
  from out s1 have "excess s2 = excess s + stack_worth a st" "\<not> unwinding s2" "cstack s2 = st"
    by simp_all
  then show "excess s' = excess s" by (simp add: s' excess_def held_def)
qed

lemma balanced_opYield: "balanced n opYield"
proof (rule balancedI)
  fix s s' :: "'o vm"
  assume "\<not> unwinding s" and "opYield s = (Inr (), s')"
  then show "excess s' = excess s"
    by (auto simp: opYield_def sm_okE pop_typed_ok excess_def held_def stack_push_def
        contract_worth_stack)
qed

lemma balanced_opWrap: "balanced n opWrap"
proof (rule balancedI)
  fix s s' :: "'o vm"
  assume "\<not> unwinding s" and "opWrap s = (Inr (), s')"
  then show "excess s' = excess s"
    by (auto simp: opWrap_def sm_okE pop_typed_ok excess_def held_def stack_push_def
        contract_worth_stack)
qed

section \<open>Whole runs\<close>

lemma balanced_opExec: "(\<And>p. balanced n (ex p)) \<Longrightarrow> balanced n (opExec ex)"
proof (rule balancedI)
  fix s s' :: "'o vm"
  assume ex: "\<And>p. balanced n (ex p)" and ok: "vm_ok n s" and u: "\<not> unwinding s"
    and m: "opExec ex s = (Inr (), s')"
  from m obtain p st where st: "cstack s = st @ [Data (Bytes p)]" and r: "ex p (put_stack st s) = (Inr (), s')"
    by (auto simp: opExec_def sm_okE pop_typed_ok)
  have "vm_ok n (put_stack st s)" using vm_ok_put_stack [OF ok] vm_ok_stack [OF ok] st by simp
  from balancedD [OF ex this _ r] u have "excess s' = excess (put_stack st s)" by simp
  then show "excess s' = excess s" using u st by (simp add: excess_def held_def)
qed

lemma balanced_opCall:
  assumes ex: "\<And>p. balanced n (ex p)"
  shows "balanced n (opCall ex)"
proof (rule balancedI)
  fix s s' :: "'o vm"
  assume ok: "vm_ok n s" and u: "\<not> unwinding s" and m: "opCall ex s = (Inr (), s')"
  from m obtain x s1 where p: "pop s = (Inr x, s1)" by (auto simp: opCall_def bind_ok)
  with m obtain con where x: "x = Contract con" by (cases x) (auto simp: opCall_def bind_ok panic_ok)
  from m p x obtain st s2 where st: "cstack s = st @ [Contract con]"
    and r: "ex (program con) ((put_stack st s)\<lparr>caller := seed (contract s),
        contract := set_typecode ContractCode con\<rparr>) = (Inr (), s2)"
    and e: "\<not> unwinding s2 \<longrightarrow> cstack s2 = []"
    and s': "s' = s2\<lparr>unwinding := False, contract := contract (put_stack st s), caller := caller s\<rparr>"
    by (fastforce simp: opCall_def sm_okE pop_ok Let_def len_pos)
  let ?s1 = "(put_stack st s)\<lparr>caller := seed (contract s), contract := set_typecode ContractCode con\<rparr>"
  have "item_ok (Contract con)" "list_all item_ok st" using vm_ok_stack [OF ok] st by auto
  then have "vm_ok n ?s1"
    using vm_ok_put_stack [OF ok, of st] by (simp add: vm_ok_def contract_ok_set code_ok_def)
  from balancedD [OF ex this _ r] u have 2: "excess s2 = excess ?s1" by simp
  have "bal (obs s2) - stack_worth a (argstack s2) =
      bal (obs s) - stack_worth a (argstack s) - contract_worth a con"
    using 2 e u by (auto simp: excess_def held_def contract_worth_stack split: if_splits)
  then show "excess s' = excess s" using u st by (simp add: s' excess_def held_def)
qed

lemma balanced_opTable:
  assumes "\<And>p. balanced n (ex p)"
  shows "list_all (\<lambda>(_, m). balanced n m) (opTable E ex)"
  unfolding opTable_def
  by (simp add: shifts_move_ops shifts_opReverse shifts_stack_ops shifts_data_ops shifts_math_ops
      shifts_crypto_ops shifts_read_ops shifts_value_ops shifts_opContract shifts_opFinalize
      shifts_opJumpIf shifts_opPut shifts_opGet shifts_opInput shifts_balanced
      balanced_opMerge balanced_opOutput balanced_opYield balanced_opWrap
      balanced_opExec [OF assms] balanced_opCall [OF assms])

lemma balanced_handler:
  assumes "\<And>p. balanced n (ex p)"
  shows "balanced n (handler E ex opc d)"
proof -
  have "balanced n (opFuncs E ex opc)"
  proof (cases "map_of (opTable E ex) opc")
    case (Some m)
    then have "(opc, m) \<in> set (opTable E ex)" by (rule map_of_SomeD)
    with balanced_opTable [of n ex, OF assms] Some show ?thesis by (auto simp: opFuncs_def list_all_iff)
  qed (simp add: opFuncs_def shifts_balanced shifts_panic)
  moreover have "shifts (push (Data x)) (\<lambda>_. 0)" for x
    by (rule shifts_weaken [OF shifts_push]) simp
  moreover from this have "shifts (andthen (chargeCreate (Data (Bytes d))) (push (Data (Bytes d)))) (\<lambda>_. 0)"
    by (intro shifts_andthen [OF shifts_chargeCreate]) simp
  ultimately show ?thesis by (simp add: handler_def shifts_balanced)
qed

lemma balanced_step:
  assumes "\<And>p. balanced n (ex p)"
  shows "balanced (Suc n) (step E ex)"
proof (rule balancedI)
  fix s s' :: "'o vm"
  assume ok: "vm_ok (Suc n) s" and u: "\<not> unwinding s" and m: "step E ex s = (Inr (), s')"
  from m obtain opc d i s1 s2 where
    c: "charge 1 (runHooks (beforeStep E) (s\<lparr>opcode := opc, vdata := d\<rparr>)) = (Inr (), s1)"
    and h: "handler E ex opc d (s1\<lparr>run := (run s1)\<lparr>pc := pc (run s1) + i\<rparr>\<rparr>) = (Inr (), s2)"
    and s': "s' = runHooks (afterStep E) s2"
    by (auto simp: step_def handler_def [symmetric] sm_okE case_prod_beta split: sum.split_asm)
  have "vm_ok (Suc n) (runHooks (beforeStep E) (s\<lparr>opcode := opc, vdata := d\<rparr>))"
    using ok by (intro vm_ok_hooks) (simp add: vm_ok_def)
  with c have "vm_ok n s1"
    by (auto simp: charge_def sm_okE vm_ok_def)
  then have ok1: "vm_ok n (s1\<lparr>run := (run s1)\<lparr>pc := pc (run s1) + i\<rparr>\<rparr>)" by simp
  have 1: "\<not> unwinding s1" "excess s1 = excess s"
    using charge_runlimit [OF c] u by auto
  from balancedD [OF balanced_handler [OF assms] ok1 _ h] 1 show "excess s' = excess s"
    by (simp add: s')
qed

lemma balanced_exec_with:
  assumes body: "balanced n body"
  shows "balanced n (exec_with body p)"
proof (rule balancedI)
  fix s s' :: "'o vm"
  assume ok: "vm_ok n s" and u: "\<not> unwinding s" and m: "exec_with body p s = (Inr (), s')"
  define s1 where "s1 = (if len (prog (run s)) > 0 then s\<lparr>runstack := runstack s @ [run s]\<rparr> else s)
    \<lparr>run := \<lparr>pc = 0, prog = p\<rparr>\<rparr>"
  from m obtain s2 where b: "body s1 = (Inr (), s2)" and e: "excess s' = excess s2"
    by (cases "body s1") (auto simp: exec_with_def Let_def s1_def [symmetric])
  have "vm_ok n s1" "\<not> unwinding s1" "excess s1 = excess s" using ok u by (simp_all add: s1_def)
  with balancedD [OF body _ _ b] e show "excess s' = excess s" by simp
qed

lemma loop_unwinding: "unwinding s \<Longrightarrow> loop E n s = (Inr (), s') \<Longrightarrow> s' = s"
  by (cases n) (auto simp: sm_simps panic_def return_def split: if_splits)

lemma balanced_loop: "balanced n (loop E n)"
proof (induction n)
  case 0
  show ?case by (rule balancedI) (simp add: panic_ok)
next
  case (Suc n)
  let ?ex = "exec_with (loop E n)"
  have st: "balanced (Suc n) (step E ?ex)"
    by (intro balanced_step balanced_exec_with Suc)
  have dr: "drops n (step E ?ex) (\<lambda>_. True)"
    by (intro step_drops sound_exec_with sound_loop)
  show ?case
  proof (rule balancedI)
    fix s s' :: "'o vm"
    assume ok: "vm_ok (Suc n) s" and u: "\<not> unwinding s" and m: "loop E (Suc n) s = (Inr (), s')"
    show "excess s' = excess s"
    proof (cases "pc (run s) < len (prog (run s))")
      case False
      with m show ?thesis by (simp add: sm_simps)
    next
      case True
      with m u obtain s2 where s2: "step E ?ex s = (Inr (), s2)"
        and rest: "(if Finalized s2 \<and> stopAfterFinalize s2 then return () else loop E n) s2 = (Inr (), s')"
        by (auto simp: sm_okE)
      have e2: "excess s2 = excess s" by (rule balancedD [OF st ok u s2])
      from dr ok s2 have "vm_ok n s2" by (auto simp: drops_def dest: spec [of _ s])
      then have "excess s' = excess s2"
        using rest balancedD [OF Suc, of s2 s'] loop_unwinding [of s2 n s']
        by (cases "unwinding s2") (auto simp: return_ok split: if_splits)
      with e2 show ?thesis by simp
    qed
  qed
qed

lemma balanced_exec: "balanced n (exec E n p)"
  unfolding exec_def by (rule balanced_exec_with [OF balanced_loop])

lemma validate_balance:
  assumes "vm_ok n vm" and "\<not> unwinding vm" and "\<not> stopAfterFinalize vm"
    and "validate E n p vm = (Inr u, vm')"
  shows "bal (obs vm') = bal (obs vm) - held a vm"
proof -
  have "exec E n p vm = (Inr (), vm')"
    using assms(4) by (auto simp: validate_def sm_okE)
  from balancedD [OF balanced_exec assms(1,2) this] have "excess vm' = excess vm" .
  moreover have "\<not> stopAfterFinalize vm'"
    using config.validate_relates [OF assms(4)] assms(3) by (simp add: same_config_def)
  then have "held a vm' = 0"
    using validate_ok_empty(2) [OF assms(4)] by (simp add: held_def)
  ultimately show ?thesis by (simp add: excess_def)
qed

end

section \<open>An observer of the log\<close>

definition ledger_hook :: "bytes \<Rightarrow> (int \<times> int) hook" where
  \<comment> \<open>adds up what entered and what left\<close>
  "ledger_hook a vm =
     (case tuple_flow a (cstack vm) (last (Log vm)) of (i, j) \<Rightarrow> (fst (obs vm) + i, snd (obs vm) + j))"

definition ledger_env :: "crypto \<Rightarrow> bytes \<Rightarrow> (int \<times> int) env" where
  "ledger_env C a = (init_env C)\<lparr>onLog := [ledger_hook a]\<rparr>"

interpretation book: ledger "ledger_env C a" a "\<lambda>(i, j). i - j" for C a
  by unfold_locales
    (auto simp: ledger_env_def init_env_def crypto.extend_def runHooks_def ledger_hook_def flow_def
      split: prod.split)

text \<open>
  C1: Conservation of value. Run any program under an observer of its log that adds up, for
  one asset, the amounts of its issuances and of the contracts it inputs on one side and the
  amounts of its retirements and of the contracts it outputs on the other. If validation
  succeeds, the two sides are equal: no instruction creates or destroys value.
\<close>

theorem Validate_conserves_value:
  assumes "Validate C (0, 0) p version limit [OnLog [ledger_hook a]] = (Some vm, None)"
    and "is_int64 version"
  shows "fst (obs vm) = snd (obs vm)"
proof -
  from assms(1) have v3: "\<not> version < 3" by (auto simp: Validate_def)
  let ?E = "ledger_env C a" and ?vm0 = "init_vm (0 :: int, 0 :: int) p version limit"
  have E: "fold apply_Option [OnLog [ledger_hook a]] (init_env C, ?vm0) = (?E, ?vm0)"
    and hooks: "onExit ?E = []"
    by (simp_all add: ledger_env_def init_env_def crypto.extend_def)
  obtain r vm1 where v1: "validate ?E (vm_fuel ?vm0) p ?vm0 = (r, vm1)"
    by (cases "validate ?E (vm_fuel ?vm0) p ?vm0")
  from assms(1) v3 have "vm1 = vm" "r = Inr ()"
    unfolding Validate_def E prod.case v1 hooks
    by (auto simp: runHooks_def split: sum.splits)
  with v1 have v: "validate ?E (vm_fuel ?vm0) p ?vm0 = (Inr (), vm)" by simp
  have "len p \<le> limit" using validate_ok_empty(1) [OF v] by (simp add: init_vm_def)
  then have "0 \<le> limit" using len_nonneg [of p] by linarith
  then have "vm_ok (vm_fuel ?vm0) ?vm0"
    using init_vm_ok [of ?vm0 "(0, 0)" p version limit] assms(2) by (simp add: init_vm_def)
  from book.validate_balance [OF this _ _ v] show ?thesis
    by (simp add: init_vm_def held_def split: prod.splits)
qed

definition issue_prog :: bytes where
  \<comment> \<open>issue 7 units anchored in a nonce, and retire them\<close>
  "issue_prog = [MinPushdata, 5, op_Nonce, 7, MinPushdata, op_Issue, op_Retire]"

definition issue_run :: "(int \<times> int) vm option \<times> vmerror option" where
  "issue_run = Validate sample_crypto (0, 0) issue_prog 3 1000
     [OnLog [ledger_hook (AssetID sample_crypto emptySeed [])]]"

lemma issue_run_ok: "snd issue_run = None \<and> map_option (fst \<circ> obs) (fst issue_run) = Some 7"
  by code_simp

theorem Validate_conserves_value_witness:
  "\<exists>vm. issue_run = (Some vm, None) \<and> obs vm = (7, 7)"
proof -
  obtain vm where vm: "issue_run = (Some vm, None)" "fst (obs vm) = 7"
    using issue_run_ok by (metis (no_types, lifting) comp_apply map_option_eq_Some prod.collapse)
  with Validate_conserves_value [OF vm(1) [unfolded issue_run_def]] show ?thesis
    by (intro exI [of _ vm]) (simp add: is_int64_iff prod_eq_iff)
qed

end
