(* ===== verification/Builder.thy ===== *)
theory Builder
  imports VMEncode
begin

text \<open>
  The program builder (\<^verbatim>\<open>protocol/txvm/txvmutil/builder.go\<close>). A \<^verbatim>\<open>Builder\<close> is its buffer; a
  \<^verbatim>\<open>TupleBuilder\<close> is the buffer of its builder and the count of data pushed. A callback passed to
  \<^verbatim>\<open>Tuple\<close> is a function on tuple builders.

  Shown here: the program built for a datum pushes that datum. Unlike \<^verbatim>\<open>txvm.Encode\<close>, the builder
  writes a negative integer as its absolute value followed by \<^verbatim>\<open>neg\<close>.
\<close>

section \<open>Writing instructions\<close>

definition writeVarint :: "bytes \<Rightarrow> uint64 \<Rightarrow> bytes" where
  "writeVarint buf v = buf @ PutUvarint v"

definition b_writePushdata :: "bytes \<Rightarrow> bytes \<Rightarrow> bytes" where
  "b_writePushdata buf dat = writeVarint buf (word_of_int (len dat) + ucast MinPushdata) @ dat"

function writePushint64 :: "bytes \<Rightarrow> int \<Rightarrow> bytes" where
  \<comment> \<open>the argument is an int64\<close>
  "writePushint64 buf num =
     (if IsSmallInt num then buf @ [MinSmallInt + word_of_int num]
      else if num < 0 \<and> num \<noteq> minInt 64 then writePushint64 buf (- num) @ [op_Neg]
      else b_writePushdata buf (PutUvarint (word_of_int num)) @ [op_Int])"
  by pat_completeness auto
termination
  by (relation "measure (\<lambda>(_, n). if n < 0 then 1 else 0)") auto

declare writePushint64.simps [simp del]

section \<open>Builders\<close>

type_synonym Builder = bytes

record TupleBuilder =
  tb_b :: Builder
  count :: int

definition Build :: "Builder \<Rightarrow> bytes" where
  "Build b = b"

definition PushdataBytes :: "bytes \<Rightarrow> Builder \<Rightarrow> Builder" where
  "PushdataBytes dat b = b_writePushdata b dat"

definition PushdataByte :: "byte \<Rightarrow> Builder \<Rightarrow> Builder" where
  "PushdataByte byt b = writeVarint b (1 + ucast MinPushdata) @ [byt]"

definition PushdataInt64 :: "int \<Rightarrow> Builder \<Rightarrow> Builder" where
  "PushdataInt64 v b = writePushint64 b v"

definition PushdataUint64 :: "uint64 \<Rightarrow> Builder \<Rightarrow> Builder option" where
  \<comment> \<open>\<open>None\<close>: panic\<close>
  "PushdataUint64 v b = (if uint v > maxInt 64 then None else Some (PushdataInt64 (uint v) b))"

definition Concat :: "bytes \<Rightarrow> Builder \<Rightarrow> Builder" where
  "Concat p b = b @ p"

definition Op :: "byte \<Rightarrow> Builder \<Rightarrow> Builder" where
  "Op o' b = b @ [o']"

definition Builder_Tuple :: "(TupleBuilder \<Rightarrow> TupleBuilder) \<Rightarrow> Builder \<Rightarrow> Builder" where
  "Builder_Tuple fn b =
     (let tb = fn \<lparr>tb_b = b, count = 0\<rparr> in Op op_Tuple (PushdataInt64 (count tb) (tb_b tb)))"

definition tb_PushdataBytes :: "bytes \<Rightarrow> TupleBuilder \<Rightarrow> TupleBuilder" where
  "tb_PushdataBytes dat tb = tb\<lparr>tb_b := PushdataBytes dat (tb_b tb), count := wrap64 (count tb + 1)\<rparr>"

definition tb_PushdataByte :: "byte \<Rightarrow> TupleBuilder \<Rightarrow> TupleBuilder" where
  "tb_PushdataByte byt tb = tb\<lparr>tb_b := PushdataByte byt (tb_b tb), count := wrap64 (count tb + 1)\<rparr>"

definition tb_PushdataInt64 :: "int \<Rightarrow> TupleBuilder \<Rightarrow> TupleBuilder" where
  "tb_PushdataInt64 v tb = tb\<lparr>tb_b := PushdataInt64 v (tb_b tb), count := wrap64 (count tb + 1)\<rparr>"

definition tb_Tuple :: "(TupleBuilder \<Rightarrow> TupleBuilder) \<Rightarrow> TupleBuilder \<Rightarrow> TupleBuilder" where
  "tb_Tuple fn tb =
     (let inner = fn \<lparr>tb_b = tb_b tb, count = 0\<rparr> in
      tb\<lparr>tb_b := Op op_Tuple (PushdataInt64 (count inner) (tb_b inner)), count := wrap64 (count tb + 1)\<rparr>)"

section \<open>Building a datum\<close>

text \<open>The calls that a client makes to push a datum.\<close>

fun tb_data :: "data \<Rightarrow> TupleBuilder \<Rightarrow> TupleBuilder"
  and tb_datas :: "data list \<Rightarrow> TupleBuilder \<Rightarrow> TupleBuilder" where
  "tb_data (Int64 i) tb = tb_PushdataInt64 i tb"
| "tb_data (Bytes b) tb = tb_PushdataBytes b tb"
| "tb_data (Tuple ts) tb = tb_Tuple (tb_datas ts) tb"
| "tb_datas [] tb = tb"
| "tb_datas (t # ts) tb = tb_datas ts (tb_data t tb)"

fun build_data :: "data \<Rightarrow> Builder \<Rightarrow> Builder" where
  "build_data (Int64 i) b = PushdataInt64 i b"
| "build_data (Bytes x) b = PushdataBytes x b"
| "build_data (Tuple ts) b = Builder_Tuple (tb_datas ts) b"

text \<open>What the calls write, independently of the buffer, and what it costs to run.\<close>

definition pushint64_code :: "int \<Rightarrow> bytes" where
  "pushint64_code i = writePushint64 [] i"

fun data_code :: "data \<Rightarrow> bytes" where
  "data_code (Int64 i) = pushint64_code i"
| "data_code (Bytes b) = writePushdata b"
| "data_code (Tuple ts) = concat (map data_code ts) @ pushint64_code (len ts) @ [op_Tuple]"

definition pushint64_cost :: "int \<Rightarrow> int" where
  "pushint64_cost i = (if \<not> IsSmallInt i \<and> i < 0 \<and> i \<noteq> minInt 64 then int_cost (- i) + 1 else int_cost i)"

fun data_cost :: "data \<Rightarrow> int" where
  "data_cost (Int64 i) = pushint64_cost i"
| "data_cost (Bytes b) = 2 + len b"
| "data_cost (Tuple ts) = sum_list (map data_cost ts) + (pushint64_cost (len ts) + (2 + len ts))"

lemma b_writePushdata_eq: "b_writePushdata buf dat = buf @ writePushdata dat"
  by (simp add: b_writePushdata_def writeVarint_def writePushdata_def)

lemma writePushint64_nonneg:
  "\<not> (num < 0 \<and> num \<noteq> minInt 64) \<or> IsSmallInt num \<Longrightarrow> writePushint64 buf num = buf @ encode_Int num"
  by (auto simp: writePushint64.simps [of buf num] encode_Int_def b_writePushdata_eq)

lemma writePushint64_eq: "writePushint64 buf num = buf @ pushint64_code num"
proof (cases "\<not> IsSmallInt num \<and> num < 0 \<and> num \<noteq> minInt 64")
  case True
  then show ?thesis
    by (simp add: pushint64_code_def writePushint64.simps [of _ num] writePushint64_nonneg)
next
  case False
  then have "\<not> (num < 0 \<and> num \<noteq> minInt 64) \<or> IsSmallInt num" by blast
  then show ?thesis by (simp add: pushint64_code_def writePushint64_nonneg)
qed

lemma pushint64_code_eq: "pushint64_code i =
  (if \<not> IsSmallInt i \<and> i < 0 \<and> i \<noteq> minInt 64 then encode_Int (- i) @ [op_Neg] else encode_Int i)"
  by (auto simp: pushint64_code_def writePushint64.simps [of _ i] writePushint64_nonneg encode_Int_def b_writePushdata_eq)

lemma tb_datas_code:
  assumes "\<And>t tb. t \<in> set ts \<Longrightarrow> tb_b (tb_data t tb) = tb_b tb @ data_code t \<and> count (tb_data t tb) = wrap64 (count tb + 1)"
    and "0 \<le> count tb" and "count tb + len ts < 2 ^ 63"
  shows "tb_b (tb_datas ts tb) = tb_b tb @ concat (map data_code ts) \<and>
    count (tb_datas ts tb) = count tb + len ts"
  using assms
proof (induction ts arbitrary: tb)
  case (Cons t ts)
  have "wrap64 (count tb + 1) = count tb + 1"
    using Cons.prems(2,3) len_nonneg [of ts] by (intro wrap64_id) (simp add: is_int64_iff del: len_nonneg)
  with Cons.IH [of "tb_data t tb"] Cons.prems show ?case by (simp add: algebra_simps)
qed simp

lemma len_concat_data_code: "t \<in> set ts \<Longrightarrow> len (data_code t) \<le> len (concat (map data_code ts))"
  by (induction ts) (auto simp: add_increasing add_increasing2)

lemma len_pushint64_code_pos: "1 \<le> len (pushint64_code i)"
  using len_encode_Int_pos by (simp add: pushint64_code_eq)

lemma len_data_code_pos: "1 \<le> len (data_code d)"
proof (cases d)
  case (Bytes b)
  then show ?thesis using len_writePushdata [of b] len_nonneg [of b] by (simp del: len_nonneg)
next
  case (Tuple ts)
  then show ?thesis using len_pushint64_code_pos [of "len ts"] len_nonneg [of "concat (map data_code ts)"]
    by (simp del: len_nonneg)
qed (simp add: len_pushint64_code_pos)

lemma len_data_codes: "len ts \<le> len (concat (map data_code ts))"
proof (induction ts)
  case (Cons t ts)
  then show ?case using len_data_code_pos [of t] by simp
qed simp

lemma tuple_lens:
  assumes "len (data_code (Tuple ts)) < 2 ^ 63"
  shows "len (concat (map data_code ts)) < 2 ^ 63 - 2" "len ts < 2 ^ 63 - 2" "is_int64 (len ts)"
    "t \<in> set ts \<Longrightarrow> len (data_code t) < 2 ^ 63"
proof -
  show 1: "len (concat (map data_code ts)) < 2 ^ 63 - 2"
    using assms len_pushint64_code_pos [of "len ts"] by simp
  then show 2: "len ts < 2 ^ 63 - 2" using len_data_codes [of ts] by linarith
  then show "is_int64 (len ts)" using len_nonneg [of ts] by (simp add: is_int64_iff del: len_nonneg)
  show "t \<in> set ts \<Longrightarrow> len (data_code t) < 2 ^ 63" using len_concat_data_code [of t ts] 1 by linarith
qed

lemma tb_data_code:
  "len (data_code d) < 2 ^ 63 \<Longrightarrow>
   tb_b (tb_data d tb) = tb_b tb @ data_code d \<and> count (tb_data d tb) = wrap64 (count tb + 1)"
proof (induction d arbitrary: tb rule: data_code.induct)
  case (3 ts)
  have "tb_b (tb_datas ts x) = tb_b x @ concat (map data_code ts) \<and> count (tb_datas ts x) = count x + len ts"
    if "count x = 0" for x
    by (rule tb_datas_code) (use that tuple_lens [OF "3.prems"] "3.IH" in auto)
  from this [of "\<lparr>tb_b = tb_b tb, count = 0\<rparr>"] show ?case
    by (simp add: tb_Tuple_def Let_def Op_def PushdataInt64_def writePushint64_eq)
qed (simp_all add: tb_PushdataInt64_def tb_PushdataBytes_def PushdataInt64_def PushdataBytes_def
    writePushint64_eq b_writePushdata_eq)

lemma build_data_code:
  assumes "len (data_code d) < 2 ^ 63"
  shows "build_data d b = b @ data_code d"
proof (cases d)
  case (Tuple ts)
  have "tb_b (tb_datas ts x) = tb_b x @ concat (map data_code ts) \<and> count (tb_datas ts x) = count x + len ts"
    if "count x = 0" for x
    by (rule tb_datas_code) (use that tuple_lens [OF assms [unfolded Tuple]] in \<open>auto simp: tb_data_code\<close>)
  from this [of "\<lparr>tb_b = b, count = 0\<rparr>"] Tuple show ?thesis
    by (simp add: Builder_Tuple_def Let_def Op_def PushdataInt64_def writePushint64_eq)
qed (simp_all add: PushdataInt64_def PushdataBytes_def writePushint64_eq b_writePushdata_eq)

section \<open>Running a built program\<close>

lemma executes_op_Neg:
  assumes "is_int64 i" and "i \<noteq> minInt 64"
  shows "executes E [op_Neg] 1 [Data (Int64 i)] [Data (Int64 (- i))]"
proof (rule executes_instr [of _ op_Neg "[]"])
  show "DecodeInst ([op_Neg] @ post) = Inr (op_Neg, [], len [op_Neg])" for post
    by (simp add: DecodeInst_op MinPushdata_def)
next
  fix vm :: "'a vm" and st ex
  assume st: "cstack vm = st @ [Data (Int64 i)]"
  have h: "handler E ex op_Neg [] = opNeg"
    by (rule handler_op)
      (simp_all add: opTable_def IsSmallIntOp_def IsPushdataOp_def MinPushdata_def MaxSmallInt_def MinSmallInt_def)
  have neg: "NegateInt64 i = (- i, True)"
    using assms NegateInt_exact [of 64 i] by (simp add: NegateInt64_def in_range_def minInt_def)
  show "handler E ex op_Neg [] vm =
    (Inr (), put_stack (st @ [Data (Int64 (- i))]) (vm\<lparr>runlimit := runlimit vm - (1 - 1)\<rparr>))"
    unfolding h opNeg_def using st neg pop_typed_run(3) [of vm st i]
    by (simp add: sm_simps push_def stack_push_def)
qed simp_all

lemma executes_pushint64:
  assumes "is_int64 i"
  shows "executes E (pushint64_code i) (pushint64_cost i) [] [Data (Int64 i)]"
proof (cases "\<not> IsSmallInt i \<and> i < 0 \<and> i \<noteq> minInt 64")
  case True
  then have r: "is_int64 (- i)" "- i \<noteq> minInt 64" using assms by (auto simp: in_range_def minInt_def)
  from executes_append [OF executes_encode_Int [OF r(1)] executes_op_Neg [OF r]] True show ?thesis
    by (simp add: pushint64_code_eq pushint64_cost_def)
next
  case False
  from executes_encode_Int [OF assms] show ?thesis
    unfolding pushint64_code_eq pushint64_cost_def if_not_P [OF False] .
qed

lemma pushint64_cost_nonneg: "0 \<le> pushint64_cost i"
  using int_cost_nonneg [of i] int_cost_nonneg [of "- i"] by (simp add: pushint64_cost_def)

lemma data_cost_nonneg: "0 \<le> data_cost d"
  by (induction d rule: data_cost.induct)
    (auto simp: pushint64_cost_nonneg intro!: add_nonneg_nonneg sum_list_nonneg)

lemma executes_data_codes:
  assumes "\<And>d. d \<in> set ts \<Longrightarrow> executes E (data_code d) (data_cost d) [] [Data d]"
  shows "executes E (concat (map data_code ts)) (sum_list (map data_cost ts)) [] (map Data ts)"
  using assms
proof (induction ts)
  case Nil
  show ?case by (simp add: executes_Nil)
next
  case (Cons t ts)
  have "executes E (concat (map data_code ts)) (sum_list (map data_cost ts)) ([Data t] @ []) ([Data t] @ map Data ts)"
    using Cons by (intro executes_frame) simp
  moreover have "0 \<le> sum_list (map data_cost ts)" by (rule sum_list_nonneg) (auto simp: data_cost_nonneg)
  ultimately show ?case
    using executes_append [of E "data_code t" "data_cost t" "[]" "[Data t]"] Cons.prems [of t] by simp
qed

lemma executes_data_code:
  "data_ok d \<Longrightarrow> len (data_code d) < 2 ^ 63 \<Longrightarrow> executes E (data_code d) (data_cost d) [] [Data d]"
proof (induction d rule: data_code.induct)
  case (2 b)
  then show ?case using len_writePushdata [of b] by (simp add: executes_pushdata)
next
  case (3 ts)
  note l = tuple_lens [OF "3.prems"(2)]
  have c1: "executes E (concat (map data_code ts)) (sum_list (map data_cost ts)) [] (map Data ts)"
    by (rule executes_data_codes) (use "3.IH" "3.prems" l(4) in \<open>auto simp: list_all_iff\<close>)
  have "executes E (pushint64_code (len ts)) (pushint64_cost (len ts)) (map Data ts) (map Data ts @ [Data (Int64 (len ts))])"
    using executes_frame [OF executes_pushint64 [OF l(3)], of E "map Data ts"] by simp
  then have "executes E (pushint64_code (len ts) @ [op_Tuple]) (pushint64_cost (len ts) + (2 + len ts))
      (map Data ts) [Data (Tuple ts)]"
    by (rule executes_append [OF _ executes_op_Tuple]) (use l(2) in simp_all)
  from executes_append [OF c1 this] show ?case
    by (simp add: int_cost_nonneg pushint64_cost_def)
qed (simp add: executes_pushint64)

text \<open>
  C3: A built program pushes what it was built from. For every well-formed datum, however deeply
  nested, the program that the calls of the builder for it write (tuples through nested
  callbacks, negative integers by \<^verbatim>\<open>neg\<close>, the smallest int64 included) runs to its end on any
  machine with enough runlimit and leaves exactly that datum on top of the stack.
\<close>

theorem Builder_pushes:
  assumes "data_ok d" and "len (data_code d) < 2 ^ 63" and "data_cost d \<le> runlimit vm"
    and "beforeStep E = []" and "afterStep E = []" and "\<not> unwinding vm"
    and "\<not> (Finalized vm \<and> stopAfterFinalize vm)" and "data_cost d < int fuel"
  shows "\<exists>vm'. exec E fuel (Build (build_data d [])) vm = (Inr (), vm') \<and>
    cstack vm' = cstack vm @ [Data d] \<and> runlimit vm' = runlimit vm - data_cost d \<and>
    argstack vm' = argstack vm \<and> Log vm' = Log vm"
proof -
  have "Build (build_data d []) = data_code d" using build_data_code [OF assms(2)] by (simp add: Build_def)
  with exec_executes [OF executes_data_code [OF assms(1,2)] assms(2-8)] show ?thesis by simp
qed

theorem Builder_pushes_witness:
  "\<exists>vm'. exec (init_env sample_crypto) 100
      (Build (build_data (Tuple [Int64 (- 9223372036854775808), Int64 (-7), Tuple [Bytes [1]]]) []))
      (init_vm () [] 3 1000) = (Inr (), vm') \<and>
    cstack vm' = [Data (Tuple [Int64 (- 9223372036854775808), Int64 (-7), Tuple [Bytes [1]]])]"
proof -
  let ?d = "Tuple [Int64 (- 9223372036854775808), Int64 (-7), Tuple [Bytes [1]]]"
  have "len (data_code ?d) < 2 ^ 63 \<and> data_cost ?d \<le> 1000 \<and> data_cost ?d < 100" by code_simp
  moreover have "data_ok ?d" by (simp add: is_int64_iff)
  ultimately show ?thesis
    using Builder_pushes [of ?d "init_vm () [] 3 1000" "init_env sample_crypto" 100]
    by (simp add: init_vm_def init_env_def crypto.extend_def) blast
qed

end
