(* ===== verification/AsmResolve.thy ===== *)
theory AsmResolve
  imports Builder "HOL-Library.While_Combinator"
begin

text \<open>
  Symbolic jumps of the assembler (\<^verbatim>\<open>protocol/txvm/asm/asm.go\<close>, \<^verbatim>\<open>resolve\<close>). The code of a jump contains
  the distance to its label, which depends on the lengths of the jumps in between; \<^verbatim>\<open>resolve\<close>
  starts from empty jumps and refines them in place until nothing changes. Both of its loops are
  \<open>while_option\<close>: a loop that does not end is \<open>None\<close>.

  Shown here: \<^verbatim>\<open>resolve\<close> returns for every program, and in the result every jump, run by the virtual
  machine, arrives at its label.
\<close>

section \<open>Pushing integers\<close>

definition pushdata :: "bytes \<Rightarrow> bytes" where
  "pushdata dat = PutUvarint (word_of_int (len dat) + ucast MinPushdata) @ dat"

function pushint64 :: "int \<Rightarrow> bytes" where
  \<comment> \<open>the argument is an int64\<close>
  "pushint64 num =
     (if IsSmallInt num then [MinSmallInt + word_of_int num]
      else if num < 0 \<and> num \<noteq> minInt 64 then pushint64 (- num) @ [op_Neg]
      else pushdata (PutUvarint (word_of_int num)) @ [op_Int])"
  by pat_completeness auto
termination
  by (relation "measure (\<lambda>n. if n < 0 then 1 else 0)") auto

declare pushint64.simps [simp del]

section \<open>Items\<close>

record jump =
  label :: bytes
  isJumpIf :: bool
  opcodes :: bytes

datatype asm_item = Code bytes | Target bytes | Jump jump

datatype asm_error = UnknownLabel bytes | ExpectedLabel nat | UnknownIdent bytes nat | HexError nat
  | NumberError bytes | ExpectedComma nat bytes | UnexpectedToken bytes nat | ScannerErrors "(nat \<times> string) list"
  | AsmPanic | AsmDiverges | AsmFuel

definition labelIdxs :: "asm_item list \<Rightarrow> bytes \<rightharpoonup> nat" where
  \<comment> \<open>a label that occurs twice has its last index\<close>
  "labelIdxs items = map_of (rev (concat (map (\<lambda>i. case items ! i of Target l \<Rightarrow> [(l, i)] | _ \<Rightarrow> [])
     [0..<length items])))"

fun item_size :: "asm_item \<Rightarrow> int" where
  "item_size (Code b) = len b"
| "item_size (Target l) = 0"
| "item_size (Jump j) = len (opcodes j)"

definition between :: "asm_item list \<Rightarrow> nat \<Rightarrow> nat \<Rightarrow> int" where
  \<comment> \<open>\<^verbatim>\<open>for k := a + 1; k < b; k++\<close>\<close>
  "between items a b = sum_list (map (\<lambda>k. item_size (items ! k)) [Suc a..<b])"

definition reladj_loop :: "int \<Rightarrow> int option" where
  "reladj_loop rel = while_option (\<lambda>reladj. len (pushint64 (rel - reladj)) \<noteq> reladj)
     (\<lambda>reladj. len (pushint64 (rel - reladj))) 0"

definition jump_code :: "bool \<Rightarrow> bool \<Rightarrow> int \<Rightarrow> bytes option" where
  \<comment> \<open>\<open>bwd\<close>: \<^verbatim>\<open>labelIdx < i\<close>; \<open>dist\<close>: the bytes of the intervening items\<close>
  "jump_code bwd jmpif dist =
     (let rel = (if bwd then - dist - 1 else dist);
          opcs = (if jmpif then [] else pushint64 1);
          rel = (if \<not> jmpif \<and> bwd then rel - len opcs else rel)
      in if bwd then
           (case reladj_loop rel of None \<Rightarrow> None
            | Some reladj \<Rightarrow> Some (opcs @ pushint64 (rel - reladj) @ [op_JumpIf]))
         else Some (opcs @ pushint64 rel @ [op_JumpIf]))"

definition jump_opcodes :: "asm_item list \<Rightarrow> nat \<Rightarrow> nat \<Rightarrow> bool \<Rightarrow> bytes option" where
  "jump_opcodes items i labelIdx jmpif =
     jump_code (labelIdx < i) jmpif
       (if labelIdx < i then between items labelIdx i else between items i labelIdx)"

fun refine :: "(bytes \<rightharpoonup> nat) \<Rightarrow> nat list \<Rightarrow> bool \<Rightarrow> asm_item list \<Rightarrow> asm_error + bool \<times> asm_item list" where
  \<comment> \<open>\<^verbatim>\<open>for i, item := range items\<close>, over the indices; jumps are updated in place\<close>
  "refine idxs [] again items = Inr (again, items)"
| "refine idxs (i # is) again items =
     (case items ! i of
        Jump j \<Rightarrow>
          (case idxs (label j) of
             None \<Rightarrow> Inl (UnknownLabel (label j))
           | Some labelIdx \<Rightarrow>
               (case jump_opcodes items i labelIdx (isJumpIf j) of
                  None \<Rightarrow> Inl AsmDiverges
                | Some opcs \<Rightarrow>
                    if opcs \<noteq> opcodes j then refine idxs is True (items[i := Jump (j\<lparr>opcodes := opcs\<rparr>)])
                    else refine idxs is again items))
      | _ \<Rightarrow> refine idxs is again items)"

definition refine_loop :: "(bytes \<rightharpoonup> nat) \<Rightarrow> asm_item list \<Rightarrow> (asm_error + bool \<times> asm_item list) option" where
  "refine_loop idxs items = while_option
     (\<lambda>st. case st of Inr (again, _) \<Rightarrow> again | Inl _ \<Rightarrow> False)
     (\<lambda>st. case st of Inr (_, its) \<Rightarrow> refine idxs [0..<length its] False its | Inl e \<Rightarrow> Inl e)
     (Inr (True, items))"

fun item_code :: "asm_item \<Rightarrow> bytes" where
  "item_code (Code b) = b"
| "item_code (Target l) = []"
| "item_code (Jump j) = opcodes j"

definition resolve :: "asm_item list \<Rightarrow> asm_error + bytes" where
  "resolve items =
     (case refine_loop (labelIdxs items) items of
        None \<Rightarrow> Inl AsmDiverges
      | Some (Inl e) \<Rightarrow> Inl e
      | Some (Inr (_, its)) \<Rightarrow> Inr (concat (map item_code its)))"

lemma resolve_example: "resolve [Target (str ''a''), Code [5], Jump \<lparr>label = str ''b'', isJumpIf = False, opcodes = []\<rparr>,
  Code [6], Jump \<lparr>label = str ''a'', isJumpIf = False, opcodes = []\<rparr>, Target (str ''b'')]
  = Inr [5, 1, 5, op_JumpIf, 6, 1, 9, op_Neg, op_JumpIf]"
  by code_simp

section \<open>Sizes of pushed integers\<close>

lemma pushdata_eq: "pushdata dat = writePushdata dat"
  by (simp add: pushdata_def writePushdata_def)

lemma pushint64_eq: "pushint64 n = pushint64_code n"
proof (cases "\<not> IsSmallInt n \<and> n < 0 \<and> n \<noteq> minInt 64")
  case True
  then have "\<not> - n < 0" by simp
  then have "pushint64 (- n) = encode_Int (- n)"
    by (auto simp: pushint64.simps [of "- n"] encode_Int_def pushdata_eq)
  with True show ?thesis by (auto simp: pushint64.simps [of n] pushint64_code_eq)
qed (auto simp: pushint64.simps [of n] pushint64_code_eq encode_Int_def pushdata_eq)

lemma len_PutUvarint_mono: "x \<le> y \<Longrightarrow> len (PutUvarint x) \<le> len (PutUvarint y)"
proof (induction x arbitrary: y rule: PutUvarint.induct)
  case (1 x)
  show ?case
  proof (cases "0x80 \<le> x")
    case True
    with "1.prems" have y: "0x80 \<le> y" by order
    have "unat (drop_bit 7 x) \<le> unat (drop_bit 7 y)"
      using "1.prems" by (simp only: unat_drop_bit_eq) (simp add: drop_bit_eq_div div_le_mono word_le_nat_alt)
    then have "drop_bit 7 x \<le> drop_bit 7 y" by (simp add: word_le_nat_alt)
    from "1.IH" [OF True this] True y show ?thesis
      by (subst (1 2) PutUvarint.simps) simp
  next
    case False
    then have "len (PutUvarint x) = 1" by (subst PutUvarint.simps) simp
    then show ?thesis using length_PutUvarint_pos [of y] by (simp del: length_PutUvarint_pos)
  qed
qed

lemma len_writePushdata_small: "len d \<le> 10 \<Longrightarrow> len (writePushdata d) = 1 + len d"
  using len_nonneg [of d]
  by (subst writePushdata_def, subst PutUvarint_small)
    (auto simp: MinPushdata_def word_less_def uint_word_ariths uint_word_of_int simp del: len_nonneg)

lemma len_encode_Int: "len (encode_Int n) = (if IsSmallInt n then 1 else 2 + len (PutUvarint (word_of_int n)))"
  by (simp add: encode_Int_def len_writePushdata_small length_PutUvarint_le)

lemma len_encode_Int_mono:
  assumes "0 \<le> a" and "a \<le> b" and "b < 2 ^ 63"
  shows "len (encode_Int a) \<le> len (encode_Int b)"
proof -
  have "(word_of_int a :: uint64) \<le> word_of_int b"
    using assms by (simp add: word_le_def uint_word_of_int take_bit_int_eq_self)
  from len_PutUvarint_mono [OF this] assms length_PutUvarint_pos [of "word_of_int b"] show ?thesis
    by (auto simp: len_encode_Int IsSmallInt_def)
qed

lemma len_encode_Int_le: "len (encode_Int n) \<le> 12"
  using length_PutUvarint_le [of "word_of_int n"] by (simp add: len_encode_Int)

lemma len_pushint64_neg:
  assumes "0 < a" and "a < 2 ^ 63"
  shows "len (pushint64 (- a)) = 1 + len (encode_Int a)"
  using assms by (auto simp: pushint64_eq pushint64_code_eq IsSmallInt_def minInt_def)

lemma pushint64_nonneg: "0 \<le> a \<Longrightarrow> pushint64 a = encode_Int a"
  by (simp add: pushint64_eq pushint64_code_eq)

lemma len_pushint64_le: "len (pushint64 n) \<le> 13"
  using len_encode_Int_le [of n] len_encode_Int_le [of "- n"] by (simp add: pushint64_eq pushint64_code_eq)

section \<open>The code of one jump\<close>

lemma len_pushint64_neg_mono:
  "0 < a \<Longrightarrow> a \<le> b \<Longrightarrow> b < 2 ^ 63 \<Longrightarrow> len (pushint64 (- a)) \<le> len (pushint64 (- b))"
  by (simp add: len_pushint64_neg len_encode_Int_mono)

lemma reladj_mono:
  assumes "0 < r" and "r \<le> r'" and "0 \<le> x" and "x \<le> y" and "r' + y < 2 ^ 63"
  shows "len (pushint64 (- r - x)) \<le> len (pushint64 (- r' - y))"
  using len_pushint64_neg_mono [of "r + x" "r' + y"] assms by simp

lemma reladj_loop_Some:
  assumes "0 < r" and "r < 2 ^ 62"
  shows "\<exists>a. reladj_loop (- r) = Some a \<and> 0 \<le> a \<and> a \<le> 13 \<and> len (pushint64 (- r - a)) = a"
proof -
  let ?f = "\<lambda>a. len (pushint64 (- r - a))"
  let ?P = "\<lambda>a. 0 \<le> a \<and> a \<le> ?f a"
  have step: "?P (?f a) \<and> nat (13 - ?f a) < nat (13 - a)" if "?P a" "?f a \<noteq> a" for a
  proof -
    have "?f a \<le> ?f (?f a)"
      using that assms len_pushint64_le [of "- r - a"] by (intro reladj_mono) auto
    then show ?thesis using that len_pushint64_le [of "- r - a"] by auto
  qed
  have "\<exists>a. reladj_loop (- r) = Some a"
    unfolding reladj_loop_def by (rule measure_while_option_Some [of ?P, OF step]) simp_all
  then obtain a where a: "reladj_loop (- r) = Some a" ..
  have "?P a"
    using while_option_rule [of ?P, OF _ a [unfolded reladj_loop_def]] step by auto
  moreover have "?f a = a" using while_option_stop [OF a [unfolded reladj_loop_def]] by simp
  ultimately show ?thesis using a len_pushint64_le [of "- r - a"] by auto
qed

lemma reladj_loop_mono:
  assumes "0 < r" and "r \<le> r'" and "r' < 2 ^ 62"
    and a: "reladj_loop (- r) = Some a" and a': "reladj_loop (- r') = Some a'"
  shows "a \<le> a'"
proof -
  obtain fix': "0 \<le> a'" "a' \<le> 13" "len (pushint64 (- r' - a')) = a'"
    using reladj_loop_Some [of r'] assms by auto
  have "0 \<le> a \<and> a \<le> a'"
  proof (rule while_option_rule [of "\<lambda>x. 0 \<le> x \<and> x \<le> a'", OF _ a [unfolded reladj_loop_def]])
    fix x assume "0 \<le> x \<and> x \<le> a'"
    then have "len (pushint64 (- r - x)) \<le> a'"
      using fix' assms reladj_mono [of r r' x a'] by simp
    then show "0 \<le> len (pushint64 (- r - x)) \<and> len (pushint64 (- r - x)) \<le> a'" by simp
  qed (use fix' in simp)
  then show ?thesis by simp
qed

definition jump_prefix :: "bool \<Rightarrow> bytes" where
  "jump_prefix jmpif = (if jmpif then [] else pushint64 1)"

lemma len_jump_prefix: "0 \<le> len (jump_prefix f)" "len (jump_prefix f) \<le> 1"
  by (simp_all add: jump_prefix_def pushint64_nonneg len_encode_Int IsSmallInt_def MaxSmallInt_def MinSmallInt_def)

lemma jump_code_fwd: "jump_code False f d = Some (jump_prefix f @ pushint64 d @ [op_JumpIf])"
  by (simp add: jump_code_def jump_prefix_def)

definition back_dist :: "bool \<Rightarrow> int \<Rightarrow> int" where
  "back_dist f d = d + 1 + len (jump_prefix f)"

lemma back_dist_bounds: "0 \<le> d \<Longrightarrow> 0 < back_dist f d" "d < 2 ^ 61 \<Longrightarrow> back_dist f d < 2 ^ 62"
  using len_jump_prefix [of f] unfolding back_dist_def by (simp_all add: add_strict_increasing2 del: len_nonneg)

lemma jump_code_back: "jump_code True f d = map_option
    (\<lambda>a. jump_prefix f @ pushint64 (- back_dist f d - a) @ [op_JumpIf]) (reladj_loop (- back_dist f d))"
proof -
  have "- back_dist f d = (if \<not> f \<and> True then - d - 1 - len (jump_prefix f) else - d - 1)"
    by (simp add: back_dist_def jump_prefix_def)
  then show ?thesis
    by (simp only: jump_code_def jump_prefix_def Let_def if_True) (simp split: option.split)
qed

lemma jump_code_Some:
  assumes "0 \<le> d" and "d < 2 ^ 61"
  shows "\<exists>rel. jump_code bwd f d = Some (jump_prefix f @ pushint64 rel @ [op_JumpIf]) \<and>
    (if bwd then rel = - (d + len (jump_prefix f @ pushint64 rel @ [op_JumpIf])) else rel = d)"
proof (cases bwd)
  case True
  from reladj_loop_Some [OF back_dist_bounds(1) [OF assms(1)] back_dist_bounds(2) [OF assms(2)]] obtain a where
    "reladj_loop (- back_dist f d) = Some a" "len (pushint64 (- back_dist f d - a)) = a" by blast
  with True show ?thesis
    by (intro exI [of _ "- back_dist f d - a"]) (simp add: jump_code_back, simp add: back_dist_def)
qed (simp add: jump_code_fwd)

lemma jump_code_returns: "0 \<le> d \<Longrightarrow> d < 2 ^ 61 \<Longrightarrow> \<exists>c. jump_code bwd f d = Some c"
  using jump_code_Some [of d bwd f] by blast

lemma jump_code_form:
  "jump_code bwd f d = Some c \<Longrightarrow> \<exists>rel. c = jump_prefix f @ pushint64 rel @ [op_JumpIf]"
  by (cases bwd) (auto simp: jump_code_fwd jump_code_back)

lemma len_jump_code_le: "jump_code bwd f d = Some c \<Longrightarrow> len c \<le> 15"
proof -
  assume "jump_code bwd f d = Some c"
  then obtain rel where "c = jump_prefix f @ pushint64 rel @ [op_JumpIf]" using jump_code_form by blast
  then show ?thesis using len_jump_prefix(2) [of f] len_pushint64_le [of rel] by simp
qed

lemma jump_code_mono:
  assumes "0 \<le> d" and "d \<le> d'" and "d' < 2 ^ 61"
    and c: "jump_code bwd f d = Some c" and c': "jump_code bwd f d' = Some c'"
  shows "len c \<le> len c'"
proof (cases bwd)
  case True
  have r: "0 < back_dist f d" "back_dist f d \<le> back_dist f d'" "back_dist f d' < 2 ^ 62"
    using assms(1-3) back_dist_bounds by (simp_all add: back_dist_def)
  from c c' True obtain a a' where a: "reladj_loop (- back_dist f d) = Some a"
      "reladj_loop (- back_dist f d') = Some a'"
    and cc: "c = jump_prefix f @ pushint64 (- back_dist f d - a) @ [op_JumpIf]"
      "c' = jump_prefix f @ pushint64 (- back_dist f d' - a') @ [op_JumpIf]"
    by (auto simp: jump_code_back)
  have "len (pushint64 (- back_dist f d - a)) = a" "len (pushint64 (- back_dist f d' - a')) = a'"
    using reladj_loop_Some [of "back_dist f d"] reladj_loop_Some [of "back_dist f d'"] r a by auto
  with reladj_loop_mono [OF r a] cc show ?thesis by simp
next
  case False
  with assms show ?thesis by (auto simp: jump_code_fwd pushint64_nonneg len_encode_Int_mono)
qed

section \<open>Refining the jumps\<close>

text \<open>
  Lengths only grow while jumps are refined (\<open>grows\<close>), because the code that a jump wants is longer
  when the items in between are longer. A jump is settled when it has the code it wants.
\<close>

fun item_max :: "asm_item \<Rightarrow> int" where
  "item_max (Code b) = len b"
| "item_max (Target l) = 0"
| "item_max (Jump j) = 15"

definition asm_bound :: "asm_item list \<Rightarrow> int" where
  "asm_bound items = sum_list (map item_max items)"

definition same_item :: "asm_item \<Rightarrow> asm_item \<Rightarrow> bool" where
  "same_item x y \<longleftrightarrow> (case x of Jump j \<Rightarrow> (case y of Jump j' \<Rightarrow> label j' = label j \<and> isJumpIf j' = isJumpIf j | _ \<Rightarrow> False)
     | _ \<Rightarrow> y = x)"

definition grows :: "asm_item list \<Rightarrow> asm_item list \<Rightarrow> bool" where
  "grows = list_all2 (\<lambda>x y. same_item x y \<and> item_size x \<le> item_size y)"

definition wanted :: "(bytes \<rightharpoonup> nat) \<Rightarrow> asm_item list \<Rightarrow> nat \<Rightarrow> bytes option" where
  "wanted idxs items i = (case items ! i of
     Jump j \<Rightarrow> (case idxs (label j) of None \<Rightarrow> None | Some t \<Rightarrow> jump_opcodes items i t (isJumpIf j))
   | _ \<Rightarrow> None)"

definition settled :: "(bytes \<rightharpoonup> nat) \<Rightarrow> asm_item list \<Rightarrow> nat \<Rightarrow> bool" where
  "settled idxs items i \<longleftrightarrow> (\<forall>j. items ! i = Jump j \<longrightarrow> wanted idxs items i = Some (opcodes j))"

definition refinable :: "(bytes \<rightharpoonup> nat) \<Rightarrow> asm_item list \<Rightarrow> bool" where
  "refinable idxs items \<longleftrightarrow> asm_bound items < 2 ^ 61 \<and> (\<forall>l t. idxs l = Some t \<longrightarrow> t < length items) \<and>
     (\<forall>i<length items. item_size (items ! i) \<le> item_max (items ! i) \<and>
        (\<forall>c. wanted idxs items i = Some c \<longrightarrow> item_size (items ! i) \<le> len c))"

lemma item_size_nonneg [simp]: "0 \<le> item_size x" "0 \<le> item_max x"
  by (cases x; simp)+

lemma same_item_refl [simp]: "same_item x x"
  by (simp add: same_item_def split: asm_item.split)

lemma same_item_opcodes [simp]: "same_item (Jump j) (Jump (j\<lparr>opcodes := c\<rparr>))"
  by (simp add: same_item_def)

lemma same_item_trans: "same_item x y \<Longrightarrow> same_item y z \<Longrightarrow> same_item x z"
  by (auto simp: same_item_def split: asm_item.splits)

lemma same_item_max: "same_item x y \<Longrightarrow> item_max y = item_max x"
  by (cases x) (auto simp: same_item_def split: asm_item.splits)

lemma grows_refl: "grows xs xs"
  by (simp add: grows_def list_all2_refl)

lemma grows_trans: "grows xs ys \<Longrightarrow> grows ys zs \<Longrightarrow> grows xs zs"
  unfolding grows_def by (erule (1) list_all2_trans [rotated]) (auto intro: same_item_trans)

lemma grows_length: "grows xs ys \<Longrightarrow> length ys = length xs"
  by (auto simp: grows_def dest: list_all2_lengthD)

lemma grows_nth: "grows xs ys \<Longrightarrow> i < length xs \<Longrightarrow> same_item (xs ! i) (ys ! i) \<and> item_size (xs ! i) \<le> item_size (ys ! i)"
  by (simp add: grows_def list_all2_conv_all_nth)

lemma grows_bound: "grows xs ys \<Longrightarrow> asm_bound ys = asm_bound xs"
  unfolding grows_def asm_bound_def by (induction rule: list_all2_induct) (auto simp: same_item_max)

lemma between_sum: "between items a b = (\<Sum>k = Suc a..<b. item_size (items ! k))"
  by (simp add: between_def interv_sum_list_conv_sum_set_nat)

lemma between_nonneg: "0 \<le> between items a b"
  by (simp add: between_sum sum_nonneg)

lemma between_mono: "grows xs ys \<Longrightarrow> b \<le> length xs \<Longrightarrow> between xs a b \<le> between ys a b"
  unfolding between_sum by (rule sum_mono) (simp add: grows_nth)

lemma between_sizes: "map item_size xs = map item_size ys \<Longrightarrow> b \<le> length xs \<Longrightarrow> between xs a b = between ys a b"
  unfolding between_sum by (rule sum.cong) (auto simp: list_eq_iff_nth_eq)

lemma between_update: "i \<le> a \<or> b \<le> i \<Longrightarrow> between (items[i := x]) a b = between items a b"
  unfolding between_sum by (rule sum.cong) auto

lemma between_le:
  assumes "\<forall>i<length items. item_size (items ! i) \<le> item_max (items ! i)" and "b \<le> length items"
  shows "between items a b \<le> asm_bound items"
proof -
  have "between items a b \<le> (\<Sum>k = Suc a..<b. item_max (items ! k))"
    unfolding between_sum using assms by (intro sum_mono) auto
  also have "\<dots> \<le> (\<Sum>k = 0..<length items. item_max (items ! k))"
    using assms by (intro sum_mono2) auto
  finally show ?thesis by (simp add: asm_bound_def sum_list_sum_nth)
qed

lemma wanted_cases:
  assumes "wanted idxs items i = Some c"
  obtains j t where "items ! i = Jump j" "idxs (label j) = Some t" "jump_opcodes items i t (isJumpIf j) = Some c"
  using assms by (auto simp: wanted_def split: asm_item.splits option.splits)

lemma wanted_Some:
  assumes "refinable idxs items" and "i < length items" and "items ! i = Jump j" and "idxs (label j) = Some t"
  shows "\<exists>c. wanted idxs items i = Some c"
proof -
  have t: "t < length items" using assms by (auto simp: refinable_def)
  have "between items a b < 2 ^ 61" if "b \<le> length items" for a b
    using assms(1) between_le [of items b a] that by (simp add: refinable_def)
  with t assms(2-) show ?thesis
    by (simp add: wanted_def jump_opcodes_def jump_code_returns between_nonneg)
qed

lemma wanted_mono:
  assumes g: "grows xs ys" and xs: "refinable idxs xs" and ys: "\<forall>i<length ys. item_size (ys ! i) \<le> item_max (ys ! i)"
    and i: "i < length xs" and c: "wanted idxs xs i = Some c" and c': "wanted idxs ys i = Some c'"
  shows "len c \<le> len c'"
proof -
  from c obtain j t where j: "xs ! i = Jump j" "idxs (label j) = Some t" and oc: "jump_opcodes xs i t (isJumpIf j) = Some c"
    by (rule wanted_cases)
  have t: "t < length xs" using xs j by (auto simp: refinable_def)
  from c' obtain j' t' where j': "ys ! i = Jump j'" "idxs (label j') = Some t'" and oc': "jump_opcodes ys i t' (isJumpIf j') = Some c'"
    by (rule wanted_cases)
  from grows_nth [OF g i] j j' have same: "t' = t" "isJumpIf j' = isJumpIf j" by (auto simp: same_item_def)
  have l: "length ys = length xs" and b: "asm_bound ys < 2 ^ 61"
    using g xs by (simp_all add: grows_length grows_bound refinable_def)
  have "between ys a b < 2 ^ 61" if "b \<le> length xs" for a b
    using between_le [OF ys, of b a] l b that by simp
  then show ?thesis
    using oc oc' same t i between_mono [OF g, of i t] between_mono [OF g, of t i]
    by (auto simp: jump_opcodes_def intro: jump_code_mono [OF between_nonneg] split: if_splits)
qed

lemma wanted_sizes:
  assumes "map item_size xs = map item_size ys" and "same_item (xs ! i) (ys ! i)" and "i < length xs"
    and "\<And>l t. idxs l = Some t \<Longrightarrow> t < length xs"
  shows "wanted idxs ys i = wanted idxs xs i"
proof (cases "xs ! i")
  case (Jump j)
  with assms(2) obtain j' where j': "ys ! i = Jump j'" "label j' = label j" "isJumpIf j' = isJumpIf j"
    by (auto simp: same_item_def split: asm_item.splits)
  have "between ys a b = between xs a b" if "b \<le> length xs" for a b
    using between_sizes [OF assms(1) that] by simp
  with Jump j' assms(3,4) show ?thesis by (auto simp: wanted_def jump_opcodes_def less_imp_le split: option.split)
qed (use assms(2) in \<open>simp_all add: wanted_def same_item_def\<close>)

lemma wanted_update_self:
  assumes "i < length items" and "items ! i = Jump j"
  shows "wanted idxs (items[i := Jump (j\<lparr>opcodes := c\<rparr>)]) i = wanted idxs items i"
  using assms by (simp add: wanted_def jump_opcodes_def between_update split: option.split)

text \<open>One jump is given the code it wants.\<close>

lemma refinable_update:
  assumes r: "refinable idxs items" and i: "i < length items" and j: "items ! i = Jump j"
    and c: "wanted idxs items i = Some c"
  shows "refinable idxs (items[i := Jump (j\<lparr>opcodes := c\<rparr>)])" (is "refinable idxs ?items")
    and "grows items (items[i := Jump (j\<lparr>opcodes := c\<rparr>)])"
proof -
  have size: "len (opcodes j) \<le> len c" using r i j c by (force simp: refinable_def)
  then show g: "grows items ?items"
    using i j by (auto simp: grows_def list_all2_conv_all_nth nth_list_update)
  have "len c \<le> 15" using c by (auto elim!: wanted_cases simp: jump_opcodes_def dest: len_jump_code_le)
  then have max: "\<forall>k<length ?items. item_size (?items ! k) \<le> item_max (?items ! k)"
    using r i by (auto simp: refinable_def nth_list_update)
  have "item_size (?items ! k) \<le> len c'" if k: "k < length items" and c': "wanted idxs ?items k = Some c'" for k c'
  proof (cases "k = i")
    case True
    with c' c i wanted_update_self [OF i j] show ?thesis by simp
  next
    case False
    from c' obtain j' t where "?items ! k = Jump j'" "idxs (label j') = Some t" by (rule wanted_cases)
    with False wanted_Some [OF r k] obtain c0 where c0: "wanted idxs items k = Some c0" by auto
    have "item_size (items ! k) \<le> len c0" using r k c0 by (simp add: refinable_def)
    with wanted_mono [OF g r max k c0 c'] False show ?thesis by simp
  qed
  with r max g show "refinable idxs ?items" by (simp add: refinable_def grows_bound)
qed

section \<open>A pass over the jumps\<close>

definition unknown :: "(bytes \<rightharpoonup> nat) \<Rightarrow> asm_item \<Rightarrow> bool" where
  "unknown idxs x \<longleftrightarrow> (case x of Jump j \<Rightarrow> idxs (label j) = None | _ \<Rightarrow> False)"

lemma unknown_same: "same_item x y \<Longrightarrow> unknown idxs y = unknown idxs x"
  by (auto simp: unknown_def same_item_def split: asm_item.splits)

definition item_label :: "asm_item \<Rightarrow> bytes" where
  "item_label x = (case x of Jump j \<Rightarrow> label j | _ \<Rightarrow> [])"

lemma item_label_same: "same_item x y \<Longrightarrow> item_label y = item_label x"
  by (auto simp: item_label_def same_item_def split: asm_item.splits)

lemma wanted_jump: "items ! i = Jump j \<Longrightarrow> wanted idxs items i = (case idxs (label j) of None \<Rightarrow> None
  | Some t \<Rightarrow> jump_opcodes items i t (isJumpIf j))"
  by (simp add: wanted_def)

lemma refine_step:
  assumes r: "refinable idxs items" and i: "i < length items" and k: "\<not> unknown idxs (items ! i)"
  obtains items' where "refine idxs (i # is) again items = refine idxs is (again \<or> items' \<noteq> items) items'"
    "refinable idxs items'" "grows items items'" "settled idxs items' i" "settled idxs items i \<longleftrightarrow> items' = items"
    "\<forall>k. k \<noteq> i \<longrightarrow> items' ! k = items ! k"
proof (cases "items ! i")
  case (Jump j)
  with k obtain t where t: "idxs (label j) = Some t" by (auto simp: unknown_def)
  from wanted_Some [OF r i Jump t] obtain c where c: "wanted idxs items i = Some c" ..
  then have oc: "jump_opcodes items i t (isJumpIf j) = Some c" using Jump t by (simp add: wanted_jump)
  let ?items = "items[i := Jump (j\<lparr>opcodes := c\<rparr>)]"
  have same: "?items = items \<longleftrightarrow> c = opcodes j"
  proof
    assume "?items = items"
    then have "?items ! i = items ! i" by simp
    with i Jump show "c = opcodes j" by simp (metis jump.select_convs(3) jump.surjective jump.update_convs(3))
  next
    assume "c = opcodes j"
    then show "?items = items" using Jump by (metis jump.surjective jump.update_convs(3) list_update_id)
  qed
  have "settled idxs ?items i" using wanted_update_self [OF i Jump] i c by (simp add: settled_def)
  moreover have "settled idxs items i \<longleftrightarrow> ?items = items" using same Jump c by (auto simp: settled_def)
  moreover have "refine idxs (i # is) again items = refine idxs is (again \<or> ?items \<noteq> items) ?items"
    using same Jump t oc by auto
  ultimately show thesis using refinable_update [OF r i Jump c] that [of ?items] by simp
qed (use r grows_refl in \<open>auto intro!: that [of items] simp: settled_def\<close>)

lemma refine_unknown:
  assumes "refinable idxs items" and "set is \<subseteq> {..<length items}" and "find (\<lambda>i. unknown idxs (items ! i)) is = Some i"
  shows "refine idxs is again items = Inl (UnknownLabel (item_label (items ! i)))"
  using assms
proof (induction "is" arbitrary: items again)
  case (Cons k ks)
  show ?case
  proof (cases "unknown idxs (items ! k)")
    case True
    with Cons.prems(3) show ?thesis by (auto simp: unknown_def item_label_def split: asm_item.splits)
  next
    case False
    obtain items' where s: "refine idxs (k # ks) again items = refine idxs ks (again \<or> items' \<noteq> items) items'"
      and r': "refinable idxs items'" and g: "grows items items'"
      by (rule refine_step [OF Cons.prems(1) _ False, of ks again]) (use Cons.prems(2) in auto)
    have same: "same_item (items ! x) (items' ! x)" if "x \<in> set (k # ks)" for x
      using grows_nth [OF g] Cons.prems(2) that by auto
    have "find (\<lambda>i. unknown idxs (items' ! i)) ks = find (\<lambda>i. unknown idxs (items ! i)) ks"
      by (rule find_cong) (auto simp: unknown_same [OF same])
    with Cons.prems(3) False have f: "find (\<lambda>i. unknown idxs (items' ! i)) ks = Some i" by simp
    then have "i \<in> set ks" by (auto simp: find_Some_iff)
    with same have "item_label (items' ! i) = item_label (items ! i)" by (simp add: item_label_same)
    with Cons.IH [OF r' _ f] s Cons.prems(2) g show ?thesis by (simp add: grows_length)
  qed
qed simp

lemma settled_sizes:
  assumes "grows xs ys" and "map item_size xs = map item_size ys" and "refinable idxs xs" and "i < length xs"
    and "settled idxs xs i" and "ys ! i = xs ! i"
  shows "settled idxs ys i"
proof -
  have "wanted idxs ys i = wanted idxs xs i"
    using assms by (intro wanted_sizes) (auto simp: refinable_def)
  with assms show ?thesis by (simp add: settled_def)
qed

lemma grows_sizes_between:
  assumes "grows xs ys" and "grows ys zs" and "map item_size xs = map item_size zs"
  shows "map item_size xs = map item_size ys" "map item_size ys = map item_size zs"
proof -
  have l: "length ys = length xs" "length zs = length xs" using assms by (simp_all add: grows_length)
  have "item_size (xs ! i) = item_size (ys ! i)" if "i < length xs" for i
    using grows_nth [OF assms(1) that] grows_nth [OF assms(2), of i] that l assms(3)
    by (metis nth_map order_antisym)
  with l show "map item_size xs = map item_size ys" by (simp add: list_eq_iff_nth_eq)
  with assms(3) show "map item_size ys = map item_size zs" by simp
qed

definition pass_ok ::
  "(bytes \<rightharpoonup> nat) \<Rightarrow> nat list \<Rightarrow> bool \<Rightarrow> asm_item list \<Rightarrow> bool \<Rightarrow> asm_item list \<Rightarrow> bool" where
  "pass_ok idxs is again items again' items' \<longleftrightarrow> refinable idxs items' \<and> grows items items' \<and>
     (\<not> again' \<longrightarrow> items' = items \<and> (\<forall>i\<in>set is. settled idxs items i)) \<and>
     ((\<forall>i\<in>set is. settled idxs items i) \<longrightarrow> items' = items \<and> again' = again) \<and>
     (map item_size items = map item_size items' \<longrightarrow>
        (\<forall>i<length items. i \<in> set is \<or> settled idxs items i \<longrightarrow> settled idxs items' i))"

lemma refine_ok:
  assumes "refinable idxs items" and "set is \<subseteq> {..<length items}" and "\<forall>i\<in>set is. \<not> unknown idxs (items ! i)"
  shows "\<exists>again' items'. refine idxs is again items = Inr (again', items') \<and>
    pass_ok idxs is again items again' items'"
  using assms
proof (induction "is" arbitrary: items again)
  case Nil
  then show ?case by (simp add: pass_ok_def grows_refl)
next
  case (Cons k ks)
  obtain items' where s: "refine idxs (k # ks) again items = refine idxs ks (again \<or> items' \<noteq> items) items'"
    and r': "refinable idxs items'" and g: "grows items items'" and k: "settled idxs items' k"
    and e: "settled idxs items k \<longleftrightarrow> items' = items" and o: "\<forall>i. i \<noteq> k \<longrightarrow> items' ! i = items ! i"
    by (rule refine_step [OF Cons.prems(1), of k ks again]) (use Cons.prems(2,3) in auto)
  have "\<not> unknown idxs (items' ! i)" if "i \<in> set ks" for i
    using Cons.prems(2,3) grows_nth [OF g, of i] unknown_same [of "items ! i" "items' ! i" idxs] that by auto
  with Cons.IH [OF r', of "again \<or> items' \<noteq> items"] Cons.prems(2) g obtain again'' items'' where
    i: "refine idxs ks (again \<or> items' \<noteq> items) items' = Inr (again'', items'')"
      "pass_ok idxs ks (again \<or> items' \<noteq> items) items' again'' items''"
    by (auto simp: grows_length)
  have "settled idxs items'' i"
    if sz: "map item_size items = map item_size items''" and l: "i < length items"
      and i': "i \<in> set (k # ks) \<or> settled idxs items i" for i
  proof -
    have "grows items' items''" using i(2) by (simp add: pass_ok_def)
    note sizes = grows_sizes_between [OF g this sz]
    have "i \<in> set ks \<or> settled idxs items' i"
      using i' k o settled_sizes [OF g sizes(1) Cons.prems(1) l] by (cases "i = k") auto
    with i(2) sizes(2) l g show ?thesis by (auto simp: pass_ok_def grows_length)
  qed
  with i g s e k have "pass_ok idxs (k # ks) again items again'' items''"
    unfolding pass_ok_def by (auto intro: grows_trans)
  with i(1) s show ?case by simp
qed

section \<open>The loop ends\<close>

definition slack :: "asm_item list \<Rightarrow> nat" where
  "slack items = nat (asm_bound items - sum_list (map item_size items))"

definition unrest :: "(bytes \<rightharpoonup> nat) \<Rightarrow> asm_item list \<Rightarrow> nat" where
  "unrest idxs items = 2 * slack items + (if \<forall>i<length items. settled idxs items i then 0 else 1)"

lemma sum_sizes_grows: "grows xs ys \<Longrightarrow> sum_list (map item_size xs) \<le> sum_list (map item_size ys)"
  unfolding grows_def by (induction rule: list_all2_induct) auto

lemma sum_sizes_grows_strict:
  "grows xs ys \<Longrightarrow> map item_size xs \<noteq> map item_size ys \<Longrightarrow>
   sum_list (map item_size xs) < sum_list (map item_size ys)"
  unfolding grows_def
proof (induction rule: list_all2_induct)
  case (Cons x xs y ys)
  have "sum_list (map item_size xs) \<le> sum_list (map item_size ys)"
    using Cons(2) by (intro sum_sizes_grows) (simp add: grows_def)
  with Cons show ?case by (cases "map item_size xs = map item_size ys") auto
qed simp

lemma sum_sizes_le: "refinable idxs items \<Longrightarrow> sum_list (map item_size items) \<le> asm_bound items"
  unfolding asm_bound_def refinable_def by (intro sum_list_mono) (auto simp: in_set_conv_nth)

lemma unrest_decreases:
  assumes r: "refinable idxs items" and p: "pass_ok idxs [0..<length items] False items True items'"
  shows "unrest idxs items' < unrest idxs items"
proof -
  have g: "grows items items'" "refinable idxs items'" and u: "\<not> (\<forall>i<length items. settled idxs items i)"
    using p by (auto simp: pass_ok_def)
  note l = grows_length [OF g(1)] grows_bound [OF g(1)] sum_sizes_le [OF g(2)]
  show ?thesis
  proof (cases "map item_size items = map item_size items'")
    case True
    then have "slack items' = slack items" "\<forall>i<length items'. settled idxs items' i"
      using p l(1) by (auto simp: pass_ok_def slack_def l(2))
    then show ?thesis using u by (simp add: unrest_def)
  next
    case False
    from sum_sizes_grows_strict [OF g(1) False] l have "slack items' < slack items"
      by (simp add: slack_def)
    then show ?thesis using u by (simp add: unrest_def)
  qed
qed

lemma refine_loop_settles:
  assumes r: "refinable idxs items" and k: "\<forall>x\<in>set items. \<not> unknown idxs x"
  shows "\<exists>items'. refine_loop idxs items = Some (Inr (False, items')) \<and> grows items items' \<and>
    refinable idxs items' \<and> (\<forall>i<length items. settled idxs items' i)"
proof -
  let ?b = "\<lambda>st. case st of Inr (again, _) \<Rightarrow> again | Inl _ \<Rightarrow> False"
  let ?c = "\<lambda>st. case st of Inr (_, its) \<Rightarrow> refine idxs [0..<length its] False its | Inl e \<Rightarrow> Inl e"
  let ?P = "\<lambda>st. \<exists>again its. st = Inr (again, its) \<and> refinable idxs its \<and> grows items its \<and>
    (\<not> again \<longrightarrow> (\<forall>i<length its. settled idxs its i))"
  let ?f = "\<lambda>st. case st of Inr (again, its) \<Rightarrow> 2 * unrest idxs its + (if again then 1 else 0) | Inl _ \<Rightarrow> 0"
  have step: "?P (?c st) \<and> ?f (?c st) < ?f st" if "?P st" "?b st" for st :: "asm_error + bool \<times> asm_item list"
  proof -
    from that obtain its where st: "st = Inr (True, its)" and r: "refinable idxs its" and g: "grows items its"
      by auto
    have "\<not> unknown idxs (its ! i)" if "i < length its" for i
      using k grows_nth [OF g, of i] that grows_length [OF g] unknown_same [of "items ! i" "its ! i"] by auto
    then obtain again' its' where e: "refine idxs [0..<length its] False its = Inr (again', its')"
      and p: "pass_ok idxs [0..<length its] False its again' its'"
      using refine_ok [OF r, of "[0..<length its]" False] by (auto simp: subset_iff)
    have "2 * unrest idxs its' + (if again' then 1 else 0) < 2 * unrest idxs its + 1"
      using unrest_decreases [OF r] p by (cases again') (auto simp: pass_ok_def)
    then show ?thesis using st e p g by (auto simp: pass_ok_def intro: grows_trans)
  qed
  have init: "?P (Inr (True, items))" using r grows_refl by blast
  from measure_while_option_Some [of ?P ?b ?c ?f, OF step init] obtain st where
    st: "refine_loop idxs items = Some st" unfolding refine_loop_def by blast
  have "?P st"
    by (rule while_option_rule [of ?P ?b ?c, OF _ st [unfolded refine_loop_def] init]) (use step in blast)
  moreover have "\<not> ?b st" using while_option_stop [OF st [unfolded refine_loop_def]] .
  ultimately show ?thesis using st grows_length by fastforce
qed

section \<open>Running a jump\<close>

fun truth :: "data \<Rightarrow> bool" where
  "truth (Int64 n) = (n \<noteq> 0)"
| "truth _ = True"

lemma runs_op_JumpIf:
  assumes q: "quiet E vm" and p: "prog (run vm) = pre @ [op_JumpIf] @ post" and pc: "pc (run vm) = len pre"
    and l: "len (prog (run vm)) < 2 ^ 63" and r: "1 \<le> runlimit vm"
    and st: "cstack vm = st @ [Data v, Data (Int64 rel)]"
    and d: "truth v \<Longrightarrow> 0 \<le> len pre + 1 + rel \<and> len pre + 1 + rel \<le> len (prog (run vm))"
  shows "\<exists>vm'. runs E vm vm' 1 \<and> advances vm vm' (1 + (if truth v then rel else 0)) 1 st"
proof -
  let ?vm = "fetched vm op_JumpIf [] 1"
  let ?n = "1 + (if truth v then rel else 0)"
  let ?vm' = "put_stack st (?vm\<lparr>run := (run vm)\<lparr>pc := pc (run vm) + ?n\<rparr>\<rparr>)"
  have h: "handler E ex op_JumpIf [] = opJumpIf" for ex
    by (rule handler_op)
      (simp_all add: opTable_def IsSmallIntOp_def IsPushdataOp_def MinPushdata_def MaxSmallInt_def MinSmallInt_def)
  have "DecodeInst ([op_JumpIf] @ post) = Inr (op_JumpIf, [], 1)" by (simp add: DecodeInst_op MinPushdata_def)
  from step_fetch [OF q p pc this r] have s: "step E ex vm = andthen opJumpIf (return ()) ?vm" for ex
    unfolding handler_def [symmetric] h by simp
  have 1: "popInt ?vm = (Inr rel, put_stack (st @ [Data v]) ?vm)"
    using st by (intro pop_typed_run) (simp add: fetched_def)
  have 2: "popBool (put_stack (st @ [Data v]) ?vm) = (Inr (truth v), put_stack st ?vm)"
    using pop_typed_run(1) [of "put_stack (st @ [Data v]) ?vm" st v]
    by (cases v) (simp_all add: popBool_def sm_simps)
  have add: "AddInt64 (len pre + 1) rel = (len pre + 1 + rel, True)" if "truth v"
  proof -
    have "is_int64 (len pre + 1 + rel)"
      using d [OF that] l unfolding is_int64_iff by simp
    moreover have "is_int64 (len pre + 1)" using l p len_nonneg [of pre] len_nonneg [of post]
      unfolding is_int64_iff by (simp del: len_nonneg)
    moreover have "is_int64 rel" using d [OF that] l p len_nonneg [of pre] len_nonneg [of post]
      unfolding is_int64_iff by (simp del: len_nonneg)
    ultimately show ?thesis using AddInt_exact [of 64 "len pre + 1" rel] by (simp add: AddInt64_def)
  qed
  have "opJumpIf ?vm = (Inr (), ?vm')"
    using add d pc unfolding opJumpIf_def
    by (auto simp: sm_simps 1 2 not_less) (auto simp: fetched_def put_stack_def modify_def add.assoc)
  then have "step E ex vm = (Inr (), ?vm')" for ex by (simp add: s sm_simps)
  moreover have "pc (run vm) < len (prog (run vm))" using p pc len_nonneg [of post] by (simp del: len_nonneg)
  moreover have a: "advances vm ?vm' ?n 1 st"
    unfolding advances_def fetched_def put_stack_def by (intro exI [of _ op_JumpIf] exI [of _ "[]"]) simp
  ultimately have "loop E (1 + fuel) vm = loop E fuel ?vm'" for fuel
    using q advances_sel(5) [OF a, of E] by (auto simp: sm_simps quiet_def)
  then have "runs E vm ?vm' 1" unfolding runs_def by (intro exI [of _ 1]) simp
  with a show ?thesis by blast
qed

definition lands :: "'o env \<Rightarrow> bytes \<Rightarrow> int \<Rightarrow> bool \<Rightarrow> int \<Rightarrow> int \<Rightarrow> bool" where
  \<comment> \<open>at position \<open>a\<close> of \<open>p\<close> there is a jump, conditional when \<open>jmpif\<close>, that arrives at position
     \<open>b\<close> when it is taken and at \<open>a'\<close> when it is not, and consumes its condition\<close>
  "lands E p a jmpif b a' \<longleftrightarrow> (\<forall>vm st v. quiet E vm \<longrightarrow> prog (run vm) = p \<longrightarrow> pc (run vm) = a \<longrightarrow>
     16 \<le> runlimit vm \<longrightarrow> cstack vm = st @ (if jmpif then [Data v] else []) \<longrightarrow>
     (\<exists>vm' c. runs E vm vm' c \<and> c \<le> 16 \<and> advances vm vm' ((if jmpif \<and> \<not> truth v then a' else b) - a) c st))"

lemma pushint64_cost_le: "pushint64_cost i \<le> 14"
  using length_PutUvarint_le [of "word_of_int i"] length_PutUvarint_le [of "word_of_int (- i)"]
  by (simp add: pushint64_cost_def int_cost_def)

lemma executes_jump_prefix:
  "\<exists>c. 0 \<le> c \<and> c \<le> 1 \<and> executes E (jump_prefix f) c (if f then [Data v] else []) [Data (if f then v else Int64 1)]"
proof (cases f)
  case True
  then show ?thesis by (auto simp: jump_prefix_def intro!: exI [of _ 0] executes_Nil)
next
  case False
  have "IsSmallInt 1" by (simp add: IsSmallInt_def MaxSmallInt_def MinSmallInt_def)
  from executes_small_int [OF this] False show ?thesis
    by (intro exI [of _ 1]) (simp add: jump_prefix_def pushint64_nonneg encode_Int_def \<open>IsSmallInt 1\<close>)
qed

lemma jump_lands:
  assumes p: "p = pre @ c @ post" and c: "c = jump_prefix f @ pushint64 rel @ [op_JumpIf]"
    and l: "len p < 2 ^ 63" and rel: "is_int64 rel"
    and d: "0 \<le> len pre + len c + rel" "len pre + len c + rel \<le> len p"
  shows "lands E p (len pre) f (len pre + len c + rel) (len pre + len c)"
  unfolding lands_def
proof (intro allI impI)
  fix vm st v
  assume q: "quiet E vm" and pr: "prog (run vm) = p" and pc: "pc (run vm) = len pre"
    and r: "16 \<le> runlimit vm" and st: "cstack vm = st @ (if f then [Data v] else [])"
  let ?v = "if f then v else Int64 1"
  let ?c1 = "jump_prefix f @ pushint64 rel"
  obtain k where k: "0 \<le> k" "k \<le> 1"
    and e: "executes E (jump_prefix f) k (if f then [Data v] else []) [Data ?v]"
    using executes_jump_prefix by blast
  let ?k = "k + pushint64_cost rel"
  have "executes E ?c1 ?k (if f then [Data v] else []) [Data ?v, Data (Int64 rel)]"
    using executes_append [OF e executes_frame [OF executes_pushint64 [OF rel], of _ "[Data ?v]", simplified]]
    by (simp add: pushint64_eq pushint64_cost_nonneg)
  moreover have "prog (run vm) = pre @ ?c1 @ [op_JumpIf] @ post" using p c pr by simp
  ultimately obtain vm1 where r1: "runs E vm vm1 ?k" and a1: "advances vm vm1 (len ?c1) ?k (st @ [Data ?v, Data (Int64 rel)])"
    using q pc l pr r st k pushint64_cost_le [of rel] unfolding executes_def by force
  note s = advances_sel [OF a1]
  have "\<exists>vm'. runs E vm1 vm' 1 \<and> advances vm1 vm' (1 + (if truth ?v then rel else 0)) 1 st"
    by (rule runs_op_JumpIf [of _ _ "pre @ ?c1" post])
      (use s q p c pr pc l r k d pushint64_cost_le [of rel] in simp_all)
  then obtain vm2 where r2: "runs E vm1 vm2 1" and a2: "advances vm1 vm2 (1 + (if truth ?v then rel else 0)) 1 st"
    by blast
  have "len ?c1 + (1 + (if truth ?v then rel else 0)) =
      (if f \<and> \<not> truth v then len pre + len c else len pre + len c + rel) - len pre"
    using c by simp
  with runs_trans [OF r1 r2] advances_trans [OF a1 a2] k pushint64_cost_le [of rel]
  show "\<exists>vm' ca. runs E vm vm' ca \<and> ca \<le> 16 \<and>
      advances vm vm' ((if f \<and> \<not> truth v then len pre + len c else len pre + len c + rel) - len pre) ca st"
    by (intro exI [of _ vm2] exI [of _ "?k + 1"]) simp
qed

section \<open>Resolving\<close>

definition position :: "asm_item list \<Rightarrow> nat \<Rightarrow> int" where
  "position items k = len (concat (map item_code (take k items)))"

lemma len_item_code: "len (item_code x) = item_size x"
  by (cases x) auto

lemma len_item_codes: "len (concat (map item_code xs)) = sum_list (map item_size xs)"
  by (induction xs) (auto simp: len_item_code)

lemma position_Suc: "k < length items \<Longrightarrow> position items (Suc k) = position items k + item_size (items ! k)"
  by (simp add: position_def take_Suc_conv_app_nth len_item_code)

lemma position_between:
  assumes "a < b" and "b \<le> length items"
  shows "position items b = position items (Suc a) + between items a b"
  using assms
proof (induction b)
  case (Suc b)
  show ?case
  proof (cases "a = b")
    case True
    then show ?thesis by (simp add: between_sum)
  next
    case False
    with Suc have "position items b = position items (Suc a) + between items a b" by simp
    with Suc.prems False show ?thesis by (simp add: position_Suc between_sum sum.atLeastLessThan_Suc)
  qed
qed simp

lemma position_le: "position items k \<le> len (concat (map item_code items))"
proof -
  have "concat (map item_code items) = concat (map item_code (take k items)) @ concat (map item_code (drop k items))"
    by (metis append_take_drop_id concat_append map_append)
  then show ?thesis by (simp add: position_def)
qed

lemma labelIdxs_Some: "labelIdxs items l = Some t \<Longrightarrow> t < length items \<and> items ! t = Target l"
  unfolding labelIdxs_def by (drule map_of_SomeD) (auto split: asm_item.splits)

lemma settled_lands:
  assumes r: "refinable idxs items" and i: "i < length items" and j: "items ! i = Jump j"
    and t: "idxs (label j) = Some t" and tt: "t < length items" "items ! t = Target l"
    and s: "settled idxs items i"
  shows "lands E (concat (map item_code items)) (position items i) (isJumpIf j) (position items t) (position items (Suc i))"
proof -
  let ?d = "if t < i then between items t i else between items i t"
  let ?p = "concat (map item_code items)"
  have max: "\<forall>i<length items. item_size (items ! i) \<le> item_max (items ! i)" "asm_bound items < 2 ^ 61"
    using r by (simp_all add: refinable_def)
  have lp: "len ?p < 2 ^ 61" using sum_sizes_le [OF r] max(2) by (simp add: len_item_codes)
  have d: "?d < 2 ^ 61" using max(2) between_le [OF max(1), of i t] between_le [OF max(1), of t i] i tt by auto
  have "0 \<le> ?d" using between_nonneg by simp
  from jump_code_Some [OF this d, of "t < i" "isJumpIf j"] obtain rel where
    code: "jump_code (t < i) (isJumpIf j) ?d = Some (jump_prefix (isJumpIf j) @ pushint64 rel @ [op_JumpIf])"
    and rel': "if t < i then rel = - (?d + len (jump_prefix (isJumpIf j) @ pushint64 rel @ [op_JumpIf])) else rel = ?d" by blast
  have c: "opcodes j = jump_prefix (isJumpIf j) @ pushint64 rel @ [op_JumpIf]"
    using s j t code by (simp add: settled_def wanted_jump jump_opcodes_def)
  have rel: "if t < i then rel = - (?d + len (opcodes j)) else rel = ?d" using rel' unfolding c .
  have "t \<noteq> i" using j tt by auto
  then have dest: "position items i + len (opcodes j) + rel = position items t"
    using rel j i tt position_between [of t i items] position_between [of i t items]
    by (auto simp: position_Suc split: if_splits)
  have split: "?p = concat (map item_code (take i items)) @ opcodes j @ concat (map item_code (drop (Suc i) items))"
    using id_take_nth_drop [OF i] j by (metis concat.simps(2) concat_append item_code.simps(3) list.simps(9) map_append)
  have "len (opcodes j) \<le> 15" using max(1) i j by force
  then have "is_int64 rel" using rel d \<open>0 \<le> ?d\<close> len_nonneg [of "opcodes j"]
    unfolding is_int64_iff by (simp del: len_nonneg split: if_splits)
  from jump_lands [OF split c _ this] lp dest position_le [of items t] i j
  show ?thesis by (simp add: position_def position_Suc len_item_code take_Suc_conv_app_nth)
qed

lemma resolve_cases:
  assumes "asm_bound items < 2 ^ 61" and "\<And>j. Jump j \<in> set items \<Longrightarrow> opcodes j = []"
  shows "case find (unknown (labelIdxs items)) items of
     Some x \<Rightarrow> resolve items = Inl (UnknownLabel (item_label x))
   | None \<Rightarrow> (\<exists>items'. resolve items = Inr (concat (map item_code items')) \<and> grows items items' \<and>
       refinable (labelIdxs items) items' \<and> (\<forall>i<length items. settled (labelIdxs items) items' i))"
proof -
  let ?idxs = "labelIdxs items"
  have "item_size (items ! i) \<le> item_max (items ! i) \<and> (\<forall>c. wanted ?idxs items i = Some c \<longrightarrow> item_size (items ! i) \<le> len c)"
    if "i < length items" for i
    using assms(2) nth_mem [OF that] by (cases "items ! i") (auto simp: wanted_def)
  then have r: "refinable ?idxs items"
    using assms(1) labelIdxs_Some [of items] by (simp add: refinable_def)
  show ?thesis
  proof (cases "find (unknown ?idxs) items")
    case (Some x)
    then obtain i where i: "i < length items" "unknown ?idxs (items ! i)" "x = items ! i" "\<forall>k<i. \<not> unknown ?idxs (items ! k)"
      by (auto simp: find_Some_iff)
    then have "find (\<lambda>i. unknown ?idxs (items ! i)) [0..<length items] = Some i"
      by (auto simp: find_Some_iff)
    from refine_unknown [OF r _ this, of False] have
      "refine ?idxs [0..<length items] False items = Inl (UnknownLabel (item_label x))" using i by (simp add: subset_iff)
    then have "refine_loop ?idxs items = Some (Inl (UnknownLabel (item_label x)))"
      unfolding refine_loop_def by (simp add: while_option_unfold)
    with Some show ?thesis by (simp add: resolve_def)
  next
    case None
    then have "\<forall>x\<in>set items. \<not> unknown ?idxs x" by (simp add: find_None_iff)
    from refine_loop_settles [OF r this] None show ?thesis by (auto simp: resolve_def)
  qed
qed

lemma resolve_returns:
  assumes "asm_bound items < 2 ^ 61" and "\<And>j. Jump j \<in> set items \<Longrightarrow> opcodes j = []"
  shows "resolve items \<noteq> Inl AsmDiverges \<and> resolve items \<noteq> Inl AsmFuel \<and>
    (\<forall>code. resolve items = Inr code \<longrightarrow> len code \<le> asm_bound items)"
  using resolve_cases [OF assms]
  by (auto simp: len_item_codes grows_bound [symmetric] sum_sizes_le split: option.splits)

text \<open>
  C4: The assembler resolves symbolic jumps. \<^verbatim>\<open>resolve\<close> returns for every list of items: it
  reports the first jump to an unknown label, if there is one; otherwise its result is the items in
  order, each jump replaced by code that, run by the virtual machine wherever the jump stands, arrives
  at the position of its label (for a conditional jump: when the condition holds, and just behind the jump otherwise),
  although the length of that code depends on the other jumps.
\<close>

theorem resolve_correct:
  assumes "asm_bound items < 2 ^ 61" and "\<And>j. Jump j \<in> set items \<Longrightarrow> opcodes j = []"
  shows "case find (unknown (labelIdxs items)) items of
     Some x \<Rightarrow> resolve items = Inl (UnknownLabel (item_label x))
   | None \<Rightarrow> (\<exists>items'. resolve items = Inr (concat (map item_code items')) \<and> list_all2 same_item items items' \<and>
       (\<forall>i<length items. \<forall>j. items ! i = Jump j \<longrightarrow> (\<exists>t. labelIdxs items (label j) = Some t \<and> items ! t = Target (label j) \<and>
          lands E (concat (map item_code items')) (position items' i) (isJumpIf j) (position items' t) (position items' (Suc i)))))"
proof (cases "find (unknown (labelIdxs items)) items")
  case (Some x)
  with resolve_cases [OF assms] show ?thesis by simp
next
  case None
  let ?idxs = "labelIdxs items"
  from None resolve_cases [OF assms] obtain items' where l: "resolve items = Inr (concat (map item_code items'))"
    and g: "grows items items'" and r': "refinable ?idxs items'" and s: "\<forall>i<length items. settled ?idxs items' i" by auto
  have k: "\<forall>x\<in>set items. \<not> unknown ?idxs x" using None by (simp add: find_None_iff)
  have "\<exists>t. ?idxs (label j) = Some t \<and> items ! t = Target (label j) \<and>
      lands E (concat (map item_code items')) (position items' i) (isJumpIf j) (position items' t) (position items' (Suc i))"
    if i: "i < length items" and j: "items ! i = Jump j" for i j
  proof -
    from k i j obtain t where t: "?idxs (label j) = Some t" by (force simp: unknown_def dest: nth_mem)
    with labelIdxs_Some have tt: "t < length items" "items ! t = Target (label j)" by auto
    from grows_nth [OF g i] j obtain j' where j': "items' ! i = Jump j'" "label j' = label j" "isJumpIf j' = isJumpIf j"
      by (auto simp: same_item_def split: asm_item.splits)
    have "items' ! t = Target (label j)" using grows_nth [OF g tt(1)] tt(2) by (auto simp: same_item_def)
    with settled_lands [OF r' _ j'(1), of t "label j"] i t tt s j' g show ?thesis by (auto simp: grows_length)
  qed
  with None l g show ?thesis
    by (auto simp: grows_def intro!: exI [of _ items'] elim: list_all2_mono)
qed

theorem resolve_correct_witness:
  "\<exists>items'. resolve [Target [97], Code [5], Jump \<lparr>label = [97], isJumpIf = True, opcodes = []\<rparr>] = Inr (concat (map item_code items'))"
  using resolve_correct [of "[Target [97], Code [5], Jump \<lparr>label = [97], isJumpIf = True, opcodes = []\<rparr>]" "init_env sample_crypto"]
  by (auto simp: asm_bound_def unknown_def labelIdxs_def upt_rec)

end
