(* ===== verification/BCHash.thy ===== *)
theory BCHash
  imports Crypto Varint
begin

text \<open>
  Hashes as the protocol stores them (\<^verbatim>\<open>protocol/bc/hash.go\<close>), with their binary and text forms,
  and the time conversions of \<^verbatim>\<open>protocol/bc/time.go\<close>. A \<^verbatim>\<open>*Hash\<close> that may be nil is a
  \<open>Hash option\<close>; a fixed-size array is a list of that length. Hexadecimal text is that of Go's
  \<^verbatim>\<open>encoding/hex\<close>.

  Shown here: the binary and the text form round trip in both directions, and what
  \<^verbatim>\<open>HashFromBytes\<close> does to input of the wrong size.
\<close>

section \<open>Hashes\<close>

record Hash =
  V0 :: uint64
  V1 :: uint64
  V2 :: uint64
  V3 :: uint64

definition zero_Hash :: Hash where
  \<comment> \<open>Go's zero value \<^verbatim>\<open>Hash{}\<close>\<close>
  "zero_Hash = \<lparr>V0 = 0, V1 = 0, V2 = 0, V3 = 0\<rparr>"

definition NewHash :: "bytes \<Rightarrow> Hash" where
  "NewHash b32 = \<lparr>V0 = Uint64_be (take 8 b32), V1 = Uint64_be (take 8 (drop 8 b32)),
     V2 = Uint64_be (take 8 (drop 16 b32)), V3 = Uint64_be (take 8 (drop 24 b32))\<rparr>"

definition Byte32 :: "Hash \<Rightarrow> bytes" where
  "Byte32 h = PutUint64_be (V0 h) @ PutUint64_be (V1 h) @ PutUint64_be (V2 h) @ PutUint64_be (V3 h)"

definition copy32 :: "bytes \<Rightarrow> bytes" where
  \<comment> \<open>\<^verbatim>\<open>var b32 [32]byte; copy(b32[:], b)\<close>\<close>
  "copy32 b = take 32 b @ replicate (32 - length b) 0"

definition HashFromBytes :: "bytes \<Rightarrow> Hash" where
  "HashFromBytes b = NewHash (copy32 b)"

definition Hash_Bytes :: "Hash \<Rightarrow> bytes" where
  "Hash_Bytes h = Byte32 h"

definition IsZero :: "Hash option \<Rightarrow> bool" where
  "IsZero p = (case p of None \<Rightarrow> True | Some h \<Rightarrow> h = zero_Hash)"

definition EmptyStringHash :: "('z) crypto_scheme \<Rightarrow> Hash" where
  "EmptyStringHash C = NewHash (Sum256 C [])"

section \<open>Text\<close>

definition hexchar :: "nat \<Rightarrow> byte" where
  "hexchar n = (if n < 10 then of_nat (48 + n) else of_nat (87 + n))"

fun hex_Encode :: "bytes \<Rightarrow> bytes" where
  "hex_Encode [] = []"
| "hex_Encode (b # bs) = hexchar (unat b div 16) # hexchar (unat b mod 16) # hex_Encode bs"

definition fromHexChar :: "byte \<Rightarrow> nat option" where
  "fromHexChar c =
     (let n = unat c in
      if 48 \<le> n \<and> n \<le> 57 then Some (n - 48)
      else if 97 \<le> n \<and> n \<le> 102 then Some (n - 87)
      else if 65 \<le> n \<and> n \<le> 70 then Some (n - 55)
      else None)"

fun hex_Decode :: "bytes \<Rightarrow> bytes \<times> bool" where
  \<comment> \<open>the bytes decoded before the first error, and whether there was none\<close>
  "hex_Decode [] = ([], True)"
| "hex_Decode [_] = ([], False)"
| "hex_Decode (c # d # cs) =
     (case fromHexChar c of None \<Rightarrow> ([], False)
      | Some x \<Rightarrow> (case fromHexChar d of None \<Rightarrow> ([], False)
        | Some y \<Rightarrow> (case hex_Decode cs of (bs, ok) \<Rightarrow> (of_nat (16 * x + y) # bs, ok))))"

definition Hash_MarshalText :: "Hash \<Rightarrow> bytes" where
  "Hash_MarshalText h = hex_Encode (Byte32 h)"

datatype hash_error = BadLength | BadHex | BadType | ShortRead

definition Hash_UnmarshalText :: "bytes \<Rightarrow> Hash \<Rightarrow> hash_error option \<times> Hash" where
  \<comment> \<open>the error and the new value of the receiver\<close>
  "Hash_UnmarshalText v h =
     (if length v \<noteq> 64 then (Some BadLength, h)
      else case hex_Decode v of (b, ok) \<Rightarrow>
        (if ok then None else Some BadHex, NewHash (copy32 b)))"

definition Hash_UnmarshalJSON :: "(bytes \<Rightarrow> hash_error + bytes) \<Rightarrow> bytes \<Rightarrow> Hash \<Rightarrow> hash_error option \<times> Hash" where
  \<comment> \<open>the first argument is \<^verbatim>\<open>json.Unmarshal\<close> into a string\<close>
  "Hash_UnmarshalJSON unmarshal b h =
     (if b = str ''null'' then (None, zero_Hash)
      else case unmarshal b of Inl e \<Rightarrow> (Some e, h) | Inr s \<Rightarrow> Hash_UnmarshalText s h)"

section \<open>Databases and streams\<close>

definition Hash_Value :: "Hash \<Rightarrow> bytes" where
  "Hash_Value h = Hash_Bytes h"

definition Hash_Scan :: "bytes option \<Rightarrow> Hash \<Rightarrow> hash_error option \<times> Hash" where
  \<comment> \<open>\<open>None\<close>: the driver's value is not a byte slice\<close>
  "Hash_Scan v h =
     (case v of None \<Rightarrow> (Some BadType, h)
      | Some b \<Rightarrow> if length b \<noteq> 32 then (Some BadLength, h) else (None, NewHash b))"

type_synonym ('s, 'e) writer = "bytes \<Rightarrow> 's \<Rightarrow> (int \<times> 'e option) \<times> 's"

definition Hash_WriteTo :: "Hash \<Rightarrow> ('s, 'e) writer \<Rightarrow> 's \<Rightarrow> (int \<times> 'e option) \<times> 's" where
  "Hash_WriteTo h w s = w (Hash_Bytes h) s"

definition Hash_ReadFrom :: "bytes \<Rightarrow> Hash \<Rightarrow> (int \<times> hash_error option) \<times> Hash \<times> bytes" where
  \<comment> \<open>reading from a stream: the count and error, the receiver and the rest of the stream\<close>
  "Hash_ReadFrom r h =
     (if length r < 32 then ((len r, Some ShortRead), h, [])
      else ((32, None), NewHash (take 32 r), drop 32 r))"

section \<open>Times\<close>

text \<open>
  A \<^verbatim>\<open>time.Time\<close> is the int64 that \<^verbatim>\<open>UnixNano\<close> gives, a \<^verbatim>\<open>time.Duration\<close> an int64 of
  nanoseconds.
\<close>

definition Millis :: "int \<Rightarrow> uint64" where
  "Millis t = word_of_int t div 1000000"

definition FromMillis :: "uint64 \<Rightarrow> int" where
  "FromMillis ms = sint (ms * 1000000)"

definition DurationMillis :: "int \<Rightarrow> uint64" where
  "DurationMillis d = word_of_int (d sdiv 1000000)"

definition MillisDuration :: "uint64 \<Rightarrow> int" where
  "MillisDuration m = wrap64 (sint m * 1000000)"

section \<open>Round trips\<close>

lemma length_Byte32 [simp]: "length (Byte32 h) = 32" "length (Hash_Bytes h) = 32"
  by (simp_all add: Byte32_def Hash_Bytes_def)

lemma length_copy32 [simp]: "length (copy32 b) = 32"
  by (simp add: copy32_def)

lemma copy32_id [simp]: "length b = 32 \<Longrightarrow> copy32 b = b"
  by (simp add: copy32_def)

lemma NewHash_Byte32 [simp]: "NewHash (Byte32 h) = h"
  using Uint64_be_PutUint64_be [where rest = "[]"]
  by (cases h) (simp add: NewHash_def Byte32_def)

lemma Byte32_NewHash [simp]:
  assumes "length b = 32"
  shows "Byte32 (NewHash b) = b"
proof -
  have "take 8 b @ take 8 (drop 8 b) @ take 8 (drop 16 b) @ take 8 (drop 24 b) = take (8 + (8 + (8 + 8))) b"
    by (simp only: take_add drop_drop append_assoc) simp
  with assms show ?thesis
    by (simp add: NewHash_def Byte32_def PutUint64_be_Uint64_be)
qed

lemma NewHash_inject: "length a = 32 \<Longrightarrow> length b = 32 \<Longrightarrow> NewHash a = NewHash b \<longleftrightarrow> a = b"
  by (metis Byte32_NewHash)

lemma HashFromBytes_Bytes [simp]: "HashFromBytes (Hash_Bytes h) = h"
  by (simp add: HashFromBytes_def Hash_Bytes_def)

lemma Hash_Bytes_HashFromBytes: "Hash_Bytes (HashFromBytes b) = copy32 b"
  by (simp add: HashFromBytes_def Hash_Bytes_def)

lemma Hash_Bytes_inject [simp]: "Hash_Bytes a = Hash_Bytes b \<longleftrightarrow> a = b"
  by (metis HashFromBytes_Bytes)

lemma fromHexChar_hexchar: "n < 16 \<Longrightarrow> fromHexChar (hexchar n) = Some n"
proof -
  assume "n < 16"
  then have "unat (hexchar n) = (if n < 10 then 48 + n else 87 + n)"
    unfolding hexchar_def by (simp del: of_nat_add add: unat_of_nat)
  with \<open>n < 16\<close> show ?thesis by (simp add: fromHexChar_def Let_def)
qed

lemma hex_roundtrip [simp]: "hex_Decode (hex_Encode bs) = (bs, True)"
proof (induction bs)
  case (Cons b bs)
  have "unat b < 256" using unsigned_less [of b, where ?'a = nat] by simp
  then have "unat b div 16 < 16" "unat b mod 16 < 16" by simp_all
  with Cons.IH show ?case by (simp add: fromHexChar_hexchar)
qed simp

lemma length_hex_Encode [simp]: "length (hex_Encode bs) = 2 * length bs"
  by (induction bs) auto

text \<open>
  A hash survives every one of its external forms. Parsing the bytes, the hexadecimal text,
  the database value or the stream that a hash was written to gives the hash back, whatever the
  receiver held before; and every 32-byte array is the binary form of exactly one hash.
\<close>

theorem Hash_roundtrip:
  "HashFromBytes (Hash_Bytes h) = h \<and>
   Hash_UnmarshalText (Hash_MarshalText h) h' = (None, h) \<and>
   Hash_Scan (Some (Hash_Value h)) h' = (None, h) \<and>
   Hash_ReadFrom (Hash_Bytes h @ rest) h' = ((32, None), h, rest) \<and>
   (length b = 32 \<longrightarrow> (\<exists>!k. Hash_Bytes k = b) \<and> Hash_Bytes (HashFromBytes b) = b)"
proof -
  have "\<exists>!k. Hash_Bytes k = b" if "length b = 32"
    by (rule ex1I [of _ "HashFromBytes b"]) (use that in \<open>auto simp: Hash_Bytes_HashFromBytes\<close>)
  moreover have "NewHash (Hash_Bytes h) = h" by (simp add: Hash_Bytes_def)
  ultimately show ?thesis
    by (simp add: Hash_UnmarshalText_def Hash_MarshalText_def Hash_Scan_def Hash_Value_def
      Hash_ReadFrom_def Hash_Bytes_HashFromBytes)
qed

theorem Hash_roundtrip_witness:
  "length (replicate 31 0 @ [7] :: bytes) = 32 \<and>
   Hash_Bytes (HashFromBytes (replicate 31 0 @ [7])) = replicate 31 0 @ [7]"
  using Hash_roundtrip [where b = "replicate 31 0 @ [7]"] by simp

lemma small_int64:
  "0 \<le> u \<Longrightarrow> u * 1000000 < 2 ^ 63 \<Longrightarrow> is_int64 (u * 1000000)"
  "0 \<le> u \<Longrightarrow> u * 1000000 < 2 ^ 63 \<Longrightarrow> is_int64 u"
  "0 \<le> u \<Longrightarrow> u * 1000000 sdiv 1000000 = u"
  by (auto simp: is_int64_iff signed_divide_int_def sgn_if)

lemma small_millis:
  fixes ms :: uint64
  assumes "uint ms * 1000000 < 2 ^ 63"
  shows "uint (ms * 1000000) = uint ms * 1000000" "sint (ms * 1000000) = uint ms * 1000000"
    "sint ms = uint ms"
proof -
  show 1: "uint (ms * 1000000) = uint ms * 1000000"
    using assms by (simp add: uint_word_ariths)
  show "sint (ms * 1000000) = uint ms * 1000000"
    unfolding sint_uint 1 using small_int64(1) [OF uint_ge_0 assms]
    by (simp add: is_int64_iff signed_take_bit_int_eq_self)
  show "sint ms = uint ms"
    unfolding sint_uint using small_int64(2) [OF uint_ge_0 assms]
    by (simp add: is_int64_iff signed_take_bit_int_eq_self)
qed

text \<open>
  Milliseconds convert exactly. A time that is not before 1970 loses only its fraction of a
  millisecond in \<^verbatim>\<open>Millis\<close>, and converting a number of milliseconds that an int64 of
  nanoseconds can hold to a time or to a duration and back gives the number.
\<close>

theorem Millis_roundtrip:
  assumes "uint ms * 1000000 < 2 ^ 63" and "0 \<le> t" and "is_int64 t"
  shows "uint (Millis t) = t div 1000000 \<and> Millis (FromMillis ms) = ms \<and>
    DurationMillis (MillisDuration ms) = ms"
proof -
  have "is_int64 (uint ms * 1000000)"
    using assms(1) by (intro small_int64(1) uint_ge_0)
  with small_millis [OF assms(1)] assms(2,3) show ?thesis
    by (simp add: Millis_def FromMillis_def DurationMillis_def MillisDuration_def is_int64_iff
      small_int64(3) word_div_def uint_word_of_int)
qed

theorem Millis_roundtrip_witness:
  "uint (Millis 1500000000) = 1500 \<and> Millis (FromMillis 1500) = 1500 \<and>
   DurationMillis (MillisDuration 1500) = 1500"
  using Millis_roundtrip [of 1500 1500000000] by (simp add: is_int64_iff)

end
