(* ===== verification/AsmScan.thy ===== *)
theory AsmScan
  imports AsmResolve BCHash
begin

text \<open>
  The scanner of the assembler (\<^verbatim>\<open>protocol/txvm/asm/scanner.go\<close>). A scanner is the record of its
  fields, a \<^verbatim>\<open>rune\<close> an integer, \<open>-1\<close> at the end of the text, and offsets, which are never
  negative, natural numbers. The Unicode tables of letters and digits outside ASCII are a parameter.
  Scanning a comment may never end; then \<open>scan\<close> is \<open>None\<close>. Every other loop of the scanner consumes the text.
\<close>

section \<open>UTF-8\<close>

definition RuneError :: int where "RuneError = 0xfffd"
definition RuneSelf :: int where "RuneSelf = 0x80"

definition contbyte :: "byte \<Rightarrow> bool" where
  "contbyte b \<longleftrightarrow> 0x80 \<le> b \<and> b \<le> 0xbf"

definition low6 :: "byte \<Rightarrow> int" where
  "low6 b = uint b mod 64"

definition DecodeRune :: "bytes \<Rightarrow> int \<times> nat" where
  \<comment> \<open>\<^verbatim>\<open>utf8.DecodeRuneInString\<close>\<close>
  "DecodeRune s = (case s of [] \<Rightarrow> (RuneError, 0)
   | s0 # rest \<Rightarrow>
       if s0 < 0x80 then (uint s0, 1)
       else if 0xc2 \<le> s0 \<and> s0 \<le> 0xdf then
         (case rest of s1 # _ \<Rightarrow> if contbyte s1 then (uint s0 mod 32 * 64 + low6 s1, 2) else (RuneError, 1)
          | [] \<Rightarrow> (RuneError, 1))
       else if 0xe0 \<le> s0 \<and> s0 \<le> 0xef then
         (case rest of s1 # s2 # _ \<Rightarrow>
            if contbyte s1 \<and> (s0 = 0xe0 \<longrightarrow> 0xa0 \<le> s1) \<and> (s0 = 0xed \<longrightarrow> s1 \<le> 0x9f) \<and> contbyte s2
            then (uint s0 mod 16 * 4096 + low6 s1 * 64 + low6 s2, 3) else (RuneError, 1)
          | _ \<Rightarrow> (RuneError, 1))
       else if 0xf0 \<le> s0 \<and> s0 \<le> 0xf4 then
         (case rest of s1 # s2 # s3 # _ \<Rightarrow>
            if contbyte s1 \<and> (s0 = 0xf0 \<longrightarrow> 0x90 \<le> s1) \<and> (s0 = 0xf4 \<longrightarrow> s1 \<le> 0x8f) \<and> contbyte s2 \<and> contbyte s3
            then (uint s0 mod 8 * 262144 + low6 s1 * 4096 + low6 s2 * 64 + low6 s3, 4) else (RuneError, 1)
          | _ \<Rightarrow> (RuneError, 1))
       else (RuneError, 1))"

definition EncodeRune :: "int \<Rightarrow> bytes" where
  \<comment> \<open>\<^verbatim>\<open>string(ch)\<close>\<close>
  "EncodeRune r =
     (let r = (if r < 0 \<or> r > 0x10ffff \<or> (0xd800 \<le> r \<and> r \<le> 0xdfff) then RuneError else r) in
      if r < 0x80 then [word_of_int r]
      else if r < 0x800 then [word_of_int (0xc0 + r div 64), word_of_int (0x80 + r mod 64)]
      else if r < 0x10000 then
        [word_of_int (0xe0 + r div 4096), word_of_int (0x80 + r div 64 mod 64), word_of_int (0x80 + r mod 64)]
      else [word_of_int (0xf0 + r div 262144), word_of_int (0x80 + r div 4096 mod 64),
        word_of_int (0x80 + r div 64 mod 64), word_of_int (0x80 + r mod 64)])"

section \<open>The scanner\<close>

record unicode =
  IsLetter :: "int \<Rightarrow> bool"
  IsDigit :: "int \<Rightarrow> bool"

record scanner =
  srcstr :: bytes
  ch :: int
  offset :: nat
  rdOffset :: nat
  lineOffset :: nat
  errs :: "(nat \<times> string) list"

datatype token = TokIllegal | TokNumber | TokIdent | TokHex | TokString | TokColon | TokComma | TokComment
  | TokLeftBrace | TokRightBrace | TokLeftBracket | TokRightBracket | TokLabel | TokJumpIf | TokJump | TokEOF

definition chr :: "string \<Rightarrow> int" where
  \<comment> \<open>a rune literal\<close>
  "chr s = of_char (hd s)"

definition substr :: "bytes \<Rightarrow> nat \<Rightarrow> nat \<Rightarrow> bytes" where
  \<comment> \<open>\<^verbatim>\<open>s[i:j]\<close>, within the bounds\<close>
  "substr s i j = take (j - i) (drop i s)"

definition scan_error :: "nat \<Rightarrow> string \<Rightarrow> scanner \<Rightarrow> scanner" where
  "scan_error offs msg s = s\<lparr>errs := errs s @ [(offs, msg)]\<rparr>"

definition scan_next :: "scanner \<Rightarrow> scanner" where
  "scan_next s =
     (if rdOffset s < length (srcstr s) then
        let s = s\<lparr>offset := rdOffset s\<rparr>;
            s = (if ch s = 10 then s\<lparr>lineOffset := offset s\<rparr> else s);
            r = uint (srcstr s ! rdOffset s);
            (r, w, s) =
              (if r = 0 then (r, 1, scan_error (offset s) ''illegal character NUL'' s)
               else if r \<ge> RuneSelf then
                 (case DecodeRune (drop (rdOffset s) (srcstr s)) of (r, w) \<Rightarrow>
                    (r, w, if r = RuneError \<and> w = 1 then scan_error (offset s) ''illegal UTF-8 encoding'' s else s))
               else (r, 1, s))
        in s\<lparr>rdOffset := rdOffset s + w, ch := r\<rparr>
      else
        let s = s\<lparr>offset := length (srcstr s)\<rparr>;
            s = (if ch s = 10 then s\<lparr>lineOffset := offset s\<rparr> else s)
        in s\<lparr>ch := -1\<rparr>)"

definition initString :: "bytes \<Rightarrow> scanner" where
  "initString s = scan_next \<lparr>srcstr = s, ch = 0, offset = 0, rdOffset = 0, lineOffset = 0, errs = []\<rparr>"

definition isLetter :: "unicode \<Rightarrow> int \<Rightarrow> bool" where
  "isLetter U c \<longleftrightarrow> (97 \<le> c \<and> c \<le> 122) \<or> (65 \<le> c \<and> c \<le> 90) \<or> c = 95 \<or> (c \<ge> RuneSelf \<and> IsLetter U c)"

definition isDigit :: "unicode \<Rightarrow> int \<Rightarrow> bool" where
  "isDigit U c \<longleftrightarrow> (48 \<le> c \<and> c \<le> 57) \<or> (c \<ge> RuneSelf \<and> IsDigit U c)"

definition remaining :: "scanner \<Rightarrow> nat" where
  "remaining s = (if ch s = -1 \<and> length (srcstr s) \<le> rdOffset s then 0 else Suc (length (srcstr s) - rdOffset s))"

lemma DecodeRune_width: "s \<noteq> [] \<Longrightarrow> 1 \<le> snd (DecodeRune s)"
  by (auto simp: DecodeRune_def split: list.split)

lemma scan_next_less:
  "remaining (scan_next s) \<le> remaining s" "ch s \<noteq> -1 \<Longrightarrow> remaining (scan_next s) < remaining s"
proof -
  have "remaining (scan_next s) < remaining s" if True: "rdOffset s < length (srcstr s)"
  proof -
    obtain r w where d: "DecodeRune (drop (rdOffset s) (srcstr s)) = (r, w)" by fastforce
    have "drop (rdOffset s) (srcstr s) \<noteq> []" using True by simp
    from DecodeRune_width [OF this] d have "1 \<le> w" by simp
    with True d show ?thesis by (auto simp: scan_next_def remaining_def Let_def scan_error_def)
  qed
  moreover have "remaining (scan_next s) = 0" if "\<not> rdOffset s < length (srcstr s)"
    using that by (simp add: scan_next_def remaining_def Let_def)
  moreover have "ch s \<noteq> -1 \<Longrightarrow> 0 < remaining s" by (simp add: remaining_def)
  ultimately show "remaining (scan_next s) \<le> remaining s"
    "ch s \<noteq> -1 \<Longrightarrow> remaining (scan_next s) < remaining s"
    by (cases "rdOffset s < length (srcstr s)"; force)+
qed

function skip :: "(int \<Rightarrow> bool) \<Rightarrow> scanner \<Rightarrow> scanner" where
  \<comment> \<open>\<^verbatim>\<open>for p(s.ch) { s.next() }\<close>, for conditions that fail at the end of the text\<close>
  "skip p s = (if ch s \<noteq> -1 \<and> p (ch s) then skip p (scan_next s) else s)"
  by pat_completeness auto
termination
  by (relation "measure (\<lambda>(_, s). remaining s)") (auto simp: scan_next_less)

declare skip.simps [simp del]

definition scanNumber :: "unicode \<Rightarrow> scanner \<Rightarrow> bytes \<times> scanner" where
  "scanNumber U s =
     (let offs = offset s;
          s = (if ch s = chr ''0'' then
                 let s = scan_next s in
                 if isDigit U (ch s) then scan_error offs ''illegal leading 0 in number'' s else s
               else skip (isDigit U) (scan_next s))
      in (substr (srcstr s) offs (offset s), s))"

definition scanIdentifier :: "unicode \<Rightarrow> nat \<Rightarrow> scanner \<Rightarrow> bytes \<times> scanner" where
  "scanIdentifier U offs s =
     (let s = skip (\<lambda>c. isLetter U c \<or> isDigit U c) s in (substr (srcstr s) offs (offset s), s))"

definition scanLabel :: "unicode \<Rightarrow> scanner \<Rightarrow> bytes \<times> scanner" where
  "scanLabel U s =
     (let offs = offset s - 1; (lit, s) = scanIdentifier U offs s in
      (lit, if length lit = 0 then scan_error offs ''empty label $'' s else s))"

definition skipWhitespace :: "scanner \<Rightarrow> scanner" where
  "skipWhitespace = skip (\<lambda>c. c = 32 \<or> c = 9 \<or> c = 10 \<or> c = 13)"

definition scanComment :: "scanner \<Rightarrow> (bytes \<times> scanner) option" where
  \<comment> \<open>\<^verbatim>\<open>for s.ch != '\n' { s.next() }\<close>, also at the end of the text\<close>
  "scanComment s =
     (let offs = offset s - 1 in
      case while_option (\<lambda>s. ch s \<noteq> 10) scan_next s of None \<Rightarrow> None
      | Some s \<Rightarrow> Some (substr (srcstr s) offs (offset s), s))"

definition scanEscape :: "int \<Rightarrow> scanner \<Rightarrow> bool \<times> scanner" where
  "scanEscape quote s =
     (if ch s = 92 \<or> ch s = quote then (True, scan_next s)
      else (False, scan_error (offset s)
        (if ch s < 0 then ''escape sequence not terminated'' else ''unknown escape sequence'') s))"

lemma remaining_scan_error [simp]: "remaining (scan_error o' m s) = remaining s"
  by (simp add: remaining_def scan_error_def)

lemma remaining_scanEscape: "remaining (snd (scanEscape q s)) \<le> remaining s"
  by (simp add: scanEscape_def scan_next_less)

function scanString_loop :: "int \<Rightarrow> nat \<Rightarrow> scanner \<Rightarrow> scanner" where
  "scanString_loop delim offs s =
     (let c = ch s in
      if c = 10 \<or> c < 0 then scan_error offs ''string literal not terminated'' s
      else let s = scan_next s in
        if c = delim then s
        else scanString_loop delim offs (if c = 92 then snd (scanEscape delim s) else s))"
  by pat_completeness auto
termination
proof (relation "measure (\<lambda>(_, _, s). remaining s)", goal_cases)
  case (2 delim offs s c s')
  then have "remaining s' < remaining s" by (simp add: scan_next_less)
  with remaining_scanEscape [of delim s'] show ?case by simp
qed simp

declare scanString_loop.simps [simp del]

definition scanString :: "int \<Rightarrow> scanner \<Rightarrow> bytes \<times> scanner" where
  "scanString delim s =
     (let offs = offset s - 1; s = scanString_loop delim offs s in (substr (srcstr s) offs (offset s), s))"

function scanHex_loop :: "int \<Rightarrow> nat \<Rightarrow> scanner \<Rightarrow> scanner" where
  "scanHex_loop quote offs s =
     (let c = ch s in
      if c < 0 then scan_error offs ''hex literal not terminated'' s
      else let s = scan_next s in if c = quote then s else scanHex_loop quote offs s)"
  by pat_completeness auto
termination
  by (relation "measure (\<lambda>(_, _, s). remaining s)") (auto simp: scan_next_less)

declare scanHex_loop.simps [simp del]

definition scanHex :: "nat \<Rightarrow> scanner \<Rightarrow> bytes \<times> scanner" where
  "scanHex offs s =
     (let quote = ch s; s = scanHex_loop quote offs (scan_next s) in (substr (srcstr s) offs (offset s), s))"

definition punctuation :: "(int \<times> token) list" where
  "punctuation = [(-1, TokEOF), (chr ''{'', TokLeftBrace), (chr ''}'', TokRightBrace), (chr '','', TokComma),
     (chr ''['', TokLeftBracket), (chr '']'', TokRightBracket), (chr '':'', TokColon)]"

definition scan_word :: "unicode \<Rightarrow> nat \<Rightarrow> scanner \<Rightarrow> token \<times> bytes \<times> scanner" where
  \<comment> \<open>an identifier, or one of the symbolic jumps\<close>
  "scan_word U pos s =
     (let (lit, s) = scanIdentifier U pos s in
      if lit = str ''jump'' \<and> ch s = chr '':'' then
        (TokJump, substr (srcstr s) pos (rdOffset s), scan_next s)
      else if lit = str ''jumpif'' \<and> ch s = chr '':'' then
        (TokJumpIf, substr (srcstr s) pos (rdOffset s), scan_next s)
      else (TokIdent, lit, s))"

definition scan :: "unicode \<Rightarrow> scanner \<Rightarrow> (nat \<times> token \<times> bytes \<times> scanner) option" where
  \<comment> \<open>\<open>None\<close>: the scanner does not return\<close>
  "scan U s =
     (let s = skipWhitespace s;
          pos = offset s;
          lit = substr (srcstr s) (offset s) (rdOffset s);
          c = ch s
      in if (48 \<le> c \<and> c \<le> 57) \<or> c = chr ''-'' then
           (case scanNumber U s of (lit, s) \<Rightarrow> Some (pos, TokNumber, lit, s))
         else let s = scan_next s in
           (case map_of punctuation c of
              Some tok \<Rightarrow> Some (pos, tok, lit, s)
            | None \<Rightarrow>
                if c = 34 \<or> c = 39 then (case scanString c s of (lit, s) \<Rightarrow> Some (pos, TokString, lit, s))
                else if c = chr ''$'' then (case scanLabel U s of (lit, s) \<Rightarrow> Some (pos, TokLabel, lit, s))
                else if c = chr ''#'' then
                  (case scanComment s of None \<Rightarrow> None | Some (lit, s) \<Rightarrow> Some (pos, TokComment, lit, s))
                else if c = chr ''x'' then
                  (if ch s = 39 \<or> ch s = 34 then (case scanHex pos s of (lit, s) \<Rightarrow> Some (pos, TokHex, lit, s))
                   else (case scanIdentifier U pos s of (lit, s) \<Rightarrow> Some (pos, TokIdent, lit, s)))
                else if isLetter U c then Some (pos, scan_word U pos s)
                else Some (pos, TokIllegal, EncodeRune c, s)))"

end
