(* ===== verification/Asm.thy ===== *)
theory Asm
  imports AsmScan
begin

text \<open>
  The assembler (\<^verbatim>\<open>protocol/txvm/asm/asm.go\<close>). Its functions pass the scanner as a state; an error is a
  value, \<open>AsmPanic\<close> a run-time panic (a slice out of range), and \<open>AsmDiverges\<close> a loop that never ends. Every call
  of the assembler's mutually recursive functions spends fuel; \<open>Assemble\<close> has enough of it.
\<close>

section \<open>Tokens are consumed\<close>

inductive scans :: "scanner \<Rightarrow> scanner \<Rightarrow> bool" where
  \<comment> \<open>the second scanner results from the first by reading characters and reporting errors\<close>
  start: "scans s s"
| read: "scans s s' \<Longrightarrow> scans s (scan_next s')"
| report: "scans s s' \<Longrightarrow> scans s (scan_error offs msg s')"

lemma scans_trans: "scans s' s'' \<Longrightarrow> scans s s' \<Longrightarrow> scans s s''"
  by (induction rule: scans.induct) (auto intro: scans.intros)

lemma srcstr_scan_next [simp]: "srcstr (scan_next s) = srcstr s"
  by (auto simp: scan_next_def Let_def scan_error_def split: prod.split)

lemma scans_remaining: "scans s s' \<Longrightarrow> remaining s' \<le> remaining s"
  by (induction rule: scans.induct) (auto intro: order_trans [OF scan_next_less(1)])

lemma scans_srcstr: "scans s s' \<Longrightarrow> srcstr s' = srcstr s"
  by (induction rule: scans.induct) (auto simp: scan_error_def)

lemma scans_next: "scans (scan_next s) s' \<Longrightarrow> scans s s'"
  by (rule scans_trans) (auto intro: scans.intros)

lemma scans_skip: "scans s (skip p s)"
proof (induction p s rule: skip.induct)
  case (1 p s)
  then show ?case by (subst skip.simps) (auto intro: scans.start scans_next)
qed

lemma scans_scanEscape: "scans s (snd (scanEscape q s))"
  by (auto simp: scanEscape_def intro: scans.intros)

lemma scans_scanString_loop: "scans s (scanString_loop d offs s)"
proof (induction d offs s rule: scanString_loop.induct)
  case (1 d offs s)
  note IH = "1.IH" [OF refl _ refl]
  show ?case
    using IH
    by (subst scanString_loop.simps) (auto simp: Let_def intro: scans.intros scans_next scans_trans [OF _ scans_next [OF scans_scanEscape]])
qed

lemma scans_scanHex_loop: "scans s (scanHex_loop q offs s)"
proof (induction q offs s rule: scanHex_loop.induct)
  case (1 q offs s)
  from "1.IH" [OF refl _ refl] show ?case
    by (subst scanHex_loop.simps) (auto simp: Let_def intro: scans.intros scans_next)
qed

lemma scans_scanComment: "scanComment s = Some (lit, s') \<Longrightarrow> scans s s'"
proof -
  assume "scanComment s = Some (lit, s')"
  then have "while_option (\<lambda>s. ch s \<noteq> 10) scan_next s = Some s'"
    by (auto simp: scanComment_def Let_def split: option.splits)
  then show ?thesis
    by (rule while_option_rule [of "scans s", rotated]) (auto intro: scans.intros)
qed

lemma scans_scanNumber: "scanNumber U s = (lit, s') \<Longrightarrow> scans (scan_next s) s'"
  by (auto simp: scanNumber_def Let_def intro: scans.intros scans_skip split: if_splits)

lemma scans_scanIdentifier: "scanIdentifier U offs s = (lit, s') \<Longrightarrow> scans s s'"
  by (auto simp: scanIdentifier_def Let_def scans_skip)

lemma scans_scanLabel: "scanLabel U s = (lit, s') \<Longrightarrow> scans s s'"
  by (auto simp: scanLabel_def Let_def intro: scans.report dest: scans_scanIdentifier split: prod.splits if_splits)

lemma scans_scan_word: "scan_word U pos s = (tok, lit, s') \<Longrightarrow> scans s s'"
  by (auto simp: scan_word_def Let_def intro: scans.read dest: scans_scanIdentifier split: prod.splits if_splits)

lemma scan_scans:
  assumes "scan U s = Some (pos, tok, lit, s')"
  shows "scans (scan_next (skipWhitespace s)) s'" "tok \<noteq> TokEOF \<Longrightarrow> ch (skipWhitespace s) \<noteq> -1"
proof -
  let ?s = "skipWhitespace s" and ?n = "scan_next (skipWhitespace s)"
  have "scans ?n (scanString_loop (ch ?s) (offset ?n - 1) ?n)" "scans ?n (scanHex_loop (ch ?n) (offset ?s) (scan_next ?n))"
    by (auto intro: scans_scanString_loop scans_next scans_scanHex_loop)
  then show "scans ?n s'"
    using assms by (auto simp: scan_def Let_def scanString_def scanHex_def intro: scans.start
        dest: scans_scanNumber scans_scanLabel scans_scanComment scans_scanIdentifier scans_scan_word
        split: prod.splits option.splits if_splits)
  show "tok \<noteq> TokEOF \<Longrightarrow> ch ?s \<noteq> -1"
    using assms by (auto simp: scan_def Let_def punctuation_def chr_def split: prod.splits)
qed

lemma scan_consumes:
  assumes "scan U s = Some (pos, tok, lit, s')"
  shows "scans s s'" "tok \<noteq> TokEOF \<Longrightarrow> remaining s' < remaining s"
proof -
  have w: "scans s (skipWhitespace s)" by (simp add: skipWhitespace_def scans_skip)
  with scan_scans(1) [OF assms] show "scans s s'" by (blast intro: scans_trans scans_next)
  show "remaining s' < remaining s" if "tok \<noteq> TokEOF"
    using scan_next_less(2) [OF scan_scans(2) [OF assms that]] scans_remaining [OF scan_scans(1) [OF assms]]
      scans_remaining [OF w] by linarith
qed

section \<open>The assembler\<close>

function next_token :: "unicode \<Rightarrow> scanner \<Rightarrow> (nat \<times> token \<times> bytes \<times> scanner) option" where
  \<comment> \<open>\<^verbatim>\<open>(*assembler).next\<close>: the next token that is not a comment\<close>
  "next_token U s = (case scan U s of None \<Rightarrow> None
     | Some (off, tok, lit, s') \<Rightarrow> if tok = TokComment then next_token U s' else Some (off, tok, lit, s'))"
  by pat_completeness auto
termination
  by (relation "measure (\<lambda>(_, s). remaining s)") (auto dest: scan_consumes)

declare next_token.simps [simp del]

type_synonym 'a aact = "(scanner, asm_error, 'a) sm"

definition asm_next :: "unicode \<Rightarrow> (nat \<times> token \<times> bytes) aact" where
  "asm_next U = (\<lambda>s. case next_token U s of None \<Rightarrow> (Inl AsmDiverges, s)
     | Some (off, tok, lit, s') \<Rightarrow> (Inr (off, tok, lit), s'))"

definition flush :: "asm_item list \<Rightarrow> bytes \<Rightarrow> asm_item list" where
  "flush items buf = (if buf = [] then items else items @ [Code buf])"

definition lit_slice :: "bytes \<Rightarrow> nat \<Rightarrow> bytes aact" where
  \<comment> \<open>\<^verbatim>\<open>lit[i : len(lit)-1]\<close>\<close>
  "lit_slice lit i = andthen (guard (i \<le> length lit - 1 \<and> lit \<noteq> []) AsmPanic) (return (substr lit i (length lit - 1)))"

definition digit_val :: "byte \<Rightarrow> int option" where
  "digit_val c = (if 48 \<le> c \<and> c \<le> 57 then Some (uint c - 48) else None)"

fun parse_digits :: "int \<Rightarrow> bytes \<Rightarrow> int option" where
  "parse_digits acc [] = Some acc"
| "parse_digits acc (c # cs) = (case digit_val c of None \<Rightarrow> None | Some d \<Rightarrow> parse_digits (10 * acc + d) cs)"

definition ParseInt :: "bytes \<Rightarrow> int option" where
  \<comment> \<open>\<^verbatim>\<open>strconv.ParseInt(s, 10, 64)\<close>, \<open>None\<close> for both of its errors\<close>
  "ParseInt s =
     (let neg = (s \<noteq> [] \<and> hd s = 45); plus = (s \<noteq> [] \<and> hd s = 43);
          ds = (if neg \<or> plus then tl s else s) in
      if ds = [] then None
      else case parse_digits 0 ds of None \<Rightarrow> None
      | Some n \<Rightarrow> let v = (if neg then - n else n) in if is_int64 v then Some v else None)"

type_synonym macros_map = "(bytes \<times> bytes) list"

function assembleItems :: "unicode \<Rightarrow> macros_map \<Rightarrow> nat \<Rightarrow> token \<Rightarrow> asm_item list \<Rightarrow> bytes \<Rightarrow> asm_item list aact"
  and assembleValue :: "unicode \<Rightarrow> macros_map \<Rightarrow> nat \<Rightarrow> nat \<Rightarrow> token \<Rightarrow> bytes \<Rightarrow> bytes \<Rightarrow> bytes aact"
  and assembleTuple :: "unicode \<Rightarrow> macros_map \<Rightarrow> nat \<Rightarrow> int \<Rightarrow> nat \<times> token \<times> bytes \<Rightarrow> bytes \<Rightarrow> bytes aact"
  and assemble :: "unicode \<Rightarrow> macros_map \<Rightarrow> nat \<Rightarrow> token \<Rightarrow> bytes aact" where
  "assembleItems U M fuel stoptok items buf = (case fuel of 0 \<Rightarrow> panic AsmFuel | Suc n \<Rightarrow>
     bind (asm_next U) (\<lambda>(off, tok, lit).
     if tok = stoptok then return (flush items buf)
     else if tok = TokLabel then
       assembleItems U M n stoptok (flush items buf @ [Target (tl lit)]) []
     else if tok = TokJump \<or> tok = TokJumpIf then
       bind (asm_next U) (\<lambda>(off', tok', lit').
       andthen (guard (tok' = TokLabel) (ExpectedLabel off'))
         (assembleItems U M n stoptok
           (flush items buf @ [Jump \<lparr>label = tl lit', isJumpIf = (tok = TokJumpIf), opcodes = []\<rparr>]) []))
     else if tok = TokIdent then
       (case map_of M lit of Some preassembled \<Rightarrow> assembleItems U M n stoptok items (buf @ preassembled)
        | None \<Rightarrow> (case op_Code lit of (o', ok) \<Rightarrow>
            andthen (guard ok (UnknownIdent lit off)) (assembleItems U M n stoptok items (buf @ [o']))))
     else bind (assembleValue U M n off tok lit buf) (\<lambda>buf'. assembleItems U M n stoptok items buf')))"
| "assembleValue U M fuel off tok lit buf = (case fuel of 0 \<Rightarrow> panic AsmFuel | Suc n \<Rightarrow>
     if tok = TokString then
       bind (lit_slice lit 1) (\<lambda>dat. return (writeVarint buf (word_of_int (len dat) + ucast MinPushdata) @ dat))
     else if tok = TokHex then
       bind (lit_slice lit 2) (\<lambda>hexstr. case hex_Decode hexstr of (dat, ok) \<Rightarrow>
       andthen (guard ok (HexError off)) (return (b_writePushdata buf dat)))
     else if tok = TokNumber then
       (case ParseInt lit of None \<Rightarrow> panic (NumberError lit) | Some i \<Rightarrow> return (writePushint64 buf i))
     else if tok = TokLeftBrace then bind (asm_next U) (\<lambda>t. assembleTuple U M n 0 t buf)
     else if tok = TokLeftBracket then bind (assemble U M n TokRightBracket) (\<lambda>prog. return (b_writePushdata buf prog))
     else panic (UnexpectedToken lit off))"
| "assembleTuple U M fuel cnt t buf = (case fuel of 0 \<Rightarrow> panic AsmFuel | Suc n \<Rightarrow>
     (case t of (off, tok, lit) \<Rightarrow>
      if tok = TokRightBrace then return (writePushint64 buf cnt @ [op_Tuple])
      else bind (if cnt > 0 then andthen (guard (tok = TokComma) (ExpectedComma off lit)) (asm_next U)
                 else return t) (\<lambda>(off', tok', lit').
        bind (assembleValue U M n off' tok' lit' buf) (\<lambda>buf'.
        bind (asm_next U) (\<lambda>t'. assembleTuple U M n (wrap64 (cnt + 1)) t' buf')))))"
| "assemble U M fuel stoptok = (case fuel of 0 \<Rightarrow> panic AsmFuel | Suc n \<Rightarrow>
     bind (assembleItems U M n stoptok [] []) (\<lambda>items.
     case resolve items of Inl e \<Rightarrow> panic e | Inr code \<Rightarrow> return code))"
  by pat_completeness auto
termination
  by (relation "measure (\<lambda>x. case x of Inl (Inl (_, _, n, _)) \<Rightarrow> n | Inl (Inr (_, _, n, _)) \<Rightarrow> n
        | Inr (Inl (_, _, n, _)) \<Rightarrow> n | Inr (Inr (_, _, n, _)) \<Rightarrow> n)") auto

declare assembleItems.simps [simp del] assembleValue.simps [simp del] assembleTuple.simps [simp del] assemble.simps [simp del]

lemmas assembleItems_Suc = assembleItems.simps [where fuel = "Suc n" for n, unfolded nat.case]
  and assembleValue_Suc = assembleValue.simps [where fuel = "Suc n" for n, unfolded nat.case]
  and assembleTuple_Suc = assembleTuple.simps [where fuel = "Suc n" for n, unfolded nat.case]
  and assemble_Suc = assemble.simps [where fuel = "Suc n" for n, unfolded nat.case]

definition asm_fuel :: "scanner \<Rightarrow> nat" where
  "asm_fuel s = 3 * remaining s + 4"

definition Assemble :: "unicode \<Rightarrow> macros_map \<Rightarrow> bytes \<Rightarrow> asm_error + bytes" where
  \<comment> \<open>the map \<open>M\<close> is the package variable \<^verbatim>\<open>composite\<close>\<close>
  "Assemble U M s =
     (let scn = initString s in
      case assemble U M (asm_fuel scn) TokEOF scn of (r, scn') \<Rightarrow>
        if r = Inl AsmPanic \<or> r = Inl AsmDiverges \<or> r = Inl AsmFuel then r
        else if errs scn' \<noteq> [] then Inl (ScannerErrors (errs scn')) else r)"

definition macros :: "(bytes \<times> bytes) list" where
  "macros = [
     (str ''bool'', str ''not not''),
     (str ''swap'', str ''1 roll''),
     (str ''jump'', str ''1 swap jumpif''),
     (str ''le'', str ''gt not''),
     (str ''ge'', str ''swap le''),
     (str ''lt'', str ''swap gt''),
     (str ''sub'', str ''neg add''),
     (str ''splitzero'', str ''0 split'')]"

fun asm_init :: "unicode \<Rightarrow> (bytes \<times> bytes) list \<Rightarrow> macros_map \<Rightarrow> macros_map option" where
  \<comment> \<open>\<^verbatim>\<open>init\<close>: the map \<^verbatim>\<open>composite\<close>, \<open>None\<close> when it panics\<close>
  "asm_init U [] M = Some M"
| "asm_init U ((ident, expansion) # ms) M =
     (case Assemble U M expansion of Inl _ \<Rightarrow> None | Inr assembled \<Rightarrow> asm_init U ms ((ident, assembled) # M))"

section \<open>The macros\<close>

definition ascii_unicode :: unicode where
  \<comment> \<open>tables without letters and digits outside ASCII\<close>
  "ascii_unicode = \<lparr>IsLetter = (\<lambda>_. False), IsDigit = (\<lambda>_. False)\<rparr>"

definition composite :: macros_map where
  "composite = [
     (str ''splitzero'', [0, op_Split]),
     (str ''sub'', [op_Neg, op_Add]),
     (str ''lt'', [1, op_Roll, op_GT]),
     (str ''ge'', [1, op_Roll, op_GT, op_Not]),
     (str ''le'', [op_GT, op_Not]),
     (str ''jump'', [1, 1, op_Roll, op_JumpIf]),
     (str ''swap'', [1, op_Roll]),
     (str ''bool'', [op_Not, op_Not])]"

lemma macro_bool: "Assemble U [] (str ''not not'') = Inr [op_Not, op_Not]"
  by code_simp

lemma macro_swap: "Assemble U [(str ''bool'', [op_Not, op_Not])] (str ''1 roll'') = Inr [1, op_Roll]"
  by code_simp

lemma macro_jump: "Assemble U [(str ''swap'', [1, op_Roll]), (str ''bool'', [op_Not, op_Not])] (str ''1 swap jumpif'') = Inr [1, 1, op_Roll, op_JumpIf]"
  by code_simp

lemma macro_le: "Assemble U [(str ''jump'', [1, 1, op_Roll, op_JumpIf]), (str ''swap'', [1, op_Roll]), (str ''bool'', [op_Not, op_Not])] (str ''gt not'') = Inr [op_GT, op_Not]"
  by code_simp

lemma macro_ge: "Assemble U [(str ''le'', [op_GT, op_Not]), (str ''jump'', [1, 1, op_Roll, op_JumpIf]), (str ''swap'', [1, op_Roll]), (str ''bool'', [op_Not, op_Not])] (str ''swap le'') = Inr [1, op_Roll, op_GT, op_Not]"
  by code_simp

lemma macro_lt: "Assemble U [(str ''ge'', [1, op_Roll, op_GT, op_Not]), (str ''le'', [op_GT, op_Not]), (str ''jump'', [1, 1, op_Roll, op_JumpIf]), (str ''swap'', [1, op_Roll]), (str ''bool'', [op_Not, op_Not])] (str ''swap gt'') = Inr [1, op_Roll, op_GT]"
  by code_simp

lemma macro_sub: "Assemble U [(str ''lt'', [1, op_Roll, op_GT]), (str ''ge'', [1, op_Roll, op_GT, op_Not]), (str ''le'', [op_GT, op_Not]), (str ''jump'', [1, 1, op_Roll, op_JumpIf]), (str ''swap'', [1, op_Roll]), (str ''bool'', [op_Not, op_Not])] (str ''neg add'') = Inr [op_Neg, op_Add]"
  by code_simp

lemma macro_splitzero: "Assemble U [(str ''sub'', [op_Neg, op_Add]), (str ''lt'', [1, op_Roll, op_GT]), (str ''ge'', [1, op_Roll, op_GT, op_Not]), (str ''le'', [op_GT, op_Not]), (str ''jump'', [1, 1, op_Roll, op_JumpIf]), (str ''swap'', [1, op_Roll]), (str ''bool'', [op_Not, op_Not])] (str ''0 split'') = Inr [0, op_Split]"
  by code_simp

lemma asm_init_composite: "asm_init U macros [] = Some composite"
  by (simp only: macros_def composite_def asm_init.simps sum.case macro_bool macro_swap macro_jump macro_le macro_ge macro_lt macro_sub macro_splitzero)

end
