(* ===== verification/AsmReturns.thy ===== *)
theory AsmReturns
  imports Asm
begin

text \<open>
  Termination of the assembler. The locale \<open>token_source\<close> is what the assembler relies on of its scanner;
  inside it each of the assembler's functions is shown to return with the fuel it is given, and the
  program to stay within a bound, so that the resolution of jumps returns too. It is interpreted on all texts, and on
  the texts that end in a newline, on which the scanner always returns.
\<close>

section \<open>What a token consumes\<close>

lemma next_token_consumes:
  assumes "next_token U s = Some (off, tok, lit, s')"
  shows "scans s s'" "tok \<noteq> TokEOF \<Longrightarrow> remaining s' < remaining s" "tok \<noteq> TokComment"
proof -
  have "scans s s' \<and> (tok \<noteq> TokEOF \<longrightarrow> remaining s' < remaining s) \<and> tok \<noteq> TokComment"
    using assms
  proof (induction U s rule: next_token.induct)
    case (1 U s)
    from "1.prems" obtain off1 tok1 lit1 s1 where sc: "scan U s = Some (off1, tok1, lit1, s1)"
      and t: "(if tok1 = TokComment then next_token U s1 else Some (off1, tok1, lit1, s1)) = Some (off, tok, lit, s')"
      by (subst (asm) next_token.simps) (auto split: option.splits)
    note c = scan_consumes [OF sc]
    show ?case
    proof (cases "tok1 = TokComment")
      case True
      with "1.IH" [OF sc refl refl refl True] t c show ?thesis by (auto intro: scans_trans)
    next
      case False
      with t c show ?thesis by auto
    qed
  qed
  then show "scans s s'" "tok \<noteq> TokEOF \<Longrightarrow> remaining s' < remaining s" "tok \<noteq> TokComment" by auto
qed

text \<open>Literals of tokens are pieces of the source.\<close>

lemma length_substr: "length (substr xs i j) \<le> length xs"
  by (simp add: substr_def)

lemmas scans_srcs = scans_srcstr [OF scans_skip] scans_srcstr [OF scans_scanString_loop] scans_srcstr [OF scans_scanHex_loop]

lemma length_substr_scans: "scans s s' \<Longrightarrow> length (substr (srcstr s') i j) \<le> length (srcstr s)"
  by (simp add: length_substr scans_srcstr)

lemma lit_scanNumber: "scanNumber U s = (lit, s') \<Longrightarrow> length lit \<le> length (srcstr s)"
  using scans_scanNumber [of U s] length_substr_scans [OF scans_next, of s]
  by (auto simp: scanNumber_def Let_def)

lemma lit_scanIdentifier: "scanIdentifier U offs s = (lit, s') \<Longrightarrow> length lit \<le> length (srcstr s)"
  by (auto simp: scanIdentifier_def Let_def intro: length_substr_scans scans_skip)

lemma lit_scanLabel: "scanLabel U s = (lit, s') \<Longrightarrow> length lit \<le> length (srcstr s)"
  by (auto simp: scanLabel_def Let_def dest: lit_scanIdentifier split: prod.splits)

lemma lit_scanComment: "scanComment s = Some (lit, s') \<Longrightarrow> length lit \<le> length (srcstr s)"
  using scans_scanComment [of s lit s'] length_substr_scans [of s s']
  by (auto simp: scanComment_def Let_def split: option.splits)

lemma lit_scanString: "scanString d s = (lit, s') \<Longrightarrow> length lit \<le> length (srcstr s)"
  by (auto simp: scanString_def Let_def intro: length_substr_scans scans_scanString_loop)

lemma lit_scanHex: "scanHex offs s = (lit, s') \<Longrightarrow> length lit \<le> length (srcstr s)"
  by (auto simp: scanHex_def Let_def intro: length_substr_scans scans_next scans_scanHex_loop)

lemma lit_scan_word: "scan_word U pos s = (tok, lit, s') \<Longrightarrow> length lit \<le> length (srcstr s)"
  by (auto simp: scan_word_def Let_def intro: length_substr_scans dest: lit_scanIdentifier scans_scanIdentifier
      split: prod.splits if_splits)

lemma scan_lit:
  assumes "scan U s = Some (pos, tok, lit, s')" and "tok \<noteq> TokIllegal"
  shows "length lit \<le> length (srcstr s)"
proof -
  have [simp]: "srcstr (skipWhitespace s) = srcstr s" by (simp add: skipWhitespace_def scans_srcs)
  show ?thesis
    using assms
    by (auto simp: scan_def Let_def dest!: lit_scanNumber lit_scanLabel lit_scanComment lit_scanIdentifier
        lit_scanString lit_scanHex lit_scan_word intro: order_trans [OF length_substr]
        split: prod.splits option.splits if_splits)
qed

text \<open>
  What the assembler relies on of its scanner. \<open>J\<close> is what is known about the scanner, \<open>L\<close> bounds the
  length of its text, and with it the size of the assembled program, and \<open>D\<close> is whether the scanner may not
  return.
\<close>

locale token_source =
  fixes U :: unicode and M :: macros_map and J :: "scanner \<Rightarrow> bool" and L :: nat and D :: bool
  assumes J_next: "J s \<Longrightarrow> next_token U s = Some (off, tok, lit, s') \<Longrightarrow> J s'"
    and J_diverges: "J s \<Longrightarrow> next_token U s = None \<Longrightarrow> D"
    and J_src: "J s \<Longrightarrow> length (srcstr s) \<le> L"
    and M_small: "map_of M lit = Some b \<Longrightarrow> length b \<le> 20"
begin

definition K :: int where
  "K = int L + 40"

definition budget :: "scanner \<Rightarrow> scanner \<Rightarrow> int" where
  "budget s s' = K * (int (remaining s) - int (remaining s'))"

definition good :: "scanner \<Rightarrow> int \<Rightarrow> ('a \<Rightarrow> int) \<Rightarrow> (asm_error + 'a) \<times> scanner \<Rightarrow> bool" where
  \<comment> \<open>the outcome of a computation from \<open>s\<close>: it returns, and the size of its result is at most \<open>B\<close> and
     what is covered by the characters that it consumes\<close>
  "good s B w = (\<lambda>(r, s'). J s' \<and> remaining s' \<le> remaining s \<and> r \<noteq> Inl AsmFuel \<and> (r = Inl AsmDiverges \<longrightarrow> D) \<and>
     (\<forall>x. r = Inr x \<longrightarrow> w x \<le> B + budget s s'))"

definition fits :: "scanner \<Rightarrow> int \<Rightarrow> bool" where
  "fits s B \<longleftrightarrow> B + K * int (remaining s) < 2 ^ 61"

lemma K_pos: "0 \<le> K" "40 \<le> K" "0 \<le> d \<Longrightarrow> 0 \<le> K * d"
  by (simp_all add: K_def)

lemma budget_trans: "budget s s' + budget s' s'' = budget s s''"
  by (simp add: budget_def algebra_simps)

lemma budget_nonneg: "remaining s' \<le> remaining s \<Longrightarrow> 0 \<le> budget s s'"
  using K_pos by (simp add: budget_def)

lemma budget_one: "remaining s' < remaining s \<Longrightarrow> K \<le> budget s s'"
proof -
  assume "remaining s' < remaining s"
  then have "1 \<le> int (remaining s) - int (remaining s')" by simp
  from mult_left_mono [OF this K_pos(1)] show ?thesis by (simp add: budget_def)
qed

lemma next_token_lit: "next_token U s = Some (off, tok, lit, s') \<Longrightarrow> tok \<noteq> TokIllegal \<Longrightarrow> length lit \<le> length (srcstr s)"
proof (induction U s rule: next_token.induct)
  case (1 U s)
  from "1.prems"(1) obtain off1 tok1 lit1 s1 where sc: "scan U s = Some (off1, tok1, lit1, s1)"
    and t: "(if tok1 = TokComment then next_token U s1 else Some (off1, tok1, lit1, s1)) = Some (off, tok, lit, s')"
    by (subst (asm) next_token.simps) (auto split: option.splits)
  have "srcstr s1 = srcstr s" using scan_consumes(1) [OF sc] by (rule scans_srcstr)
  with "1.IH" [OF sc refl refl refl] t "1.prems"(2) scan_lit [OF sc] show ?case by (auto split: if_splits)
qed

lemma asm_next_cases:
  assumes "J s"
  obtains (diverges) "asm_next U s = (Inl AsmDiverges, s)" "D"
  | (token) off tok lit s' where "asm_next U s = (Inr (off, tok, lit), s')" "J s'" "remaining s' \<le> remaining s"
    "tok \<noteq> TokEOF \<Longrightarrow> remaining s' < remaining s" "tok \<noteq> TokIllegal \<Longrightarrow> len lit \<le> int L"
proof (cases "next_token U s")
  case None
  with J_diverges [OF assms] diverges show thesis by (simp add: asm_next_def)
next
  case (Some t)
  then obtain off tok lit s' where n: "next_token U s = Some (off, tok, lit, s')" by (cases t) auto
  have "tok \<noteq> TokIllegal \<Longrightarrow> len lit \<le> int L" using next_token_lit [OF n] J_src [OF assms] by (simp add: len_def)
  with n J_next [OF assms n] next_token_consumes [OF n] scans_remaining show thesis
    by (auto simp: asm_next_def intro!: token)
qed

lemma fits_from: "fits s B \<Longrightarrow> B1 \<le> B + budget s s1 \<Longrightarrow> fits s1 B1"
  by (simp add: fits_def budget_def algebra_simps)

lemma good_from:
  "good s1 B1 w p \<Longrightarrow> remaining s1 \<le> remaining s \<Longrightarrow> B1 \<le> B + budget s s1 \<Longrightarrow> good s B w p"
  unfolding good_def budget_def by (auto simp: algebra_simps split: prod.splits)

lemma good_bind:
  assumes "good s B1 w1 (m s)"
    and "\<And>x s1. J s1 \<Longrightarrow> remaining s1 \<le> remaining s \<Longrightarrow> w1 x \<le> B1 + budget s s1 \<Longrightarrow> m s = (Inr x, s1) \<Longrightarrow> good s B w (f x s1)"
  shows "good s B w (bind m f s)"
proof -
  obtain r s1 where m: "m s = (r, s1)" by fastforce
  from assms(1) m have g: "J s1" "remaining s1 \<le> remaining s" "r \<noteq> Inl AsmFuel" "r = Inl AsmDiverges \<Longrightarrow> D"
    "\<And>x. r = Inr x \<Longrightarrow> w1 x \<le> B1 + budget s s1" by (auto simp: good_def)
  show ?thesis
  proof (cases r)
    case (Inl e)
    with g m show ?thesis by (simp add: good_def bind_def)
  next
    case (Inr x)
    with g m assms(2) show ?thesis by (simp add: bind_def)
  qed
qed

lemma good_next:
  assumes "J s"
    and "\<And>off tok lit s1. J s1 \<Longrightarrow> remaining s1 \<le> remaining s \<Longrightarrow> (tok \<noteq> TokEOF \<Longrightarrow> remaining s1 < remaining s) \<Longrightarrow>
      (tok \<noteq> TokIllegal \<Longrightarrow> len lit \<le> int L) \<Longrightarrow> good s B w (f (off, tok, lit) s1)"
  shows "good s B w (bind (asm_next U) f s)"
  using assms(1)
proof (cases rule: asm_next_cases)
  case diverges
  then show ?thesis unfolding good_def using assms(1) by (simp add: bind_def)
next
  case (token off tok lit s')
  with assms(2) show ?thesis by (simp add: bind_def)
qed

lemma good_return: "J s \<Longrightarrow> w x \<le> B \<Longrightarrow> good s B w (return x s)"
  by (simp add: good_def return_def budget_def)

lemma good_panic: "J s \<Longrightarrow> e \<noteq> AsmFuel \<Longrightarrow> e \<noteq> AsmDiverges \<Longrightarrow> good s B w (panic e s)"
  by (simp add: good_def panic_def)

lemma good_guard: "J s \<Longrightarrow> e \<noteq> AsmFuel \<Longrightarrow> e \<noteq> AsmDiverges \<Longrightarrow> (b \<Longrightarrow> good s B w (m s)) \<Longrightarrow> good s B w (andthen (guard b e) m s)"
  by (auto simp: sm_simps good_panic) (simp add: good_def)

lemma good_panic_from: "J s1 \<Longrightarrow> remaining s1 \<le> remaining s \<Longrightarrow> e \<noteq> AsmFuel \<Longrightarrow> e \<noteq> AsmDiverges \<Longrightarrow> good s B w (panic e s1)"
  by (simp add: good_def panic_def)

lemma good_guard_from:
  "J s1 \<Longrightarrow> remaining s1 \<le> remaining s \<Longrightarrow> e \<noteq> AsmFuel \<Longrightarrow> e \<noteq> AsmDiverges \<Longrightarrow>
   (b \<Longrightarrow> good s B w (m s1)) \<Longrightarrow> good s B w (andthen (guard b e) m s1)"
  by (auto simp: sm_simps) (simp add: good_def)

lemma good_next_from:
  assumes "J s1" and "remaining s1 \<le> remaining s"
    and "\<And>off tok lit s2. J s2 \<Longrightarrow> remaining s2 \<le> remaining s1 \<Longrightarrow> good s B w (f (off, tok, lit) s2)"
  shows "good s B w (bind (asm_next U) f s1)"
  using assms(1)
proof (cases rule: asm_next_cases)
  case diverges
  then show ?thesis unfolding good_def using assms(1,2) by (simp add: bind_def)
next
  case (token off tok lit s')
  with assms(3) show ?thesis by (simp add: bind_def)
qed

lemma good_bind_from:
  assumes "good s1 B1 w1 (m s1)" and "remaining s1 \<le> remaining s"
    and "\<And>x s2. J s2 \<Longrightarrow> remaining s2 \<le> remaining s1 \<Longrightarrow> w1 x \<le> B1 + budget s1 s2 \<Longrightarrow> good s B w (f x s2)"
  shows "good s B w (bind m f s1)"
proof (cases "m s1")
  case (Pair r s2)
  with assms show ?thesis by (cases r) (auto simp: bind_def good_def)
qed

lemma good_lit_slice:
  assumes "J s" and "\<And>dat. len dat \<le> len lit \<Longrightarrow> good s B w (f dat s)"
  shows "good s B w (bind (lit_slice lit i) f s)"
proof -
  have "len (substr lit i (length lit - 1)) \<le> len lit" by (simp add: len_def length_substr)
  then show ?thesis
    using assms by (auto simp: lit_slice_def bind_def andthen_def guard_def return_def panic_def good_def)
qed

definition no_code :: "asm_item list \<Rightarrow> bool" where
  "no_code items \<longleftrightarrow> (\<forall>j. Jump j \<in> set items \<longrightarrow> opcodes j = [])"

lemma no_code_flush [simp]: "no_code (flush items buf) = no_code items"
  and no_code_snoc [simp]: "no_code (items @ [Target l]) = no_code items"
    "no_code (items @ [Jump \<lparr>label = l, isJumpIf = f, opcodes = []\<rparr>]) = no_code items"
  by (auto simp: no_code_def flush_def)

lemma assembleItems_no_code:
  "assembleItems U M n stoptok items buf s = (Inr items', s') \<Longrightarrow> no_code items \<Longrightarrow> no_code items'"
proof (induction n arbitrary: items buf s)
  case (Suc n)
  obtain off tok lit s1 where nx: "asm_next U s = (Inr (off, tok, lit), s1)"
    using Suc.prems(1) unfolding assembleItems_Suc bind_ok by fastforce
  have run: "assembleItems U M (Suc n) stoptok items buf s = F (off, tok, lit) s1"
    if "assembleItems U M (Suc n) stoptok items buf = bind (asm_next U) F" for F
    using that bind_run_Inr [of "asm_next U" s, OF nx] by simp
  note prems = Suc.prems(1) [unfolded run [OF assembleItems_Suc] prod.case]
  consider (stop) "tok = stoptok" | (label) "tok \<noteq> stoptok" "tok = TokLabel"
    | (jump) "tok \<noteq> stoptok" "tok = TokJump \<or> tok = TokJumpIf" | (ident) "tok \<noteq> stoptok" "tok = TokIdent"
    | (val) "tok \<noteq> stoptok" "tok \<notin> {TokLabel, TokJump, TokJumpIf, TokIdent}" by blast
  then show ?case
  proof cases
    case stop
    with prems Suc.prems(2) show ?thesis by (auto simp: sm_okE)
  next
    case label
    with prems Suc.prems(2) show ?thesis by (auto dest: Suc.IH)
  next
    case jump
    then have "tok \<noteq> TokLabel" by auto
    with jump prems Suc.prems(2) show ?thesis by (auto simp: sm_okE dest: Suc.IH)
  next
    case ident
    with prems Suc.prems(2) show ?thesis by (auto simp: sm_okE dest: Suc.IH split: option.splits prod.splits)
  next
    case val
    with prems Suc.prems(2) show ?thesis by (auto simp: sm_okE dest: Suc.IH)
  qed
qed (simp add: assembleItems.simps [where fuel = 0] panic_def)

lemma asm_bound_flush [simp]: "asm_bound (flush items buf) = asm_bound items + len buf"
  by (simp add: asm_bound_def flush_def)

lemma asm_bound_snoc [simp]: "asm_bound (items @ [x]) = asm_bound items + item_max x"
  by (simp add: asm_bound_def)

lemma asm_bound_nonneg: "0 \<le> asm_bound items"
  unfolding asm_bound_def by (rule sum_list_nonneg) auto

lemma len_writePushdata_le: "len (b_writePushdata buf dat) \<le> len buf + 10 + len dat"
  using length_PutUvarint_le by (simp add: b_writePushdata_eq writePushdata_def)

lemma len_writePushint64_le: "len (writePushint64 buf i) \<le> len buf + 13"
  using len_pushint64_le [of i] by (simp add: writePushint64_eq pushint64_eq)

text \<open>The four functions, each with the fuel it needs.\<close>

definition value_total :: "nat \<Rightarrow> bool" where
  "value_total n \<longleftrightarrow> (\<forall>s off tok lit buf. J s \<longrightarrow> (if tok = TokEOF then 1 else 3 * remaining s + 5) \<le> n \<longrightarrow>
     (tok \<noteq> TokIllegal \<longrightarrow> len lit \<le> int L) \<longrightarrow> fits s (len buf + K) \<longrightarrow>
     good s (len buf + K) len (assembleValue U M n off tok lit buf s))"

definition tuple_total :: "nat \<Rightarrow> bool" where
  "tuple_total n \<longleftrightarrow> (\<forall>s cnt off tok lit buf. J s \<longrightarrow> (if tok = TokEOF then 2 else 3 * remaining s + 6) \<le> n \<longrightarrow>
     (tok \<noteq> TokIllegal \<longrightarrow> len lit \<le> int L) \<longrightarrow> fits s (len buf + K) \<longrightarrow>
     good s (len buf + K) len (assembleTuple U M n cnt (off, tok, lit) buf s))"

definition items_total :: "nat \<Rightarrow> bool" where
  "items_total n \<longleftrightarrow> (\<forall>s stoptok items buf. J s \<longrightarrow> 3 * remaining s + 3 \<le> n \<longrightarrow> fits s (asm_bound items + len buf) \<longrightarrow>
     good s (asm_bound items + len buf) asm_bound (assembleItems U M n stoptok items buf s))"

definition prog_total :: "nat \<Rightarrow> bool" where
  "prog_total n \<longleftrightarrow> (\<forall>s stoptok. J s \<longrightarrow> 3 * remaining s + 4 \<le> n \<longrightarrow> fits s 0 \<longrightarrow> good s 0 len (assemble U M n stoptok s))"

lemma items_totalD:
  "items_total n \<Longrightarrow> J s \<Longrightarrow> 3 * remaining s + 3 \<le> n \<Longrightarrow> fits s B \<Longrightarrow> B = asm_bound items + len buf \<Longrightarrow>
   good s B asm_bound (assembleItems U M n stoptok items buf s)"
  by (simp add: items_total_def)

lemma value_totalD:
  "value_total n \<Longrightarrow> J s \<Longrightarrow> (if tok = TokEOF then 1 else 3 * remaining s + 5) \<le> n \<Longrightarrow>
   (tok \<noteq> TokIllegal \<Longrightarrow> len lit \<le> int L) \<Longrightarrow> fits s (len buf + K) \<Longrightarrow>
   good s (len buf + K) len (assembleValue U M n off tok lit buf s)"
  unfolding value_total_def by blast

lemma tuple_totalD:
  "tuple_total n \<Longrightarrow> J s \<Longrightarrow> (if tok = TokEOF then 2 else 3 * remaining s + 6) \<le> n \<Longrightarrow>
   (tok \<noteq> TokIllegal \<Longrightarrow> len lit \<le> int L) \<Longrightarrow> fits s (len buf + K) \<Longrightarrow>
   good s (len buf + K) len (assembleTuple U M n cnt (off, tok, lit) buf s)"
  unfolding tuple_total_def by blast

lemma prog_totalD: "prog_total n \<Longrightarrow> J s \<Longrightarrow> 3 * remaining s + 4 \<le> n \<Longrightarrow> fits s 0 \<Longrightarrow> good s 0 len (assemble U M n stoptok s)"
  unfolding prog_total_def by blast

lemma prog_step:
  assumes "items_total n"
  shows "prog_total (Suc n)"
  unfolding prog_total_def
proof (intro allI impI)
  fix s stoptok
  assume j: "J s" and n: "3 * remaining s + 4 \<le> Suc n" and f: "fits s 0"
  show "good s 0 len (assemble U M (Suc n) stoptok s)"
    unfolding assemble_Suc
  proof (rule good_bind)
    show "good s 0 asm_bound (assembleItems U M n stoptok [] [] s)"
      using items_totalD [OF assms j _ f] n by (simp add: asm_bound_def)
  next
    fix items s1
    assume j1: "J s1" and r: "remaining s1 \<le> remaining s" and b: "asm_bound items \<le> 0 + budget s s1"
      and it: "assembleItems U M n stoptok [] [] s = (Inr items, s1)"
    have "asm_bound items + K * int (remaining s1) < 2 ^ 61" using fits_from [OF f b] by (simp add: fits_def)
    then have "asm_bound items < 2 ^ 61" using K_pos(3) [of "int (remaining s1)"] by linarith
    moreover have "no_code items" using assembleItems_no_code [OF it] by (simp add: no_code_def)
    ultimately have "resolve items \<noteq> Inl AsmDiverges" "resolve items \<noteq> Inl AsmFuel"
      "\<And>code. resolve items = Inr code \<Longrightarrow> len code \<le> asm_bound items"
      using resolve_returns [of items] by (auto simp: no_code_def)
    then have "good s1 (asm_bound items) len ((case resolve items of Inl e \<Rightarrow> panic e | Inr code \<Rightarrow> return code) s1)"
      using j1 by (cases "resolve items") (auto intro: good_panic good_return)
    then show "good s 0 len ((case resolve items of Inl e \<Rightarrow> panic e | Inr code \<Rightarrow> return code) s1)"
      using r b by (rule good_from)
  qed
qed

lemma assembleValue_EOF: "assembleValue U M (Suc n) off TokEOF lit buf = panic (UnexpectedToken lit off)"
  by (simp add: assembleValue_Suc)

lemma len_hex_Decode: "len (fst (hex_Decode h)) \<le> len h"
proof (induction h rule: hex_Decode.induct)
  case (3 c d cs)
  obtain bs ok where h: "hex_Decode cs = (bs, ok)" by fastforce
  show ?case
  proof (cases "fromHexChar c = None \<or> fromHexChar d = None")
    case False
    then obtain x y where "fromHexChar c = Some x" "fromHexChar d = Some y" by auto
    with "3.IH" [OF this] h show ?thesis by simp
  qed (auto split: option.split)
qed simp_all

lemma value_step:
  assumes t: "tuple_total n" and p: "prog_total n"
  shows "value_total (Suc n)"
  unfolding value_total_def
proof (intro allI impI)
  fix s off tok and lit buf :: bytes
  assume j: "J s" and n: "(if tok = TokEOF then 1 else 3 * remaining s + 5) \<le> Suc n"
    and l: "tok \<noteq> TokIllegal \<longrightarrow> len lit \<le> int L" and f: "fits s (len buf + K)"
  let ?B = "len buf + K"
  consider "tok = TokString" | "tok = TokHex" | "tok = TokNumber" | "tok = TokLeftBrace" | "tok = TokLeftBracket"
    | "tok \<notin> {TokString, TokHex, TokNumber, TokLeftBrace, TokLeftBracket}" by auto
  then show "good s ?B len (assembleValue U M (Suc n) off tok lit buf s)"
  proof cases
    case 1
    have "good s ?B len (return (writeVarint buf (word_of_int (len dat) + ucast MinPushdata) @ dat) s)" if "len dat \<le> len lit" for dat
      using len_writePushdata_le [of buf dat] that l 1 j by (intro good_return) (simp_all add: b_writePushdata_def K_def)
    with 1 j show ?thesis by (simp add: assembleValue_Suc good_lit_slice)
  next
    case 2
    note len_hex_Decode
    then have "good s ?B len ((case hex_Decode h of (dat, ok) \<Rightarrow> andthen (guard ok (HexError off)) (return (b_writePushdata buf dat))) s)"
      if "len h \<le> len lit" for h
      using len_writePushdata_le [of buf "fst (hex_Decode h)"] that l 2 j
      by (auto intro!: good_guard good_return simp: K_def split: prod.split) (smt (verit) fst_conv)
    with 2 j show ?thesis by (simp add: assembleValue_Suc good_lit_slice)
  next
    case 3
    have "good s ?B len (return (writePushint64 buf i) s)" for i
      using len_writePushint64_le [of buf i] K_pos(2) j by (intro good_return) linarith+
    with 3 j show ?thesis by (auto simp: assembleValue_Suc good_panic split: option.split)
  next
    case 4
    have "good s ?B len (bind (asm_next U) (\<lambda>t. assembleTuple U M n 0 t buf) s)"
    proof (rule good_next [OF j])
      fix off' tok' s1 and lit' :: bytes
      assume s1: "J s1" "remaining s1 \<le> remaining s" "tok' \<noteq> TokEOF \<Longrightarrow> remaining s1 < remaining s"
        "tok' \<noteq> TokIllegal \<Longrightarrow> len lit' \<le> int L"
      have b: "?B \<le> ?B + budget s s1" using budget_nonneg [OF s1(2)] by simp
      have "good s1 ?B len (assembleTuple U M n 0 (off', tok', lit') buf s1)"
        using n s1(3) 4 by (intro tuple_totalD [OF t s1(1) _ s1(4) fits_from [OF f b]]) auto
      then show "good s ?B len (assembleTuple U M n 0 (off', tok', lit') buf s1)" using s1(2) b by (rule good_from)
    qed
    with 4 show ?thesis by (simp add: assembleValue_Suc)
  next
    case 5
    have f0: "fits s 0" using fits_from [OF f, of 0 s] K_pos(1) by (simp add: budget_def)
    have "good s ?B len (bind (assemble U M n TokRightBracket) (\<lambda>prog. return (b_writePushdata buf prog)) s)"
    proof (rule good_bind)
      show "good s 0 len (assemble U M n TokRightBracket s)"
        using n 5 by (intro prog_totalD [OF p j _ f0]) auto
    next
      fix s1 and prog :: bytes
      assume s1: "J s1" "remaining s1 \<le> remaining s" "len prog \<le> 0 + budget s s1"
      have "good s1 (len (b_writePushdata buf prog)) len (return (b_writePushdata buf prog) s1)"
        using s1(1) by (rule good_return) simp
      then show "good s ?B len (return (b_writePushdata buf prog) s1)"
        by (rule good_from [OF _ s1(2)]) (use s1(3) len_writePushdata_le [of buf prog] K_pos(2) in linarith)
    qed
    with 5 show ?thesis by (simp add: assembleValue_Suc)
  qed (use j in \<open>auto simp: assembleValue_Suc intro: good_panic\<close>)
qed

lemma good_assembleTuple_EOF:
  assumes "J s" and "2 \<le> n"
  shows "good s B w (assembleTuple U M n cnt (off, TokEOF, lit) buf s)"
proof -
  obtain m where "n = Suc (Suc m)" using assms(2) by (cases n; cases "n - 1") auto
  with assms(1) show ?thesis
    by (auto simp: assembleTuple_Suc assembleValue_EOF good_panic intro!: good_panic)
qed

lemma tuple_step:
  assumes v: "value_total n" and t: "tuple_total n"
  shows "tuple_total (Suc n)"
  unfolding tuple_total_def
proof (intro allI impI)
  fix s cnt off tok and lit buf :: bytes
  assume j: "J s" and n: "(if tok = TokEOF then 2 else 3 * remaining s + 6) \<le> Suc n"
    and l: "tok \<noteq> TokIllegal \<longrightarrow> len lit \<le> int L" and f: "fits s (len buf + K)"
  let ?B = "len buf + K"
  let ?loop = "\<lambda>(off', tok', lit'). bind (assembleValue U M n off' tok' lit' buf) (\<lambda>buf'.
    bind (asm_next U) (\<lambda>t'. assembleTuple U M n (wrap64 (cnt + 1)) t' buf'))"
  \<comment> \<open>one item of the tuple, its first token read\<close>
  have item: "good s1 ?B len (?loop (off', tok', lit') s1)"
    if j1: "J s1" and n1: "(if tok' = TokEOF then 1 else 3 * remaining s1 + 5) \<le> n"
      and l1: "tok' \<noteq> TokIllegal \<Longrightarrow> len lit' \<le> int L" and f1: "fits s1 ?B" for s1 off' tok' lit'
  proof (cases "tok' = TokEOF")
    case True
    then obtain m where "n = Suc m" using n1 by (cases n) auto
    with True j1 show ?thesis by (simp add: assembleValue_EOF good_panic)
  next
    case False
    have g: "good s1 ?B len (assembleValue U M n off' tok' lit' buf s1)"
      using v j1 n1 l1 f1 by (rule value_totalD)
    have "good s1 ?B len (bind (assembleValue U M n off' tok' lit' buf) (\<lambda>buf'.
      bind (asm_next U) (\<lambda>t'. assembleTuple U M n (wrap64 (cnt + 1)) t' buf')) s1)"
    proof (rule good_bind [where m = "assembleValue U M n off' tok' lit' buf", OF g])
      fix s2 and buf' :: bytes
      assume j2: "J s2" and r2: "remaining s2 \<le> remaining s1" and b2: "len buf' \<le> ?B + budget s1 s2"
      show "good s1 ?B len (bind (asm_next U) (\<lambda>t'. assembleTuple U M n (wrap64 (cnt + 1)) t' buf') s2)"
      proof (rule good_from [OF good_next [OF j2] r2 b2])
        fix off3 tok3 s3 and lit3 :: bytes
        assume s3: "J s3" "remaining s3 \<le> remaining s2" "tok3 \<noteq> TokEOF \<Longrightarrow> remaining s3 < remaining s2"
          "tok3 \<noteq> TokIllegal \<Longrightarrow> len lit3 \<le> int L"
        show "good s2 (len buf') len (assembleTuple U M n (wrap64 (cnt + 1)) (off3, tok3, lit3) buf' s3)"
        proof (cases "tok3 = TokEOF")
          case True
          have "good s3 (len buf') len (assembleTuple U M n (wrap64 (cnt + 1)) (off3, TokEOF, lit3) buf' s3)"
            using n1 False by (intro good_assembleTuple_EOF [OF s3(1)]) simp
          from good_from [OF this s3(2)] True budget_nonneg [OF s3(2)] show ?thesis by simp
        next
          case F3: False
          have b3: "len buf' + K \<le> len buf' + budget s2 s3" using budget_one [OF s3(3) [OF F3]] by simp
          have "fits s2 (len buf')" using f1 b2 by (rule fits_from)
          then have "fits s3 (len buf' + K)" using b3 by (rule fits_from)
          with s3 F3 r2 n1 False show ?thesis
            by (intro good_from [OF tuple_totalD [OF t s3(1) _ s3(4)] s3(2) b3]) auto
        qed
      qed
    qed
    then show ?thesis by simp
  qed
  consider "tok = TokRightBrace" | "tok \<noteq> TokRightBrace" "cnt > 0" | "tok \<noteq> TokRightBrace" "\<not> cnt > 0" by blast
  then show "good s ?B len (assembleTuple U M (Suc n) cnt (off, tok, lit) buf s)"
  proof cases
    case 1
    with j len_writePushint64_le [of buf cnt] K_pos(2) show ?thesis
      by (simp add: assembleTuple_Suc good_return)
  next
    case 2
    have "good s ?B len (bind (asm_next U) ?loop s)" if "tok = TokComma"
    proof (rule good_next [OF j])
      fix off' tok' s1 and lit' :: bytes
      assume s1: "J s1" "remaining s1 \<le> remaining s" "tok' \<noteq> TokEOF \<Longrightarrow> remaining s1 < remaining s"
        "tok' \<noteq> TokIllegal \<Longrightarrow> len lit' \<le> int L"
      have b: "?B \<le> ?B + budget s s1" using budget_nonneg [OF s1(2)] by simp
      show "good s ?B len (?loop (off', tok', lit') s1)"
        using n that s1(2) by (intro good_from [OF item [OF s1(1) _ s1(4) fits_from [OF f b]] s1(2) b]) auto
    qed
    with 2 j have "good s ?B len (andthen (guard (tok = TokComma) (ExpectedComma off lit)) (bind (asm_next U) ?loop) s)"
      by (intro good_guard) auto
    with 2 show ?thesis by (simp add: assembleTuple_Suc andthen_def bind_assoc)
  next
    case 3
    have "(if tok = TokEOF then 1 else 3 * remaining s + 5) \<le> n" using n by auto
    from item [OF j this _ f, of lit off] l 3 show ?thesis by (auto simp: assembleTuple_Suc)
  qed
qed

lemma items_step:
  assumes v: "value_total n" and it: "items_total n"
  shows "items_total (Suc n)"
  unfolding items_total_def
proof (intro allI impI)
  fix s stoptok items and buf :: bytes
  assume j: "J s" and n: "3 * remaining s + 3 \<le> Suc n" and f: "fits s (asm_bound items + len buf)"
  let ?B = "asm_bound items + len buf"
  \<comment> \<open>the loop goes on after a token, from a scanner \<open>s1\<close> that has consumed something\<close>
  have more: "good s ?B asm_bound (assembleItems U M n stoptok items' buf' s1)"
    if "J s1" and r: "remaining s1 < remaining s" and b: "asm_bound items' + len buf' \<le> ?B + budget s s1" for s1 items' buf'
    using that n by (intro good_from [OF items_totalD [OF it \<open>J s1\<close> _ fits_from [OF f b] refl] _ b]) simp_all
  show "good s ?B asm_bound (assembleItems U M (Suc n) stoptok items buf s)"
    unfolding assembleItems_Suc
  proof (rule good_next [OF j], goal_cases)
    case (1 off tok lit s1)
    note s1 = this
    have b1: "K \<le> budget s s1" if "tok \<noteq> TokEOF" using budget_one [OF s1(3) [OF that]] .
    have b0: "?B \<le> ?B + budget s s1" using budget_nonneg [OF s1(2)] by simp
    consider (stop) "tok = stoptok" | (label) "tok \<noteq> stoptok" "tok = TokLabel"
      | (jump) "tok \<noteq> stoptok" "tok = TokJump \<or> tok = TokJumpIf" | (ident) "tok \<noteq> stoptok" "tok = TokIdent"
      | (val) "tok \<noteq> stoptok" "tok \<notin> {TokLabel, TokJump, TokJumpIf, TokIdent}" by blast
    then show ?case
    proof cases
      case stop
      have "good s1 ?B asm_bound (return (flush items buf) s1)" using s1(1) by (rule good_return) simp
      from good_from [OF this s1(2) b0] stop show ?thesis by simp
    next
      case label
      with s1 b1 K_pos(2) show ?thesis by (auto intro!: more)
    next
      case jump
      let ?items = "\<lambda>lit'. flush items buf @ [Jump \<lparr>label = tl lit', isJumpIf = (tok = TokJumpIf), opcodes = []\<rparr>]"
      have "good s ?B asm_bound (bind (asm_next U) (\<lambda>(off', tok', lit').
         andthen (guard (tok' = TokLabel) (ExpectedLabel off')) (assembleItems U M n stoptok (?items lit') [])) s1)"
      proof (rule good_next_from [OF s1(1,2)], goal_cases)
        case s2: (1 off' tok' lit' s2)
        have "good s ?B asm_bound (assembleItems U M n stoptok (?items lit') [] s2)"
          using jump s1(2,3) s2 b1 K_pos(2) budget_nonneg [OF s2(2)] budget_trans [of s s1 s2] by (intro more) auto
        with s2(1,2) s1(2) show ?case by (auto intro!: good_guard_from)
      qed
      with jump show ?thesis by auto
    next
      case ident
      have "good s ?B asm_bound (assembleItems U M n stoptok items (buf @ p) s1)" if "len p \<le> 20" for p
        using ident s1 b1 K_pos(2) that by (intro more) auto
      with ident s1(1,2) M_small [of lit] show ?thesis
        by (auto simp: len_def intro!: good_guard_from split: option.split prod.split)
    next
      case val
      have "good s ?B asm_bound (bind (assembleValue U M n off tok lit buf) (\<lambda>buf'. assembleItems U M n stoptok items buf') s1)"
      proof (cases "tok = TokEOF")
        case True
        then obtain m where "n = Suc m" using n by (cases n) auto
        with True s1(1,2) show ?thesis by (simp add: assembleValue_EOF good_panic_from)
      next
        case False
        note b = b1 [OF False]
        have f1: "fits s1 (len buf + K)"
          using b asm_bound_nonneg [of items] by (intro fits_from [OF f]) simp
        have "good s1 (len buf + K) len (assembleValue U M n off tok lit buf s1)"
          using n s1(3) False by (intro value_totalD [OF v s1(1) _ s1(4) f1]) auto
        then show ?thesis
        proof (rule good_bind_from [OF _ s1(2)])
          fix s2 and buf' :: bytes
          assume "J s2" "remaining s2 \<le> remaining s1" "len buf' \<le> len buf + K + budget s1 s2"
          with b s1(2,3) False budget_trans [of s s1 s2]
          show "good s ?B asm_bound (assembleItems U M n stoptok items buf' s2)" by (intro more) auto
        qed
      qed
      with val show ?thesis by simp
    qed
  qed
qed

lemma all_total: "value_total n \<and> tuple_total n \<and> items_total n \<and> prog_total n"
proof (induction n)
  case 0
  show ?case by (auto simp: value_total_def tuple_total_def items_total_def prog_total_def split: if_splits)
next
  case (Suc n)
  then show ?case by (blast intro: value_step tuple_step items_step prog_step)
qed

lemma assemble_total:
  assumes "J s" and "K * int (remaining s) < 2 ^ 61"
  shows "fst (assemble U M (asm_fuel s) stoptok s) \<noteq> Inl AsmFuel"
    "fst (assemble U M (asm_fuel s) stoptok s) = Inl AsmDiverges \<Longrightarrow> D"
proof -
  have "good s 0 len (assemble U M (asm_fuel s) stoptok s)"
    using all_total [of "asm_fuel s"] assms by (intro prog_totalD) (auto simp: asm_fuel_def fits_def)
  then show "fst (assemble U M (asm_fuel s) stoptok s) \<noteq> Inl AsmFuel"
    "fst (assemble U M (asm_fuel s) stoptok s) = Inl AsmDiverges \<Longrightarrow> D" by (auto simp: good_def)
qed

end

section \<open>Texts that end in a newline\<close>

definition newline_terminated :: "bytes \<Rightarrow> bool" where
  "newline_terminated src \<longleftrightarrow> src \<noteq> [] \<and> last src = 10"

definition line_inv :: "scanner \<Rightarrow> bool" where
  \<comment> \<open>the last character that the scanner sees is a newline\<close>
  "line_inv s \<longleftrightarrow> newline_terminated (srcstr s) \<and> rdOffset s \<le> length (srcstr s) \<and>
     (if ch s = -1 then rdOffset s = length (srcstr s) else rdOffset s = length (srcstr s) \<longrightarrow> ch s = 10)"

definition rune_ok :: "bytes \<Rightarrow> int \<times> nat \<Rightarrow> bool" where
  "rune_ok s = (\<lambda>(r, w). 0x80 \<le> r \<and> 1 \<le> w \<and> w \<le> length s \<and> (\<forall>c\<in>set (take w s). 0x80 \<le> c))"

lemma low6_nonneg: "0 \<le> low6 b"
  by (simp add: low6_def)

lemma rune_ok_simps:
  "0x80 \<le> b \<Longrightarrow> rune_ok (b # bs) (RuneError, Suc 0)"
  "0x80 \<le> b \<Longrightarrow> contbyte b1 \<Longrightarrow> 0x80 \<le> r \<Longrightarrow> rune_ok (b # b1 # bs) (r, 2)"
  "0x80 \<le> b \<Longrightarrow> contbyte b1 \<Longrightarrow> contbyte b2 \<Longrightarrow> 0x80 \<le> r \<Longrightarrow> rune_ok (b # b1 # b2 # bs) (r, 3)"
  "0x80 \<le> b \<Longrightarrow> contbyte b1 \<Longrightarrow> contbyte b2 \<Longrightarrow> contbyte b3 \<Longrightarrow> 0x80 \<le> r \<Longrightarrow> rune_ok (b # b1 # b2 # b3 # bs) (r, 4)"
  by (simp_all add: rune_ok_def RuneError_def contbyte_def)

lemma rune_values:
  "0xc2 \<le> b \<Longrightarrow> b \<le> 0xdf \<Longrightarrow> 0x80 \<le> uint b mod 32 * 64 + low6 b1"
  "0xe0 \<le> b \<Longrightarrow> b \<le> 0xef \<Longrightarrow> contbyte b1 \<Longrightarrow> (b = 0xe0 \<longrightarrow> 0xa0 \<le> b1) \<Longrightarrow>
   0x80 \<le> uint b mod 16 * 4096 + low6 b1 * 64 + low6 b2"
  "0xf0 \<le> b \<Longrightarrow> b \<le> 0xf4 \<Longrightarrow> contbyte b1 \<Longrightarrow> (b = 0xf0 \<longrightarrow> 0x90 \<le> b1) \<Longrightarrow>
   0x80 \<le> uint b mod 8 * 262144 + low6 b1 * 4096 + low6 b2 * 64 + low6 b3"
  for b b1 :: byte
proof -
  show "0x80 \<le> uint b mod 32 * 64 + low6 b1" if "0xc2 \<le> b" "b \<le> 0xdf"
  proof -
    have "194 \<le> uint b" "uint b \<le> 223" using that by (simp_all add: word_le_def)
    then have "2 \<le> uint b mod 32" by presburger
    then show ?thesis using low6_nonneg [of b1] by linarith
  qed
  show "0x80 \<le> uint b mod 16 * 4096 + low6 b1 * 64 + low6 b2"
    if "0xe0 \<le> b" "b \<le> 0xef" "contbyte b1" "b = 0xe0 \<longrightarrow> 0xa0 \<le> b1"
  proof (cases "b = 0xe0")
    case True
    then have "160 \<le> uint b1" "uint b1 \<le> 191" using that by (simp_all add: word_le_def contbyte_def)
    then have "32 \<le> low6 b1" unfolding low6_def by presburger
    then show ?thesis using low6_nonneg [of b2] by (simp add: add_increasing add_increasing2)
  next
    case False
    then have "224 < uint b" "uint b \<le> 239" using that by (auto simp: word_le_def word_uint_eq_iff)
    then have "1 \<le> uint b mod 16" by presburger
    then show ?thesis using low6_nonneg [of b1] low6_nonneg [of b2] by linarith
  qed
  show "0x80 \<le> uint b mod 8 * 262144 + low6 b1 * 4096 + low6 b2 * 64 + low6 b3"
    if "0xf0 \<le> b" "b \<le> 0xf4" "contbyte b1" "b = 0xf0 \<longrightarrow> 0x90 \<le> b1"
  proof (cases "b = 0xf0")
    case True
    then have "144 \<le> uint b1" "uint b1 \<le> 191" using that by (simp_all add: word_le_def contbyte_def)
    then have "16 \<le> low6 b1" unfolding low6_def by presburger
    then show ?thesis using low6_nonneg [of b2] low6_nonneg [of b3] by (simp add: add_increasing add_increasing2)
  next
    case False
    then have "240 < uint b" "uint b \<le> 244" using that by (auto simp: word_le_def word_uint_eq_iff)
    then have "1 \<le> uint b mod 8" by presburger
    then show ?thesis using low6_nonneg [of b1] low6_nonneg [of b2] low6_nonneg [of b3] by linarith
  qed
qed

lemma DecodeRune_high: "0x80 \<le> b \<Longrightarrow> rune_ok (b # bs) (DecodeRune (b # bs))"
proof -
  assume b: "0x80 \<le> b"
  then have "\<not> b < 0x80" by simp
  with b show ?thesis unfolding DecodeRune_def by (simp add: rune_ok_simps rune_values split: list.split)
qed

lemma scan_next_eof:
  "\<not> rdOffset s < length (srcstr s) \<Longrightarrow>
   ch (scan_next s) = -1 \<and> rdOffset (scan_next s) = rdOffset s \<and> offset (scan_next s) = length (srcstr s) \<and> errs (scan_next s) = errs s"
  by (simp add: scan_next_def Let_def)

lemma scan_next_ascii:
  assumes "rdOffset s < length (srcstr s)" and "srcstr s ! rdOffset s < 0x80"
  shows "ch (scan_next s) = uint (srcstr s ! rdOffset s) \<and> rdOffset (scan_next s) = Suc (rdOffset s) \<and>
    offset (scan_next s) = rdOffset s \<and> (srcstr s ! rdOffset s \<noteq> 0 \<longrightarrow> errs (scan_next s) = errs s)"
proof -
  have "uint (srcstr s ! rdOffset s) < 128" using assms(2) by (simp add: word_less_def)
  with assms show ?thesis by (auto simp: scan_next_def Let_def RuneSelf_def scan_error_def uint_0_iff)
qed

lemma uint_nonneg_neq [simp]: "uint w \<noteq> -1"
  using unsigned_greater_eq [of w, where 'a = int] by linarith

lemma scan_next_rune:
  assumes "rdOffset s < length (srcstr s)" and "0x80 \<le> srcstr s ! rdOffset s"
    and "DecodeRune (drop (rdOffset s) (srcstr s)) = (r, w)"
  shows "ch (scan_next s) = r \<and> rdOffset (scan_next s) = rdOffset s + w"
proof -
  have "128 \<le> uint (srcstr s ! rdOffset s)" using assms(2) by (simp add: word_le_def)
  with assms show ?thesis by (auto simp: scan_next_def Let_def RuneSelf_def scan_error_def)
qed

lemma line_inv_next: "line_inv s \<Longrightarrow> line_inv (scan_next s) \<and> (ch s \<noteq> -1 \<and> ch s \<noteq> 10 \<longrightarrow> ch (scan_next s) \<noteq> -1)"
proof -
  assume inv: "line_inv s"
  let ?src = "srcstr s" and ?rd = "rdOffset s"
  show ?thesis
  proof (cases "?rd < length ?src")
    case False
    with inv scan_next_eof [OF False] show ?thesis by (auto simp: line_inv_def split: if_splits)
  next
    case True
    let ?b = "?src ! ?rd"
    have last: "?src ! (length ?src - 1) = 10" using inv by (auto simp: line_inv_def newline_terminated_def last_conv_nth)
    show ?thesis
    proof (cases "?b < 0x80")
      case b: True
      have "?b = 10" if "Suc ?rd = length ?src" using last that by (metis diff_Suc_1)
      then show ?thesis using True inv scan_next_ascii [OF True b] by (auto simp: line_inv_def)
    next
      case False
      then have hi: "0x80 \<le> ?b" by simp
      obtain r w where dr: "DecodeRune (drop ?rd ?src) = (r, w)" by fastforce
      have d: "drop ?rd ?src = ?b # drop (Suc ?rd) ?src" using True by (simp add: Cons_nth_drop_Suc)
      have "rune_ok (drop ?rd ?src) (r, w)" using DecodeRune_high [OF hi, of "drop (Suc ?rd) ?src"] dr by (simp only: d)
      then have h: "0x80 \<le> r" "w \<le> length (drop ?rd ?src)" "\<forall>c\<in>set (take w (drop ?rd ?src)). 0x80 \<le> c"
        by (auto simp: rune_ok_def)
      have "?rd + w \<noteq> length ?src"
      proof
        assume e: "?rd + w = length ?src"
        have "last (drop ?rd ?src) \<in> set (drop ?rd ?src)" using True by (intro last_in_set) simp
        then have "0x80 \<le> last (drop ?rd ?src)" using h(3) e by simp
        moreover have "last (drop ?rd ?src) = 10" using True inv by (simp add: line_inv_def newline_terminated_def)
        ultimately show False by simp
      qed
      with True inv scan_next_rune [OF True hi dr] h(1,2) show ?thesis by (auto simp: line_inv_def)
    qed
  qed
qed

lemma line_inv_scans: "scans s s' \<Longrightarrow> line_inv s \<Longrightarrow> line_inv s'"
proof (induction rule: scans.induct)
  case (report s s' offs msg)
  then show ?case by (simp add: line_inv_def scan_error_def)
qed (auto dest: line_inv_next)

lemma scanComment_returns:
  assumes "line_inv s" and "ch s \<noteq> -1"
  shows "\<exists>lit s'. scanComment s = Some (lit, s')"
proof -
  have "\<exists>s'. while_option (\<lambda>s. ch s \<noteq> 10) scan_next s = Some s'"
    by (rule measure_while_option_Some [of "\<lambda>s. line_inv s \<and> ch s \<noteq> -1" _ _ remaining])
      (use assms line_inv_next scan_next_less(2) in auto)
  then show ?thesis by (auto simp: scanComment_def Let_def)
qed

lemma scan_None:
  "scan U s = None \<Longrightarrow> ch (skipWhitespace s) = chr ''#'' \<and> scanComment (scan_next (skipWhitespace s)) = None"
  unfolding scan_def Let_def by (auto split: prod.splits option.splits if_splits)

lemma scan_returns: "line_inv s \<Longrightarrow> scan U s \<noteq> None"
proof
  assume inv: "line_inv s" and none: "scan U s = None"
  have w: "line_inv (skipWhitespace s)" using inv line_inv_scans [OF scans_skip] by (simp add: skipWhitespace_def)
  from scan_None [OF none] line_inv_next [OF w] scanComment_returns [of "scan_next (skipWhitespace s)"]
  show False by (auto simp: chr_def)
qed

lemma next_token_returns: "line_inv s \<Longrightarrow> next_token U s \<noteq> None"
proof (induction U s rule: next_token.induct)
  case (1 U s)
  from scan_returns [OF "1.prems", of U] obtain off tok lit s' where sc: "scan U s = Some (off, tok, lit, s')" by auto
  have "line_inv s'" using scan_consumes(1) [OF sc] "1.prems" by (rule line_inv_scans)
  with "1.IH" [OF sc refl refl refl] sc show ?case by (subst next_token.simps) auto
qed

section \<open>When the assembler returns\<close>

lemma composite_small: "map_of composite lit = Some b \<Longrightarrow> length b \<le> 20"
  by (auto simp: composite_def split: if_splits)

lemma next_token_src: "next_token U s = Some (off, tok, lit, s') \<Longrightarrow> srcstr s' = srcstr s"
  using next_token_consumes(1) [of U s off tok lit s'] by (simp add: scans_srcstr)

interpretation texts: token_source U composite "\<lambda>s. length (srcstr s) \<le> L" L True for U L
  by unfold_locales (auto simp: next_token_src composite_small)

interpretation lines: token_source U composite "\<lambda>s. line_inv s \<and> length (srcstr s) \<le> L" L False for U L
  by unfold_locales (auto simp: next_token_src composite_small next_token_returns
      dest: next_token_consumes(1) line_inv_scans)

lemma initString_src [simp]: "srcstr (initString src) = src"
  by (simp add: initString_def)

lemma remaining_initString: "remaining (initString src) \<le> Suc (length src)"
  unfolding initString_def by (rule order_trans [OF scan_next_less(1)]) (simp add: remaining_def)

lemma small_text:
  assumes "length src < 2 ^ 30"
  shows "(int (length src) + 40) * int (remaining (initString src)) < 2 ^ 61"
proof -
  have "(int (length src) + 40) * int (remaining (initString src)) \<le> (2 ^ 30 + 40) * (2 ^ 30 + 1)"
    using assms remaining_initString [of src] by (intro mult_mono) auto
  then show ?thesis by simp
qed

lemma line_inv_initString: "newline_terminated src \<Longrightarrow> line_inv (initString src)"
  unfolding initString_def by (rule conjunct1 [OF line_inv_next]) (auto simp: line_inv_def newline_terminated_def)

lemma Assemble_cases:
  "Assemble U M src = Inl AsmFuel \<Longrightarrow> fst (assemble U M (asm_fuel (initString src)) TokEOF (initString src)) = Inl AsmFuel"
  "Assemble U M src = Inl AsmDiverges \<Longrightarrow> fst (assemble U M (asm_fuel (initString src)) TokEOF (initString src)) = Inl AsmDiverges"
  by (auto simp: Assemble_def Let_def split: prod.splits if_splits)



text \<open>Where it does not: comments without a newline.\<close>

lemma scan_next_no_newline:
  assumes "10 \<notin> set (srcstr s)"
  shows "ch (scan_next s) \<noteq> 10"
proof (cases "rdOffset s < length (srcstr s)")
  case False
  then show ?thesis using scan_next_eof [OF False] by simp
next
  case True
  let ?b = "srcstr s ! rdOffset s"
  have b: "?b \<noteq> 10" using assms nth_mem [OF True] by auto
  show ?thesis
  proof (cases "?b < 0x80")
    case lo: True
    have "uint ?b \<noteq> uint (10 :: byte)" using b by (auto simp: word_uint_eq_iff)
    then show ?thesis using scan_next_ascii [OF True lo] by simp
  next
    case False
    then have hi: "0x80 \<le> ?b" by simp
    obtain r w where dr: "DecodeRune (drop (rdOffset s) (srcstr s)) = (r, w)" by fastforce
    have "0x80 \<le> r" using DecodeRune_high [OF hi, of "drop (Suc (rdOffset s)) (srcstr s)"] dr
      by (simp add: Cons_nth_drop_Suc [OF True] rune_ok_def)
    then show ?thesis using scan_next_rune [OF True hi dr] by simp
  qed
qed

lemma scanComment_diverges:
  assumes "10 \<notin> set (srcstr s)" and "ch s \<noteq> 10"
  shows "scanComment s = None"
proof -
  have "while_option (\<lambda>s. ch s \<noteq> 10) scan_next s \<noteq> Some t" for t
  proof
    assume w: "while_option (\<lambda>s. ch s \<noteq> 10) scan_next s = Some t"
    have "10 \<notin> set (srcstr t) \<and> ch t \<noteq> 10"
      by (rule while_option_rule [of "\<lambda>x. 10 \<notin> set (srcstr x) \<and> ch x \<noteq> 10", OF _ w])
        (use assms scan_next_no_newline in auto)
    with while_option_stop [OF w] show False by simp
  qed
  then show ?thesis by (simp add: scanComment_def Let_def not_Some_eq [symmetric] split: option.split)
qed

lemma initString_Cons:
  assumes "b < 0x80" and "b \<noteq> 0"
  shows "ch (initString (b # t)) = uint b" "offset (initString (b # t)) = 0" "rdOffset (initString (b # t)) = 1"
    "errs (initString (b # t)) = []"
  using scan_next_ascii [of "\<lparr>srcstr = b # t, ch = 0, offset = 0, rdOffset = 0, lineOffset = 0, errs = []\<rparr>"] assms
  by (simp_all add: initString_def)

text \<open>
  Two ways in which the assembler fails on malformed text instead of reporting an error. A text that
  starts with a comment and has no newline makes \<^verbatim>\<open>Assemble\<close> loop forever. A string or hex literal that ends
  right after its opening quote makes it panic, because the scanner reports the error and
  hands the assembler a token that is too short for its slice expression.
\<close>

theorem Assemble_unterminated:
  "(10 \<notin> set t \<longrightarrow> Assemble U M (35 # t) = Inl AsmDiverges) \<and>
   Assemble U M [39] = Inl AsmPanic \<and> Assemble U M [34] = Inl AsmPanic \<and>
   Assemble U M [120, 39] = Inl AsmPanic \<and> Assemble U M [120, 34] = Inl AsmPanic"
proof -
  have "Assemble U M (35 # t) = Inl AsmDiverges" if t: "10 \<notin> set t"
  proof -
    let ?s = "initString (35 # t)"
    have w: "skipWhitespace ?s = ?s"
      using initString_Cons [of 35 t] by (simp add: skipWhitespace_def skip.simps)
    have "scanComment (scan_next ?s) = None"
      using t scan_next_no_newline [of ?s] by (intro scanComment_diverges) simp_all
    then have "scan U ?s = None"
      using initString_Cons [of 35 t] by (simp add: scan_def w Let_def chr_def punctuation_def)
    then have "next_token U ?s = None" by (simp add: next_token.simps)
    moreover obtain n where "asm_fuel ?s = Suc (Suc n)" by (simp add: asm_fuel_def eval_nat_numeral)
    ultimately show ?thesis
      by (simp add: Assemble_def Let_def assemble_Suc assembleItems_Suc asm_next_def bind_def)
  qed
  moreover have "Assemble U M [39] = Inl AsmPanic" by code_simp
  moreover have "Assemble U M [34] = Inl AsmPanic" by code_simp
  moreover have "Assemble U M [120, 39] = Inl AsmPanic" by code_simp
  moreover have "Assemble U M [120, 34] = Inl AsmPanic" by code_simp
  ultimately show ?thesis by blast
qed

theorem Assemble_unterminated_witness: "Assemble ascii_unicode composite (str ''# no newline'') = Inl AsmDiverges"
  using Assemble_unterminated [of "str '' no newline''" ascii_unicode composite] by (simp add: str_def)

end
