(* ===== verification/AsmText.thy ===== *)
theory AsmText
  imports AsmReturns
begin

text \<open>
  The text of a datum (the \<^verbatim>\<open>String\<close> methods of \<^verbatim>\<open>protocol/txvm/item.go\<close>) and its assembly: assembling the
  text of a datum gives the program that the builder writes for it, and so pushes the datum.
\<close>

section \<open>Text of data\<close>

fun decimal :: "nat \<Rightarrow> bytes" where
  \<comment> \<open>\<^verbatim>\<open>%d\<close> of a natural number\<close>
  "decimal n = (if n < 10 then [] else decimal (n div 10)) @ [of_nat (48 + n mod 10)]"

declare decimal.simps [simp del]

definition Int_String :: "int \<Rightarrow> bytes" where
  "Int_String i = (if i < 0 then 45 # decimal (nat (- i)) else decimal (nat i))"

definition Bytes_String :: "bytes \<Rightarrow> bytes" where
  "Bytes_String b =
     (if list_ex (\<lambda>x. x < 0x20 \<or> x \<ge> 0x7f) b then [120, 39] @ hex_Encode b @ [39] else [39] @ b @ [39])"

fun join :: "bytes \<Rightarrow> bytes list \<Rightarrow> bytes" where
  \<comment> \<open>\<^verbatim>\<open>strings.Join\<close>\<close>
  "join sep [] = []"
| "join sep [x] = x"
| "join sep (x # y # xs) = x @ sep @ join sep (y # xs)"

fun data_String :: "data \<Rightarrow> bytes" where
  "data_String (Int64 i) = Int_String i"
| "data_String (Bytes b) = Bytes_String b"
| "data_String (Tuple ts) = [123] @ join [44, 32] (map data_String ts) @ [125]"

section \<open>Numbers\<close>

definition digits :: "bytes \<Rightarrow> bool" where
  "digits ds \<longleftrightarrow> (\<forall>c\<in>set ds. 48 \<le> c \<and> c \<le> 57)"

lemma digit_byte: "n < 10 \<Longrightarrow> uint (of_nat (48 + n) :: byte) = 48 + int n"
proof -
  assume "n < 10"
  then have "unat (of_nat (48 + n) :: byte) = 48 + n" by (simp only: unat_of_nat) simp
  then show ?thesis by (simp only: uint_nat)
qed

lemma digit_val_of_nat: "n < 10 \<Longrightarrow> digit_val (of_nat (48 + n)) = Some (int n)"
  using digit_byte [of n] by (simp add: digit_val_def word_le_def del: of_nat_add)

lemma digits_decimal: "digits (decimal n)"
proof (induction n rule: decimal.induct)
  case (1 n)
  have "48 \<le> (of_nat (48 + n mod 10) :: byte)" "(of_nat (48 + n mod 10) :: byte) \<le> 57"
    using digit_byte [of "n mod 10"] by (simp_all add: word_le_def del: of_nat_add)
  with 1 show ?case by (subst decimal.simps) (auto simp: digits_def)
qed

lemma parse_digits_append: "parse_digits a (xs @ ys) = (case parse_digits a xs of None \<Rightarrow> None | Some b \<Rightarrow> parse_digits b ys)"
  by (induction xs arbitrary: a) (auto split: option.split)

lemma parse_digits_decimal: "parse_digits 0 (decimal n) = Some (int n)"
proof (induction n rule: decimal.induct)
  case (1 n)
  have "10 * (int n div 10) + int n mod 10 = int n" by simp
  with 1 digit_val_of_nat [of "n mod 10"] show ?case
    by (subst decimal.simps) (auto simp: parse_digits_append zdiv_int zmod_int simp del: of_nat_add)
qed

lemma decimal_nonempty [simp]: "decimal n \<noteq> []"
  by (subst decimal.simps) simp

lemma hd_decimal: "hd (decimal n) \<noteq> 45 \<and> hd (decimal n) \<noteq> 43"
proof -
  have "48 \<le> hd (decimal n)" using digits_decimal [of n] hd_in_set [OF decimal_nonempty, of n] by (auto simp: digits_def)
  then show ?thesis by auto
qed

lemma ParseInt_String: "is_int64 i \<Longrightarrow> ParseInt (Int_String i) = Some i"
  using hd_decimal [of "nat i"] by (auto simp: ParseInt_def Int_String_def parse_digits_decimal Let_def)

lemma decimal_leading: "n > 0 \<Longrightarrow> hd (decimal n) \<noteq> 48"
proof (induction n rule: decimal.induct)
  case (1 n)
  show ?case
  proof (cases "n < 10")
    case True
    with 1(2) digit_byte [of n] show ?thesis
      by (subst decimal.simps) (auto simp: word_uint_eq_iff simp del: of_nat_add)
  next
    case False
    with 1 show ?thesis by (subst decimal.simps) (simp add: hd_append)
  qed
qed

section \<open>Scanning known text\<close>

definition plain :: "bytes \<Rightarrow> bool" where
  "plain xs \<longleftrightarrow> (\<forall>b\<in>set xs. b < 0x80 \<and> b \<noteq> 0)"

definition scan_at :: "scanner \<Rightarrow> bytes \<Rightarrow> bytes \<Rightarrow> bool" where
  \<comment> \<open>the scanner has read \<open>pre\<close> without an error, and \<open>rest\<close> is ahead\<close>
  "scan_at s pre rest \<longleftrightarrow> srcstr s = pre @ rest \<and> plain rest \<and> offset s = length pre \<and> errs s = [] \<and>
     (case rest of [] \<Rightarrow> ch s = -1 \<and> rdOffset s = length pre
      | b # _ \<Rightarrow> ch s = uint b \<and> rdOffset s = Suc (length pre))"

lemma scan_at_ch: "scan_at s pre (b # rest) \<Longrightarrow> ch s = uint b"
  and scan_at_eof: "scan_at s pre [] \<Longrightarrow> ch s = -1"
  and scan_at_offset: "scan_at s pre rest \<Longrightarrow> offset s = length pre"
  and scan_at_src: "scan_at s pre rest \<Longrightarrow> srcstr s = pre @ rest"
  by (auto simp: scan_at_def)

lemma scan_at_next: "scan_at s pre (b # rest) \<Longrightarrow> scan_at (scan_next s) (pre @ [b]) rest"
proof (cases rest)
  case Nil
  assume "scan_at s pre (b # rest)"
  with Nil scan_next_eof [of s] show ?thesis by (auto simp: scan_at_def plain_def)
next
  case (Cons c cs)
  assume a: "scan_at s pre (b # rest)"
  then have c: "srcstr s ! rdOffset s = c" "rdOffset s < length (srcstr s)"
    using Cons by (auto simp: scan_at_def nth_append)
  with a Cons scan_next_ascii [of s] show ?thesis by (auto simp: scan_at_def plain_def)
qed

lemma scan_at_skip:
  assumes "scan_at s pre (xs @ rest)" and "\<And>b. b \<in> set xs \<Longrightarrow> p (uint b)" and "rest \<noteq> [] \<Longrightarrow> \<not> p (uint (hd rest))"
  shows "scan_at (skip p s) (pre @ xs) rest"
  using assms
proof (induction xs arbitrary: s pre)
  case Nil
  then have "skip p s = s" by (cases rest) (auto simp: skip.simps [of p s] scan_at_def)
  with Nil show ?case by simp
next
  case (Cons b xs)
  from Cons.prems(1,2) have "skip p s = skip p (scan_next s)"
    using scan_at_ch [of s pre b "xs @ rest"] by (subst skip.simps) simp
  moreover have "scan_at (skip p (scan_next s)) ((pre @ [b]) @ xs) rest"
    using Cons.prems scan_at_next by (intro Cons.IH) auto
  ultimately show ?case by simp
qed

definition blank :: "byte \<Rightarrow> bool" where
  "blank b \<longleftrightarrow> b = 32 \<or> b = 9 \<or> b = 10 \<or> b = 13"

lemma scan_at_nonblank: "scan_at s pre rest \<Longrightarrow> (rest \<noteq> [] \<Longrightarrow> \<not> blank (hd rest)) \<Longrightarrow> skipWhitespace s = s"
  by (cases rest) (auto simp: skipWhitespace_def skip.simps scan_at_def blank_def word_uint_eq_iff)

lemma scan_space: "scan_at s pre (32 # rest) \<Longrightarrow> scan U s = scan U (scan_next s)"
proof -
  assume "scan_at s pre (32 # rest)"
  then have "skipWhitespace s = skipWhitespace (scan_next s)"
    unfolding skipWhitespace_def by (subst skip.simps) (simp add: scan_at_def)
  then show ?thesis by (simp add: scan_def)
qed

lemma substr_here: "substr (pre @ b # rest) (length pre) (Suc (length pre)) = [b]"
  by (simp add: substr_def)

lemma substr_token: "substr (pre @ tok @ rest) (length pre) (length pre + length tok) = tok"
  by (simp add: substr_def)

text \<open>One lemma per kind of token.\<close>

lemma scan_punctuation:
  assumes "scan_at s pre (b # rest)" and "map_of punctuation (uint b) = Some tok" and "\<not> blank b"
    and "\<not> (48 \<le> uint b \<and> uint b \<le> 57)" and "uint b \<noteq> chr ''-''"
  shows "\<exists>s'. scan U s = Some (length pre, tok, [b], s') \<and> scan_at s' (pre @ [b]) rest"
proof -
  have "skipWhitespace s = s" using assms(1,3) by (intro scan_at_nonblank) auto
  moreover have "substr (srcstr s) (offset s) (rdOffset s) = [b]"
    using assms(1) by (simp add: scan_at_def substr_here)
  ultimately show ?thesis
    using assms scan_at_next [OF assms(1)] by (auto simp: scan_def Let_def scan_at_ch scan_at_offset)
qed

lemma scan_EOF: "scan_at s pre [] \<Longrightarrow> \<exists>s'. scan U s = Some (length pre, TokEOF, [], s') \<and> errs s' = []"
  using scan_at_nonblank [of s pre "[]"] scan_next_eof [of s]
  by (auto simp: scan_def Let_def scan_at_def punctuation_def chr_def substr_def)

definition ends :: "bytes \<Rightarrow> bool" where
  \<comment> \<open>what follows a value inside a tuple or at the end of the text\<close>
  "ends rest \<longleftrightarrow> rest = [] \<or> hd rest = 44 \<or> hd rest = 125"

lemma isDigit_byte: "48 \<le> b \<Longrightarrow> b \<le> 57 \<Longrightarrow> isDigit U (uint b)" for b :: byte
  by (simp add: isDigit_def word_le_def)

lemma ends_not_digit: "ends rest \<Longrightarrow> rest \<noteq> [] \<Longrightarrow> \<not> isDigit U (uint (hd rest))"
  by (auto simp: ends_def isDigit_def RuneSelf_def)

lemma scanNumber_at:
  assumes "scan_at s pre (b # ds @ rest)" and "digits ds" and "ends rest" and "b = 48 \<longrightarrow> ds = []"
  shows "\<exists>s'. scanNumber U s = (b # ds, s') \<and> scan_at s' (pre @ b # ds) rest"
proof (cases "b = 48")
  case True
  with assms have ds: "ds = []" by simp
  note n = scan_at_next [OF assms(1)]
  have "\<not> isDigit U (ch (scan_next s))"
    using n ends_not_digit [OF assms(3), of U] ds
    by (cases rest) (auto simp: scan_at_def isDigit_def RuneSelf_def)
  with True ds n assms(1) show ?thesis
    by (auto simp: scanNumber_def Let_def scan_at_ch chr_def scan_at_offset scan_at_src substr_def)
next
  case False
  have c: "ch s \<noteq> chr ''0''" using False scan_at_ch [OF assms(1)] by (auto simp: chr_def word_uint_eq_iff)
  have "scan_at (skip (isDigit U) (scan_next s)) ((pre @ [b]) @ ds) rest"
    using scan_at_next [OF assms(1)] assms(2) ends_not_digit [OF assms(3)]
    by (intro scan_at_skip) (auto simp: digits_def isDigit_byte)
  with c assms(1) show ?thesis
    using substr_token [of pre "b # ds" rest]
    by (auto simp: scanNumber_def Let_def scan_at_offset scan_at_src)
qed

lemma Int_String_shape:
  "\<exists>b ds. Int_String i = b # ds \<and> digits ds \<and> (b = 48 \<longrightarrow> ds = []) \<and> (b = 45 \<or> 48 \<le> b \<and> b \<le> 57)"
proof (cases "i < 0")
  case True
  then show ?thesis using digits_decimal [of "nat (- i)"] by (simp add: Int_String_def)
next
  case False
  obtain b ds where d: "decimal (nat i) = b # ds" using decimal_nonempty [of "nat i"] by (cases "decimal (nat i)") auto
  have "ds = []" if "b = 48"
  proof -
    have "nat i = 0" using decimal_leading [of "nat i"] d that by (cases "nat i = 0") auto
    with d show ?thesis by (simp add: decimal.simps)
  qed
  with False d digits_decimal [of "nat i"] show ?thesis by (auto simp: Int_String_def digits_def)
qed

lemma scan_number:
  assumes "scan_at s pre (Int_String i @ rest)" and "ends rest"
  shows "\<exists>s'. scan U s = Some (length pre, TokNumber, Int_String i, s') \<and> scan_at s' (pre @ Int_String i) rest"
proof -
  obtain b ds where sh: "Int_String i = b # ds" "digits ds" "b = 48 \<longrightarrow> ds = []" "b = 45 \<or> 48 \<le> b \<and> b \<le> 57"
    using Int_String_shape by blast
  then have nb: "\<not> blank b" by (auto simp: blank_def)
  have at: "scan_at s pre (b # ds @ rest)" using assms(1) sh(1) by simp
  have w: "skipWhitespace s = s" using at nb by (intro scan_at_nonblank) auto
  have c: "(48 \<le> ch s \<and> ch s \<le> 57) \<or> ch s = chr ''-''"
    using sh(4) scan_at_ch [OF at] by (auto simp: word_le_def chr_def)
  from scanNumber_at [OF at sh(2) assms(2) sh(3), of U] show ?thesis
    using at c w by (auto simp: scan_def Let_def scan_at_offset sh(1))
qed

lemma scanString_at:
  assumes "scan_at s pre (b @ 39 # rest)" and "39 \<notin> set b" and "92 \<notin> set b" and "10 \<notin> set b"
  shows "scan_at (scanString_loop 39 offs s) (pre @ b @ [39]) rest"
  using assms
proof (induction b arbitrary: s pre)
  case Nil
  then show ?case using scan_at_next [of s pre 39 rest]
    by (subst scanString_loop.simps) (simp add: Let_def scan_at_ch [of s pre 39 rest])
next
  case (Cons c b)
  have at: "scan_at s pre (c # b @ 39 # rest)" using Cons.prems(1) by simp
  have "uint c \<noteq> 39" "uint c \<noteq> 92" "uint c \<noteq> 10" using Cons.prems by (auto simp: word_uint_eq_iff)
  then have "scanString_loop 39 offs s = scanString_loop 39 offs (scan_next s)"
    using scan_at_ch [OF at] by (subst scanString_loop.simps) (simp add: Let_def not_less)
  moreover have "scan_at (scanString_loop 39 offs (scan_next s)) ((pre @ [c]) @ b @ [39]) rest"
    using Cons.prems scan_at_next [OF at] by (intro Cons.IH) auto
  ultimately show ?case by simp
qed

lemma scanHex_at:
  assumes "scan_at s pre (b @ 39 # rest)" and "39 \<notin> set b"
  shows "scan_at (scanHex_loop 39 offs s) (pre @ b @ [39]) rest"
  using assms
proof (induction b arbitrary: s pre)
  case Nil
  then show ?case using scan_at_next [of s pre 39 rest]
    by (subst scanHex_loop.simps) (simp add: Let_def scan_at_ch [of s pre 39 rest])
next
  case (Cons c b)
  have at: "scan_at s pre (c # b @ 39 # rest)" using Cons.prems(1) by simp
  have "uint c \<noteq> 39" using Cons.prems by (auto simp: word_uint_eq_iff)
  then have "scanHex_loop 39 offs s = scanHex_loop 39 offs (scan_next s)"
    using scan_at_ch [OF at] by (subst scanHex_loop.simps) (simp add: Let_def not_less)
  moreover have "scan_at (scanHex_loop 39 offs (scan_next s)) ((pre @ [c]) @ b @ [39]) rest"
    using Cons.prems scan_at_next [OF at] by (intro Cons.IH) auto
  ultimately show ?case by simp
qed

lemma scan_string:
  assumes "scan_at s pre (39 # b @ 39 # rest)" and "39 \<notin> set b" and "92 \<notin> set b" and "10 \<notin> set b"
  shows "\<exists>s'. scan U s = Some (length pre, TokString, 39 # b @ [39], s') \<and> scan_at s' (pre @ 39 # b @ [39]) rest"
proof -
  have w: "skipWhitespace s = s" using assms(1) by (intro scan_at_nonblank) (auto simp: blank_def)
  note n = scan_at_next [OF assms(1)]
  have at: "scan_at (scanString_loop 39 (length pre) (scan_next s)) (pre @ 39 # b @ [39]) rest"
    using scanString_at [OF n assms(2-4), of "length pre"] by simp
  then show ?thesis
    using substr_token [of pre "39 # b @ [39]" rest] scan_at_ch [OF assms(1)]
    by (auto simp: scan_def Let_def w scanString_def scan_at_offset [OF n] scan_at_offset [OF at] scan_at_src [OF at]
        scan_at_offset [OF assms(1)] punctuation_def chr_def)
qed

lemma scan_hex:
  assumes "scan_at s pre (120 # 39 # b @ 39 # rest)" and "39 \<notin> set b"
  shows "\<exists>s'. scan U s = Some (length pre, TokHex, 120 # 39 # b @ [39], s') \<and> scan_at s' (pre @ 120 # 39 # b @ [39]) rest"
proof -
  have w: "skipWhitespace s = s" using assms(1) by (intro scan_at_nonblank) (auto simp: blank_def)
  note n = scan_at_next [OF assms(1)]
  note n2 = scan_at_next [OF n]
  have at: "scan_at (scanHex_loop 39 (length pre) (scan_next (scan_next s))) (pre @ 120 # 39 # b @ [39]) rest"
    using scanHex_at [OF n2 assms(2), of "length pre"] by simp
  then show ?thesis
    using substr_token [of pre "120 # 39 # b @ [39]" rest] scan_at_ch [OF assms(1)] scan_at_ch [OF n]
    by (auto simp: scan_def Let_def w scanHex_def scan_at_offset [OF at] scan_at_src [OF at]
        scan_at_offset [OF assms(1)] punctuation_def chr_def)
qed

section \<open>Assembling the text of a datum\<close>

fun quotable :: "data \<Rightarrow> bool" where
  \<comment> \<open>no byte string that is printed between quotes contains a quote or a backslash\<close>
  "quotable (Int64 i) = True"
| "quotable (Bytes b) = (list_ex (\<lambda>x. x < 0x20 \<or> x \<ge> 0x7f) b \<or> (39 \<notin> set b \<and> 92 \<notin> set b))"
| "quotable (Tuple ts) = list_all quotable ts"

fun need :: "data \<Rightarrow> nat" where
  \<comment> \<open>the fuel that the text of a datum takes\<close>
  "need (Int64 i) = 1"
| "need (Bytes b) = 1"
| "need (Tuple ts) = 2 + sum_list (map (\<lambda>t. Suc (need t)) ts)"

lemma asm_next_scan: "scan U s = Some (off, tok, lit, s') \<Longrightarrow> tok \<noteq> TokComment \<Longrightarrow> asm_next U s = (Inr (off, tok, lit), s')"
  by (simp add: asm_next_def next_token.simps)

lemma asm_next_space: "scan_at s pre (32 # rest) \<Longrightarrow> asm_next U s = (case asm_next U (scan_next s) of (r, s') \<Rightarrow> (r, if r = Inl AsmDiverges then s else s'))"
  using scan_space [of s pre rest U]
  by (auto simp: asm_next_def next_token.simps [of U s] next_token.simps [of U "scan_next s"] split: option.split)

lemma asm_next_punctuation:
  assumes "scan_at s pre (b # rest)" and "(b, tok) \<in> {(123, TokLeftBrace), (125, TokRightBrace), (44, TokComma)}"
  shows "\<exists>s'. asm_next U s = (Inr (length pre, tok, [b]), s') \<and> scan_at s' (pre @ [b]) rest"
proof -
  have "\<exists>s'. scan U s = Some (length pre, tok, [b], s') \<and> scan_at s' (pre @ [b]) rest"
    using assms by (intro scan_punctuation) (auto simp: punctuation_def chr_def blank_def)
  with assms(2) show ?thesis by (auto simp: asm_next_scan)
qed

definition assembles :: "unicode \<Rightarrow> macros_map \<Rightarrow> data \<Rightarrow> bool" where
  \<comment> \<open>wherever the text of \<open>d\<close> stands, it is assembled to the code that pushes \<open>d\<close>\<close>
  "assembles U M d \<longleftrightarrow> (\<forall>s pre rest buf n. scan_at s pre (data_String d @ rest) \<longrightarrow> ends rest \<longrightarrow> need d \<le> n \<longrightarrow>
     (\<exists>off tok lit s1 s2. asm_next U s = (Inr (off, tok, lit), s1) \<and> tok \<in> {TokNumber, TokString, TokHex, TokLeftBrace} \<and>
        assembleValue U M n off tok lit buf s1 = (Inr (buf @ data_code d), s2) \<and> scan_at s2 (pre @ data_String d) rest))"

lemma assembles_Int:
  assumes "is_int64 i"
  shows "assembles U M (Int64 i)"
  unfolding assembles_def
proof (intro allI impI)
  fix s pre rest buf n
  assume at: "scan_at s pre (data_String (Int64 i) @ rest)" and e: "ends rest" and n: "need (Int64 i) \<le> n"
  from at have "scan_at s pre (Int_String i @ rest)" by simp
  from scan_number [OF this e, of U] obtain s1 where
    s1: "scan U s = Some (length pre, TokNumber, Int_String i, s1)" "scan_at s1 (pre @ Int_String i) rest" by blast
  obtain m where "n = Suc m" using n by (cases n) auto
  then have "assembleValue U M n (length pre) TokNumber (Int_String i) buf s1 = (Inr (buf @ data_code (Int64 i)), s1)"
    by (simp add: assembleValue_Suc ParseInt_String [OF assms] return_def writePushint64_eq)
  with asm_next_scan [OF s1(1)] s1(2)
  show "\<exists>off tok lit s1 s2. asm_next U s = (Inr (off, tok, lit), s1) \<and> tok \<in> {TokNumber, TokString, TokHex, TokLeftBrace} \<and>
      assembleValue U M n off tok lit buf s1 = (Inr (buf @ data_code (Int64 i)), s2) \<and> scan_at s2 (pre @ data_String (Int64 i)) rest"
    by (auto simp del: data_code.simps)
qed

lemma hexchar_not_quote: "n < 16 \<Longrightarrow> hexchar n \<noteq> 39"
proof
  assume "n < 16" "hexchar n = 39"
  then have "fromHexChar 39 = Some n" using fromHexChar_hexchar [of n] by simp
  then show False by (simp add: fromHexChar_def)
qed

lemma hex_Encode_not_quote: "39 \<notin> set (hex_Encode b)"
proof (induction b)
  case (Cons c b)
  have "unat c div 16 < 16" using unsigned_less [of c, where 'a = nat] by (simp add: less_mult_imp_div_less)
  then show ?case using Cons.IH hexchar_not_quote [of "unat c div 16"] hexchar_not_quote [of "unat c mod 16"] by auto
qed simp

lemma lit_slice_run: "length lit = Suc k \<Longrightarrow> i \<le> k \<Longrightarrow> lit_slice lit i s = (Inr (substr lit i k), s)"
  by (auto simp: lit_slice_def andthen_def bind_def guard_def return_def)

lemma assembles_Bytes:
  assumes "quotable (Bytes b)"
  shows "assembles U M (Bytes b)"
  unfolding assembles_def
proof (intro allI impI)
  fix s pre rest buf n
  assume at: "scan_at s pre (data_String (Bytes b) @ rest)" and e: "ends rest" and n: "need (Bytes b) \<le> n"
  obtain m where m: "n = Suc m" using n by (cases n) auto
  show "\<exists>off tok lit s1 s2. asm_next U s = (Inr (off, tok, lit), s1) \<and> tok \<in> {TokNumber, TokString, TokHex, TokLeftBrace} \<and>
      assembleValue U M n off tok lit buf s1 = (Inr (buf @ data_code (Bytes b)), s2) \<and> scan_at s2 (pre @ data_String (Bytes b)) rest"
  proof (cases "list_ex (\<lambda>x. x < 0x20 \<or> x \<ge> 0x7f) b")
    case True
    let ?lit = "120 # 39 # hex_Encode b @ [39]"
    from True at have "scan_at s pre (120 # 39 # hex_Encode b @ 39 # rest)" by (simp add: Bytes_String_def)
    from scan_hex [OF this hex_Encode_not_quote, of U] obtain s1 where
      s1: "scan U s = Some (length pre, TokHex, ?lit, s1)" "scan_at s1 (pre @ ?lit) rest" by blast
    have "assembleValue U M n (length pre) TokHex ?lit buf s1 = (Inr (buf @ data_code (Bytes b)), s1)"
      by (simp add: m assembleValue_Suc bind_def lit_slice_run substr_def andthen_def guard_def return_def b_writePushdata_eq)
    with asm_next_scan [OF s1(1)] s1(2) True show ?thesis by (auto simp: Bytes_String_def)
  next
    case False
    let ?lit = "39 # b @ [39]"
    from False at have at': "scan_at s pre (39 # b @ 39 # rest)" by (simp add: Bytes_String_def)
    have q: "39 \<notin> set b" "92 \<notin> set b" using False assms by auto
    have "10 \<notin> set b"
    proof
      assume "10 \<in> set b"
      then have "list_ex (\<lambda>x. x < 0x20 \<or> x \<ge> 0x7f) b" by (auto simp: list_ex_iff intro!: bexI [of _ 10])
      with False show False by simp
    qed
    from scan_string [OF at' q this, of U] obtain s1 where
      s1: "scan U s = Some (length pre, TokString, ?lit, s1)" "scan_at s1 (pre @ ?lit) rest" by blast
    have "assembleValue U M n (length pre) TokString ?lit buf s1 = (Inr (buf @ data_code (Bytes b)), s1)"
      by (simp add: m assembleValue_Suc bind_def lit_slice_run substr_def return_def writeVarint_def writePushdata_def)
    with asm_next_scan [OF s1(1)] s1(2) False show ?thesis by (auto simp: Bytes_String_def)
  qed
qed

definition items_text :: "data list \<Rightarrow> bytes" where
  \<comment> \<open>the items after the first one\<close>
  "items_text ts = concat (map (\<lambda>t. [44, 32] @ data_String t) ts)"

lemma join_items: "join [44, 32] (map data_String (t # ts)) = data_String t @ items_text ts"
  by (induction ts arbitrary: t) (auto simp: items_text_def)

lemma ends_items: "ends (items_text ts @ 125 # rest)"
  by (cases ts) (auto simp: ends_def items_text_def)

lemma assemblesE:
  assumes "assembles U M d" and "scan_at s pre (data_String d @ rest)" and "ends rest" and "need d \<le> n"
  obtains off tok lit s1 s2 where "asm_next U s = (Inr (off, tok, lit), s1)" "tok \<in> {TokNumber, TokString, TokHex, TokLeftBrace}"
    "assembleValue U M n off tok lit buf s1 = (Inr (buf @ data_code d), s2)" "scan_at s2 (pre @ data_String d) rest"
  using assms unfolding assembles_def by metis

lemma assembleTuple_first:
  assumes "tok \<in> {TokNumber, TokString, TokHex, TokLeftBrace}" and "assembleValue U M n off tok lit buf s = (Inr buf', s')"
  shows "assembleTuple U M (Suc n) 0 (off, tok, lit) buf s = bind (asm_next U) (\<lambda>t. assembleTuple U M n (wrap64 1) t buf') s'"
  using assms by (auto simp: assembleTuple_Suc bind_def return_def)

lemma assembleTuple_more:
  assumes "0 < cnt" and "asm_next U s = (Inr (off', tok, lit), s1)"
    and "assembleValue U M n off' tok lit buf s1 = (Inr buf', s2)"
  shows "assembleTuple U M (Suc n) cnt (off, TokComma, lit0) buf s = bind (asm_next U) (\<lambda>t. assembleTuple U M n (wrap64 (cnt + 1)) t buf') s2"
  using assms by (auto simp: assembleTuple_Suc bind_def andthen_def guard_def return_def)

lemma assembles_tail:
  assumes "\<forall>t\<in>set ts. assembles U M t" and "0 < cnt" and "cnt + len ts < 2 ^ 63"
    and "scan_at s pre (items_text ts @ 125 # rest)" and "sum_list (map (\<lambda>t. Suc (need t)) ts) + 1 \<le> n"
  shows "\<exists>s'. bind (asm_next U) (\<lambda>t. assembleTuple U M n cnt t buf) s =
      (Inr (buf @ concat (map data_code ts) @ pushint64_code (cnt + len ts) @ [op_Tuple]), s') \<and>
    scan_at s' (pre @ items_text ts @ [125]) rest"
  using assms
proof (induction ts arbitrary: cnt buf s pre n)
  case Nil
  then have at: "scan_at s pre (125 # rest)" by (simp add: items_text_def)
  obtain m where "n = Suc m" using Nil.prems(5) by (cases n) auto
  with asm_next_punctuation [OF at, of TokRightBrace U] show ?case
    by (auto simp: bind_def assembleTuple_Suc return_def writePushint64_eq items_text_def)
next
  case (Cons t ts)
  let ?rest = "items_text ts @ 125 # rest"
  obtain m where n: "n = Suc m" using Cons.prems(5) by (cases n) auto
  have "scan_at s pre (44 # 32 # data_String t @ ?rest)" using Cons.prems(4) by (simp add: items_text_def)
  from asm_next_punctuation [OF this, of TokComma U] obtain s1 where
    s1: "asm_next U s = (Inr (length pre, TokComma, [44]), s1)" "scan_at s1 (pre @ [44]) (32 # data_String t @ ?rest)" by auto
  have t: "assembles U M t" and nd: "need t \<le> m" using Cons.prems(1,5) n by simp_all
  obtain off tok lit s2 s3 where s3: "asm_next U (scan_next s1) = (Inr (off, tok, lit), s2)"
    "assembleValue U M m off tok lit buf s2 = (Inr (buf @ data_code t), s3)" "scan_at s3 (((pre @ [44]) @ [32]) @ data_String t) ?rest"
    by (rule assemblesE [OF t scan_at_next [OF s1(2)] ends_items nd, of buf])
  have s2: "asm_next U s1 = (Inr (off, tok, lit), s2)" using asm_next_space [OF s1(2), of U] s3(1) by simp
  have w: "wrap64 (cnt + 1) = cnt + 1"
    using Cons.prems(2,3) len_nonneg [of ts] by (intro wrap64_id) (simp add: is_int64_iff del: len_nonneg)
  have step: "bind (asm_next U) (\<lambda>t. assembleTuple U M n cnt t buf) s =
      bind (asm_next U) (\<lambda>t'. assembleTuple U M m (cnt + 1) t' (buf @ data_code t)) s3"
    using s1(1) assembleTuple_more [OF Cons.prems(2) s2 s3(2), of "length pre" "[44]"] w by (simp add: bind_run_Inr n)
  have "\<exists>s'. bind (asm_next U) (\<lambda>t'. assembleTuple U M m (cnt + 1) t' (buf @ data_code t)) s3 =
      (Inr ((buf @ data_code t) @ concat (map data_code ts) @ pushint64_code (cnt + 1 + len ts) @ [op_Tuple]), s') \<and>
    scan_at s' ((((pre @ [44]) @ [32]) @ data_String t) @ items_text ts @ [125]) rest"
    using Cons.prems(1,2,3,5) n s3(3) by (intro Cons.IH) (auto simp: algebra_simps)
  with step show ?case by (simp add: items_text_def add.assoc)
qed

lemma assembles_Tuple:
  assumes "\<forall>t\<in>set ts. assembles U M t" and "len ts < 2 ^ 63 - 2"
  shows "assembles U M (Tuple ts)"
  unfolding assembles_def
proof (intro allI impI)
  fix s pre rest buf n
  assume at: "scan_at s pre (data_String (Tuple ts) @ rest)" and e: "ends rest" and n: "need (Tuple ts) \<le> n"
  obtain m where m: "n = Suc (Suc m)" using n by (cases n; cases "n - 1") auto
  from at have "scan_at s pre (123 # join [44, 32] (map data_String ts) @ 125 # rest)" by simp
  from asm_next_punctuation [OF this, of TokLeftBrace U] obtain s1 where
    s1: "asm_next U s = (Inr (length pre, TokLeftBrace, [123]), s1)"
      "scan_at s1 (pre @ [123]) (join [44, 32] (map data_String ts) @ 125 # rest)" by auto
  have v: "assembleValue U M n (length pre) TokLeftBrace [123] buf s1 = bind (asm_next U) (\<lambda>t. assembleTuple U M (Suc m) 0 t buf) s1"
    by (simp add: m assembleValue_Suc)
  have "\<exists>s2. bind (asm_next U) (\<lambda>t. assembleTuple U M (Suc m) 0 t buf) s1 = (Inr (buf @ data_code (Tuple ts)), s2) \<and>
      scan_at s2 (pre @ data_String (Tuple ts)) rest"
  proof (cases ts)
    case Nil
    with s1(2) have "scan_at s1 (pre @ [123]) (125 # rest)" by simp
    from asm_next_punctuation [OF this, of TokRightBrace U] Nil show ?thesis
      by (auto simp: bind_def assembleTuple_Suc return_def writePushint64_eq)
  next
    case (Cons t ts')
    let ?rest = "items_text ts' @ 125 # rest"
    have at1: "scan_at s1 (pre @ [123]) (data_String t @ ?rest)" using s1(2) Cons join_items [of t ts'] by simp
    have t: "assembles U M t" and nd: "need t \<le> m" using assms(1) n m Cons by simp_all
    obtain off tok lit s2 s3 where s3: "asm_next U s1 = (Inr (off, tok, lit), s2)" "tok \<in> {TokNumber, TokString, TokHex, TokLeftBrace}"
      "assembleValue U M m off tok lit buf s2 = (Inr (buf @ data_code t), s3)" "scan_at s3 ((pre @ [123]) @ data_String t) ?rest"
      by (rule assemblesE [OF t at1 ends_items nd, of buf])
    have w: "wrap64 1 = 1" by (simp add: wrap64_id is_int64_iff)
    have "\<exists>s'. bind (asm_next U) (\<lambda>t'. assembleTuple U M m 1 t' (buf @ data_code t)) s3 =
        (Inr ((buf @ data_code t) @ concat (map data_code ts') @ pushint64_code (1 + len ts') @ [op_Tuple]), s') \<and>
      scan_at s' (((pre @ [123]) @ data_String t) @ items_text ts' @ [125]) rest"
      using assms Cons n m s3(4) by (intro assembles_tail) auto
    moreover have "bind (asm_next U) (\<lambda>t. assembleTuple U M (Suc m) 0 t buf) s1 =
        bind (asm_next U) (\<lambda>t'. assembleTuple U M m 1 t' (buf @ data_code t)) s3"
      using assembleTuple_first [OF s3(2,3)] s3(1) w by (simp add: bind_run_Inr)
    ultimately show ?thesis using Cons join_items [of t ts'] by (simp add: add.commute)
  qed
  then obtain s2 where s2: "assembleValue U M n (length pre) TokLeftBrace [123] buf s1 = (Inr (buf @ data_code (Tuple ts)), s2)"
    "scan_at s2 (pre @ data_String (Tuple ts)) rest" using v by auto
  show "\<exists>off tok lit s1 s2. asm_next U s = (Inr (off, tok, lit), s1) \<and> tok \<in> {TokNumber, TokString, TokHex, TokLeftBrace} \<and>
      assembleValue U M n off tok lit buf s1 = (Inr (buf @ data_code (Tuple ts)), s2) \<and> scan_at s2 (pre @ data_String (Tuple ts)) rest"
    by (rule exI [of _ "length pre"], rule exI [of _ TokLeftBrace], rule exI [of _ "[123]"], rule exI [of _ s1], rule exI [of _ s2])
      (use s1(1) s2 in simp)
qed

lemma assembles_data: "data_ok d \<Longrightarrow> quotable d \<Longrightarrow> len (data_code d) < 2 ^ 63 \<Longrightarrow> assembles U M d"
proof (induction d rule: data_String.induct)
  case (1 i)
  then show ?case by (simp add: assembles_Int)
next
  case (2 b)
  then show ?case by (intro assembles_Bytes)
next
  case (3 ts)
  note l = tuple_lens [OF "3.prems"(3)]
  show ?case using "3.IH" "3.prems"(1,2) l by (intro assembles_Tuple) (auto simp: list_all_iff)
qed

lemma length_data_String_pos: "1 \<le> length (data_String d)"
proof (cases d)
  case (Int64 i)
  with Int_String_shape [of i] show ?thesis by auto
qed (simp_all add: Bytes_String_def)

lemma need_tail: "\<forall>t\<in>set ts. need t \<le> 2 * length (data_String t) \<Longrightarrow>
  sum_list (map (\<lambda>t. Suc (need t)) ts) \<le> 2 * length (items_text ts)"
  by (induction ts) (auto simp: items_text_def)

lemma need_le: "need d \<le> 2 * length (data_String d)"
proof (induction d rule: data_String.induct)
  case (3 ts)
  show ?case
  proof (cases ts)
    case (Cons t ts')
    then have "need t \<le> 2 * length (data_String t)" "\<forall>t\<in>set ts'. need t \<le> 2 * length (data_String t)" using 3 by auto
    with need_tail [of ts'] join_items [of t ts'] Cons show ?thesis by simp
  qed simp
next
  case (1 i)
  then show ?case using length_data_String_pos [of "Int64 i"] by simp
next
  case (2 b)
  then show ?case using length_data_String_pos [of "Bytes b"] by simp
qed

lemma plain_Int_String: "plain (Int_String i)"
proof -
  obtain b ds where "Int_String i = b # ds" "digits ds" "b = 45 \<or> 48 \<le> b \<and> b \<le> 57" using Int_String_shape by blast
  then have "\<forall>c\<in>set (Int_String i). c = 45 \<or> 48 \<le> c \<and> c \<le> 57" by (auto simp: digits_def)
  then show ?thesis unfolding plain_def by (auto simp: word_le_def word_less_def)
qed

lemma plain_hexchar: "n < 16 \<Longrightarrow> hexchar n < 0x80 \<and> hexchar n \<noteq> 0"
proof -
  assume n: "n < 16"
  then have "unat (hexchar n) = (if n < 10 then 48 + n else 87 + n)"
    unfolding hexchar_def by (simp del: of_nat_add add: unat_of_nat)
  with n have "0 < unat (hexchar n) \<and> unat (hexchar n) < 128" by (auto split: if_splits)
  then show ?thesis by (auto simp: word_less_nat_alt unat_gt_0)
qed

lemma plain_hex_Encode: "plain (hex_Encode b)"
proof (induction b)
  case (Cons c b)
  have "unat c div 16 < 16" using unsigned_less [of c, where 'a = nat] by (simp add: less_mult_imp_div_less)
  with Cons.IH plain_hexchar [of "unat c div 16"] plain_hexchar [of "unat c mod 16"] show ?case by (simp add: plain_def)
qed (simp add: plain_def)

lemma plain_append [simp]: "plain (xs @ ys) = (plain xs \<and> plain ys)"
  and plain_Cons [simp]: "plain (b # xs) = (b < 0x80 \<and> b \<noteq> 0 \<and> plain xs)"
  and plain_Nil [simp]: "plain []"
  by (auto simp: plain_def)

lemma plain_Bytes_String: "plain (Bytes_String b)"
proof (cases "list_ex (\<lambda>x. x < 0x20 \<or> x \<ge> 0x7f) b")
  case False
  then have "\<forall>x\<in>set b. 0x20 \<le> x \<and> x < 0x7f" by (auto simp: list_ex_iff not_less not_le)
  then have "plain b" by (force simp: plain_def word_le_def word_less_def)
  with False show ?thesis by (simp add: Bytes_String_def)
qed (simp add: Bytes_String_def plain_hex_Encode)

lemma plain_items: "\<forall>t\<in>set ts. plain (data_String t) \<Longrightarrow> plain (items_text ts)"
  by (induction ts) (auto simp: items_text_def)

lemma plain_data_String: "plain (data_String d)"
proof (induction d rule: data_String.induct)
  case (3 ts)
  then show ?case using plain_items [of "tl ts"] join_items [of "hd ts" "tl ts"] by (cases ts) auto
qed (simp_all add: plain_Int_String plain_Bytes_String)

lemma scan_at_initString: "plain (b # t) \<Longrightarrow> scan_at (initString (b # t)) [] (b # t)"
  using initString_Cons [of b t] by (simp add: scan_at_def)

lemma resolve_single: "resolve [Code c] = Inr c"
  by (simp add: resolve_def refine_loop_def while_option_unfold)

lemma data_code_nonempty: "data_code d \<noteq> []"
  using len_data_code_pos [of d] by auto

lemma Assemble_data_String:
  assumes "data_ok d" and "quotable d" and "len (data_code d) < 2 ^ 63"
  shows "Assemble U M (data_String d) = Inr (data_code d)"
proof -
  let ?s = "initString (data_String d)"
  obtain b t where bt: "data_String d = b # t" using length_data_String_pos [of d] by (cases "data_String d") auto
  have at: "scan_at ?s [] (data_String d @ [])"
    using scan_at_initString [of b t] plain_data_String [of d] by (simp add: bt)
  have "remaining ?s = length (data_String d)"
    using at by (simp add: remaining_def scan_at_def bt)
  then obtain n where n: "asm_fuel ?s = Suc (Suc (Suc n))" "2 * length (data_String d) \<le> n"
    using length_data_String_pos [of d] by (auto simp: asm_fuel_def intro!: that [of "3 * length (data_String d) + 1"])
  have nd: "need d \<le> Suc n" using need_le [of d] n(2) by simp
  have nil: "ends []" by (simp add: ends_def)
  obtain off tok lit s1 s2 where v: "asm_next U ?s = (Inr (off, tok, lit), s1)" "tok \<in> {TokNumber, TokString, TokHex, TokLeftBrace}"
    "assembleValue U M (Suc n) off tok lit [] s1 = (Inr ([] @ data_code d), s2)" "scan_at s2 ([] @ data_String d) []"
    by (rule assemblesE [OF assembles_data [OF assms] at nil nd, where buf = "[]"])
  from scan_EOF [OF v(4), of U] obtain s3 where s3: "scan U s2 = Some (length (data_String d), TokEOF, [], s3)" "errs s3 = []" by auto
  have "assembleItems U M (Suc n) TokEOF [] (data_code d) s2 = (Inr [Code (data_code d)], s3)"
    using asm_next_scan [OF s3(1)] by (simp add: assembleItems_Suc bind_def return_def flush_def data_code_nonempty)
  then have "assembleItems U M (Suc (Suc n)) TokEOF [] [] ?s = (Inr [Code (data_code d)], s3)"
    using v by (auto simp: assembleItems_Suc [of _ _ "Suc n"] bind_def)
  then have "assemble U M (asm_fuel ?s) TokEOF ?s = (Inr (data_code d), s3)"
    by (simp add: n assemble_Suc bind_def resolve_single return_def)
  with s3(2) show ?thesis by (simp add: Assemble_def Let_def)
qed

text \<open>
  C5: Text, assembler, builder and machine agree on data. For every well-formed datum whose printed
  strings contain no quote and no backslash, assembling the text that its \<^verbatim>\<open>String\<close> method prints
  gives exactly the program that the builder writes for it, and running that program pushes the datum.
\<close>

theorem Assemble_String:
  assumes "data_ok d" and "quotable d" and "len (data_code d) < 2 ^ 63"
    and "data_cost d \<le> runlimit vm" and "quiet E vm" and "data_cost d < int fuel"
  shows "\<exists>p vm'. Assemble U M (data_String d) = Inr p \<and> p = Build (build_data d []) \<and>
    exec E fuel p vm = (Inr (), vm') \<and> cstack vm' = cstack vm @ [Data d]"
proof -
  have "Build (build_data d []) = data_code d" using build_data_code [OF assms(3)] by (simp add: Build_def)
  with Assemble_data_String [OF assms(1-3)] exec_executes [OF executes_data_code [OF assms(1,3)] assms(3,4)] assms(5,6)
  show ?thesis by (fastforce simp: quiet_def)
qed

theorem Assemble_String_witness:
  "\<exists>p. Assemble ascii_unicode composite (str ''{-7, {'abc', x'00ff'}, {}}'') = Inr p"
proof -
  let ?d = "Tuple [Int64 (-7), Tuple [Bytes (str ''abc''), Bytes [0, 255]], Tuple []]"
  have "data_String ?d = str ''{-7, {'abc', x'00ff'}, {}}''" by code_simp
  moreover have "len (data_code ?d) < 2 ^ 63 \<and> data_cost ?d \<le> 1000 \<and> data_cost ?d < 1000" by code_simp
  moreover have "data_ok ?d" "quotable ?d" by (simp_all add: is_int64_iff str_def)
  moreover have "quiet (init_env sample_crypto) (init_vm () [] 3 1000)"
    by (simp add: quiet_def init_vm_def init_env_def crypto.extend_def)
  ultimately show ?thesis
    using Assemble_String [of ?d "init_vm () [] 3 1000" "init_env sample_crypto" 1000 ascii_unicode composite]
    by (auto simp: init_vm_def)
qed

text \<open>
  The condition on quotes and backslashes is needed: \<^verbatim>\<open>Bytes.String\<close> copies a printable string between
  quotes as it is, so the text of a string that holds a backslash or a quote is refused by the scanner.
\<close>

lemma Assemble_String_backslash:
  "Assemble ascii_unicode composite (data_String (Bytes [92])) \<noteq> Inr (data_code (Bytes [92]))"
  by code_simp

lemma Assemble_String_quote:
  "Assemble ascii_unicode composite (data_String (Bytes [39])) \<noteq> Inr (data_code (Bytes [39]))"
  by code_simp

end
