(* ===== verification/Disasm.thy ===== *)
theory Disasm
  imports AsmText
begin

text \<open>
  The disassembler (\<^verbatim>\<open>Disassemble\<close> of \<^verbatim>\<open>asm/asm.go\<close>). The loop consumes the program from the front; its variables are the record \<open>dis\<close>.
  Go iterates over the map of macros in an order of its own; \<open>order\<close> stands for it.
\<close>

section \<open>Macros\<close>

fun fields_from :: "bytes \<Rightarrow> bytes \<Rightarrow> bytes list" where
  \<comment> \<open>\<^verbatim>\<open>strings.Fields\<close>, for ASCII text; the first argument is the word that is being read\<close>
  "fields_from w [] = (if w = [] then [] else [w])"
| "fields_from w (c # cs) =
     (if c = 32 \<or> 9 \<le> c \<and> c \<le> 13 then (if w = [] then fields_from [] cs else w # fields_from [] cs)
      else fields_from (w @ [c]) cs)"

definition Fields :: "bytes \<Rightarrow> bytes list" where
  "Fields s = fields_from [] s"

definition decomposite :: "(bytes \<times> bytes) list" where
  "decomposite = map (\<lambda>(ident, expansion). (expansion, ident)) macros"

fun replace_first :: "bytes list \<Rightarrow> bytes \<Rightarrow> bytes list \<Rightarrow> bytes list option" where
  \<comment> \<open>the loop over \<^verbatim>\<open>pieceIdx\<close>: the first match is replaced\<close>
  "replace_first ops v [] = None"
| "replace_first ops v (p # ps) =
     (if length (p # ps) < length ops then None
      else if take (length ops) (p # ps) = ops then Some (v # drop (length ops) (p # ps))
      else map_option ((#) p) (replace_first ops v ps))"

fun range_macros :: "(bytes \<times> bytes) list \<Rightarrow> bytes list \<Rightarrow> bytes list option" where
  \<comment> \<open>the loop over the macros, \<open>None\<close> when \<^verbatim>\<open>repeat\<close> stays false\<close>
  "range_macros [] ps = None"
| "range_macros ((k, v) # ms) ps =
     (case replace_first (Fields k) v ps of Some ps' \<Rightarrow> Some ps' | None \<Rightarrow> range_macros ms ps)"

type_synonym order = "bytes list \<Rightarrow> (bytes \<times> bytes) list"

definition ranged :: "order \<Rightarrow> bytes list \<Rightarrow> (bytes \<times> bytes) list" where
  \<comment> \<open>the iteration visits entries of the map only\<close>
  "ranged order ps = filter (\<lambda>m. m \<in> set decomposite) (order ps)"

lemma replace_first_length: "replace_first ops v ps = Some ps' \<Longrightarrow> 2 \<le> length ops \<Longrightarrow> length ps' < length ps"
  by (induction ps arbitrary: ps') (auto split: if_splits)

lemma range_macros_length:
  "range_macros ms ps = Some ps' \<Longrightarrow> \<forall>(k, v)\<in>set ms. 2 \<le> length (Fields k) \<Longrightarrow> length ps' < length ps"
  by (induction ms) (auto split: option.splits dest: replace_first_length)

lemma decomposite_fields:
  "list_all (\<lambda>(k, v). 2 \<le> length (Fields k) \<and> hd (last (Fields k)) \<notin> {45, 39, 120, 123} \<and> \<not> (48 \<le> hd (last (Fields k)) \<and> hd (last (Fields k)) \<le> 57)) decomposite"
  by code_simp

lemma ranged_fields: "\<forall>(k, v)\<in>set (ranged order ps). 2 \<le> length (Fields k)"
  using decomposite_fields by (auto simp: ranged_def list_all_iff)

function compact :: "order \<Rightarrow> bytes list \<Rightarrow> bytes list" where
  \<comment> \<open>the loop \<^verbatim>\<open>for repeat\<close>\<close>
  "compact order ps = (case range_macros (ranged order ps) ps of None \<Rightarrow> ps | Some ps' \<Rightarrow> compact order ps')"
  by pat_completeness auto
termination
  by (relation "measure (\<lambda>(_, ps). length ps)") (auto intro: range_macros_length [OF _ ranged_fields])

declare compact.simps [simp del]

section \<open>Disassemble\<close>

datatype dis_error =
    DisDecode decode_error
  | DisOpcode byte
  | DisSlice \<comment> \<open>a slice expression beyond the length: it panics or shows elements that were cut off, depending on the capacity\<close>

record dis =
  pieces :: "bytes list"
  pushdatas :: int
  latestInt64 :: "int option"

definition dis_start :: dis where
  "dis_start = \<lparr>pieces = [], pushdatas = 0, latestInt64 = None\<rparr>"

definition dis_neg :: "bytes \<Rightarrow> int \<Rightarrow> bytes \<times> int" where
  \<comment> \<open>a number, negated if a \<^verbatim>\<open>neg\<close> follows, and the rest of the program\<close>
  "dis_neg rest num = (if rest \<noteq> [] \<and> hd rest = op_Neg then (tl rest, wrap64 (- num)) else (rest, num))"

definition dis_num :: "bytes \<Rightarrow> int \<Rightarrow> dis \<Rightarrow> bytes \<times> dis" where
  "dis_num rest num st = (case dis_neg rest num of (rest', n) \<Rightarrow>
     (rest', st\<lparr>pieces := pieces st @ [Int_String n], pushdatas := pushdatas st + 1, latestInt64 := Some n\<rparr>))"

definition dis_bytes :: "bytes \<Rightarrow> dis \<Rightarrow> dis" where
  "dis_bytes d st = st\<lparr>pieces := pieces st @ [Bytes_String d], pushdatas := pushdatas st + 1, latestInt64 := None\<rparr>"

definition dis_tuple :: "dis \<Rightarrow> dis_error + dis" where
  "dis_tuple st = (case latestInt64 st of
     Some l \<Rightarrow>
       if l < pushdatas st then
         if len (pieces st) < l + 1 \<or> l + 1 < 0 then Inl DisSlice
         else let n = length (pieces st) - nat (l + 1);
                  t = [123] @ join [44, 32] (take (nat l) (drop n (pieces st))) @ [125]
              in Inr (st\<lparr>pieces := take n (pieces st) @ [t], pushdatas := pushdatas st - l, latestInt64 := None\<rparr>)
       else Inr (st\<lparr>pieces := pieces st @ [str ''tuple''], pushdatas := 1, latestInt64 := None\<rparr>)
   | None \<Rightarrow> Inr (st\<lparr>pieces := pieces st @ [str ''tuple''], pushdatas := 1, latestInt64 := None\<rparr>))"

definition dis_op :: "byte \<Rightarrow> dis \<Rightarrow> dis_error + dis" where
  "dis_op opc st =
     (if opc = op_Tuple then dis_tuple st
      else if opc < MinPushdata then
        (case op_Name opc of
           None \<Rightarrow> Inl DisSlice
         | Some s \<Rightarrow> Inr (st\<lparr>pieces := pieces st @ [s], pushdatas := 0, latestInt64 := None\<rparr>))
      else Inl (DisOpcode opc))"

lemma DecodeInst_shorter:
  assumes "DecodeInst p = Inr (opc, d, n)"
  shows "length d < length p"
  using assms Uvarint_count [of p]
  by (auto simp: DecodeInst_def Let_def len_def split: if_splits prod.splits)

lemma dis_num_rest: "dis_num rest num st = (rest', st') \<Longrightarrow> length rest' \<le> length rest"
  by (auto simp: dis_num_def dis_neg_def split: if_splits)

lemma dis_rest:
  assumes "(if a then Inr (dis_num rest x st) else
      if b then
        if c then case u of (res, nbytes) \<Rightarrow> if P nbytes then Inr (dis_num (tl rest) (f res) st) else Inr (rest, st1)
        else if e then case r of Inl DisSlice \<Rightarrow> Inl DisSlice | Inl _ \<Rightarrow> Inr (rest, st2) | Inr s \<Rightarrow> Inr (rest, g s)
        else Inr (rest, st1)
      else map_sum id (Pair rest) z) = Inr (rest', st')"
  shows "length rest' \<le> length rest"
  using assms dis_num_rest [of rest x st rest' st'] dis_num_rest [of "tl rest" "f (fst u)" st rest' st']
  by (cases z) (auto split: if_splits prod.splits sum.splits dis_error.splits)

lemma drop_shorter: "length xs \<le> length p - nat n \<Longrightarrow> p \<noteq> [] \<Longrightarrow> \<not> n \<le> 0 \<Longrightarrow> length xs < length p"
  by (rule le_less_trans) auto

function Disassemble_from :: "order \<Rightarrow> bytes \<Rightarrow> dis \<Rightarrow> dis_error + dis" where
  "Disassemble_from order p st =
     (if p = [] then Inr st
      else case DecodeInst p of
        Inl e \<Rightarrow> Inl (DisDecode e)
      | Inr (opc, d, n) \<Rightarrow>
          if n \<le> 0 then Inl DisSlice \<comment> \<open>a slice has less than \<open>2 ^ 63\<close> bytes, so \<open>n\<close> is positive\<close>
          else let rest = drop (nat n) p in
          (case
            (if IsSmallIntOp opc then Inr (dis_num rest (uint (opc - MinSmallInt)) st)
             else if IsPushdataOp opc then
               if rest \<noteq> [] \<and> d \<noteq> [] \<and> hd rest = op_Int then
                 (case Uvarint d of (res, nbytes) \<Rightarrow>
                    if nbytes = len d then Inr (dis_num (tl rest) (sint res) st)
                    else Inr (rest, dis_bytes d st))
               else if rest \<noteq> [] \<and> hd rest \<in> {op_Contract, op_Exec, op_Wrap, op_Yield, op_Output} then
                 (case Disassemble_from order d dis_start of
                    Inl DisSlice \<Rightarrow> Inl DisSlice
                  | Inl _ \<Rightarrow> Inr (rest, st\<lparr>pieces := pieces st @ [Bytes_String d], pushdatas := pushdatas st + 1\<rparr>)
                  | Inr s \<Rightarrow> Inr (rest, st\<lparr>pieces := pieces st @ [[91] @ join [32] (pieces s) @ [93]], pushdatas := pushdatas st + 1\<rparr>))
               else Inr (rest, dis_bytes d st)
             else map_sum id (Pair rest) (dis_op opc st))
           of Inl e \<Rightarrow> Inl e
            | Inr (rest', st') \<Rightarrow>
                Disassemble_from order rest' (st'\<lparr>pieces := compact order (pieces st')\<rparr>)))"
  by pat_completeness auto
termination
proof (relation "measure (\<lambda>(_, p, _). length p)", goal_cases)
  case (3)
  from dis_rest [OF 3(7) [folded 3(8)]] show ?case using drop_shorter 3(1,5,6) by simp
qed (auto dest: DecodeInst_shorter)

declare Disassemble_from.simps [simp del]

definition Disassemble :: "order \<Rightarrow> bytes \<Rightarrow> dis_error + bytes" where
  "Disassemble order p = map_sum id (\<lambda>st. join [32] (pieces st)) (Disassemble_from order p dis_start)"

section \<open>Data\<close>

definition textual :: "bytes \<Rightarrow> bool" where
  \<comment> \<open>the text of a datum: a number, a string or a tuple\<close>
  "textual p \<longleftrightarrow> p \<noteq> [] \<and> (hd p \<in> {45, 39, 120, 123} \<or> 48 \<le> hd p \<and> hd p \<le> 57)"

lemma textual_String [simp]: "textual (data_String d)"
proof (cases d)
  case (Int64 i)
  then show ?thesis using Int_String_shape [of i] by (auto simp: textual_def)
qed (auto simp: textual_def Bytes_String_def)

lemma replace_first_textual:
  "list_all textual ps \<Longrightarrow> ops \<noteq> [] \<Longrightarrow> \<not> textual (last ops) \<Longrightarrow> replace_first ops v ps = None"
proof (induction ps)
  case (Cons p ps)
  have "take (length ops) (p # ps) \<noteq> ops"
  proof
    assume t: "take (length ops) (p # ps) = ops"
    with Cons.prems(2) have "last ops \<in> set (p # ps)" by (metis in_set_takeD last_in_set)
    with Cons.prems(1,3) show False by (auto simp: list_all_iff)
  qed
  with Cons show ?case by simp
qed simp

lemma range_macros_textual: "list_all textual ps \<Longrightarrow> set ms \<subseteq> set decomposite \<Longrightarrow> range_macros ms ps = None"
proof (induction ms)
  case (Cons m ms)
  obtain k v where m: "m = (k, v)" by (cases m)
  with Cons.prems(2) decomposite_fields have "Fields k \<noteq> []" "\<not> textual (last (Fields k))"
    by (auto simp: list_all_iff textual_def)
  with replace_first_textual [OF Cons.prems(1), of "Fields k" v] Cons m show ?case by simp
qed simp

lemma compact_textual: "list_all textual ps \<Longrightarrow> compact order ps = ps"
  using range_macros_textual [of ps "ranged order ps"] by (subst compact.simps) (simp add: ranged_def subset_iff)

definition next_ok :: "bytes \<Rightarrow> bool" where
  \<comment> \<open>what may follow a datum: nothing, another datum or \<^verbatim>\<open>tuple\<close>\<close>
  "next_ok p \<longleftrightarrow> p = [] \<or> hd p \<le> MaxSmallInt \<or> MinPushdata \<le> hd p \<or> hd p = op_Tuple"

definition shown :: "data \<Rightarrow> dis \<Rightarrow> dis" where
  "shown d st = st\<lparr>pieces := pieces st @ [data_String d], pushdatas := pushdatas st + 1,
     latestInt64 := (case d of Int64 i \<Rightarrow> Some i | _ \<Rightarrow> None)\<rparr>"

lemma next_ok_neg: "next_ok p \<Longrightarrow> p \<noteq> [] \<Longrightarrow> hd p \<notin> {op_Neg, op_Int, op_Contract, op_Exec, op_Wrap, op_Yield, op_Output}"
  by (auto simp: next_ok_def MaxSmallInt_def MinPushdata_def)

lemma writePushdata_Cons:
  assumes "len (writePushdata b) < 2 ^ 63"
  shows "\<exists>c w. writePushdata b = c # w \<and> MinPushdata \<le> c"
proof -
  obtain c w where c: "writePushdata b = c # w" using PutUvarint_nonempty by (cases "writePushdata b") (auto simp: writePushdata_def)
  moreover have "\<not> c < MinPushdata"
    using DecodeInst_op [of c w] DecodeInst_pushdata [OF refl, of b "[]"] assms c by (auto simp: writePushdata_def)
  ultimately show ?thesis by auto
qed

lemma encode_Int_Cons:
  shows "\<exists>c w. encode_Int i = c # w \<and> (c \<le> MaxSmallInt \<or> MinPushdata \<le> c)"
proof (cases "IsSmallInt i")
  case True
  then have "0 \<le> i" "i \<le> 31" by (simp_all add: IsSmallInt_def MinSmallInt_def MaxSmallInt_def)
  then have "(MinSmallInt + word_of_int i :: byte) \<le> MaxSmallInt"
    by (simp add: MinSmallInt_def MaxSmallInt_def word_le_def uint_word_of_int_eq take_bit_int_eq_self)
  with True show ?thesis by (simp add: encode_Int_def)
next
  case False
  have "len (writePushdata (PutUvarint (word_of_int i))) < 2 ^ 63"
    using length_PutUvarint_le [of "word_of_int i"] by (simp add: len_writePushdata_small)
  from writePushdata_Cons [OF this] False show ?thesis by (auto simp: encode_Int_def)
qed

definition dis_on :: "order \<Rightarrow> bytes \<times> dis \<Rightarrow> dis_error + dis" where
  \<comment> \<open>the end of the loop's body, and the iterations that follow\<close>
  "dis_on order r = Disassemble_from order (fst r) ((snd r)\<lparr>pieces := compact order (pieces (snd r))\<rparr>)"

lemma dis_small:
  assumes "IsSmallInt i"
  shows "Disassemble_from order ([MinSmallInt + word_of_int i] @ rest) st = dis_on order (dis_num rest i st)"
proof -
  let ?opc = "MinSmallInt + word_of_int i :: byte"
  have i: "0 \<le> i" "i \<le> 31" using assms by (simp_all add: IsSmallInt_def MinSmallInt_def MaxSmallInt_def)
  then have u: "uint (word_of_int i :: byte) = i" by (simp add: uint_word_of_int_eq take_bit_int_eq_self)
  have small: "IsSmallIntOp ?opc" "?opc < MinPushdata"
    using i u by (simp_all add: IsSmallIntOp_def MinSmallInt_def MaxSmallInt_def MinPushdata_def word_le_def word_less_def)
  show ?thesis
    by (subst Disassemble_from.simps) (simp add: DecodeInst_op small u dis_on_def split: prod.split)
qed

lemma dis_push:
  assumes "len (writePushdata d @ rest) < 2 ^ 63" and "next_ok rest \<or> rest \<noteq> [] \<and> hd rest = op_Int"
  shows "Disassemble_from order (writePushdata d @ rest) st =
    (if rest \<noteq> [] \<and> hd rest = op_Int \<and> d \<noteq> [] \<and> snd (Uvarint d) = len d then dis_on order (dis_num (tl rest) (sint (fst (Uvarint d))) st)
     else dis_on order (rest, dis_bytes d st))"
proof -
  have dec: "DecodeInst (writePushdata d @ rest) = Inr (MinPushdata, d, len (writePushdata d))"
    using DecodeInst_pushdata [OF refl, of d rest] assms(1) by (simp add: writePushdata_def)
  have pos: "0 < len (writePushdata d)" "writePushdata d \<noteq> []"
    using len_writePushdata [of d] by (auto simp: len_def)
  have op: "\<not> IsSmallIntOp MinPushdata" "IsPushdataOp MinPushdata"
    by (simp_all add: IsSmallIntOp_def IsPushdataOp_def MinPushdata_def MaxSmallInt_def)
  have nc: "rest \<noteq> [] \<Longrightarrow> hd rest \<notin> {op_Contract, op_Exec, op_Wrap, op_Yield, op_Output}"
    using assms(2) next_ok_neg [of rest] by auto
  have "drop (nat (len (writePushdata d))) (writePushdata d @ rest) = rest" by (simp add: len_def)
  then show ?thesis using pos nc
    by (subst Disassemble_from.simps) (auto simp: dec op dis_on_def Let_def split: prod.split)
qed

lemma dis_on_shown: "list_all textual (pieces st) \<Longrightarrow> dis_on order (rest, shown d st) = Disassemble_from order rest (shown d st)"
  by (cases st) (simp add: dis_on_def shown_def compact_textual)

lemma dis_num_shown:
  "next_ok rest \<Longrightarrow> dis_num rest i st = (rest, shown (Int64 i) st)"
  "is_int64 (- i) \<Longrightarrow> dis_num (op_Neg # rest) i st = (rest, shown (Int64 (- i)) st)"
  using next_ok_neg [of rest] by (auto simp: dis_num_def dis_neg_def shown_def)

lemma dis_encode_Int:
  assumes "is_int64 i" and "len (encode_Int i @ rest) < 2 ^ 63"
  shows "Disassemble_from order (encode_Int i @ rest) st = dis_on order (dis_num rest i st)"
proof (cases "IsSmallInt i")
  case True
  then show ?thesis using dis_small [OF True, of order rest st] by (simp add: encode_Int_def)
next
  case False
  have "sint (word_of_int i :: uint64) = i" by (rule sint_word_of_int64 [OF assms(1)])
  with False show ?thesis
    using dis_push [of "PutUvarint (word_of_int i)" "op_Int # rest" order st] assms(2) by (simp add: encode_Int_def Uvarint_PutUvarint')
qed

lemma dis_tuple_shown:
  assumes "list_all textual (pieces st)" and "0 \<le> pushdatas st"
  shows "Disassemble_from order (op_Tuple # rest) (st\<lparr>pieces := pieces st @ map data_String ts @ [s], pushdatas := pushdatas st + len ts + 1,
      latestInt64 := Some (len ts)\<rparr>) = Disassemble_from order rest (shown (Tuple ts) st)"
proof -
  have op: "DecodeInst (op_Tuple # rest) = Inr (op_Tuple, [], 1)" "\<not> IsSmallIntOp op_Tuple" "\<not> IsPushdataOp op_Tuple"
    by (simp_all add: DecodeInst_op MinPushdata_def IsSmallIntOp_def IsPushdataOp_def MaxSmallInt_def)
  have "dis_op op_Tuple (st\<lparr>pieces := pieces st @ map data_String ts @ [s], pushdatas := pushdatas st + len ts + 1,
      latestInt64 := Some (len ts)\<rparr>) = Inr (shown (Tuple ts) st)"
    using assms(2) by (simp add: dis_op_def dis_tuple_def shown_def len_def Let_def nat_add_distrib)
  with dis_on_shown [OF assms(1), of order rest "Tuple ts"] show ?thesis
    by (subst Disassemble_from.simps) (simp add: op dis_on_def)
qed

section \<open>Codings of data\<close>

text \<open>
  Two programs push a datum: its encoding, and what the builder and the assembler write, which negates the absolute value of a
  negative number. What both have in common is the contract of the disassembler.
\<close>

locale data_coding =
  fixes F :: "data \<Rightarrow> bytes"
  assumes F_Int: "is_int64 i \<Longrightarrow> F (Int64 i) = encode_Int i \<or> is_int64 (- i) \<and> F (Int64 i) = encode_Int (- i) @ [op_Neg]"
    and F_Bytes: "F (Bytes b) = writePushdata b"
    and F_Tuple: "len ts < 2 ^ 63 \<Longrightarrow> F (Tuple ts) = concat (map F ts) @ encode_Int (len ts) @ [op_Tuple]"
    and F_large: "2 ^ 63 \<le> len ts \<Longrightarrow> 2 ^ 63 \<le> len (F (Tuple ts))"
begin

lemma F_next_ok: "data_ok d \<Longrightarrow> len (F d) < 2 ^ 63 \<Longrightarrow> F d \<noteq> [] \<and> next_ok (F d @ rest)"
proof (induction d arbitrary: rest)
  case (Int64 i)
  then show ?case using F_Int [of i] encode_Int_Cons [of i] encode_Int_Cons [of "- i"] by (auto simp: next_ok_def)
next
  case (Bytes b)
  then show ?case using writePushdata_Cons [of b] by (auto simp: F_Bytes next_ok_def)
next
  case (Tuple ts)
  have l: "len ts < 2 ^ 63" using F_large [of ts] Tuple.prems(2) by linarith
  show ?case
  proof (cases ts)
    case Nil
    with l show ?thesis using encode_Int_Cons [of "len ts"] by (auto simp: F_Tuple next_ok_def)
  next
    case (Cons t us)
    have "len (F t) < 2 ^ 63" using Tuple.prems(2) l Cons by (simp add: F_Tuple len_def)
    with Tuple.IH [of t] Tuple.prems(1) Cons l show ?thesis by (simp add: F_Tuple)
  qed
qed

lemma dis_list:
  assumes "\<And>t rest st. t \<in> set ts \<Longrightarrow> next_ok rest \<Longrightarrow> len (F t @ rest) < 2 ^ 63 \<Longrightarrow> list_all textual (pieces st) \<Longrightarrow> 0 \<le> pushdatas st \<Longrightarrow>
      Disassemble_from order (F t @ rest) st = Disassemble_from order rest (shown t st)"
    and "list_all data_ok ts" and "next_ok rest" and "len (concat (map F ts) @ rest) < 2 ^ 63" and "list_all textual (pieces st)" and "0 \<le> pushdatas st"
  shows "\<exists>l. Disassemble_from order (concat (map F ts) @ rest) st =
    Disassemble_from order rest (st\<lparr>pieces := pieces st @ map data_String ts, pushdatas := pushdatas st + len ts, latestInt64 := l\<rparr>)"
  using assms
proof (induction ts arbitrary: st)
  case Nil
  show ?case by (intro exI [of _ "latestInt64 st"]) simp
next
  case (Cons t ts)
  have "next_ok (concat (map F ts) @ rest)"
  proof (cases ts)
    case (Cons u us)
    with Cons.prems(2,4) F_next_ok [of u "concat (map F us) @ rest"] show ?thesis by (simp add: len_def)
  qed (use Cons.prems(3) in simp)
  with Cons.prems have "Disassemble_from order (concat (map F (t # ts)) @ rest) st = Disassemble_from order (concat (map F ts) @ rest) (shown t st)"
    by simp
  moreover obtain l where "Disassemble_from order (concat (map F ts) @ rest) (shown t st) = Disassemble_from order rest
      ((shown t st)\<lparr>pieces := pieces (shown t st) @ map data_String ts, pushdatas := pushdatas (shown t st) + len ts, latestInt64 := l\<rparr>)"
    using Cons.IH [of "shown t st"] Cons.prems by (auto simp: shown_def len_def)
  ultimately show ?case by (intro exI [of _ l]) (simp add: shown_def len_def add.assoc)
qed

lemma dis_data:
  assumes "data_ok d" and "next_ok rest" and "len (F d @ rest) < 2 ^ 63" and "list_all textual (pieces st)" and "0 \<le> pushdatas st"
  shows "Disassemble_from order (F d @ rest) st = Disassemble_from order rest (shown d st)"
  using assms
proof (induction d arbitrary: rest st)
  case (Int64 i)
  then have i: "is_int64 i" by simp
  note on = dis_on_shown [OF Int64.prems(4), of order rest "Int64 i"]
  from F_Int [OF i] show ?case
  proof
    assume "F (Int64 i) = encode_Int i"
    with dis_encode_Int [OF i, of rest order st] dis_num_shown(1) [OF Int64.prems(2)] on Int64.prems(3) show ?case by simp
  next
    assume F: "is_int64 (- i) \<and> F (Int64 i) = encode_Int (- i) @ [op_Neg]"
    with dis_encode_Int [of "- i" "op_Neg # rest" order st] dis_num_shown(2) [of "- i" rest st] on i Int64.prems(3) show ?case by simp
  qed
next
  case (Bytes b)
  then show ?case using dis_push [of b rest order st] dis_on_shown [of st order rest "Bytes b"]
    next_ok_neg [of rest] by (auto simp: F_Bytes dis_bytes_def shown_def)
next
  case (Tuple ts)
  have n: "len ts < 2 ^ 63" using F_large [of ts] Tuple.prems(3) by (cases "2 ^ 63 \<le> len ts") (auto simp: len_def)
  let ?rest = "encode_Int (len ts) @ op_Tuple # rest"
  have F: "F (Tuple ts) @ rest = concat (map F ts) @ ?rest" using n by (simp add: F_Tuple)
  have "next_ok ?rest" using encode_Int_Cons [of "len ts"] by (auto simp: next_ok_def)
  moreover have "Disassemble_from order (F t @ rest) st = Disassemble_from order rest (shown t st)"
    if "t \<in> set ts" "next_ok rest" "len (F t @ rest) < 2 ^ 63" "list_all textual (pieces st)" "0 \<le> pushdatas st" for t rest st
    using Tuple.IH [OF that(1) _ that(2-5)] that(1) Tuple.prems(1) by (simp add: list_all_iff)
  ultimately obtain l where l: "Disassemble_from order (F (Tuple ts) @ rest) st =
      Disassemble_from order ?rest (st\<lparr>pieces := pieces st @ map data_String ts, pushdatas := pushdatas st + len ts, latestInt64 := l\<rparr>)"
    using dis_list [of ts order ?rest st] Tuple.prems F by auto
  let ?st = "st\<lparr>pieces := pieces st @ map data_String ts, pushdatas := pushdatas st + len ts, latestInt64 := l\<rparr>"
  have "list_all textual (pieces ?st)" using Tuple.prems(4) by (auto simp: list_all_iff)
  with dis_encode_Int [of "len ts" "op_Tuple # rest" order ?st] dis_num_shown(1) [of "op_Tuple # rest"] dis_on_shown [of ?st order "op_Tuple # rest" "Int64 (len ts)"]
  have "Disassemble_from order ?rest ?st = Disassemble_from order (op_Tuple # rest) (shown (Int64 (len ts)) ?st)"
    using n Tuple.prems(3) F by (simp add: next_ok_def is_int64_iff len_def)
  with l dis_tuple_shown [OF Tuple.prems(4,5), of order rest ts "data_String (Int64 (len ts))"] show ?case by (simp add: shown_def)
qed

lemma Disassemble_F:
  assumes "data_ok d" and "len (F d) < 2 ^ 63"
  shows "Disassemble order (F d) = Inr (data_String d)"
  using dis_data [OF assms(1), of "[]" dis_start order] assms(2)
  by (simp add: Disassemble_def next_ok_def dis_start_def Disassemble_from.simps [of order "[]"] shown_def)

end

interpretation encoded: data_coding Encode
proof
  fix ts :: "data list"
  assume "2 ^ 63 \<le> len ts"
  then show "2 ^ 63 \<le> len (Encode (Tuple ts))" using len_concat_Encode [of ts] by (simp add: len_def)
qed auto

interpretation built: data_coding data_code
proof
  fix ts :: "data list"
  show "2 ^ 63 \<le> len ts \<Longrightarrow> 2 ^ 63 \<le> len (data_code (Tuple ts))"
    using len_data_codes [of ts] by (simp add: len_def)
  show "len ts < 2 ^ 63 \<Longrightarrow> data_code (Tuple ts) = concat (map data_code ts) @ encode_Int (len ts) @ [op_Tuple]"
    by (simp add: pushint64_code_eq len_def)
  fix i
  show "is_int64 i \<Longrightarrow> data_code (Int64 i) = encode_Int i \<or> is_int64 (- i) \<and> data_code (Int64 i) = encode_Int (- i) @ [op_Neg]"
    by (auto simp: pushint64_code_eq is_int64_iff minInt_def)
qed simp

section \<open>Printing, assembling and disassembling data\<close>

text \<open>
  C6: Disassembling a datum prints it. For every well-formed datum, disassembling its encoding, as well as the program that the builder writes
  for it, gives the text that its \<^verbatim>\<open>String\<close> method prints, whatever the order in which the macros are tried. Assembling that text and
  disassembling the program gives the text back if no string in it holds a quote or a backslash.
\<close>

theorem Disassemble_data:
  assumes "data_ok d" and "len (Encode d) < 2 ^ 63" and "len (data_code d) < 2 ^ 63"
  shows "Disassemble order (Encode d) = Inr (data_String d) \<and> Disassemble order (Build (build_data d [])) = Inr (data_String d) \<and>
    (quotable d \<longrightarrow> (\<exists>p. Assemble U M (data_String d) = Inr p \<and> Disassemble order p = Inr (data_String d)))"
  using encoded.Disassemble_F [OF assms(1,2)] built.Disassemble_F [OF assms(1,3)] build_data_code [OF assms(3)]
    Assemble_data_String [OF assms(1) _ assms(3)] by (auto simp: Build_def)

theorem Disassemble_data_witness:
  "Disassemble (\<lambda>_. decomposite) (Encode (Tuple [Int64 (- 5), Bytes (str ''ok''), Tuple []])) = Inr (str ''{-5, 'ok', {}}'')"
proof -
  let ?d = "Tuple [Int64 (- 5), Bytes (str ''ok''), Tuple []]"
  have "len (Encode ?d) < 2 ^ 63" "len (data_code ?d) < 2 ^ 63" "data_String ?d = str ''{-5, 'ok', {}}''" by code_simp+
  with Disassemble_data [of ?d "\<lambda>_. decomposite"] show ?thesis by (simp add: is_int64_iff)
qed

text \<open>
  A negative count before \<^verbatim>\<open>tuple\<close> is not handled: \<^verbatim>\<open>2 neg tuple\<close> slices beyond the pieces, and \<^verbatim>\<open>1 neg tuple\<close> prints an empty tuple that
  the program does not push.
\<close>

lemma Disassemble_negative_count:
  "Disassemble (\<lambda>_. decomposite) [2, op_Neg, op_Tuple] = Inl DisSlice"
  "Disassemble (\<lambda>_. decomposite) [1, op_Neg, op_Tuple] = Inr (str ''-1 {}'')"
  by code_simp+

end
