(* ===== verification/AsmLex.thy ===== *)
theory AsmLex
  imports AsmText
begin

text \<open>
  Assembling texts of words, numbers, labels, jumps, comments and bracketed programs without running the scanner: \<open>tokenize\<close> splits
  such a text into tokens in one pass, and \<open>asm_trees\<close> assembles bracketed groups of tokens. When both succeed,
  \<open>Assemble\<close> returns their result.
\<close>

section \<open>Valid UTF-8\<close>

function valid_text :: "bytes \<Rightarrow> bool" where
  \<comment> \<open>UTF-8 without NUL, where the scanner reports no errors\<close>
  "valid_text s = (case s of [] \<Rightarrow> True
   | b # bs \<Rightarrow> if b < 0x80 then b \<noteq> 0 \<and> valid_text bs
       else if 2 \<le> snd (DecodeRune s) then valid_text (drop (snd (DecodeRune s)) s) else False)"
  by pat_completeness auto
termination
  by (relation "measure length") auto

declare valid_text.simps [simp del]

lemma valid_text_Nil [simp]: "valid_text []"
  by (simp add: valid_text.simps)

lemma valid_text_ascii [simp]: "b < 0x80 \<Longrightarrow> valid_text (b # bs) \<longleftrightarrow> b \<noteq> 0 \<and> valid_text bs"
  by (simp add: valid_text.simps)

lemma valid_text_rune: "\<not> b < 0x80 \<Longrightarrow> valid_text (b # bs) \<longleftrightarrow>
   2 \<le> snd (DecodeRune (b # bs)) \<and> valid_text (drop (snd (DecodeRune (b # bs))) (b # bs))"
  by (simp add: valid_text.simps [of "b # bs"])

lemma DecodeRune_ascii [simp]: "b < 0x80 \<Longrightarrow> DecodeRune (b # bs) = (uint b, 1)"
  by (simp add: DecodeRune_def)

lemma DecodeRune_append: "2 \<le> snd (DecodeRune s) \<Longrightarrow> DecodeRune (s @ t) = DecodeRune s"
proof -
  assume w: "2 \<le> snd (DecodeRune s)"
  have "s = [] \<or> (\<exists>a. s = [a]) \<or> (\<exists>a b. s = [a, b]) \<or> (\<exists>a b c. s = [a, b, c]) \<or> (\<exists>a b c d r. s = a # b # c # d # r)"
    by (metis neq_Nil_conv)
  with w show ?thesis by (elim disjE exE) (simp_all add: DecodeRune_def split: if_splits)
qed

lemma DecodeRune_length: "s \<noteq> [] \<Longrightarrow> snd (DecodeRune s) \<le> length s"
  by (auto simp: DecodeRune_def split: list.split)

lemma valid_text_append: "valid_text s \<Longrightarrow> valid_text t \<Longrightarrow> valid_text (s @ t)"
proof (induction s rule: valid_text.induct)
  case (1 s)
  show ?case
  proof (cases s)
    case (Cons b bs)
    show ?thesis
    proof (cases "b < 0x80")
      case True
      with 1 Cons show ?thesis by simp
    next
      case False
      let ?w = "snd (DecodeRune s)"
      have w: "2 \<le> ?w" "valid_text (drop ?w s)" using "1.prems"(1) False by (simp_all add: Cons valid_text_rune)
      have e: "DecodeRune (b # bs @ t) = DecodeRune s" using DecodeRune_append [OF w(1), of t] by (simp add: Cons)
      have "valid_text (drop ?w s @ t)" using "1.IH"(2) [OF Cons False] w "1.prems"(2) by simp
      moreover have "drop ?w (s @ t) = drop ?w s @ t" using DecodeRune_length [of s] Cons by (subst drop_append) simp
      ultimately have "valid_text (drop ?w (b # bs @ t))" by (simp only: Cons append_Cons)
      then show ?thesis using False w(1) valid_text_rune [OF False, of "bs @ t"] by (simp only: Cons append_Cons e simp_thms)
    qed
  qed (use "1.prems" in simp)
qed

section \<open>Reading valid text\<close>

definition reads :: "scanner \<Rightarrow> bytes \<Rightarrow> bytes \<Rightarrow> bool" where
  \<comment> \<open>the scanner has read \<open>pre\<close> without an error, and the valid text \<open>rest\<close> is ahead\<close>
  "reads s pre rest \<longleftrightarrow> srcstr s = pre @ rest \<and> valid_text rest \<and> offset s = length pre \<and> errs s = [] \<and>
     (case rest of [] \<Rightarrow> ch s = -1 \<and> rdOffset s = length pre
      | _ # _ \<Rightarrow> ch s = fst (DecodeRune rest) \<and> rdOffset s = length pre + snd (DecodeRune rest))"

lemma reads_next:
  assumes "reads s pre rest" and "rest \<noteq> []"
  defines "w \<equiv> snd (DecodeRune rest)"
  shows "reads (scan_next s) (pre @ take w rest) (drop w rest)"
proof -
  from assms(2) obtain b bs where r: "rest = b # bs" by (cases rest) auto
  have rd: "rdOffset s = length pre + w" "srcstr s = pre @ rest" "errs s = []" using assms(1) by (auto simp: reads_def r w_def)
  have w: "w \<le> length rest" "1 \<le> w" using DecodeRune_length [of rest] DecodeRune_width [of rest] by (simp_all add: r w_def)
  have d: "drop (rdOffset s) (srcstr s) = drop w rest" by (simp add: rd)
  have v: "valid_text (drop w rest)"
    using assms(1) by (cases "b < 0x80") (auto simp: reads_def r w_def valid_text_rune)
  show ?thesis
  proof (cases "drop w rest")
    case Nil
    then have "\<not> rdOffset s < length (srcstr s)" using w by (simp add: rd)
    with Nil w rd scan_next_eof [OF this] show ?thesis by (auto simp: reads_def)
  next
    case (Cons c cs)
    then have lt: "rdOffset s < length (srcstr s)" using w by (simp add: rd) (metis drop_all leI list.distinct(1))
    have c: "srcstr s ! rdOffset s = c" using Cons_nth_drop_Suc [OF lt] Cons by (simp add: d)
    have l: "length pre + min (length rest) w = rdOffset s" using w by (simp add: rd)
    have s: "srcstr (scan_next s) = (pre @ take w rest) @ c # cs" using Cons append_take_drop_id [of w rest] by (simp add: rd)
    show ?thesis
    proof (cases "c < 0x80")
      case True
      with scan_next_ascii [OF lt, unfolded c, OF True] v s l Cons rd show ?thesis by (auto simp: reads_def)
    next
      case False
      have "2 \<le> snd (DecodeRune (c # cs))" using v False by (simp add: Cons valid_text_rune)
      moreover have "128 \<le> uint c" using False by (simp add: word_less_def)
      ultimately show ?thesis
        using v s l Cons rd lt c d by (auto simp: reads_def scan_next_def Let_def RuneSelf_def split: prod.splits)
    qed
  qed
qed

lemma reads_ascii:
  assumes "reads s pre (b # rest)" and "b < 0x80"
  shows "ch s = uint b" "rdOffset s = Suc (length pre)" "reads (scan_next s) (pre @ [b]) rest"
  using assms reads_next [OF assms(1)] by (auto simp: reads_def)

lemma reads_fields: "reads s pre rest \<Longrightarrow> offset s = length pre \<and> srcstr s = pre @ rest \<and> errs s = []"
  by (simp add: reads_def)

lemma reads_skip:
  assumes "reads s pre (xs @ rest)" and "\<And>b. b \<in> set xs \<Longrightarrow> b < 0x80 \<and> p (uint b)"
    and "rest \<noteq> [] \<Longrightarrow> hd rest < 0x80 \<and> \<not> p (uint (hd rest))"
  shows "reads (skip p s) (pre @ xs) rest"
  using assms
proof (induction xs arbitrary: s pre)
  case Nil
  then have "skip p s = s" by (cases rest) (auto simp: skip.simps [of p s] reads_def)
  with Nil show ?case by simp
next
  case (Cons b xs)
  have b: "b < 0x80" "p (uint b)" using Cons.prems(2) by auto
  have at: "reads s pre (b # xs @ rest)" using Cons.prems(1) by simp
  note n = reads_ascii [OF at b(1)]
  have "skip p s = skip p (scan_next s)" using n(1) b(2) by (subst skip.simps) simp
  moreover have "reads (skip p (scan_next s)) ((pre @ [b]) @ xs) rest"
    using n(3) Cons.prems by (intro Cons.IH) auto
  ultimately show ?case by simp
qed

lemma reads_comment:
  assumes "reads s pre rest" and "dropWhile (\<lambda>b. b \<noteq> 10) rest \<noteq> []"
  shows "\<exists>s'. while_option (\<lambda>s. ch s \<noteq> 10) scan_next s = Some s' \<and>
    reads s' (pre @ takeWhile (\<lambda>b. b \<noteq> 10) rest) (dropWhile (\<lambda>b. b \<noteq> 10) rest)"
  using assms
proof (induction "length rest" arbitrary: s pre rest rule: less_induct)
  case less
  from less.prems(2) obtain b bs where r: "rest = b # bs" by (cases rest) auto
  show ?case
  proof (cases "b = 10")
    case True
    then show ?thesis using less.prems(1) by (intro exI [of _ s]) (simp add: r while_option_unfold reads_ascii)
  next
    case False
    define w where "w = snd (DecodeRune rest)"
    have w: "1 \<le> w" using DecodeRune_width [of rest] by (simp add: r w_def)
    have nl: "10 \<notin> set (take w rest) \<and> ch s \<noteq> 10"
    proof (cases "b < 0x80")
      case True
      with False less.prems(1) reads_ascii(1) [of s pre b bs] show ?thesis by (auto simp: r w_def word_uint_eq_iff)
    next
      case high: False
      then have "rune_ok rest (DecodeRune rest)" using DecodeRune_high [of b bs] by (simp add: r)
      then have "0x80 \<le> fst (DecodeRune rest)" "\<forall>c\<in>set (take w rest). 0x80 \<le> c" by (auto simp: rune_ok_def w_def)
      moreover have "ch s = fst (DecodeRune rest)" using less.prems(1) by (simp add: reads_def r)
      ultimately show ?thesis by auto
    qed
    have split: "takeWhile (\<lambda>b. b \<noteq> 10) rest = take w rest @ takeWhile (\<lambda>b. b \<noteq> 10) (drop w rest)"
      "dropWhile (\<lambda>b. b \<noteq> 10) rest = dropWhile (\<lambda>b. b \<noteq> 10) (drop w rest)"
      using nl takeWhile_append2 [of "take w rest" "\<lambda>b. b \<noteq> 10" "drop w rest"] dropWhile_append2 [of "take w rest" "\<lambda>b. b \<noteq> 10" "drop w rest"]
      by (auto simp del: takeWhile_append2 dropWhile_append2)
    have "reads (scan_next s) (pre @ take w rest) (drop w rest)"
      using reads_next [OF less.prems(1)] by (simp add: r w_def)
    from less.hyps [OF _ this] less.prems(2) w split(2) r
    obtain s' where "while_option (\<lambda>s. ch s \<noteq> 10) scan_next (scan_next s) = Some s'"
      "reads s' ((pre @ take w rest) @ takeWhile (\<lambda>b. b \<noteq> 10) (drop w rest)) (dropWhile (\<lambda>b. b \<noteq> 10) (drop w rest))"
      by auto
    with nl show ?thesis by (subst while_option_unfold) (simp add: split)
  qed
qed

section \<open>One token\<close>

definition letterc :: "byte \<Rightarrow> bool" where
  "letterc b \<longleftrightarrow> (97 \<le> b \<and> b \<le> 122) \<or> (65 \<le> b \<and> b \<le> 90) \<or> b = 95"

definition digitc :: "byte \<Rightarrow> bool" where
  "digitc b \<longleftrightarrow> 48 \<le> b \<and> b \<le> 57"

definition wordc :: "byte \<Rightarrow> bool" where
  "wordc b \<longleftrightarrow> letterc b \<or> digitc b"

definition stops :: "bytes \<Rightarrow> bool" where
  \<comment> \<open>no letter or digit follows\<close>
  "stops rest \<longleftrightarrow> (case rest of [] \<Rightarrow> True | b # _ \<Rightarrow> b < 0x80 \<and> \<not> wordc b)"

lemma wordc_ascii: "wordc b \<Longrightarrow> b < 0x80"
  by (auto simp: wordc_def letterc_def digitc_def word_le_nat_alt word_less_nat_alt)

lemma isLetter_ascii: "b < 0x80 \<Longrightarrow> isLetter U (uint b) \<longleftrightarrow> letterc b"
  and isDigit_ascii: "b < 0x80 \<Longrightarrow> isDigit U (uint b) \<longleftrightarrow> digitc b" for b :: byte
  by (auto simp: isLetter_def isDigit_def RuneSelf_def letterc_def digitc_def word_le_def word_less_def word_uint_eq_iff)

lemma isDigit_EOF: "\<not> isDigit U (- 1)"
  by (simp add: isDigit_def RuneSelf_def)

lemma reads_nonblank: "reads s pre (b # rest) \<Longrightarrow> b < 0x80 \<Longrightarrow> \<not> blank b \<Longrightarrow> skipWhitespace s = s"
  using reads_ascii(1) [of s pre b rest] by (auto simp: skipWhitespace_def skip.simps blank_def word_uint_eq_iff)

lemma reads_blank: "reads s pre (b # rest) \<Longrightarrow> blank b \<Longrightarrow> scan U s = scan U (scan_next s)"
proof -
  assume a: "reads s pre (b # rest)" "blank b"
  then have "b < 0x80" by (auto simp: blank_def)
  with a have "skipWhitespace s = skipWhitespace (scan_next s)"
    unfolding skipWhitespace_def by (subst skip.simps) (auto simp: reads_ascii blank_def)
  then show ?thesis by (simp add: scan_def)
qed

lemma reads_word:
  assumes "reads s pre (w @ rest)" and "\<forall>b\<in>set w. wordc b" and "stops rest"
  shows "reads (skip (\<lambda>c. isLetter U c \<or> isDigit U c) s) (pre @ w) rest"
  using assms by (intro reads_skip) (auto simp: wordc_ascii isLetter_ascii isDigit_ascii stops_def wordc_def split: list.splits
      dest: wordc_ascii [unfolded wordc_def])

lemma scanIdentifier_reads:
  assumes "reads s (pre @ hd') (w @ rest)" and "\<forall>b\<in>set w. wordc b" and "stops rest"
  shows "\<exists>s'. scanIdentifier U (length pre) s = (hd' @ w, s') \<and> reads s' (pre @ hd' @ w) rest"
  using reads_word [OF assms, of U] substr_token [of pre "hd' @ w" rest]
  by (auto simp: scanIdentifier_def Let_def reads_def)

lemma scan_start:
  assumes "reads s pre (b # rest)" and "b < 0x80" and "\<not> blank b"
  shows "skipWhitespace s = s" "offset s = length pre" "ch s = uint b" "substr (srcstr s) (offset s) (rdOffset s) = [b]"
    "reads (scan_next s) (pre @ [b]) rest"
  using assms reads_nonblank [OF assms] reads_ascii [OF assms(1,2)] by (auto simp: reads_def substr_here)

lemma scan_reads_bracket:
  assumes "reads s pre (b # rest)" and "b = 91 \<and> tok = TokLeftBracket \<or> b = 93 \<and> tok = TokRightBracket"
  shows "\<exists>s'. scan U s = Some (length pre, tok, [b], s') \<and> reads s' (pre @ [b]) rest"
proof -
  have b: "b < 0x80" "\<not> blank b" using assms(2) by (auto simp: blank_def)
  note st = scan_start [OF assms(1) b]
  have "map_of punctuation (uint b) = Some tok" "\<not> (48 \<le> uint b \<and> uint b \<le> 57)" "uint b \<noteq> chr ''-''"
    using assms(2) by (auto simp: punctuation_def chr_def)
  with st show ?thesis by (auto simp: scan_def Let_def)
qed

lemma scan_reads_label:
  assumes "reads s pre (36 # w @ rest)" and "\<forall>b\<in>set w. wordc b" and "stops rest"
  shows "\<exists>s'. scan U s = Some (length pre, TokLabel, 36 # w, s') \<and> reads s' (pre @ 36 # w) rest"
proof -
  have "\<not> blank 36" by (simp add: blank_def)
  note st = scan_start [OF assms(1) _ this, simplified]
  have o: "offset (scan_next s) = Suc (length pre)" using st(5) by (simp add: reads_def)
  from scanIdentifier_reads [OF st(5) assms(2,3), of U] o st show ?thesis
    by (auto simp: scan_def Let_def punctuation_def chr_def scanLabel_def)
qed

lemma scan_reads_number:
  assumes "reads s pre (b # w @ rest)" and "digitc b" and "\<forall>c\<in>set w. digitc c" and "b = 48 \<longrightarrow> w = []" and "stops rest"
  shows "\<exists>s'. scan U s = Some (length pre, TokNumber, b # w, s') \<and> reads s' (pre @ b # w) rest"
proof -
  have b: "b < 0x80" "\<not> blank b" "48 \<le> uint b" "uint b \<le> 57"
    using assms(2) wordc_ascii [of b] by (auto simp: digitc_def wordc_def blank_def word_le_def)
  note st = scan_start [OF assms(1) b(1,2)]
  have "\<exists>s'. scanNumber U s = (b # w, s') \<and> reads s' (pre @ b # w) rest"
  proof (cases "b = 48")
    case True
    then have "w = []" using assms(4) by simp
    then have "\<not> isDigit U (ch (scan_next s))"
      using st(5) assms(5) by (cases rest) (auto simp: reads_def stops_def isDigit_ascii wordc_def isDigit_EOF)
    with True \<open>w = []\<close> st show ?thesis by (auto simp: scanNumber_def Let_def chr_def reads_def substr_def)
  next
    case False
    then have c: "ch s \<noteq> chr ''0''" using st(3) by (auto simp: chr_def word_uint_eq_iff)
    have "reads (skip (isDigit U) (scan_next s)) ((pre @ [b]) @ w) rest"
      using st(5) assms(3,5) by (intro reads_skip) (auto simp: digitc_def isDigit_byte wordc_def stops_def isDigit_ascii
          intro: wordc_ascii split: list.splits)
    with c st show ?thesis using substr_token [of pre "b # w" rest] by (auto simp: scanNumber_def Let_def reads_def)
  qed
  with st b show ?thesis by (auto simp: scan_def Let_def)
qed

lemma scan_reads_ident:
  assumes "reads s pre (b # w @ rest)" and "letterc b" and "b \<noteq> 120" and "\<forall>c\<in>set w. wordc c" and "stops rest"
  shows "scan U s = Some (length pre, scan_word U (length pre) (scan_next s))"
    "\<exists>s'. scanIdentifier U (length pre) (scan_next s) = (b # w, s') \<and> reads s' (pre @ b # w) rest"
proof -
  have b: "b < 0x80" "\<not> blank b" "\<not> (48 \<le> uint b \<and> uint b \<le> 57)"
    using assms(2) wordc_ascii [of b] by (auto simp: letterc_def wordc_def blank_def word_le_def word_uint_eq_iff)
  note st = scan_start [OF assms(1) b(1,2)]
  from scanIdentifier_reads [OF st(5) assms(4,5), of U]
  show "\<exists>s'. scanIdentifier U (length pre) (scan_next s) = (b # w, s') \<and> reads s' (pre @ b # w) rest" by simp
  have p: "map_of punctuation (uint b) = None" and n: "uint b \<noteq> chr ''-''" "uint b \<noteq> 34" "uint b \<noteq> 39" "uint b \<noteq> chr ''$''" "uint b \<noteq> chr ''#''"
    "uint b \<noteq> chr ''x''"
    using assms(2,3) by (auto simp: letterc_def punctuation_def chr_def word_le_def word_uint_eq_iff)
  show "scan U s = Some (length pre, scan_word U (length pre) (scan_next s))"
    using st b(3) p n isLetter_ascii [OF b(1), of U] assms(2) by (auto simp: scan_def Let_def)
qed

lemma scan_reads_word:
  assumes "reads s pre (b # w @ rest)" and "letterc b" and "b \<noteq> 120" and "\<forall>c\<in>set w. wordc c" and "stops rest"
    and "b # w \<notin> {str ''jump'', str ''jumpif''} \<or> rest = [] \<or> hd rest \<noteq> 58"
  shows "\<exists>s'. scan U s = Some (length pre, TokIdent, b # w, s') \<and> reads s' (pre @ b # w) rest"
proof -
  from scan_reads_ident [OF assms(1-5), of U] obtain s' where s': "scanIdentifier U (length pre) (scan_next s) = (b # w, s')"
    "reads s' (pre @ b # w) rest" and sc: "scan U s = Some (length pre, scan_word U (length pre) (scan_next s))" by auto
  have "ch s' \<noteq> chr '':''" if "rest = [] \<or> hd rest \<noteq> 58"
    using that s'(2) assms(5) by (cases rest) (auto simp: reads_def chr_def stops_def word_uint_eq_iff)
  then show ?thesis using assms(6) s' by (auto simp: sc scan_word_def)
qed

lemma scan_reads_jump:
  assumes "reads s pre (b # w @ 58 # rest)" and "b # w = str ''jump'' \<and> tok = TokJump \<or> b # w = str ''jumpif'' \<and> tok = TokJumpIf"
  shows "\<exists>s'. scan U s = Some (length pre, tok, b # w @ [58], s') \<and> reads s' (pre @ b # w @ [58]) rest"
proof -
  have b: "letterc b" "b \<noteq> 120" "\<forall>c\<in>set w. wordc c" "stops (58 # rest)"
    using assms(2) by (auto simp: str_def letterc_def wordc_def digitc_def stops_def)
  from scan_reads_ident [OF assms(1) b, of U] obtain s' where s': "scanIdentifier U (length pre) (scan_next s) = (b # w, s')"
    "reads s' (pre @ b # w) (58 # rest)" and sc: "scan U s = Some (length pre, scan_word U (length pre) (scan_next s))" by auto
  have n: "ch s' = chr '':''" "rdOffset s' = length pre + length (b # w @ [58])" "reads (scan_next s') (pre @ b # w @ [58]) rest"
    using reads_ascii [OF s'(2)] by (auto simp: chr_def)
  have "substr (srcstr s') (length pre) (rdOffset s') = b # w @ [58]"
    using substr_token [of pre "b # w @ [58]" rest] n(2) s'(2) by (simp add: reads_def)
  with n assms(2) s'(1) show ?thesis by (auto simp: sc scan_word_def str_def)
qed

section \<open>Tokens of a text\<close>

fun stream :: "unicode \<Rightarrow> scanner \<Rightarrow> (token \<times> bytes) list \<Rightarrow> bool" where
  \<comment> \<open>the tokens that the assembler reads, up to the end of the text\<close>
  "stream U s [] = (\<exists>off lit s'. next_token U s = Some (off, TokEOF, lit, s') \<and> errs s' = [])"
| "stream U s ((tok, lit) # ts) = (tok \<noteq> TokEOF \<and> (\<exists>off s'. next_token U s = Some (off, tok, lit, s') \<and> stream U s' ts))"

function tokenize :: "bytes \<Rightarrow> (token \<times> bytes) list option" where
  "tokenize s = (case s of [] \<Rightarrow> Some []
   | c # cs \<Rightarrow>
       if blank c then tokenize cs
       else if c = 35 then (case dropWhile (\<lambda>b. b \<noteq> 10) cs of [] \<Rightarrow> None | b # bs \<Rightarrow> tokenize bs)
       else if c = 91 \<or> c = 93 then
         map_option ((#) (if c = 91 then TokLeftBracket else TokRightBracket, [c])) (tokenize cs)
       else (case (takeWhile wordc cs, dropWhile wordc cs) of (w, r) \<Rightarrow>
         if \<not> stops r then None
         else if digitc c then
           (if list_all digitc w \<and> (c = 48 \<longrightarrow> w = []) then map_option ((#) (TokNumber, c # w)) (tokenize r) else None)
         else if c = 36 then (if w = [] then None else map_option ((#) (TokLabel, c # w)) (tokenize r))
         else if letterc c \<and> c \<noteq> 120 then
           (if (c # w = str ''jump'' \<or> c # w = str ''jumpif'') \<and> r \<noteq> [] \<and> hd r = 58 then
              map_option ((#) (if c # w = str ''jump'' then TokJump else TokJumpIf, c # w @ [58])) (tokenize (tl r))
            else map_option ((#) (TokIdent, c # w)) (tokenize r))
         else None))"
  by pat_completeness auto
termination
proof (relation "measure length", goal_cases)
  case (3 s c cs b bs)
  then have "length (b # bs) \<le> length cs" by (metis length_dropWhile_le)
  with 3 show ?case by simp
qed (auto simp: le_imp_less_Suc length_dropWhile_le less_Suc_eq_le intro: order_trans [OF diff_le_self])

declare tokenize.simps [simp del]

lemma stream_cong: "next_token U s = next_token U s' \<Longrightarrow> stream U s ts \<longleftrightarrow> stream U s' ts"
  by (cases ts rule: list.exhaust) auto

lemma stream_blank: "reads s pre (b # rest) \<Longrightarrow> blank b \<Longrightarrow> stream U s ts \<longleftrightarrow> stream U (scan_next s) ts"
  by (rule stream_cong) (simp add: next_token.simps [of U s] next_token.simps [of U "scan_next s"] reads_blank)

lemma stream_token:
  "scan U s = Some (off, tok, lit, s') \<Longrightarrow> tok \<noteq> TokComment \<Longrightarrow> tok \<noteq> TokEOF \<Longrightarrow> stream U s' ts \<Longrightarrow> stream U s ((tok, lit) # ts)"
  by (simp add: next_token.simps [of U s])

lemma stream_comment:
  assumes "reads s pre (35 # rest)" and "dropWhile (\<lambda>b. b \<noteq> 10) rest = 10 # bs"
  shows "\<exists>s' pre'. reads s' pre' bs \<and> (\<forall>ts. stream U s ts \<longleftrightarrow> stream U s' ts)"
proof -
  have "\<not> blank 35" by (simp add: blank_def)
  note st = scan_start [OF assms(1) _ this, simplified]
  from reads_comment [OF st(5)] assms(2) obtain s1 pre1 where
    w: "while_option (\<lambda>s. ch s \<noteq> 10) scan_next (scan_next s) = Some s1" and s1: "reads s1 pre1 (10 # bs)" by auto
  have "\<exists>lit. scan U s = Some (length pre, TokComment, lit, s1)"
    using st w by (auto simp: scan_def Let_def scanComment_def punctuation_def chr_def)
  then have "next_token U s = next_token U s1" by (auto simp: next_token.simps [of U s])
  from stream_cong [OF this] have "stream U s ts \<longleftrightarrow> stream U (scan_next s1) ts" for ts
    using stream_blank [OF s1, of U ts] by (simp add: blank_def)
  with reads_ascii(3) [OF s1] show ?thesis by auto
qed

lemma dropWhile_newline: "dropWhile (\<lambda>b. b \<noteq> 10) cs = b # bs \<Longrightarrow> b = (10 :: byte)"
  by (metis (full_types) dropWhile_eq_Cons_conv)

lemma reads_Nil_stream: "reads s pre [] \<Longrightarrow> stream U s []"
proof -
  assume r: "reads s pre []"
  then have "skipWhitespace s = s" by (simp add: skipWhitespace_def skip.simps reads_def)
  moreover have "errs (scan_next s) = []" using r scan_next_eof [of s] by (auto simp: reads_def)
  ultimately show ?thesis using r
    by (auto simp: next_token.simps [of U s] scan_def Let_def reads_def punctuation_def chr_def)
qed

definition token_at :: "bytes \<Rightarrow> token \<Rightarrow> bytes \<Rightarrow> bytes \<Rightarrow> bool" where
  \<comment> \<open>the scanner splits the text into a token and the rest\<close>
  "token_at text tok lit r \<longleftrightarrow> tok \<noteq> TokComment \<and> tok \<noteq> TokEOF \<and>
     (\<forall>U s pre. reads s pre text \<longrightarrow> (\<exists>s'. scan U s = Some (length pre, tok, lit, s') \<and> reads s' (pre @ lit) r))"

lemma token_at_stream: "token_at text tok lit r \<Longrightarrow> reads s pre text \<Longrightarrow> (\<And>s' pre'. reads s' pre' r \<Longrightarrow> stream U s' ts) \<Longrightarrow>
   stream U s ((tok, lit) # ts)"
  unfolding token_at_def using stream_token by blast

lemma token_bracket: "token_at (91 # r) TokLeftBracket [91] r" "token_at (93 # r) TokRightBracket [93] r"
  unfolding token_at_def using scan_reads_bracket by simp_all

lemma token_word:
  assumes "\<forall>b\<in>set w. wordc b" and "stops r"
  shows "digitc c \<Longrightarrow> list_all digitc w \<Longrightarrow> (c = 48 \<longrightarrow> w = []) \<Longrightarrow> token_at (c # w @ r) TokNumber (c # w) r"
    and "token_at (36 # w @ r) TokLabel (36 # w) r"
    and "letterc c \<Longrightarrow> c \<noteq> 120 \<Longrightarrow> c # w \<notin> {str ''jump'', str ''jumpif''} \<or> r = [] \<or> hd r \<noteq> 58 \<Longrightarrow> token_at (c # w @ r) TokIdent (c # w) r"
    and "c # w = str ''jump'' \<or> c # w = str ''jumpif'' \<Longrightarrow> r = 58 # r' \<Longrightarrow>
      token_at (c # w @ r) (if c # w = str ''jump'' then TokJump else TokJumpIf) (c # w @ [58]) r'"
proof -
  show "digitc c \<Longrightarrow> list_all digitc w \<Longrightarrow> (c = 48 \<longrightarrow> w = []) \<Longrightarrow> token_at (c # w @ r) TokNumber (c # w) r"
    unfolding token_at_def list_all_iff using scan_reads_number assms(2) by simp
  show "token_at (36 # w @ r) TokLabel (36 # w) r"
    unfolding token_at_def using scan_reads_label assms by simp
  show "letterc c \<Longrightarrow> c \<noteq> 120 \<Longrightarrow> c # w \<notin> {str ''jump'', str ''jumpif''} \<or> r = [] \<or> hd r \<noteq> 58 \<Longrightarrow> token_at (c # w @ r) TokIdent (c # w) r"
    unfolding token_at_def using scan_reads_word assms by simp
  assume j: "c # w = str ''jump'' \<or> c # w = str ''jumpif''" "r = 58 # r'"
  let ?tok = "if c # w = str ''jump'' then TokJump else TokJumpIf"
  have "c # w = str ''jump'' \<and> ?tok = TokJump \<or> c # w = str ''jumpif'' \<and> ?tok = TokJumpIf"
    using j(1) by (auto simp: str_def)
  from scan_reads_jump [OF _ this, of _ _ r'] j(2)
  show "token_at (c # w @ r) ?tok (c # w @ [58]) r'" unfolding token_at_def by simp
qed

lemma tokenize_word:
  assumes "tokenize (c # cs) = Some ts" and "\<not> blank c" and "c \<noteq> 35" and "\<not> (c = 91 \<or> c = 93)"
  shows "\<exists>tok lit r ts'. ts = (tok, lit) # ts' \<and> tokenize r = Some ts' \<and> length r \<le> length cs \<and> token_at (c # cs) tok lit r"
proof -
  define w r where "w = takeWhile wordc cs" and "r = dropWhile wordc cs"
  have w: "\<forall>b\<in>set w. wordc b" "c # cs = c # w @ r" "length r \<le> length cs"
    by (auto simp: w_def r_def length_dropWhile_le dest: set_takeWhileD)
  note lx = assms(1) [unfolded tokenize.simps [of "c # cs"] list.case prod.case w_def [symmetric] r_def [symmetric]]
  from lx assms(2-4) have st: "stops r" by (auto split: if_splits)
  note tok = token_word [OF w(1) st]
  consider (number) "digitc c" | (label) "\<not> digitc c" "c = 36" | (jump) r' where "\<not> digitc c" "c \<noteq> 36" "letterc c" "c \<noteq> 120"
    "c # w = str ''jump'' \<or> c # w = str ''jumpif''" "r = 58 # r'"
    | (word) "\<not> digitc c" "c \<noteq> 36" "letterc c" "c \<noteq> 120" "\<not> ((c # w = str ''jump'' \<or> c # w = str ''jumpif'') \<and> r \<noteq> [] \<and> hd r = 58)"
    using lx assms(2-4) st by (cases r) (auto split: if_splits)
  then show ?thesis
  proof cases
    case number
    with lx assms(2-4) st w(2,3) tok(1) show ?thesis by (fastforce split: if_splits)
  next
    case label
    with lx assms(2-4) st w(2,3) tok(2) show ?thesis by (fastforce split: if_splits)
  next
    case jump
    with lx assms(2-4) st obtain ts' where "tokenize r' = Some ts'"
      "ts = (if c # w = str ''jump'' then TokJump else TokJumpIf, c # w @ [58]) # ts'" by auto
    moreover have "length r' \<le> length cs" using w(3) jump(6) by simp
    moreover note tok(4) [OF jump(5,6), folded w(2)]
    ultimately show ?thesis by blast
  next
    case word
    then have "tokenize r = Some (tl ts) \<and> ts = (TokIdent, c # w) # tl ts" using lx assms(2-4) st by (auto split: if_splits)
    moreover have "token_at (c # cs) TokIdent (c # w) r" using tok(3) [OF word(3,4)] word(5) w(2) by auto
    ultimately show ?thesis using w(3) by blast
  qed
qed

lemma tokenize_stream: "tokenize rest = Some ts \<Longrightarrow> reads s pre rest \<Longrightarrow> stream U s ts"
proof (induction "length rest" arbitrary: s pre rest ts rule: less_induct)
  case less
  show ?case
  proof (cases rest)
    case Nil
    with less.prems show ?thesis using reads_Nil_stream by (simp add: tokenize.simps)
  next
    case (Cons c cs)
    have IH: "tokenize r = Some ts' \<Longrightarrow> reads s' pre' r \<Longrightarrow> length r \<le> length cs \<Longrightarrow> stream U s' ts'" for r ts' s' pre'
      using less.hyps [of r ts' s' pre'] by (simp add: Cons)
    note at = less.prems(2) [unfolded Cons]
    note lx = less.prems(1) [unfolded Cons tokenize.simps [of "c # cs"] list.case]
    consider (blank) "blank c" | (comment) "\<not> blank c" "c = 35" | (bracket) "\<not> blank c" "c = 91 \<or> c = 93"
      | (other) "\<not> blank c" "c \<noteq> 35" "\<not> (c = 91 \<or> c = 93)" by blast
    then show ?thesis
    proof cases
      case blank
      then have "c < 0x80" by (auto simp: blank_def)
      with blank lx reads_ascii(3) [OF at] IH [of cs ts] stream_blank [OF at blank] show ?thesis by simp
    next
      case comment
      from lx comment obtain b bs where d: "dropWhile (\<lambda>b. b \<noteq> 10) cs = b # bs" "tokenize bs = Some ts" by (auto split: list.splits)
      have "length bs \<le> length cs" using d(1) length_dropWhile_le [of "\<lambda>b. b \<noteq> 10" cs] by simp
      with d comment at dropWhile_newline [OF d(1)] stream_comment [of s pre cs bs U] IH [of bs ts] show ?thesis by auto
    next
      case bracket
      with lx obtain ts' where "tokenize cs = Some ts'" "ts = (if c = 91 then TokLeftBracket else TokRightBracket, [c]) # ts'" by auto
      with token_at_stream [OF token_bracket(1), of s pre cs U ts'] token_at_stream [OF token_bracket(2), of s pre cs U ts'] at IH bracket
      show ?thesis by auto
    next
      case other
      from tokenize_word [OF less.prems(1) [unfolded Cons] other] token_at_stream [OF _ at] IH show ?thesis by metis
    qed
  qed
qed

text \<open>A text that ends between two tokens can be continued.\<close>

definition closed_text :: "bytes \<Rightarrow> bool" where
  "closed_text a \<longleftrightarrow> (a = [] \<or> last a < 0x80 \<and> \<not> wordc (last a))"

lemma closed_text_Cons: "closed_text (c # cs) \<Longrightarrow> closed_text cs"
  and closed_text_dropWhile: "closed_text a \<Longrightarrow> closed_text (dropWhile p a)"
  and closed_text_tl: "closed_text a \<Longrightarrow> closed_text (tl a)"
proof -
  show "closed_text (c # cs) \<Longrightarrow> closed_text cs" by (auto simp: closed_text_def)
  show "closed_text (dropWhile p a)" if "closed_text a"
    using that last_appendR [of "dropWhile p a" "takeWhile p a"] by (cases "dropWhile p a = []") (auto simp: closed_text_def simp del: dropWhile_eq_Nil_conv)
  show "closed_text a \<Longrightarrow> closed_text (tl a)" by (cases a) (auto simp: closed_text_def)
qed

lemma wordc_append:
  assumes "closed_text cs" and "cs \<noteq> []"
  shows "takeWhile wordc (cs @ b) = takeWhile wordc cs" "dropWhile wordc (cs @ b) = dropWhile wordc cs @ b" "dropWhile wordc cs \<noteq> []"
proof -
  have l: "last cs \<in> set cs" "\<not> wordc (last cs)" using assms by (auto simp: closed_text_def)
  then show "takeWhile wordc (cs @ b) = takeWhile wordc cs" "dropWhile wordc (cs @ b) = dropWhile wordc cs @ b"
    by (auto intro: takeWhile_append1 dropWhile_append1)
  show "dropWhile wordc cs \<noteq> []" using l by (auto simp: dropWhile_eq_Nil_conv)
qed

definition word_case :: "byte \<Rightarrow> bytes \<Rightarrow> bool \<Rightarrow> (token \<times> bytes) list option \<Rightarrow> (token \<times> bytes) list option \<Rightarrow> (token \<times> bytes) list option" where
  \<comment> \<open>the case of words in \<open>tokenize\<close>, with the tokens of the rest and those after a colon\<close>
  "word_case c w colon x y =
     (if digitc c then (if list_all digitc w \<and> (c = 48 \<longrightarrow> w = []) then map_option ((#) (TokNumber, c # w)) x else None)
      else if c = 36 then (if w = [] then None else map_option ((#) (TokLabel, c # w)) x)
      else if letterc c \<and> c \<noteq> 120 then
        (if (c # w = str ''jump'' \<or> c # w = str ''jumpif'') \<and> colon then
           map_option ((#) (if c # w = str ''jump'' then TokJump else TokJumpIf, c # w @ [58])) y
         else map_option ((#) (TokIdent, c # w)) x)
      else None)"

lemma tokenize_other:
  assumes "\<not> blank c" "c \<noteq> 35" "\<not> (c = 91 \<or> c = 93)"
  shows "tokenize (c # cs) = (let w = takeWhile wordc cs; r = dropWhile wordc cs in
    if stops r then word_case c w (r \<noteq> [] \<and> hd r = 58) (tokenize r) (tokenize (tl r)) else None)"
  using assms by (simp add: tokenize.simps [of "c # cs"] word_case_def Let_def)

lemma word_case_append:
  assumes "word_case c w colon x y = Some ta" and "\<And>t. x = Some t \<Longrightarrow> x' = Some (t @ tb)" and "\<And>t. y = Some t \<Longrightarrow> y' = Some (t @ tb)"
  shows "word_case c w colon x' y' = Some (ta @ tb)"
proof -
  define tok where "tok = (if c # w = str ''jump'' then TokJump else TokJumpIf)"
  define jump num where "jump \<longleftrightarrow> (c # w = str ''jump'' \<or> c # w = str ''jumpif'') \<and> colon"
    and "num \<longleftrightarrow> list_all digitc w \<and> (c = 48 \<longrightarrow> w = [])"
  define k1 k2 k3 k4 where "k1 = (TokNumber, c # w)" and "k2 = (TokLabel, c # w)" and "k3 = (tok, c # w @ [58])" and "k4 = (TokIdent, c # w)"
  show ?thesis
    using assms(1) unfolding word_case_def tok_def [symmetric] jump_def [symmetric] num_def [symmetric]
      k1_def [symmetric] k2_def [symmetric] k3_def [symmetric] k4_def [symmetric]
    by (auto split: if_split_asm intro: assms(2,3))
qed

lemma tokenize_append_word:
  assumes "tokenize (c # cs) = Some ta" and other: "\<not> blank c" "c \<noteq> 35" "\<not> (c = 91 \<or> c = 93)" and cl: "closed_text (c # cs)"
    and IH: "\<And>r t. tokenize r = Some t \<Longrightarrow> length r \<le> length cs \<Longrightarrow> closed_text r \<Longrightarrow> tokenize (r @ b) = Some (t @ tb)"
  shows "tokenize (c # cs @ b) = Some (ta @ tb)"
proof -
  define w r where "w = takeWhile wordc cs" and "r = dropWhile wordc cs"
  have lx: "stops r" "word_case c w (r \<noteq> [] \<and> hd r = 58) (tokenize r) (tokenize (tl r)) = Some ta"
    using assms(1) by (auto simp: tokenize_other [OF other] w_def r_def Let_def split: if_splits)
  have ne: "cs \<noteq> []"
    using lx(2) other cl by (auto simp: w_def r_def word_case_def closed_text_def wordc_def split: if_splits)
  note wa = wordc_append [OF closed_text_Cons [OF cl] ne, folded w_def r_def]
  have r: "closed_text r" "closed_text (tl r)" "length r \<le> length cs" "length (tl r) \<le> length cs"
    using closed_text_Cons [OF cl] length_dropWhile_le [of wordc cs] by (auto simp: r_def closed_text_dropWhile closed_text_tl)
  have "stops (r @ b)" using lx(1) wa(3) by (cases r) (auto simp: stops_def)
  moreover have "word_case c w (r \<noteq> [] \<and> hd r = 58) (tokenize (r @ b)) (tokenize (tl r @ b)) = Some (ta @ tb)"
    using lx(2) IH r by (intro word_case_append) auto
  ultimately show ?thesis using wa(3) by (simp add: tokenize_other [OF other] wa(1,2) Let_def)
qed

lemma tokenize_append: "tokenize a = Some ta \<Longrightarrow> tokenize b = Some tb \<Longrightarrow> closed_text a \<Longrightarrow> tokenize (a @ b) = Some (ta @ tb)"
proof (induction "length a" arbitrary: a ta rule: less_induct)
  case less
  show ?case
  proof (cases a)
    case Nil
    with less.prems show ?thesis by (simp add: tokenize.simps [of "[]"])
  next
    case (Cons c cs)
    have IH: "tokenize r = Some t \<Longrightarrow> length r \<le> length cs \<Longrightarrow> closed_text r \<Longrightarrow> tokenize (r @ b) = Some (t @ tb)" for r t
      using less.hyps [of r t] less.prems(2) by (simp add: Cons)
    note cl = closed_text_Cons [OF less.prems(3) [unfolded Cons]]
    note lx = less.prems(1) [unfolded Cons tokenize.simps [of "c # cs"] list.case]
    have goal: "tokenize (a @ b) = tokenize (c # cs @ b)" by (simp add: Cons)
    consider (blank) "blank c" | (comment) "\<not> blank c" "c = 35" | (bracket) "\<not> blank c" "c \<noteq> 35" "c = 91 \<or> c = 93"
      | (other) "\<not> blank c" "c \<noteq> 35" "\<not> (c = 91 \<or> c = 93)" by blast
    then show ?thesis
    proof cases
      case blank
      with IH lx cl show ?thesis by (simp add: goal tokenize.simps [of "c # cs @ b"])
    next
      case comment
      from lx comment obtain x xs where d: "dropWhile (\<lambda>b. b \<noteq> 10) cs = x # xs" "tokenize xs = Some ta" by (auto split: list.splits)
      have "10 \<in> set cs" using dropWhile_newline [OF d(1)] set_dropWhileD [of 10 "\<lambda>b. b \<noteq> 10" cs] by (simp add: d(1))
      then have "dropWhile (\<lambda>b. b \<noteq> 10) (cs @ b) = x # xs @ b" by (simp add: dropWhile_append1 [of 10] d(1))
      moreover have "closed_text xs" using closed_text_dropWhile [OF cl, of "\<lambda>b. b \<noteq> 10"] d(1) closed_text_Cons by simp
      moreover have "length xs \<le> length cs" using length_dropWhile_le [of "\<lambda>b. b \<noteq> 10" cs] by (simp add: d(1))
      ultimately show ?thesis using IH [OF d(2)] comment by (simp add: goal tokenize.simps [of "35 # cs @ b"])
    next
      case bracket
      with IH [of cs] lx cl show ?thesis by (auto simp: goal tokenize.simps [of "c # cs @ b"])
    next
      case other
      with tokenize_append_word [OF less.prems(1) [unfolded Cons] other less.prems(3) [unfolded Cons] IH] show ?thesis by (simp add: goal)
    qed
  qed
qed

section \<open>Assembling groups of tokens\<close>

datatype tree = Word bytes | Num bytes | Lab bytes | Jmp bool bytes | Prog "tree list"

fun toks :: "tree \<Rightarrow> (token \<times> bytes) list" where
  "toks (Word w) = [(TokIdent, w)]"
| "toks (Num n) = [(TokNumber, n)]"
| "toks (Lab l) = [(TokLabel, 36 # l)]"
| "toks (Jmp c l) = [if c then (TokJumpIf, str ''jumpif:'') else (TokJump, str ''jump:''), (TokLabel, 36 # l)]"
| "toks (Prog ts) = (TokLeftBracket, [91]) # concat (map toks ts) @ [(TokRightBracket, [93])]"

fun asm_tree :: "macros_map \<Rightarrow> tree \<Rightarrow> asm_item list \<times> bytes \<Rightarrow> (asm_item list \<times> bytes) option"
  and asm_trees :: "macros_map \<Rightarrow> tree list \<Rightarrow> asm_item list \<times> bytes \<Rightarrow> (asm_item list \<times> bytes) option" where
  "asm_tree M (Word w) (items, buf) = (case map_of M w of Some b \<Rightarrow> Some (items, buf @ b)
     | None \<Rightarrow> (case op_Code w of (o', ok) \<Rightarrow> if ok then Some (items, buf @ [o']) else None))"
| "asm_tree M (Num n) (items, buf) = (case ParseInt n of Some i \<Rightarrow> Some (items, writePushint64 buf i) | None \<Rightarrow> None)"
| "asm_tree M (Lab l) (items, buf) = Some (flush items buf @ [Target l], [])"
| "asm_tree M (Jmp c l) (items, buf) = Some (flush items buf @ [Jump \<lparr>label = l, isJumpIf = c, opcodes = []\<rparr>], [])"
| "asm_tree M (Prog ts) (items, buf) = (case asm_trees M ts ([], []) of None \<Rightarrow> None
     | Some (its, b) \<Rightarrow> (case resolve (flush its b) of Inl _ \<Rightarrow> None | Inr code \<Rightarrow> Some (items, b_writePushdata buf code)))"
| "asm_trees M [] st = Some st"
| "asm_trees M (t # ts) st = (case asm_tree M t st of None \<Rightarrow> None | Some st' \<Rightarrow> asm_trees M ts st')"

fun tree_need :: "tree \<Rightarrow> nat" and trees_need :: "tree list \<Rightarrow> nat" where
  \<comment> \<open>the fuel that suffices\<close>
  "tree_need (Num n) = 1"
| "tree_need (Prog ts) = trees_need ts + 2"
| "tree_need _ = 0"
| "trees_need [] = 1"
| "trees_need (t # ts) = Suc (tree_need t + trees_need ts)"

definition tree_ok :: "unicode \<Rightarrow> macros_map \<Rightarrow> tree \<Rightarrow> bool" where
  \<comment> \<open>assembling a tree continues with what follows it\<close>
  "tree_ok U M t \<longleftrightarrow> (\<forall>items buf items' buf' stop rest s m. asm_tree M t (items, buf) = Some (items', buf') \<longrightarrow>
     stop \<in> {TokEOF, TokRightBracket} \<longrightarrow> stream U s (toks t @ rest) \<longrightarrow> tree_need t \<le> m \<longrightarrow>
     (\<exists>s'. stream U s' rest \<and> assembleItems U M (Suc m) stop items buf s = assembleItems U M m stop items' buf' s'))"

definition trees_ok :: "unicode \<Rightarrow> macros_map \<Rightarrow> tree list \<Rightarrow> bool" where
  "trees_ok U M ts \<longleftrightarrow> (\<forall>items buf items' buf' stop rest s m. asm_trees M ts (items, buf) = Some (items', buf') \<longrightarrow>
     stop \<in> {TokEOF, TokRightBracket} \<longrightarrow> stream U s (concat (map toks ts) @ rest) \<longrightarrow> trees_need ts \<le> m \<longrightarrow>
     (\<exists>s' k. stream U s' rest \<and> assembleItems U M m stop items buf s = assembleItems U M (Suc k) stop items' buf' s'))"

lemma stream_next: "stream U s ((tok, lit) # ts) \<Longrightarrow> \<exists>off s'. asm_next U s = (Inr (off, tok, lit), s') \<and> stream U s' ts"
  by (auto simp: asm_next_def)

lemma items_stop: "stream U s ((TokRightBracket, lit) # rest) \<Longrightarrow>
   \<exists>s'. assembleItems U M (Suc k) TokRightBracket items buf s = (Inr (flush items buf), s') \<and> stream U s' rest"
  using stream_next [of U s TokRightBracket lit rest] by (auto simp: assembleItems_Suc sm_simps)

lemma tree_okI:
  assumes "\<And>items buf items' buf' stop rest s m. asm_tree M t (items, buf) = Some (items', buf') \<Longrightarrow> stop = TokEOF \<or> stop = TokRightBracket \<Longrightarrow>
      stream U s (toks t @ rest) \<Longrightarrow> tree_need t \<le> m \<Longrightarrow>
      \<exists>s'. stream U s' rest \<and> assembleItems U M (Suc m) stop items buf s = assembleItems U M m stop items' buf' s'"
  shows "tree_ok U M t"
  using assms unfolding tree_ok_def by blast

lemma tree_ok_Word: "tree_ok U M (Word w)"
proof (rule tree_okI)
  fix items buf items' buf' stop rest s m
  assume a: "asm_tree M (Word w) (items, buf) = Some (items', buf')" "stop = TokEOF \<or> stop = TokRightBracket" "stream U s (toks (Word w) @ rest)"
  from stream_next [of U s TokIdent w rest] a(3) obtain off s' where "asm_next U s = (Inr (off, TokIdent, w), s')" "stream U s' rest" by auto
  with a(1,2) show "\<exists>s'. stream U s' rest \<and> assembleItems U M (Suc m) stop items buf s = assembleItems U M m stop items' buf' s'"
    by (intro exI [of _ s']) (auto simp: assembleItems_Suc sm_simps split: option.splits prod.splits if_splits)
qed

lemma tree_ok_Lab: "tree_ok U M (Lab l)"
proof (rule tree_okI)
  fix items buf items' buf' stop rest s m
  assume a: "asm_tree M (Lab l) (items, buf) = Some (items', buf')" "stop = TokEOF \<or> stop = TokRightBracket" "stream U s (toks (Lab l) @ rest)"
  from stream_next [of U s TokLabel "36 # l" rest] a(3) obtain off s' where "asm_next U s = (Inr (off, TokLabel, 36 # l), s')" "stream U s' rest" by auto
  with a(1,2) show "\<exists>s'. stream U s' rest \<and> assembleItems U M (Suc m) stop items buf s = assembleItems U M m stop items' buf' s'"
    by (intro exI [of _ s']) (auto simp: assembleItems_Suc sm_simps)
qed

lemma tree_ok_Num: "tree_ok U M (Num n)"
proof (rule tree_okI)
  fix items buf items' buf' stop rest s m
  assume a: "asm_tree M (Num n) (items, buf) = Some (items', buf')" "stop = TokEOF \<or> stop = TokRightBracket" "stream U s (toks (Num n) @ rest)"
    "tree_need (Num n) \<le> m"
  then obtain k where k: "m = Suc k" by (cases m) auto
  from stream_next [of U s TokNumber n rest] a(3) obtain off s' where "asm_next U s = (Inr (off, TokNumber, n), s')" "stream U s' rest" by auto
  with a(1,2) show "\<exists>s'. stream U s' rest \<and> assembleItems U M (Suc m) stop items buf s = assembleItems U M m stop items' buf' s'"
    by (intro exI [of _ s']) (auto simp: k assembleItems_Suc [of U M "Suc k" stop items buf] assembleValue_Suc sm_simps split: option.splits)
qed

lemma tree_ok_Jmp: "tree_ok U M (Jmp c l)"
proof (rule tree_okI)
  fix items buf items' buf' stop rest s m
  assume a: "asm_tree M (Jmp c l) (items, buf) = Some (items', buf')" "stop = TokEOF \<or> stop = TokRightBracket" "stream U s (toks (Jmp c l) @ rest)"
  let ?tok = "if c then TokJumpIf else TokJump" and ?lit = "if c then str ''jumpif:'' else str ''jump:''"
  have "stream U s ((?tok, ?lit) # (TokLabel, 36 # l) # rest)" using a(3) by (cases c) simp_all
  from stream_next [OF this] obtain off s1 where 1: "asm_next U s = (Inr (off, ?tok, ?lit), s1)" "stream U s1 ((TokLabel, 36 # l) # rest)" by auto
  from stream_next [OF 1(2)] obtain off' s' where "asm_next U s1 = (Inr (off', TokLabel, 36 # l), s')" "stream U s' rest" by auto
  with a(1,2) 1(1) show "\<exists>s'. stream U s' rest \<and> assembleItems U M (Suc m) stop items buf s = assembleItems U M m stop items' buf' s'"
    by (intro exI [of _ s']) (auto simp: assembleItems_Suc sm_simps)
qed

lemma tree_ok_Prog:
  assumes "trees_ok U M ts"
  shows "tree_ok U M (Prog ts)"
proof (rule tree_okI)
  fix items buf items' buf' stop rest s m
  assume a: "asm_tree M (Prog ts) (items, buf) = Some (items', buf')" "stop = TokEOF \<or> stop = TokRightBracket" "stream U s (toks (Prog ts) @ rest)"
    "tree_need (Prog ts) \<le> m"
  then obtain k where k: "m = Suc (Suc k)" "trees_need ts \<le> k" by (cases m; cases "m - 1") auto
  from a(1) obtain its b code where c: "asm_trees M ts ([], []) = Some (its, b)" "resolve (flush its b) = Inr code"
    "items' = items" "buf' = b_writePushdata buf code" by (auto split: option.splits sum.splits)
  from stream_next [of U s TokLeftBracket "[91]" "concat (map toks ts) @ (TokRightBracket, [93]) # rest"] a(3) obtain off s1 where 1: "asm_next U s = (Inr (off, TokLeftBracket, [91]), s1)"
    "stream U s1 (concat (map toks ts) @ (TokRightBracket, [93]) # rest)" by auto
  from assms [unfolded trees_ok_def, rule_format, OF c(1) _ 1(2) k(2), of TokRightBracket] obtain s2 j where
    2: "stream U s2 ((TokRightBracket, [93]) # rest)" "assembleItems U M k TokRightBracket [] [] s1 = assembleItems U M (Suc j) TokRightBracket its b s2"
    by auto
  from items_stop [OF 2(1)] 2(2) obtain s' where "assembleItems U M k TokRightBracket [] [] s1 = (Inr (flush its b), s')" "stream U s' rest"
    by metis
  with a(2) c 1(1) show "\<exists>s'. stream U s' rest \<and> assembleItems U M (Suc m) stop items buf s = assembleItems U M m stop items' buf' s'"
    by (intro exI [of _ s']) (auto simp: k assembleItems_Suc [of U M "Suc (Suc k)" stop items buf] assembleValue_Suc assemble_Suc sm_simps)
qed

lemma trees_ok_all: "(\<And>t. t \<in> set ts \<Longrightarrow> tree_ok U M t) \<Longrightarrow> trees_ok U M ts"
  unfolding trees_ok_def
proof (induction ts)
  case Nil
  then show ?case by (auto simp: Suc_le_eq gr0_conv_Suc)
next
  case (Cons t ts)
  show ?case
  proof (intro allI impI)
    fix items buf items' buf' stop rest s m
    assume a: "asm_trees M (t # ts) (items, buf) = Some (items', buf')" "stop \<in> {TokEOF, TokRightBracket}"
      "stream U s (concat (map toks (t # ts)) @ rest)" "trees_need (t # ts) \<le> m"
    then obtain k where k: "m = Suc k" "tree_need t \<le> k" "trees_need ts \<le> k" by (cases m) auto
    from a(1) obtain i1 b1 where t: "asm_tree M t (items, buf) = Some (i1, b1)" "asm_trees M ts (i1, b1) = Some (items', buf')"
      by (auto split: option.splits)
    from Cons.prems [of t, unfolded tree_ok_def, rule_format, OF _ t(1) a(2) _ k(2), of s "concat (map toks ts) @ rest"] a(3)
    obtain s1 where s1: "stream U s1 (concat (map toks ts) @ rest)"
      "assembleItems U M (Suc k) stop items buf s = assembleItems U M k stop i1 b1 s1" by auto
    from Cons.IH [rule_format, OF Cons.prems t(2) a(2) s1(1) k(3)] s1(2) k(1)
    show "\<exists>s' k. stream U s' rest \<and> assembleItems U M m stop items buf s = assembleItems U M (Suc k) stop items' buf' s'" by auto
  qed
qed

lemma tree_ok_all: "tree_ok U M t"
proof (induction t)
  case (Prog ts)
  then show ?case by (intro tree_ok_Prog trees_ok_all)
qed (simp_all add: tree_ok_Word tree_ok_Lab tree_ok_Num tree_ok_Jmp)

lemma stream_length: "stream U s ts \<Longrightarrow> length ts \<le> remaining s"
proof (induction ts arbitrary: s)
  case (Cons t ts)
  obtain tok lit where t: "t = (tok, lit)" by (cases t)
  with Cons.prems obtain off s' where n: "next_token U s = Some (off, tok, lit, s')" "stream U s' ts" "tok \<noteq> TokEOF" by auto
  with next_token_consumes(2) [OF n(1)] Cons.IH [OF n(2)] show ?case by simp
qed simp

lemma tree_need_toks: "Suc (tree_need t) \<le> 3 * length (toks t)"
  and trees_need_toks: "trees_need ts \<le> Suc (3 * length (concat (map toks ts)))"
  by (induction t and ts rule: tree_need_trees_need.induct) auto

section \<open>Assembling a text\<close>

lemma reads_initString: "valid_text src \<Longrightarrow> reads (initString src) [] src"
proof (cases src)
  case Nil
  then show ?thesis by (simp add: initString_def scan_next_def reads_def Let_def)
next
  case (Cons b bs)
  assume v: "valid_text src"
  show ?thesis
  proof (cases "b < 0x80")
    case True
    with v have "uint b \<noteq> 0" "\<not> 128 \<le> uint b" by (auto simp: Cons word_less_def uint_0_iff)
    with True v show ?thesis by (simp add: Cons initString_def scan_next_def reads_def Let_def RuneSelf_def)
  next
    case False
    then have "128 \<le> uint b" "2 \<le> snd (DecodeRune (b # bs))" using v by (simp_all add: Cons word_less_def valid_text_rune)
    with v show ?thesis by (auto simp: Cons initString_def scan_next_def reads_def Let_def RuneSelf_def split: prod.splits)
  qed
qed

lemma Assemble_tokenize:
  assumes "tokenize src = Some (concat (map toks ts))" and "valid_text src" and "asm_trees M ts ([], []) = Some (items, buf)"
    and "resolve (flush items buf) = Inr code"
  shows "Assemble U M src = Inr code"
proof -
  define s where "s = initString src"
  have "reads s [] src" using assms(2) by (simp add: s_def reads_initString)
  from tokenize_stream [OF assms(1) this, of U] have st: "stream U s (concat (map toks ts) @ [])" by simp
  obtain n where n: "asm_fuel s = Suc n" "trees_need ts \<le> n"
    using stream_length [OF st] trees_need_toks [of ts] by (auto simp: asm_fuel_def)
  have "trees_ok U M ts" "TokEOF \<in> {TokEOF, TokRightBracket}" by (auto intro: trees_ok_all tree_ok_all)
  from this(1) [unfolded trees_ok_def, rule_format, OF assms(3) this(2) st n(2)] obtain s1 k where
    1: "stream U s1 []" "assembleItems U M n TokEOF [] [] s = assembleItems U M (Suc k) TokEOF items buf s1" by blast
  then obtain s' where "assembleItems U M n TokEOF [] [] s = (Inr (flush items buf), s')" "errs s' = []"
    by (auto simp: assembleItems_Suc asm_next_def sm_simps)
  with assms(4) show ?thesis by (simp add: Assemble_def Let_def s_def [symmetric] n(1) assemble_Suc sm_simps)
qed

section \<open>Texts of commented lines\<close>

type_synonym line = "string \<times> string option" \<comment> \<open>the code, and the comment after \<^verbatim>\<open>#\<close>\<close>

fun text_line :: "line \<Rightarrow> bytes" where
  "text_line (code, None) = str code @ [10]"
| "text_line (code, Some c) = str code @ [35] @ str c @ [10]"

definition text_of :: "line list \<Rightarrow> bytes" where
  "text_of ls = concat (map text_line ls)"

definition printable :: "char \<Rightarrow> bool" where
  "printable c \<longleftrightarrow> \<not> digit7 c \<and> (digit6 c \<or> digit5 c)"

definition code_char :: "char \<Rightarrow> bool" where
  "code_char c \<longleftrightarrow> printable c \<or> c = CHR 0x09"

fun comment_ok :: "string \<Rightarrow> bool" where
  \<comment> \<open>printable ASCII and the right quote U+2019\<close>
  "comment_ok [] \<longleftrightarrow> True"
| "comment_ok (c # cs) \<longleftrightarrow> (if printable c then comment_ok cs
     else c = CHR 0xE2 \<and> (case cs of a # b # r \<Rightarrow> a = CHR 0x80 \<and> b = CHR 0x99 \<and> comment_ok r | _ \<Rightarrow> False))"

definition text_ok :: "bytes \<Rightarrow> (token \<times> bytes) list \<Rightarrow> bool" where
  "text_ok src ts \<longleftrightarrow> tokenize src = Some ts \<and> closed_text src \<and> valid_text src"

lemma str_simps: "str [] = []" "str (c # s) = of_nat (of_char c) # str s" "str (s @ t) = str s @ str t" "str s = [] \<longleftrightarrow> s = []"
  by (simp_all add: str_def)

lemma str_nonempty [simp]: "str s = [] \<longleftrightarrow> s = []"
  by (simp add: str_def)

lemma printable_byte: "printable c \<Longrightarrow> 32 \<le> (of_char c :: nat) \<and> (of_char c :: nat) < 128"
  by (cases c) (auto simp: printable_def of_char_def horner_sum_simps split: if_splits)

lemma of_char_byte: "(of_char c :: nat) < 128 \<Longrightarrow> unat (of_nat (of_char c) :: byte) = of_char c"
  by (simp add: unat_of_nat)

lemma code_char_byte: "code_char c \<Longrightarrow> (of_nat (of_char c) :: byte) < 0x80 \<and> (of_nat (of_char c) :: byte) \<noteq> 0"
  using printable_byte [of c] of_char_byte [of c]
  by (auto simp: code_char_def word_less_nat_alt unat_eq_zero [symmetric])

lemma printable_not_newline: "printable c \<Longrightarrow> (of_nat (of_char c) :: byte) \<noteq> 10"
  using printable_byte [of c] of_char_byte [of c] by auto

lemma valid_code: "list_all code_char s \<Longrightarrow> valid_text (str s)"
  by (induction s) (auto simp: str_simps dest: code_char_byte)

lemma valid_comment: "comment_ok c \<Longrightarrow> valid_text (str c @ [10]) \<and> 10 \<notin> set (str c)"
proof (induction c rule: comment_ok.induct)
  case (2 c cs)
  show ?case
  proof (cases "printable c")
    case True
    with 2 code_char_byte [of c] printable_not_newline [of c] show ?thesis by (auto simp: str_simps code_char_def)
  next
    case False
    with "2.prems" obtain r where r: "c # cs = [CHR 0xE2, CHR 0x80, CHR 0x99] @ r" "comment_ok r"
      by (auto split: list.splits)
    then have "cs = CHR 0x80 # CHR 0x99 # r" by simp
    with "2.IH"(2) [OF False this refl] r(2) have IH: "valid_text (str r @ [10])" "10 \<notin> set (str r)" by auto
    have d: "DecodeRune (0xe2 # 0x80 # 0x99 # str r @ [10]) = (0x2019, 3)" by (simp add: DecodeRune_def contbyte_def low6_def)
    with IH show ?thesis unfolding r(1) by (simp add: str_simps valid_text_rune)
  qed
qed (simp add: str_simps)

lemma text_ok_append: "text_ok a ta \<Longrightarrow> text_ok b tb \<Longrightarrow> text_ok (a @ b) (ta @ tb)"
  using tokenize_append [of a ta b tb] valid_text_append [of a b] by (auto simp: text_ok_def closed_text_def last_append)

lemma text_ok_Nil: "text_ok [] []"
  by (simp add: text_ok_def tokenize.simps closed_text_def)

lemma text_ok_code:
  "tokenize (str code @ [10]) = Some ts \<Longrightarrow> list_all code_char code \<Longrightarrow> text_ok (text_line (code, None)) ts"
  by (auto simp: text_ok_def closed_text_def wordc_def letterc_def digitc_def intro!: valid_text_append dest: valid_code)

lemma text_ok_piece:
  "tokenize (str code) = Some ts \<Longrightarrow> list_all code_char code \<Longrightarrow> closed_text (str code) \<Longrightarrow> text_ok (str code) ts"
  by (simp add: text_ok_def valid_code)

lemma text_ok_comment:
  assumes "tokenize (str code) = Some ts" and "list_all code_char code" and "closed_text (str code)" and "comment_ok c"
  shows "text_ok (text_line (code, Some c)) ts"
proof -
  note c = valid_comment [OF assms(4)]
  have "tokenize (35 # str c @ [10]) = Some []"
    using c by (simp add: tokenize.simps [of "35 # str c @ [10]"] tokenize.simps [of "[]"] blank_def dropWhile_append)
  then have "text_ok (35 # str c @ [10]) []"
    using c by (simp add: text_ok_def closed_text_def wordc_def letterc_def digitc_def)
  from text_ok_append [OF text_ok_piece [OF assms(1-3)] this] show ?thesis by simp
qed

lemma text_of_simps [simp]: "text_of [] = []" "text_of (l # ls) = text_line l @ text_of ls"
  by (simp_all add: text_of_def)

lemma closed_text_str: "s = [] \<or> last s = CHR '' '' \<or> last s = CHR ''['' \<Longrightarrow> closed_text (str s)"
  by (auto simp: closed_text_def str_def last_map wordc_def letterc_def digitc_def)

lemma text_ok_Cons: "text_ok (text_line l) ts \<Longrightarrow> text_ok (text_of ls) tss \<Longrightarrow> text_ok (text_of (l # ls)) (ts @ tss)"
  by (simp add: text_ok_append)

lemma text_ok_empty: "text_ok (text_of []) []"
  by (simp add: text_ok_Nil)

lemma text_ok_eq: "text_ok src ts \<Longrightarrow> ts = ts' \<Longrightarrow> text_ok src ts'"
  by simp

lemma str_inject: "str s = str t \<longleftrightarrow> s = t"
proof -
  have "inj (\<lambda>c. of_nat (of_char c) :: byte)"
  proof (rule injI)
    fix c d :: char
    assume "(of_nat (of_char c) :: byte) = of_nat (of_char d)"
    then have "unat (of_nat (of_char c) :: byte) = unat (of_nat (of_char d) :: byte)" by simp
    then show "c = d" by (simp add: unat_of_nat of_char_eq_iff)
  qed
  then show ?thesis by (simp add: str_def inj_map_eq_map)
qed

lemmas text_ok_rules = text_ok_Cons text_ok_empty text_ok_comment text_ok_code
lemmas text_checks = printable_def code_char_def closed_text_str

end
