(* ===== verification/StdTexts.thy ===== *)
theory StdTexts
  imports AsmLex
begin

text \<open>
  The assembly texts of the standard contracts (\<^verbatim>\<open>src/standard\<close>), line by line: each line is its code and its comment. A text
  with a \<^verbatim>\<open>%s\<close> or \<^verbatim>\<open>%x\<close> in it is a function of what is put there. The lemmas say how each text splits into tokens.
\<close>

section \<open>Texts\<close>

definition multisigProgCheckSrc :: bytes where
  \<open>multisigProgCheckSrc = text_of [
    ('''', None),
    (''	                    '', Some '' Contract stack                                                Argument stack''),
    (''	                    '', Some '' [quorum {p1,...,p_n} anchor]                                  [s1 ... s_n prog]''),
    (''	swap untuple        '', Some '' [quorum anchor p1 ... p_n n]                                  [s1 ... s_n prog]''),
    (''	get                 '', Some '' [quorum anchor p1 ... p_n n prog]                             [s1 ... s_n]''),
    (''	dup                 '', Some '' [quorum anchor p1 ... p_n n prog prog]                        [s1 ... s_n]''),
    (''	2 peek              '', Some '' [quorum anchor p1 ... p_n n prog prog n]                      [s1 ... s_n]''),
    (''	3 add               '', Some '' [quorum anchor p1 ... p_n n prog prog (n+3)]                  [s1 ... s_n]''),
    (''	roll                '', Some '' [quorum p1 ... p_n   n prog prog anchor]                      [s1 ... s_n]''),
    (''	cat                 '', Some '' [quorum p1 ... p_n   n prog proganchor]                       [s1 ... s_n]''),
    (''	0                   '', Some '' [quorum p1 ... p_n   n prog proganchor 0]                     [s1 ... s_n]''),
    (''	3 roll              '', Some '' [quorum p1 ... p_n   prog proganchor 0 n]                     [s1 ... s_n]''),
    (''	$sigstart           '', Some '' [quorum p1 ... p_n   prog proganchor t n],  t = 0..n          [s1 ... s_n]''),
    (''	    dup 0 eq        '', Some '' [quorum p1 ... p_n   prog proganchor t n (n==0)]              [s1 ... s_n]''),
    (''	    jumpif:$sigend  '', Some '' [quorum p1 ... p_n   prog proganchor t n]                     [s1 ... s_n]''),
    (''	    2 peek          '', Some '' [quorum p1 ... p_n   prog proganchor t n proganchor]          [s1 ... s_n]''),
    (''	    5 roll          '', Some '' [quorum p1 ... p_n-1 prog proganchor t n proganchor p_n]      [s1 ... s_n]''),
    (''	    get             '', Some '' [quorum p1 ... p_n-1 prog proganchor t n proganchor p_n s_n]  [s1 ... s_n-1]''),
    (''	    0 checksig      '', Some '' [quorum p1 ... p_n-1 prog proganchor t n bool]                [s1 ... s_n-1]''),
    (''	    2 roll add      '', Some ('' [quorum p1 ... p_n-1 prog proganchor n t'' @ [CHR 0xE2, CHR 0x80, CHR 0x99] @ '']                    [s1 ... s_n-1]'')),
    (''	    swap            '', Some ('' [quorum p1 ... p_n-1 prog proganchor t'' @ [CHR 0xE2, CHR 0x80, CHR 0x99] @ '' n]                    [s1 ... s_n-1]'')),
    (''	    1 sub           '', Some ('' [quorum p1 ... p_n-1 prog proganchor t'' @ [CHR 0xE2, CHR 0x80, CHR 0x99] @ '' (n-1)]                [s1 ... s_n-1]'')),
    (''	    jump:$sigstart  '', Some ('' [quorum p1 ... p_n-1 prog proganchor t'' @ [CHR 0xE2, CHR 0x80, CHR 0x99] @ '' (n-1)]                [s1 ... s_n-1]'')),
    (''	$sigend             '', Some '' [quorum prog proganchor t 0]                                  []''),
    (''	drop                '', Some '' [quorum prog proganchor t]                                    []''),
    (''	3 roll              '', Some '' [prog proganchor t quorum]                                    []''),
    (''	eq verify           '', Some '' [prog proganchor]                                             []''),
    (''	drop exec'', None)]\<close>

definition payToMultisigProgUnlockSrcFmt :: "bytes \<Rightarrow> bytes" where
  \<open>payToMultisigProgUnlockSrcFmt x = text_of [
    ('''', None),
    (''	             '', Some '' Contract stack                               Argument stack  Log''),
    (''	             '', Some '' [quorum {p1,...,p_n} value]                  [spendrefdata]  []''),
    (''	get log      '', Some '' [quorum {p1,...,p_n} value]                  []              [{"L", <cid>, spendrefdata}]''),
    (''	anchor       '', Some '' [quorum {p1,...,p_n} value anchor]           []              [{"L", <cid>, spendrefdata}]''),
    (''	swap put     '', Some '' [quorum {p1,...,p_n} anchor]                 [value]         [{"L", <cid>, spendrefdata}]'')] @
    str ''	['' @ x @ text_of [
    ('']         '', Some '' [quorum {p1,...,p_n} anchor <multisigprog>]  [value]         [{"L", <cid>, spendrefdata}]''),
    (''	yield        '', Some '' [quorum {p1,...,p_n} anchor]                 [value]         [{"L", <cid>, spendrefdata}]'')]\<close>

definition assetSrcFmt1 :: "bytes \<Rightarrow> bytes" where
  \<open>assetSrcFmt1 x = text_of [
    ('''', None),
    (''                  '', Some '' Contract stack                                          Argument stack                                                        Log''),
    (''                  '', Some '' []                                                      [refdata pubkeys quorum tag amount (zeroval 0)|(blockid maxms)]''),
    (''get               '', Some '' [(0|maxms)]                                             [refdata pubkeys quorum tag amount (zeroval|blockid)]''),
    (''dup not           '', Some '' [(0|maxms) ((0|maxms)==0)]                              [refdata pubkeys quorum tag amount (zeroval|blockid)]''),
    (''jumpif:$havezero  '', Some '' [maxms]                                                 [refdata pubkeys quorum tag amount blockid minms]''),
    (''    get           '', Some '' [maxms blockid]                                         [refdata pubkeys quorum tag amount]''),
    (''    swap          '', Some '' [blockid maxms]                                         [refdata pubkeys quorum tag amount]''),
    (''    nonce         '', Some '' [zeroval]                                               [refdata pubkeys quorum tag amount]                                   [{"N", <caller>, <cseed>, bid, exp} {"R", minms, maxms}]''),
    (''    jump:$cont'', None),
    (''$havezero         '', Some '' [0]                                                     [refdata pubkeys quorum tag amount zeroval]                           []''),
    (''drop get          '', Some '' [zeroval]                                               [refdata pubkeys quorum tag amount]                                   []''),
    (''$cont'', None),
    (''get               '', Some '' [zeroval amount]                                        [refdata pubkeys quorum tag]                                          [({"N", ...} {"R", ...})]''),
    (''get               '', Some '' [zeroval amount tag]                                    [refdata pubkeys quorum]                                              [({"N", ...} {"R", ...})]''),
    (''get               '', Some '' [zeroval amount tag quorum]                             [refdata pubkeys]                                                     [({"N", ...} {"R", ...})]''),
    (''dup 4 bury        '', Some '' [quorum zeroval amount tag quorum]                      [refdata pubkeys]                                                     [({"N", ...} {"R", ...})]''),
    (''get               '', Some '' [quorum zeroval amount tag quorum pubkeys]              [refdata]                                                             [({"N", ...} {"R", ...})]''),
    (''dup 5 bury        '', Some '' [quorum pubkeys zeroval amount tag quorum pubkeys]      []                                                                    [({"N", ...} {"R", ...})]''),
    (''3 tuple           '', Some '' [quorum pubkeys zeroval amount {tag, quorum, pubkeys}]  []                                                                    [({"N", ...} {"R", ...})]''),
    (''encode            '', Some '' [quorum pubkeys zeroval amount tag']                    []                                                                    [({"N", ...} {"R", ...})]''),
    (''issue             '', Some '' [quorum pubkeys issuedval]                              [refdata]                                                             [({"N", ...} {"R", ...}) {"A", <caller>, amount, assetID, zeroval.anchor}]''),
    (''get log           '', Some '' [quorum pubkeys issuedval]                              []                                                                    [({"N", ...} {"R", ...}) {"A", ...} {"L", <cseed>, refdata}]''),
    (''anchor            '', Some '' [quorum pubkeys issuedval anchor]                       []                                                                    [({"N", ...} {"R", ...}) {"A", ...} {"L", <cseed>, refdata}]''),
    (''swap put          '', Some '' [quorum pubkeys anchor]                                 [issuedval]                                                           [({"N", ...} {"R", ...}) {"A", ...} {"L", <cseed>, refdata}]'')] @
    str ''['' @ x @ text_of [
    ('']              '', Some '' [quorum pubkeys anchor <multisigprog>]                  [issuedval]                                                           [({"N", ...} {"R", ...}) {"A", ...} {"L", <cseed>, refdata}]''),
    (''yield             '', Some '' [quorum pubkeys anchor]                                 [issuedval]                                                           [({"N", ...} {"R", ...}) {"A", ...} {"L", <cseed>, refdata}]'')]\<close>

definition assetSrcFmt2 :: "bytes \<Rightarrow> bytes" where
  \<open>assetSrcFmt2 x = text_of [
    ('''', None),
    (''                  '', Some '' Contract stack                                          Argument stack                                                        Log''),
    (''                  '', Some '' []                                                      [refdata pubkeys quorum tag amount (zeroval 0)|(blockid nonce maxms)]''),
    (''get               '', Some '' [(0|maxms)]                                             [refdata pubkeys quorum tag amount (zeroval|blockid nonce)]''),
    (''dup not           '', Some '' [(0|maxms) ((0|maxms)==0)]                              [refdata pubkeys quorum tag amount (zeroval|blockid nonce)]''),
    (''jumpif:$havezero  '', Some '' [maxms]                                                 [refdata pubkeys quorum tag amount blockid nonce]''),
    (''    get drop      '', Some '' [maxms]                                                 [refdata pubkeys quorum tag amount blockid]''),
    (''    get           '', Some '' [maxms blockid]                                         [refdata pubkeys quorum tag amount]''),
    (''    swap          '', Some '' [blockid maxms]                                         [refdata pubkeys quorum tag amount]''),
    (''    nonce         '', Some '' [zeroval]                                               [refdata pubkeys quorum tag amount]                                   [{"N", <caller>, <cseed>, bid, exp} {"R", minms, maxms}]''),
    (''    jump:$cont'', None),
    (''$havezero         '', Some '' [0]                                                     [refdata pubkeys quorum tag amount zeroval]                           []''),
    (''drop get          '', Some '' [zeroval]                                               [refdata pubkeys quorum tag amount]                                   []''),
    (''$cont'', None),
    (''get               '', Some '' [zeroval amount]                                        [refdata pubkeys quorum tag]                                          [({"N", ...} {"R", ...})]''),
    (''get               '', Some '' [zeroval amount tag]                                    [refdata pubkeys quorum]                                              [({"N", ...} {"R", ...})]''),
    (''get               '', Some '' [zeroval amount tag quorum]                             [refdata pubkeys]                                                     [({"N", ...} {"R", ...})]''),
    (''dup 4 bury        '', Some '' [quorum zeroval amount tag quorum]                      [refdata pubkeys]                                                     [({"N", ...} {"R", ...})]''),
    (''get               '', Some '' [quorum zeroval amount tag quorum pubkeys]              [refdata]                                                             [({"N", ...} {"R", ...})]''),
    (''dup 5 bury        '', Some '' [quorum pubkeys zeroval amount tag quorum pubkeys]      []                                                                    [({"N", ...} {"R", ...})]''),
    (''3 tuple           '', Some '' [quorum pubkeys zeroval amount {tag, quorum, pubkeys}]  []                                                                    [({"N", ...} {"R", ...})]''),
    (''encode            '', Some '' [quorum pubkeys zeroval amount tag']                    []                                                                    [({"N", ...} {"R", ...})]''),
    (''issue             '', Some '' [quorum pubkeys issuedval]                              [refdata]                                                             [({"N", ...} {"R", ...}) {"A", <caller>, amount, assetID, zeroval.anchor}]''),
    (''get log           '', Some '' [quorum pubkeys issuedval]                              []                                                                    [({"N", ...} {"R", ...}) {"A", ...} {"L", <cseed>, refdata}]''),
    (''anchor            '', Some '' [quorum pubkeys issuedval anchor]                       []                                                                    [({"N", ...} {"R", ...}) {"A", ...} {"L", <cseed>, refdata}]''),
    (''swap put          '', Some '' [quorum pubkeys anchor]                                 [issuedval]                                                           [({"N", ...} {"R", ...}) {"A", ...} {"L", <cseed>, refdata}]'')] @
    str ''['' @ x @ text_of [
    ('']              '', Some '' [quorum pubkeys anchor <multisigprog>]                  [issuedval]                                                           [({"N", ...} {"R", ...}) {"A", ...} {"L", <cseed>, refdata}]''),
    (''yield             '', Some '' [quorum pubkeys anchor]                                 [issuedval]                                                           [({"N", ...} {"R", ...}) {"A", ...} {"L", <cseed>, refdata}]'')]\<close>

definition payToMultisigProgSrcFmt1 :: "bytes \<Rightarrow> bytes" where
  \<open>payToMultisigProgSrcFmt1 x = text_of [
    ('''', None),
    (''	               '', Some '' Contract stack                         Argument stack              Log''),
    (''	               '', Some '' []                                     [refdata v {p1,...,p_n} q]  []''),
    (''	get get        '', Some '' [q {p1,...,p_n}]                       [refdata v]                 []''),
    (''	get            '', Some '' [q {p1,...,p_n} v]                     [refdata]                   []''),
    (''	get            '', Some '' [q {p1,...,p_n} v refdata]             []                          []''),
    (''	log            '', Some '' [q {p1,...,p_n} v]                     []                          [{"L", <cid>, refdata}]'')] @
    str ''	['' @ x @ text_of [
    ('']           '', Some '' [q {p1,...,p_n} v <msunlock>]          []                          [{"L", <cid>, refdata}]''),
    (''	output         '', Some '' [q {p1,...,p_n} v]                     []                          [{"L", <cid>, refdata} {"O", <caller>, <outputid>}]'')]\<close>

definition payToMultisigProgSrcFmt2 :: "bytes \<Rightarrow> bytes" where
  \<open>payToMultisigProgSrcFmt2 x = text_of [
    ('''', None),
    (''	               '', Some '' Contract stack                         Argument stack                   Log''),
    (''	               '', Some '' []                                     [refdata tags v {p1,...,p_n} q]  []''),
    (''	get get        '', Some '' [q {p1,...,p_n}]                       [refdata tags v]                 []''),
    (''	get            '', Some '' [q {p1,...,p_n} v]                     [refdata tags]                   []''),
    (''	get log        '', Some '' [q {p1,...,p_n} v]                     [refdata]                        [{"L", <cid>, tags}]''),
    (''	get log        '', Some '' [q {p1,...,p_n} v]                     []                               [{"L", <cid>, tags} {"L", <cid>, refdata}]'')] @
    str ''	['' @ x @ text_of [
    ('']           '', Some '' [q {p1,...,p_n} v <msunlock>]          []                               [{"L", <cid>, tags} {"L", <cid>, refdata}]''),
    (''	output         '', Some '' [q {p1,...,p_n} v]                     []                               [{"L", <cid>, tags} {"L", <cid>, refdata} {"O", <caller>, <outputid>}]'')]\<close>

definition retireSrc :: bytes where
  \<open>retireSrc = text_of [
    ('''', None),
    (''	            '', Some '' Contract stack   Argument stack   Log''),
    (''	            '', Some '' []               [refdata value]  []''),
    (''	get retire  '', Some '' []               [refdata]        [{"X", <cid>, amount, assetID, anchor}]''),
    (''	get log     '', Some '' []               []               [{"X", <cid>, amount, assetID, anchor} {"L", <cid>, refdata}]'')]\<close>

section \<open>Tokens of the lines\<close>

lemma line_tokens_1:
  \<open>tokenize (str '''' @ [10]) = Some []\<close>
  \<open>tokenize (str ''	                    '') = Some []\<close>
  \<open>tokenize (str ''	swap untuple        '') = Some [(TokIdent, str ''swap''), (TokIdent, str ''untuple'')]\<close>
  \<open>tokenize (str ''	get                 '') = Some [(TokIdent, str ''get'')]\<close>
  \<open>tokenize (str ''	dup                 '') = Some [(TokIdent, str ''dup'')]\<close>
  \<open>tokenize (str ''	2 peek              '') = Some [(TokNumber, str ''2''), (TokIdent, str ''peek'')]\<close>
  \<open>tokenize (str ''	3 add               '') = Some [(TokNumber, str ''3''), (TokIdent, str ''add'')]\<close>
  \<open>tokenize (str ''	roll                '') = Some [(TokIdent, str ''roll'')]\<close>
  \<open>tokenize (str ''	cat                 '') = Some [(TokIdent, str ''cat'')]\<close>
  \<open>tokenize (str ''	0                   '') = Some [(TokNumber, str ''0'')]\<close>
  \<open>tokenize (str ''	3 roll              '') = Some [(TokNumber, str ''3''), (TokIdent, str ''roll'')]\<close>
  \<open>tokenize (str ''	$sigstart           '') = Some [(TokLabel, str ''$sigstart'')]\<close>
  by code_simp+

lemma line_tokens_2:
  \<open>tokenize (str ''	    dup 0 eq        '') = Some [(TokIdent, str ''dup''), (TokNumber, str ''0''), (TokIdent, str ''eq'')]\<close>
  \<open>tokenize (str ''	    jumpif:$sigend  '') = Some [(TokJumpIf, str ''jumpif:''), (TokLabel, str ''$sigend'')]\<close>
  \<open>tokenize (str ''	    2 peek          '') = Some [(TokNumber, str ''2''), (TokIdent, str ''peek'')]\<close>
  \<open>tokenize (str ''	    5 roll          '') = Some [(TokNumber, str ''5''), (TokIdent, str ''roll'')]\<close>
  \<open>tokenize (str ''	    get             '') = Some [(TokIdent, str ''get'')]\<close>
  \<open>tokenize (str ''	    0 checksig      '') = Some [(TokNumber, str ''0''), (TokIdent, str ''checksig'')]\<close>
  \<open>tokenize (str ''	    2 roll add      '') = Some [(TokNumber, str ''2''), (TokIdent, str ''roll''), (TokIdent, str ''add'')]\<close>
  \<open>tokenize (str ''	    swap            '') = Some [(TokIdent, str ''swap'')]\<close>
  \<open>tokenize (str ''	    1 sub           '') = Some [(TokNumber, str ''1''), (TokIdent, str ''sub'')]\<close>
  \<open>tokenize (str ''	    jump:$sigstart  '') = Some [(TokJump, str ''jump:''), (TokLabel, str ''$sigstart'')]\<close>
  \<open>tokenize (str ''	$sigend             '') = Some [(TokLabel, str ''$sigend'')]\<close>
  \<open>tokenize (str ''	drop                '') = Some [(TokIdent, str ''drop'')]\<close>
  by code_simp+

lemma line_tokens_3:
  \<open>tokenize (str ''	eq verify           '') = Some [(TokIdent, str ''eq''), (TokIdent, str ''verify'')]\<close>
  \<open>tokenize (str ''	drop exec'' @ [10]) = Some [(TokIdent, str ''drop''), (TokIdent, str ''exec'')]\<close>
  \<open>tokenize (str ''	             '') = Some []\<close>
  \<open>tokenize (str ''	get log      '') = Some [(TokIdent, str ''get''), (TokIdent, str ''log'')]\<close>
  \<open>tokenize (str ''	anchor       '') = Some [(TokIdent, str ''anchor'')]\<close>
  \<open>tokenize (str ''	swap put     '') = Some [(TokIdent, str ''swap''), (TokIdent, str ''put'')]\<close>
  \<open>tokenize (str '']         '') = Some [(TokRightBracket, [93])]\<close>
  \<open>tokenize (str ''	yield        '') = Some [(TokIdent, str ''yield'')]\<close>
  \<open>tokenize (str ''	['') = Some [(TokLeftBracket, [91])]\<close>
  \<open>tokenize (str ''                  '') = Some []\<close>
  \<open>tokenize (str ''get               '') = Some [(TokIdent, str ''get'')]\<close>
  \<open>tokenize (str ''dup not           '') = Some [(TokIdent, str ''dup''), (TokIdent, str ''not'')]\<close>
  by code_simp+

lemma line_tokens_4:
  \<open>tokenize (str ''jumpif:$havezero  '') = Some [(TokJumpIf, str ''jumpif:''), (TokLabel, str ''$havezero'')]\<close>
  \<open>tokenize (str ''    get           '') = Some [(TokIdent, str ''get'')]\<close>
  \<open>tokenize (str ''    swap          '') = Some [(TokIdent, str ''swap'')]\<close>
  \<open>tokenize (str ''    nonce         '') = Some [(TokIdent, str ''nonce'')]\<close>
  \<open>tokenize (str ''    jump:$cont'' @ [10]) = Some [(TokJump, str ''jump:''), (TokLabel, str ''$cont'')]\<close>
  \<open>tokenize (str ''$havezero         '') = Some [(TokLabel, str ''$havezero'')]\<close>
  \<open>tokenize (str ''drop get          '') = Some [(TokIdent, str ''drop''), (TokIdent, str ''get'')]\<close>
  \<open>tokenize (str ''$cont'' @ [10]) = Some [(TokLabel, str ''$cont'')]\<close>
  \<open>tokenize (str ''dup 4 bury        '') = Some [(TokIdent, str ''dup''), (TokNumber, str ''4''), (TokIdent, str ''bury'')]\<close>
  \<open>tokenize (str ''dup 5 bury        '') = Some [(TokIdent, str ''dup''), (TokNumber, str ''5''), (TokIdent, str ''bury'')]\<close>
  \<open>tokenize (str ''3 tuple           '') = Some [(TokNumber, str ''3''), (TokIdent, str ''tuple'')]\<close>
  \<open>tokenize (str ''encode            '') = Some [(TokIdent, str ''encode'')]\<close>
  by code_simp+

lemma line_tokens_5:
  \<open>tokenize (str ''issue             '') = Some [(TokIdent, str ''issue'')]\<close>
  \<open>tokenize (str ''get log           '') = Some [(TokIdent, str ''get''), (TokIdent, str ''log'')]\<close>
  \<open>tokenize (str ''anchor            '') = Some [(TokIdent, str ''anchor'')]\<close>
  \<open>tokenize (str ''swap put          '') = Some [(TokIdent, str ''swap''), (TokIdent, str ''put'')]\<close>
  \<open>tokenize (str '']              '') = Some [(TokRightBracket, [93])]\<close>
  \<open>tokenize (str ''yield             '') = Some [(TokIdent, str ''yield'')]\<close>
  \<open>tokenize (str ''['') = Some [(TokLeftBracket, [91])]\<close>
  \<open>tokenize (str ''    get drop      '') = Some [(TokIdent, str ''get''), (TokIdent, str ''drop'')]\<close>
  \<open>tokenize (str ''	               '') = Some []\<close>
  \<open>tokenize (str ''	get get        '') = Some [(TokIdent, str ''get''), (TokIdent, str ''get'')]\<close>
  \<open>tokenize (str ''	get            '') = Some [(TokIdent, str ''get'')]\<close>
  \<open>tokenize (str ''	log            '') = Some [(TokIdent, str ''log'')]\<close>
  by code_simp+

lemma line_tokens_6:
  \<open>tokenize (str '']           '') = Some [(TokRightBracket, [93])]\<close>
  \<open>tokenize (str ''	output         '') = Some [(TokIdent, str ''output'')]\<close>
  \<open>tokenize (str ''	get log        '') = Some [(TokIdent, str ''get''), (TokIdent, str ''log'')]\<close>
  \<open>tokenize (str ''	            '') = Some []\<close>
  \<open>tokenize (str ''	get retire  '') = Some [(TokIdent, str ''get''), (TokIdent, str ''retire'')]\<close>
  \<open>tokenize (str ''	get log     '') = Some [(TokIdent, str ''get''), (TokIdent, str ''log'')]\<close>
  by code_simp+

lemmas line_tokens = line_tokens_1 line_tokens_2 line_tokens_3 line_tokens_4 line_tokens_5 line_tokens_6

lemma word_codes:
  \<open>op_Code (str ''add'') = (op_Add, True)\<close>
  \<open>op_Code (str ''anchor'') = (op_Anchor, True)\<close>
  \<open>op_Code (str ''bury'') = (op_Bury, True)\<close>
  \<open>op_Code (str ''cat'') = (op_Cat, True)\<close>
  \<open>op_Code (str ''checksig'') = (op_CheckSig, True)\<close>
  \<open>op_Code (str ''drop'') = (op_Drop, True)\<close>
  \<open>op_Code (str ''dup'') = (op_Dup, True)\<close>
  \<open>op_Code (str ''encode'') = (op_Encode, True)\<close>
  \<open>op_Code (str ''eq'') = (op_Eq, True)\<close>
  \<open>op_Code (str ''exec'') = (op_Exec, True)\<close>
  \<open>op_Code (str ''get'') = (op_Get, True)\<close>
  \<open>op_Code (str ''issue'') = (op_Issue, True)\<close>
  \<open>op_Code (str ''log'') = (op_Log, True)\<close>
  \<open>op_Code (str ''nonce'') = (op_Nonce, True)\<close>
  \<open>op_Code (str ''not'') = (op_Not, True)\<close>
  \<open>op_Code (str ''output'') = (op_Output, True)\<close>
  \<open>op_Code (str ''peek'') = (op_Peek, True)\<close>
  \<open>op_Code (str ''put'') = (op_Put, True)\<close>
  \<open>op_Code (str ''retire'') = (op_Retire, True)\<close>
  \<open>op_Code (str ''roll'') = (op_Roll, True)\<close>
  \<open>op_Code (str ''tuple'') = (op_Tuple, True)\<close>
  \<open>op_Code (str ''untuple'') = (op_Untuple, True)\<close>
  \<open>op_Code (str ''verify'') = (op_Verify, True)\<close>
  \<open>op_Code (str ''yield'') = (op_Yield, True)\<close>
  by (simp_all add: op_Code_def op_codes_def str_inject)

lemma word_macros:
  \<open>map_of composite (str ''add'') = None\<close>
  \<open>map_of composite (str ''anchor'') = None\<close>
  \<open>map_of composite (str ''bury'') = None\<close>
  \<open>map_of composite (str ''cat'') = None\<close>
  \<open>map_of composite (str ''checksig'') = None\<close>
  \<open>map_of composite (str ''drop'') = None\<close>
  \<open>map_of composite (str ''dup'') = None\<close>
  \<open>map_of composite (str ''encode'') = None\<close>
  \<open>map_of composite (str ''eq'') = None\<close>
  \<open>map_of composite (str ''exec'') = None\<close>
  \<open>map_of composite (str ''get'') = None\<close>
  \<open>map_of composite (str ''issue'') = None\<close>
  \<open>map_of composite (str ''log'') = None\<close>
  \<open>map_of composite (str ''nonce'') = None\<close>
  \<open>map_of composite (str ''not'') = None\<close>
  \<open>map_of composite (str ''output'') = None\<close>
  \<open>map_of composite (str ''peek'') = None\<close>
  \<open>map_of composite (str ''put'') = None\<close>
  \<open>map_of composite (str ''retire'') = None\<close>
  \<open>map_of composite (str ''roll'') = None\<close>
  \<open>map_of composite (str ''sub'') = Some [op_Neg, op_Add]\<close>
  \<open>map_of composite (str ''swap'') = Some [1, op_Roll]\<close>
  \<open>map_of composite (str ''tuple'') = None\<close>
  \<open>map_of composite (str ''untuple'') = None\<close>
  \<open>map_of composite (str ''verify'') = None\<close>
  \<open>map_of composite (str ''yield'') = None\<close>
  by (simp_all add: composite_def str_inject)

lemma number_values:
  \<open>ParseInt (str ''0'') = Some 0\<close>
  \<open>ParseInt (str ''1'') = Some 1\<close>
  \<open>ParseInt (str ''2'') = Some 2\<close>
  \<open>ParseInt (str ''3'') = Some 3\<close>
  \<open>ParseInt (str ''4'') = Some 4\<close>
  \<open>ParseInt (str ''5'') = Some 5\<close>
  by code_simp+

lemma writePushint64_small: "0 \<le> i \<Longrightarrow> i \<le> 31 \<Longrightarrow> writePushint64 buf i = buf @ [word_of_int i]"
  by (simp add: writePushint64.simps IsSmallInt_def MinSmallInt_def MaxSmallInt_def)

definition check_trees :: "tree list" where
  "check_trees = [
    Word (str ''swap''), Word (str ''untuple''), Word (str ''get''), Word (str ''dup''), Num (str ''2''),
    Word (str ''peek''), Num (str ''3''), Word (str ''add''), Word (str ''roll''), Word (str ''cat''), Num (str ''0''),
    Num (str ''3''), Word (str ''roll''), Lab (str ''sigstart''), Word (str ''dup''), Num (str ''0''), Word (str ''eq''),
    Jmp True (str ''sigend''), Num (str ''2''), Word (str ''peek''), Num (str ''5''), Word (str ''roll''),
    Word (str ''get''), Num (str ''0''), Word (str ''checksig''), Num (str ''2''), Word (str ''roll''), Word (str ''add''),
    Word (str ''swap''), Num (str ''1''), Word (str ''sub''), Jmp False (str ''sigstart''), Lab (str ''sigend''),
    Word (str ''drop''), Num (str ''3''), Word (str ''roll''), Word (str ''eq''), Word (str ''verify''),
    Word (str ''drop''), Word (str ''exec'')]"

lemma multisigProgCheckSrc_ok: "text_ok multisigProgCheckSrc (concat (map toks check_trees))"
  unfolding multisigProgCheckSrc_def check_trees_def
  by (rule text_ok_eq) (rule text_ok_rules line_tokens | (simp add: text_checks; fail) | (simp add: str_simps; fail))+

definition unlock_trees :: "tree list \<Rightarrow> tree list" where
  "unlock_trees ts = [
    Word (str ''get''), Word (str ''log''), Word (str ''anchor''), Word (str ''swap''), Word (str ''put''),
    Prog ts,
    Word (str ''yield'')]"

lemma payToMultisigProgUnlockSrcFmt_ok: "text_ok x (concat (map toks ts)) \<Longrightarrow> text_ok (payToMultisigProgUnlockSrcFmt x) (concat (map toks (unlock_trees ts)))"
  unfolding payToMultisigProgUnlockSrcFmt_def unlock_trees_def
  by (rule text_ok_eq) (assumption | rule text_ok_append text_ok_piece text_ok_rules line_tokens | (simp add: text_checks; fail) | (simp add: str_simps; fail))+

definition asset1_trees :: "tree list \<Rightarrow> tree list" where
  "asset1_trees ts = [
    Word (str ''get''), Word (str ''dup''), Word (str ''not''), Jmp True (str ''havezero''), Word (str ''get''),
    Word (str ''swap''), Word (str ''nonce''), Jmp False (str ''cont''), Lab (str ''havezero''), Word (str ''drop''),
    Word (str ''get''), Lab (str ''cont''), Word (str ''get''), Word (str ''get''), Word (str ''get''), Word (str ''dup''),
    Num (str ''4''), Word (str ''bury''), Word (str ''get''), Word (str ''dup''), Num (str ''5''), Word (str ''bury''),
    Num (str ''3''), Word (str ''tuple''), Word (str ''encode''), Word (str ''issue''), Word (str ''get''),
    Word (str ''log''), Word (str ''anchor''), Word (str ''swap''), Word (str ''put''),
    Prog ts,
    Word (str ''yield'')]"

lemma assetSrcFmt1_ok: "text_ok x (concat (map toks ts)) \<Longrightarrow> text_ok (assetSrcFmt1 x) (concat (map toks (asset1_trees ts)))"
  unfolding assetSrcFmt1_def asset1_trees_def
  by (rule text_ok_eq) (assumption | rule text_ok_append text_ok_piece text_ok_rules line_tokens | (simp add: text_checks; fail) | (simp add: str_simps; fail))+

definition asset2_trees :: "tree list \<Rightarrow> tree list" where
  "asset2_trees ts = [
    Word (str ''get''), Word (str ''dup''), Word (str ''not''), Jmp True (str ''havezero''), Word (str ''get''),
    Word (str ''drop''), Word (str ''get''), Word (str ''swap''), Word (str ''nonce''), Jmp False (str ''cont''),
    Lab (str ''havezero''), Word (str ''drop''), Word (str ''get''), Lab (str ''cont''), Word (str ''get''),
    Word (str ''get''), Word (str ''get''), Word (str ''dup''), Num (str ''4''), Word (str ''bury''), Word (str ''get''),
    Word (str ''dup''), Num (str ''5''), Word (str ''bury''), Num (str ''3''), Word (str ''tuple''), Word (str ''encode''),
    Word (str ''issue''), Word (str ''get''), Word (str ''log''), Word (str ''anchor''), Word (str ''swap''),
    Word (str ''put''),
    Prog ts,
    Word (str ''yield'')]"

lemma assetSrcFmt2_ok: "text_ok x (concat (map toks ts)) \<Longrightarrow> text_ok (assetSrcFmt2 x) (concat (map toks (asset2_trees ts)))"
  unfolding assetSrcFmt2_def asset2_trees_def
  by (rule text_ok_eq) (assumption | rule text_ok_append text_ok_piece text_ok_rules line_tokens | (simp add: text_checks; fail) | (simp add: str_simps; fail))+

definition pay1_trees :: "tree list \<Rightarrow> tree list" where
  "pay1_trees ts = [
    Word (str ''get''), Word (str ''get''), Word (str ''get''), Word (str ''get''), Word (str ''log''),
    Prog ts,
    Word (str ''output'')]"

lemma payToMultisigProgSrcFmt1_ok: "text_ok x (concat (map toks ts)) \<Longrightarrow> text_ok (payToMultisigProgSrcFmt1 x) (concat (map toks (pay1_trees ts)))"
  unfolding payToMultisigProgSrcFmt1_def pay1_trees_def
  by (rule text_ok_eq) (assumption | rule text_ok_append text_ok_piece text_ok_rules line_tokens | (simp add: text_checks; fail) | (simp add: str_simps; fail))+

definition pay2_trees :: "tree list \<Rightarrow> tree list" where
  "pay2_trees ts = [
    Word (str ''get''), Word (str ''get''), Word (str ''get''), Word (str ''get''), Word (str ''log''), Word (str ''get''),
    Word (str ''log''),
    Prog ts,
    Word (str ''output'')]"

lemma payToMultisigProgSrcFmt2_ok: "text_ok x (concat (map toks ts)) \<Longrightarrow> text_ok (payToMultisigProgSrcFmt2 x) (concat (map toks (pay2_trees ts)))"
  unfolding payToMultisigProgSrcFmt2_def pay2_trees_def
  by (rule text_ok_eq) (assumption | rule text_ok_append text_ok_piece text_ok_rules line_tokens | (simp add: text_checks; fail) | (simp add: str_simps; fail))+

definition retire_trees :: "tree list" where
  "retire_trees = [
    Word (str ''get''), Word (str ''retire''), Word (str ''get''), Word (str ''log'')]"

lemma retireSrc_ok: "text_ok retireSrc (concat (map toks retire_trees))"
  unfolding retireSrc_def retire_trees_def
  by (rule text_ok_eq) (rule text_ok_rules line_tokens | (simp add: text_checks; fail) | (simp add: str_simps; fail))+

end
