(* ===== verification/Standard.thy ===== *)
theory Standard
  imports StdTexts
begin

text \<open>
  The standard contracts (\<^verbatim>\<open>src/standard\<close>): the assembled programs, the seeds and asset IDs, and the code that adds their use to a
  transaction under construction. \<open>standard_programs\<close> says what the assembly texts assemble to.
\<close>

section \<open>Programs\<close>

definition mustAssemble :: "unicode \<Rightarrow> bytes \<Rightarrow> bytes option" where
  \<comment> \<open>\<open>None\<close>: panic\<close>
  "mustAssemble U src = (case Assemble U composite src of Inl _ \<Rightarrow> None | Inr res \<Rightarrow> Some res)"

definition payToMultisigProgUnlockSrc :: bytes where
  "payToMultisigProgUnlockSrc = payToMultisigProgUnlockSrcFmt multisigProgCheckSrc"

definition payToMultisigProgUnlock :: "unicode \<Rightarrow> bytes option" where
  "payToMultisigProgUnlock U = mustAssemble U payToMultisigProgUnlockSrc"

definition payToMultisigProgSrc1 :: bytes where
  "payToMultisigProgSrc1 = payToMultisigProgSrcFmt1 payToMultisigProgUnlockSrc"

definition PayToMultisigProg1 :: "unicode \<Rightarrow> bytes option" where
  "PayToMultisigProg1 U = mustAssemble U payToMultisigProgSrc1"

definition payToMultisigProgSrc2 :: bytes where
  "payToMultisigProgSrc2 = payToMultisigProgSrcFmt2 payToMultisigProgUnlockSrc"

definition PayToMultisigProg2 :: "unicode \<Rightarrow> bytes option" where
  "PayToMultisigProg2 U = mustAssemble U payToMultisigProgSrc2"

definition assetSrc :: "int \<Rightarrow> bytes" where
  \<comment> \<open>a missing key gives the empty string\<close>
  "assetSrc v = (if v = 1 then assetSrcFmt1 multisigProgCheckSrc else if v = 2 then assetSrcFmt2 multisigProgCheckSrc else [])"

definition assetProg :: "unicode \<Rightarrow> int \<Rightarrow> bytes option" where
  "assetProg U v = (if v = 1 \<or> v = 2 then mustAssemble U (assetSrc v) else Some [])"

definition RetireContract :: "unicode \<Rightarrow> bytes option" where
  "RetireContract U = mustAssemble U retireSrc"

section \<open>Programs written with the builder\<close>

definition VerifyTxID :: "bytes \<Rightarrow> bytes" where
  "VerifyTxID txid = Build (Op op_Verify (Op op_Eq (PushdataBytes txid (Op op_TxID []))))"

definition SpendMultisig :: "unicode \<Rightarrow> int \<Rightarrow> bytes list \<Rightarrow> int \<Rightarrow> Hash \<Rightarrow> bytes \<Rightarrow> bytes \<Rightarrow> Builder \<Rightarrow> Builder option" where
  \<comment> \<open>\<open>None\<close>: the panic of the package's initialization\<close>
  "SpendMultisig U quorum pubkeys amt aid anc sd b = map_option (\<lambda>unlock.
     Op op_Call (Op op_Input (Builder_Tuple (\<lambda>contract.
       let contract = tb_PushdataByte ContractCode contract;
           contract = tb_PushdataBytes sd contract;
           contract = tb_PushdataBytes unlock contract;
           contract = tb_Tuple (\<lambda>tup. tb_PushdataInt64 quorum (tb_PushdataByte IntCode tup)) contract;
           contract = tb_Tuple (\<lambda>tup. tb_Tuple (fold tb_PushdataBytes pubkeys) (tb_PushdataByte TupleCode tup)) contract;
           contract = tb_Tuple (\<lambda>tup.
             tb_PushdataBytes anc (tb_PushdataBytes (Hash_Bytes aid) (tb_PushdataInt64 amt (tb_PushdataByte ValueCode tup)))) contract
       in contract) b))) (payToMultisigProgUnlock U)"

definition issue :: "unicode \<Rightarrow> bool \<Rightarrow> int \<Rightarrow> int \<Rightarrow> bytes list \<Rightarrow> bytes \<Rightarrow> int \<Rightarrow> bytes \<Rightarrow> bytes \<Rightarrow> uint64 \<Rightarrow> bytes \<Rightarrow> bytes option" where
  \<comment> \<open>\<open>None\<close>: a panic\<close>
  "issue U withAnchor version quorum pubkeys tag amt refdata blockID expMS nonce =
     (let b = [];
          b = (if withAnchor then Op op_Get b else b);
          b = Op op_Put (PushdataBytes refdata b);
          b = Builder_Tuple (fold tb_PushdataBytes pubkeys) b;
          b = Op op_Put b;
          b = Op op_Put (PushdataInt64 quorum b);
          b = Op op_Put (PushdataBytes tag b);
          b = Op op_Put (PushdataInt64 amt b);
          r = (if withAnchor then Some (Op op_Put (PushdataInt64 0 (Op op_Put b)))
               else if version = 1 then
                 map_option (Op op_Put) (PushdataUint64 expMS (Op op_Put (PushdataBytes blockID b)))
               else if version = 2 then
                 map_option (Op op_Put) (PushdataUint64 expMS
                   (Op op_Put (PushdataBytes nonce (Op op_Put (PushdataBytes blockID b)))))
               else Some b)
      in case (r, assetProg U version) of
           (Some b, Some p) \<Rightarrow> Some (Build (Op op_Call (Op op_Contract (PushdataBytes p b))))
         | _ \<Rightarrow> None)"

definition IssueWithAnchorContract :: "unicode \<Rightarrow> int \<Rightarrow> int \<Rightarrow> bytes list \<Rightarrow> bytes \<Rightarrow> int \<Rightarrow> bytes \<Rightarrow> bytes option" where
  "IssueWithAnchorContract U version quorum pubkeys tag amt refdata =
     issue U True version quorum pubkeys tag amt refdata [] 0 []"

definition IssueWithoutAnchorContract ::
  "unicode \<Rightarrow> int \<Rightarrow> int \<Rightarrow> bytes list \<Rightarrow> bytes \<Rightarrow> int \<Rightarrow> bytes \<Rightarrow> bytes \<Rightarrow> uint64 \<Rightarrow> bytes \<Rightarrow> bytes option" where
  "IssueWithoutAnchorContract U version quorum pubkeys tag amt refdata blockID expMS nonce =
     issue U False version quorum pubkeys tag amt refdata blockID expMS nonce"

section \<open>Seeds\<close>

definition PayToMultisigSeed1 :: "('z) crypto_scheme \<Rightarrow> unicode \<Rightarrow> bytes option" where
  "PayToMultisigSeed1 C U = map_option (ContractSeed C) (PayToMultisigProg1 U)"

definition PayToMultisigSeed2 :: "('z) crypto_scheme \<Rightarrow> unicode \<Rightarrow> bytes option" where
  "PayToMultisigSeed2 C U = map_option (ContractSeed C) (PayToMultisigProg2 U)"

definition RetireContractSeed :: "('z) crypto_scheme \<Rightarrow> unicode \<Rightarrow> bytes option" where
  "RetireContractSeed C U = map_option (ContractSeed C) (RetireContract U)"

definition AssetContractSeed :: "('z) crypto_scheme \<Rightarrow> unicode \<Rightarrow> int \<Rightarrow> bytes option" where
  \<comment> \<open>a missing key gives the zero array\<close>
  "AssetContractSeed C U v = (if v = 1 \<or> v = 2 then map_option (ContractSeed C) (assetProg U v) else Some (replicate 32 0))"

definition standard_AssetID :: "('z) crypto_scheme \<Rightarrow> unicode \<Rightarrow> int \<Rightarrow> int \<Rightarrow> bytes list \<Rightarrow> bytes \<Rightarrow> bytes option" where
  "standard_AssetID C U version quorum pubkeys tag =
     (let pubkeysTuple = map Bytes pubkeys; tuple = [Bytes tag, Int64 quorum, Tuple pubkeysTuple] in
      map_option (\<lambda>sd. AssetID C sd (Encode (Tuple tuple))) (AssetContractSeed C U version))"

section \<open>What the texts assemble to\<close>

definition multisigProgCheck :: bytes where
  "multisigProgCheck =
    [1, op_Roll, op_Untuple, op_Get, op_Dup, 2, op_Peek, 3, op_Add, op_Roll, op_Cat, 0, 3, op_Roll,
     op_Dup, 0, op_Eq, 19, op_JumpIf, 2, op_Peek, 5, op_Roll, op_Get, 0, op_CheckSig, 2, op_Roll, op_Add,
     1, op_Roll, 1, op_Neg, op_Add, 1, 24, op_Neg, op_JumpIf,
     op_Drop, 3, op_Roll, op_Eq, op_Verify, op_Drop, op_Exec]"

definition unlockProg :: bytes where
  "unlockProg = [op_Get, op_Log, op_Anchor, 1, op_Roll, op_Put] @ writePushdata multisigProgCheck @ [op_Yield]"

definition payProg1 :: bytes where
  "payProg1 = [op_Get, op_Get, op_Get, op_Get, op_Log] @ writePushdata unlockProg @ [op_Output]"

definition payProg2 :: bytes where
  "payProg2 = [op_Get, op_Get, op_Get, op_Get, op_Log, op_Get, op_Log] @ writePushdata unlockProg @ [op_Output]"

definition asset_tail :: bytes where
  "asset_tail = [op_Get, op_Get, op_Get, op_Dup, 4, op_Bury, op_Get, op_Dup, 5, op_Bury, 3, op_Tuple, op_Encode, op_Issue,
     op_Get, op_Log, op_Anchor, 1, op_Roll, op_Put] @ writePushdata multisigProgCheck @ [op_Yield]"

definition assetProg1 :: bytes where
  "assetProg1 = [op_Get, op_Dup, op_Not, 7, op_JumpIf, op_Get, 1, op_Roll, op_Nonce, 1, 2, op_JumpIf, op_Drop, op_Get] @ asset_tail"

definition assetProg2 :: bytes where
  "assetProg2 = [op_Get, op_Dup, op_Not, 9, op_JumpIf, op_Get, op_Drop, op_Get, 1, op_Roll, op_Nonce, 1, 2, op_JumpIf, op_Drop, op_Get] @ asset_tail"

definition check_items :: "asm_item list" where
  "check_items = [Code [1, op_Roll, op_Untuple, op_Get, op_Dup, 2, op_Peek, 3, op_Add, op_Roll, op_Cat, 0, 3, op_Roll],
     Target (str ''sigstart''), Code [op_Dup, 0, op_Eq], Jump \<lparr>label = str ''sigend'', isJumpIf = True, opcodes = []\<rparr>,
     Code [2, op_Peek, 5, op_Roll, op_Get, 0, op_CheckSig, 2, op_Roll, op_Add, 1, op_Roll, 1, op_Neg, op_Add],
     Jump \<lparr>label = str ''sigstart'', isJumpIf = False, opcodes = []\<rparr>, Target (str ''sigend'')]"

lemmas asm_words = word_codes word_macros number_values writePushint64_small flush_def

lemma check_asm: "asm_trees composite check_trees ([], []) = Some (check_items, [op_Drop, 3, op_Roll, op_Eq, op_Verify, op_Drop, op_Exec])"
  by (simp add: check_trees_def check_items_def asm_words)

lemma check_resolve: "resolve (check_items @ [Code [op_Drop, 3, op_Roll, op_Eq, op_Verify, op_Drop, op_Exec]]) = Inr multisigProgCheck"
  by code_simp

lemma check_Prog: "asm_tree composite (Prog check_trees) (items, buf) = Some (items, buf @ writePushdata multisigProgCheck)"
  by (simp add: check_asm check_resolve flush_def b_writePushdata_eq)

lemma unlock_asm: "asm_trees composite (unlock_trees check_trees) ([], []) = Some ([], unlockProg)"
  by (simp add: unlock_trees_def asm_words check_Prog unlockProg_def del: asm_tree.simps(5))

lemma mustAssemble_text:
  assumes "text_ok src (concat (map toks ts))" and "asm_trees composite ts ([], []) = Some (items, buf)" and "resolve (flush items buf) = Inr code"
  shows "mustAssemble U src = Some code"
  using Assemble_tokenize [OF _ _ assms(2,3), of src U] assms(1) by (simp add: mustAssemble_def text_ok_def)

lemma resolve_code: "c \<noteq> [] \<Longrightarrow> resolve (flush [] c) = Inr c"
  by (simp add: flush_def resolve_single)

lemma mustAssemble_straight:
  "text_ok src (concat (map toks ts)) \<Longrightarrow> asm_trees composite ts ([], []) = Some ([], c) \<Longrightarrow> c \<noteq> [] \<Longrightarrow> mustAssemble U src = Some c"
  by (rule mustAssemble_text) (auto simp: resolve_code)

lemma unlock_program: "payToMultisigProgUnlock U = Some unlockProg"
  unfolding payToMultisigProgUnlock_def payToMultisigProgUnlockSrc_def
  by (rule mustAssemble_straight [OF payToMultisigProgUnlockSrcFmt_ok [OF multisigProgCheckSrc_ok] unlock_asm]) (simp add: unlockProg_def)

lemma unlock_Prog: "asm_tree composite (Prog (unlock_trees check_trees)) (items, buf) = Some (items, buf @ writePushdata unlockProg)"
  by (simp add: unlock_asm resolve_code unlockProg_def b_writePushdata_eq)

lemma unlockSrc_ok: "text_ok payToMultisigProgUnlockSrc (concat (map toks (unlock_trees check_trees)))"
  unfolding payToMultisigProgUnlockSrc_def by (rule payToMultisigProgUnlockSrcFmt_ok [OF multisigProgCheckSrc_ok])

lemma pay1_program: "PayToMultisigProg1 U = Some payProg1"
  unfolding PayToMultisigProg1_def payToMultisigProgSrc1_def
  by (rule mustAssemble_straight [OF payToMultisigProgSrcFmt1_ok [OF unlockSrc_ok]])
    (simp_all add: pay1_trees_def asm_words unlock_Prog payProg1_def del: asm_tree.simps(5))

lemma pay2_program: "PayToMultisigProg2 U = Some payProg2"
  unfolding PayToMultisigProg2_def payToMultisigProgSrc2_def
  by (rule mustAssemble_straight [OF payToMultisigProgSrcFmt2_ok [OF unlockSrc_ok]])
    (simp_all add: pay2_trees_def asm_words unlock_Prog payProg2_def del: asm_tree.simps(5))

lemma retire_program: "RetireContract U = Some [op_Get, op_Retire, op_Get, op_Log]"
  unfolding RetireContract_def
  by (rule mustAssemble_straight [OF retireSrc_ok]) (simp_all add: retire_trees_def asm_words)

definition asset_items :: "bytes \<Rightarrow> asm_item list" where
  "asset_items mid = [Code [op_Get, op_Dup, op_Not], Jump \<lparr>label = str ''havezero'', isJumpIf = True, opcodes = []\<rparr>, Code mid,
     Jump \<lparr>label = str ''cont'', isJumpIf = False, opcodes = []\<rparr>, Target (str ''havezero''), Code [op_Drop, op_Get], Target (str ''cont'')]"

lemma asset_resolve:
  "resolve (asset_items [op_Get, 1, op_Roll, op_Nonce] @ [Code asset_tail]) = Inr assetProg1"
  "resolve (asset_items [op_Get, op_Drop, op_Get, 1, op_Roll, op_Nonce] @ [Code asset_tail]) = Inr assetProg2"
  by code_simp+

lemma asset1_program: "assetProg U 1 = Some assetProg1"
  unfolding assetProg_def assetSrc_def
  using mustAssemble_text [OF assetSrcFmt1_ok [OF multisigProgCheckSrc_ok], of "asset_items [op_Get, 1, op_Roll, op_Nonce]" asset_tail assetProg1 U]
    asset_resolve(1)
  by (simp add: asset1_trees_def asm_words check_Prog asset_items_def asset_tail_def del: asm_tree.simps(5))

lemma asset2_program: "assetProg U 2 = Some assetProg2"
  unfolding assetProg_def assetSrc_def
  using mustAssemble_text [OF assetSrcFmt2_ok [OF multisigProgCheckSrc_ok], of "asset_items [op_Get, op_Drop, op_Get, 1, op_Roll, op_Nonce]" asset_tail assetProg2 U]
    asset_resolve(2)
  by (simp add: asset2_trees_def asm_words check_Prog asset_items_def asset_tail_def del: asm_tree.simps(5))

lemma check_program: "mustAssemble U multisigProgCheckSrc = Some multisigProgCheck"
  using mustAssemble_text [OF multisigProgCheckSrc_ok check_asm, of multisigProgCheck U] check_resolve by (simp add: flush_def)

text \<open>
  The standard programs assemble. For every table of letters, the package's initialization does not panic,
  and the programs are these sequences of instructions; the check of the signatures is pushed inside the unlock
  program, and that one inside the programs that lock a value.
\<close>

theorem standard_programs:
  "mustAssemble U multisigProgCheckSrc = Some multisigProgCheck \<and> payToMultisigProgUnlock U = Some unlockProg \<and>
   PayToMultisigProg1 U = Some payProg1 \<and> PayToMultisigProg2 U = Some payProg2 \<and>
   assetProg U 1 = Some assetProg1 \<and> assetProg U 2 = Some assetProg2 \<and>
   RetireContract U = Some [op_Get, op_Retire, op_Get, op_Log]"
  by (simp add: check_program unlock_program pay1_program pay2_program asset1_program asset2_program retire_program)

end
