(* ===== verification/VMRuns.thy ===== *)
theory VMRuns
  imports Builder VMValidate
begin

text \<open>
  What a completed run of a program says about the stacks: a calculus for contract programs. \<open>here vm z p i cs as\<close>: the machine
  is at position \<open>i\<close> of program \<open>p\<close>, with the items \<open>cs\<close> on the contract stack and \<open>as\<close> on the argument stack, top first.
  \<open>passes E vf z p i cs as\<close>: some run that ends without an error is there. One lemma per instruction tells where such a run is next.
\<close>

section \<open>The calculus\<close>

record ctx = \<comment> \<open>what instructions on the stacks leave alone\<close>
  c_txid :: "bytes option" \<comment> \<open>the transaction ID, once the transaction is finalized\<close>
  c_type :: byte
  c_seed :: bytes
  c_caller :: bytes
  c_log :: "data list list"

definition ctx_of :: "'o vm \<Rightarrow> ctx" where
  "ctx_of vm = \<lparr>c_txid = if Finalized vm then Some (TxID vm) else None, c_type = typecode (contract vm),
     c_seed = seed (contract vm), c_caller = caller vm, c_log = Log vm\<rparr>"

lemma ctx_of_simps [simp]:
  "ctx_of (put_stack s vm) = ctx_of vm" "ctx_of (vm\<lparr>argstack := s\<rparr>) = ctx_of vm" "ctx_of (vm\<lparr>runlimit := n\<rparr>) = ctx_of vm"
  "ctx_of (vm\<lparr>run := r\<rparr>) = ctx_of vm" "ctx_of (vm\<lparr>opcode := b, vdata := d\<rparr>) = ctx_of vm" "ctx_of (vm\<lparr>obs := w\<rparr>) = ctx_of vm"
  "ctx_of (vm\<lparr>runstack := rs\<rparr>) = ctx_of vm"
  by (simp_all add: ctx_of_def)

definition here :: "'o vm \<Rightarrow> ctx \<Rightarrow> bytes \<Rightarrow> int \<Rightarrow> item list \<Rightarrow> item list \<Rightarrow> bool" where
  "here vm z p i cs as \<longleftrightarrow> run vm = \<lparr>pc = i, prog = p\<rparr> \<and> rev (cstack vm) = cs \<and> rev (argstack vm) = as \<and>
     ctx_of vm = z \<and> \<not> unwinding vm \<and> \<not> (Finalized vm \<and> stopAfterFinalize vm)"

definition completes :: "'o env \<Rightarrow> 'o vm \<Rightarrow> 'o vm \<Rightarrow> bool" where
  "completes E vf vm \<longleftrightarrow> (\<exists>fuel. loop E fuel vm = (Inr (), vf))"

definition passes :: "'o env \<Rightarrow> 'o vm \<Rightarrow> ctx \<Rightarrow> bytes \<Rightarrow> int \<Rightarrow> item list \<Rightarrow> item list \<Rightarrow> bool" where
  "passes E vf z p i cs as \<longleftrightarrow> (\<exists>vm. here vm z p i cs as \<and> completes E vf vm)"

subsection \<open>Primitive actions\<close>

lemma here_pop: "pop vm = (Inr x, vm') \<Longrightarrow> here vm z p i cs as \<Longrightarrow> \<exists>r. cs = x # r \<and> here vm' z p i r as"
  by (auto simp: pop_ok here_def)

lemma here_popData: "popData vm = (Inr d, vm') \<Longrightarrow> here vm z p i cs as \<Longrightarrow> \<exists>r. cs = Data d # r \<and> here vm' z p i r as"
  and here_popInt: "popInt vm = (Inr n, vm') \<Longrightarrow> here vm z p i cs as \<Longrightarrow> \<exists>r. cs = Data (Int64 n) # r \<and> here vm' z p i r as"
  and here_popBytes: "popBytes vm = (Inr b, vm') \<Longrightarrow> here vm z p i cs as \<Longrightarrow> \<exists>r. cs = Data (Bytes b) # r \<and> here vm' z p i r as"
  and here_popTuple: "popTuple vm = (Inr t, vm') \<Longrightarrow> here vm z p i cs as \<Longrightarrow> \<exists>r. cs = Data (Tuple t) # r \<and> here vm' z p i r as"
  by (auto simp: pop_typed_ok here_def)

definition truth :: "data \<Rightarrow> bool" where
  "truth v = (case v of Int64 n \<Rightarrow> n \<noteq> 0 | _ \<Rightarrow> True)"

lemma here_popBool: "popBool vm = (Inr b, vm') \<Longrightarrow> here vm z p i cs as \<Longrightarrow> \<exists>v r. cs = Data v # r \<and> b = truth v \<and> here vm' z p i r as"
  by (auto simp: popBool_def sm_okE truth_def dest: here_popData)

lemma here_push: "push x vm = (r, vm') \<Longrightarrow> here vm z p i cs as \<Longrightarrow> here vm' z p i (x # cs) as"
  by (auto simp: push_def modify_def here_def stack_push_def ctx_of_def)

definition flag :: "bool \<Rightarrow> item" where
  "flag b = Data (Int64 (if b then 1 else 0))"

lemma here_pushBool:
  "pushBool b vm = (r, vm') \<Longrightarrow> here vm z p i cs as \<Longrightarrow> here vm' z p i (flag b # cs) as"
  unfolding pushBool_def flag_def by (rule here_push)

lemma here_charge: "charge n vm = (r, vm') \<Longrightarrow> here vm z p i cs as \<Longrightarrow> here vm' z p i cs as"
  by (auto simp: charge_def andthen_def bind_def modify_def gets_def guard_def return_def panic_def here_def split: if_splits)

lemma here_chargeCopy: "chargeCopy d vm = (Inr u, vm') \<Longrightarrow> here vm z p i cs as \<Longrightarrow> here vm' z p i cs as"
  and here_chargeCreate: "chargeCreate x vm = (Inr u, vm') \<Longrightarrow> here vm z p i cs as \<Longrightarrow> here vm' z p i cs as"
  by (auto simp: chargeCopy_def chargeCreate_def sm_okE split: prod.splits dest: here_charge)

lemma here_peekNth:
  assumes "peekNth n vm = (Inr x, vm')" and "here vm z p i cs as"
  shows "0 \<le> n \<and> n < len cs \<and> x = cs ! nat n \<and> here vm' z p i cs as"
proof -
  have n: "0 \<le> n" "n < len (cstack vm)" "x = cstack vm ! nat (len (cstack vm) - 1 - n)" "vm' = vm"
    using assms(1) by (auto simp: peekNth_def sm_okE stack_peek_def Let_def split: option.splits if_splits)
  moreover from n have "nat (len (cstack vm) - 1 - n) = length (cstack vm) - Suc (nat n)" by (auto simp: len_def)
  ultimately show ?thesis using assms(2) by (auto simp: here_def rev_nth len_def)
qed

lemma here_peek: "peek vm = (Inr x, vm') \<Longrightarrow> here vm z p i cs as \<Longrightarrow> \<exists>r. cs = x # r \<and> here vm' z p i cs as"
  by (auto simp: peek_def sm_okE stack_peek_0 here_def split: option.splits)

definition rolled :: "nat \<Rightarrow> 'a list \<Rightarrow> 'a list" where
  "rolled k xs = xs ! k # take k xs @ drop (Suc k) xs"

lemma here_roll:
  assumes "replace_stack (stack_roll (cstack vm) n) vm = (Inr u, vm')" and "here vm z p i cs as"
  shows "0 \<le> n \<and> n < len cs \<and> here vm' z p i (rolled (nat n) cs) as"
proof -
  from assms(1) obtain s where s: "stack_roll (cstack vm) n = Inr s" "vm' = put_stack s vm"
    by (auto simp: replace_stack_def sm_okE split: sum.splits)
  from s(1) obtain a x b where "cstack vm = a @ x # b" "len b = n" "s = a @ b @ [x]" by (auto simp: stack_roll_Inr)
  with s(2) assms(2) show ?thesis by (auto simp: here_def rolled_def len_def nth_append)
qed

subsection \<open>Steps\<close>

lemma here_runHooks: "here (runHooks hs vm) z p i cs as \<longleftrightarrow> here vm z p i cs as"
  using runHooks_obs [of hs vm] by (auto simp: here_def)

definition leads :: "'o env \<Rightarrow> 'o vm \<Rightarrow> 'o vm \<Rightarrow> bool" where
  \<comment> \<open>the run goes on from the machine that a handler returned, and ends at \<open>vf\<close>\<close>
  "leads E vf vm \<longleftrightarrow> (let vm' = runHooks (afterStep E) vm in
     Finalized vm' \<and> stopAfterFinalize vm' \<and> vf = vm' \<or> completes E vf vm')"

lemma leads_here: "leads E vf vm \<Longrightarrow> here vm z p i cs as \<Longrightarrow> passes E vf z p i cs as"
proof -
  assume a: "leads E vf vm" "here vm z p i cs as"
  have h: "here (runHooks (afterStep E) vm) z p i cs as" using a(2) by (simp add: here_runHooks)
  with a(1) show ?thesis by (auto simp: leads_def passes_def here_def Let_def)
qed

lemma passes_step:
  assumes "passes E vf z p i cs as" and "0 \<le> i" and "i < len p" and "DecodeInst (drop (nat i) p) = Inr (opc, d, n)"
  obtains vm fuel vm' where "here vm z p (i + n) cs as"
    and "(if IsSmallIntOp opc then push (Data (Int64 (uint (opc - MinSmallInt))))
          else if IsPushdataOp opc then andthen (chargeCreate (Data (Bytes d))) (push (Data (Bytes d)))
          else opFuncs E (exec_with (loop E fuel)) opc) vm = (Inr (), vm')"
    and "leads E vf vm'"
proof -
  from assms(1) obtain vm fuel where vm: "here vm z p i cs as" "loop E fuel vm = (Inr (), vf)"
    by (auto simp: passes_def completes_def)
  obtain f where f: "fuel = Suc f" using vm(2) by (cases fuel) (auto simp: panic_def)
  have r: "run vm = \<lparr>pc = i, prog = p\<rparr>" "\<not> unwinding vm" using vm(1) by (auto simp: here_def)
  let ?act = "if IsSmallIntOp opc then push (Data (Int64 (uint (opc - MinSmallInt))))
          else if IsPushdataOp opc then andthen (chargeCreate (Data (Bytes d))) (push (Data (Bytes d)))
          else opFuncs E (exec_with (loop E f)) opc"
  from vm(2) obtain u vm3 where s: "step E (exec_with (loop E f)) vm = (Inr u, vm3)"
    "Finalized vm3 \<and> stopAfterFinalize vm3 \<and> vf = vm3 \<or> loop E f vm3 = (Inr (), vf)"
    using r assms(3) by (auto simp: f sm_okE split: if_splits)
  then obtain vm1 v0 v1 where v: "charge 1 (runHooks (beforeStep E) (vm\<lparr>opcode := opc, vdata := d\<rparr>)) = (Inr v0, vm1)"
    "?act (vm1\<lparr>run := (run vm1)\<lparr>pc := pc (run vm1) + n\<rparr>\<rparr>) = (Inr (), v1)" "vm3 = runHooks (afterStep E) v1"
    using assms(4) r unfolding step_def by (auto simp: sm_okE)
  have "here (vm\<lparr>opcode := opc, vdata := d\<rparr>) z p i cs as" using vm(1) by (simp add: here_def)
  then have "here vm1 z p i cs as" using here_charge [OF v(1)] by (simp add: here_runHooks)
  then have "here (vm1\<lparr>run := (run vm1)\<lparr>pc := pc (run vm1) + n\<rparr>\<rparr>) z p (i + n) cs as" by (simp add: here_def)
  moreover have "leads E vf v1" using s(2) by (auto simp: leads_def completes_def v(3) Let_def)
  ultimately show ?thesis using v(2) that by blast
qed

definition at :: "bytes \<Rightarrow> int \<Rightarrow> byte \<Rightarrow> bool" where
  "at p i opc \<longleftrightarrow> 0 \<le> i \<and> i < len p \<and> p ! nat i = opc"

lemma at_Decode: "at p i opc \<Longrightarrow> opc < MinPushdata \<Longrightarrow> DecodeInst (drop (nat i) p) = Inr (opc, [], 1)"
  by (auto simp: at_def len_def Cons_nth_drop_Suc [symmetric] DecodeInst_op)

lemma passes_op:
  assumes "passes E vf z p i cs as" and "at p i opc" and "opc < MinPushdata" and "MaxSmallInt < opc"
  obtains vm fuel vm' where "here vm z p (i + 1) cs as" and "opFuncs E (exec_with (loop E fuel)) opc vm = (Inr (), vm')"
    and "leads E vf vm'"
proof -
  have "\<not> IsSmallIntOp opc" "\<not> IsPushdataOp opc" using assms(3,4) by (auto simp: IsSmallIntOp_def IsPushdataOp_def)
  with passes_step [OF assms(1) _ _ at_Decode [OF assms(2,3)]] assms(2) that show ?thesis
    by (simp add: at_def) metis
qed

lemma passes_small:
  assumes "passes E vf z p i cs as" and "at p i opc" and "opc \<le> MaxSmallInt"
  shows "passes E vf z p (i + 1) (Data (Int64 (uint opc)) # cs) as"
proof -
  have o: "IsSmallIntOp opc" "opc < MinPushdata" "uint (opc - MinSmallInt) = uint opc"
    using assms(3) by (auto simp: IsSmallIntOp_def MinSmallInt_def MaxSmallInt_def MinPushdata_def word_le_nat_alt word_less_nat_alt)
  have "0 \<le> i" "i < len p" using assms(2) by (simp_all add: at_def)
  from passes_step [OF assms(1) this at_Decode [OF assms(2) o(2)]] obtain vm vm' where
    vm: "here vm z p (i + 1) cs as" "push (Data (Int64 (uint opc))) vm = (Inr (), vm')"
    and pass: "leads E vf vm'"
    unfolding o(3) if_P [OF o(1)] by metis
  show ?thesis using here_push [OF vm(2,1)] leads_here pass by blast
qed

lemma here_each_push: "each (\<lambda>v. push (Data v)) t vm = (Inr u, vm') \<Longrightarrow> here vm z p i cs as \<Longrightarrow> here vm' z p i (rev (map Data t) @ cs) as"
  by (induction t arbitrary: vm cs) (auto simp: sm_okE dest!: here_push)

subsection \<open>Rules for handlers\<close>

definition hold :: "ctx \<Rightarrow> bytes \<Rightarrow> int \<Rightarrow> item list \<Rightarrow> item list \<Rightarrow> ('o, 'a) act \<Rightarrow> ('a \<Rightarrow> ctx \<Rightarrow> int \<Rightarrow> item list \<Rightarrow> item list \<Rightarrow> bool) \<Rightarrow> bool" where
  \<comment> \<open>where the action leaves the machine when it succeeds\<close>
  "hold z p j cs as m Q \<longleftrightarrow> (\<forall>vm x vm'. here vm z p j cs as \<and> m vm = (Inr x, vm') \<longrightarrow>
     (\<exists>z' j' cs' as'. here vm' z' p j' cs' as' \<and> Q x z' j' cs' as'))"

named_theorems holds \<open>backward rules for the actions of handlers\<close>

lemma hold_control [holds]:
  "hold z p j cs as m (\<lambda>x z' j' cs' as'. hold z' p j' cs' as' (f x) Q) \<Longrightarrow> hold z p j cs as (bind m f) Q"
  "hold z p j cs as m (\<lambda>_ z' j' cs' as'. hold z' p j' cs' as' m' Q') \<Longrightarrow> hold z p j cs as (andthen m m') Q'"
  "Q x z j cs as \<Longrightarrow> hold z p j cs as (return x) Q"
  "(c \<Longrightarrow> Q1 () z j cs as) \<Longrightarrow> hold z p j cs as (guard c e) Q1"
  "hold z p j cs as (panic e) Q"
  unfolding hold_def by (auto simp: sm_okE) blast+

lemma hold_pop [holds]:
  "(\<And>x r. cs = x # r \<Longrightarrow> Q2 x z j r as) \<Longrightarrow> hold z p j cs as pop Q2"
  "(\<And>d r. cs = Data d # r \<Longrightarrow> Q3 d z j r as) \<Longrightarrow> hold z p j cs as popData Q3"
  "(\<And>n r. cs = Data (Int64 n) # r \<Longrightarrow> Q4 n z j r as) \<Longrightarrow> hold z p j cs as popInt Q4"
  "(\<And>b r. cs = Data (Bytes b) # r \<Longrightarrow> Q5 b z j r as) \<Longrightarrow> hold z p j cs as popBytes Q5"
  "(\<And>t r. cs = Data (Tuple t) # r \<Longrightarrow> Q6 t z j r as) \<Longrightarrow> hold z p j cs as popTuple Q6"
  "(\<And>d r. cs = Data d # r \<Longrightarrow> Q7 (truth d) z j r as) \<Longrightarrow> hold z p j cs as popBool Q7"
  by (fastforce simp: hold_def dest!: here_pop here_popData here_popInt here_popBytes here_popTuple here_popBool)+

lemma hold_push [holds]:
  "Q8 () z j (y # cs) as \<Longrightarrow> hold z p j cs as (push y) Q8"
  "Q9 () z j (flag c # cs) as \<Longrightarrow> hold z p j cs as (pushBool c) Q9"
  "Q15 () z j (rev (map Data t) @ cs) as \<Longrightarrow> hold z p j cs as (each (\<lambda>v. push (Data v)) t) Q15"
  by (fastforce simp: hold_def dest!: here_push here_pushBool here_each_push)+

lemma hold_charge [holds]:
  "Q10 () z j cs as \<Longrightarrow> hold z p j cs as (charge n) Q10"
  "Q11 () z j cs as \<Longrightarrow> hold z p j cs as (chargeCopy d) Q11"
  "Q12 () z j cs as \<Longrightarrow> hold z p j cs as (chargeCreate y) Q12"
  by (fastforce simp: hold_def dest!: here_charge here_chargeCopy here_chargeCreate)+

lemma hold_peek [holds]:
  "(\<And>x r. cs = x # r \<Longrightarrow> Q13 x z j cs as) \<Longrightarrow> hold z p j cs as peek Q13"
  "(0 \<le> n \<Longrightarrow> n < len cs \<Longrightarrow> Q14 (cs ! nat n) z j cs as) \<Longrightarrow> hold z p j cs as (peekNth n) Q14"
  by (fastforce simp: hold_def dest!: here_peek here_peekNth)+

lemma hold_cases [holds]:
  "(\<And>d. y = Data d \<Longrightarrow> hold z p j cs as (f d) Q) \<Longrightarrow> hold z p j cs as (case y of Data d \<Rightarrow> f d | _ \<Rightarrow> panic ErrType) Q"
  "(c \<Longrightarrow> hold z p j cs as m Q) \<Longrightarrow> (\<not> c \<Longrightarrow> hold z p j cs as m' Q) \<Longrightarrow> hold z p j cs as (if c then m else m') Q"
  "(\<And>x y. xy = (x, y) \<Longrightarrow> hold z p j cs as (g x y) Q) \<Longrightarrow> hold z p j cs as (case xy of (x, y) \<Rightarrow> g x y) Q"
  by (auto simp: hold_def panic_ok split: item.split prod.split)

lemma hold_roll [holds]:
  "(0 \<le> n \<Longrightarrow> n < len cs \<Longrightarrow> Q () z j (rolled (nat n) cs) as) \<Longrightarrow>
   hold z p j cs as (bind (gets cstack) (\<lambda>s. replace_stack (stack_roll s n))) Q"
  by (auto simp: hold_def sm_okE dest!: here_roll)

lemma hold_jump [holds]:
  assumes "\<And>dest. AddInt64 j n = (dest, True) \<Longrightarrow> Q () z dest cs as"
  shows "hold z p j cs as (bind (gets run) (\<lambda>r. case AddInt64 (pc r) n of (dest, ok) \<Rightarrow>
       andthen (guard ok ErrIntOverflow) (andthen (guard (\<not> (dest < 0 \<or> dest > len (prog r))) ErrJump)
      (modify (\<lambda>vm. vm\<lparr>run := (run vm)\<lparr>pc := dest\<rparr>\<rparr>))))) Q"
  using assms by (fastforce simp: hold_def sm_okE here_def split: prod.splits)

lemma passes_hold:
  assumes "passes E vf z p i cs as" and "at p i opc" and "opc < MinPushdata" and "MaxSmallInt < opc"
    and "\<And>fuel. hold z p (i + 1) cs as (opFuncs E (exec_with (loop E fuel)) opc) (\<lambda>_ z' j cs' as'. passes E vf z' p j cs' as' \<longrightarrow> P)"
  shows P
proof -
  obtain vm fuel vm' where vm: "here vm z p (i + 1) cs as" "opFuncs E (exec_with (loop E fuel)) opc vm = (Inr (), vm')" "leads E vf vm'"
    using passes_op [OF assms(1-4)] by blast
  with assms(5) [of fuel] leads_here show ?thesis unfolding hold_def by blast
qed

subsection \<open>Instructions\<close>

lemma opcode_range:
  "op_Roll < MinPushdata" "MaxSmallInt < op_Roll" "op_Dup < MinPushdata" "MaxSmallInt < op_Dup"
  "op_Peek < MinPushdata" "MaxSmallInt < op_Peek" "op_Untuple < MinPushdata" "MaxSmallInt < op_Untuple"
  "op_Get < MinPushdata" "MaxSmallInt < op_Get" "op_Add < MinPushdata" "MaxSmallInt < op_Add"
  "op_Neg < MinPushdata" "MaxSmallInt < op_Neg" "op_Cat < MinPushdata" "MaxSmallInt < op_Cat"
  "op_Eq < MinPushdata" "MaxSmallInt < op_Eq" "op_JumpIf < MinPushdata" "MaxSmallInt < op_JumpIf"
  "op_CheckSig < MinPushdata" "MaxSmallInt < op_CheckSig" "op_Drop < MinPushdata" "MaxSmallInt < op_Drop"
  "op_Verify < MinPushdata" "MaxSmallInt < op_Verify" "op_Exec < MinPushdata" "MaxSmallInt < op_Exec"
  by (simp_all add: MinPushdata_def MaxSmallInt_def)

lemma opFuncs_at:
  "opFuncs E ex op_Roll = opRoll" "opFuncs E ex op_Dup = opDup" "opFuncs E ex op_Peek = opPeek"
  "opFuncs E ex op_Untuple = opUntuple" "opFuncs E ex op_Get = opGet" "opFuncs E ex op_Add = opAdd"
  "opFuncs E ex op_Neg = opNeg" "opFuncs E ex op_Cat = opCat" "opFuncs E ex op_Eq = opEq"
  "opFuncs E ex op_JumpIf = opJumpIf" "opFuncs E ex op_CheckSig = opCheckSig E" "opFuncs E ex op_Drop = opDrop"
  "opFuncs E ex op_Verify = opVerify" "opFuncs E ex op_Exec = opExec ex"
  by (simp_all add: opFuncs_def opTable_def)


lemma passes_roll:
  assumes "passes E vf z p i cs as" and "at p i op_Roll"
  shows "\<exists>n r. cs = Data (Int64 n) # r \<and> 0 \<le> n \<and> n < len r \<and> passes E vf z p (i + 1) (rolled (nat n) r) as"
  by (rule passes_hold [OF assms]) (auto simp: opcode_range opFuncs_at opRoll_def intro!: holds)

lemma passes_dup:
  assumes "passes E vf z p i cs as" and "at p i op_Dup"
  shows "\<exists>d r. cs = Data d # r \<and> passes E vf z p (i + 1) (Data d # Data d # r) as"
  by (rule passes_hold [OF assms]) (auto simp: opcode_range opFuncs_at opDup_def intro!: holds)

lemma passes_peek:
  assumes "passes E vf z p i cs as" and "at p i op_Peek"
  shows "\<exists>n r d. cs = Data (Int64 n) # r \<and> 0 \<le> n \<and> n < len r \<and> r ! nat n = Data d \<and> passes E vf z p (i + 1) (Data d # r) as"
  by (rule passes_hold [OF assms]) (auto simp: opcode_range opFuncs_at opPeek_def intro!: holds)

lemma passes_untuple:
  assumes "passes E vf z p i cs as" and "at p i op_Untuple"
  shows "\<exists>t r. cs = Data (Tuple t) # r \<and> passes E vf z p (i + 1) (Data (Int64 (wrap64 (len t))) # rev (map Data t) @ r) as"
  by (rule passes_hold [OF assms]) (auto simp: opcode_range opFuncs_at opUntuple_def intro!: holds)

lemma hold_get: "(\<And>x r. as = x # r \<Longrightarrow> Q () z j (x # cs) r) \<Longrightarrow> hold z p j cs as opGet Q"
  by (fastforce simp: hold_def opGet_def push_def here_def stack_pop_Some stack_push_def sm_okE split: prod.splits option.split_asm)

lemma passes_get:
  assumes "passes E vf z p i cs as" and "at p i op_Get"
  shows "\<exists>x r. as = x # r \<and> passes E vf z p (i + 1) (x # cs) r"
  by (rule passes_hold [OF assms]) (auto simp: opcode_range opFuncs_at intro!: hold_get)

lemma passes_add:
  assumes "passes E vf z p i cs as" and "at p i op_Add"
  shows "\<exists>a b r c. cs = Data (Int64 b) # Data (Int64 a) # r \<and> AddInt64 a b = (c, True) \<and> passes E vf z p (i + 1) (Data (Int64 c) # r) as"
  by (rule passes_hold [OF assms]) (auto simp: opcode_range opFuncs_at opAdd_def binOp_def intro!: holds)

lemma passes_neg:
  assumes "passes E vf z p i cs as" and "at p i op_Neg"
  shows "\<exists>a r c. cs = Data (Int64 a) # r \<and> NegateInt64 a = (c, True) \<and> passes E vf z p (i + 1) (Data (Int64 c) # r) as"
  by (rule passes_hold [OF assms]) (auto simp: opcode_range opFuncs_at opNeg_def intro!: holds)

lemma passes_cat:
  assumes "passes E vf z p i cs as" and "at p i op_Cat"
  shows "\<exists>a b r. cs = Data (Bytes b) # Data (Bytes a) # r \<and> passes E vf z p (i + 1) (Data (Bytes (a @ b)) # r) as"
  by (rule passes_hold [OF assms]) (auto simp: opcode_range opFuncs_at opCat_def Let_def intro!: holds)

definition eq_data :: "data \<Rightarrow> data \<Rightarrow> bool" where
  "eq_data v1 v2 = (case v1 of
         Int64 n1 \<Rightarrow> (case v2 of Int64 n2 \<Rightarrow> n1 = n2 | _ \<Rightarrow> False)
       | Bytes b1 \<Rightarrow> (case v2 of Bytes b2 \<Rightarrow> b1 = b2 | _ \<Rightarrow> False)
       | Tuple _ \<Rightarrow> False)"

lemma opEq_eq_data: "opEq = bind popData (\<lambda>v1. bind popData (\<lambda>v2. pushBool (eq_data v1 v2)))"
  by (simp add: opEq_def eq_data_def)

lemma passes_eq:
  assumes "passes E vf z p i cs as" and "at p i op_Eq"
  shows "\<exists>a b r. cs = Data b # Data a # r \<and> passes E vf z p (i + 1) (flag (eq_data b a) # r) as"
  by (rule passes_hold [OF assms]) (auto simp: opcode_range opFuncs_at opEq_eq_data intro!: holds)

lemma passes_drop:
  assumes "passes E vf z p i cs as" and "at p i op_Drop"
  shows "\<exists>x r. cs = x # r \<and> passes E vf z p (i + 1) r as"
  by (rule passes_hold [OF assms]) (auto simp: opcode_range opFuncs_at opDrop_def intro!: holds)

lemma passes_verify:
  assumes "passes E vf z p i cs as" and "at p i op_Verify"
  shows "\<exists>d r. cs = Data d # r \<and> truth d \<and> passes E vf z p (i + 1) r as"
  by (rule passes_hold [OF assms]) (auto simp: opcode_range opFuncs_at opVerify_def intro!: holds)

lemma passes_jumpif:
  assumes "passes E vf z p i cs as" and "at p i op_JumpIf"
  shows "\<exists>n d r j. cs = Data (Int64 n) # Data d # r \<and> (if truth d then AddInt64 (i + 1) n = (j, True) else j = i + 1) \<and> passes E vf z p j r as"
  by (rule passes_hold [OF assms]) (auto simp: opcode_range opFuncs_at opJumpIf_def if_distrib intro!: holds)

definition signed :: "('z) crypto_scheme \<Rightarrow> bytes \<Rightarrow> bytes \<Rightarrow> bytes \<Rightarrow> bool" where
  \<comment> \<open>an Ed25519 signature of the message\<close>
  "signed C msg pubkey sig \<longleftrightarrow> len sig = SignatureSize \<and> len pubkey = PublicKeySize \<and> ed25519_Verify C pubkey msg sig"

lemma passes_checksig:
  assumes "passes E vf z p i cs as" and "at p i op_CheckSig" and "cs = Data (Int64 0) # r"
  shows "\<exists>sig pubkey msg r'. r = Data (Bytes sig) # Data (Bytes pubkey) # Data (Bytes msg) # r' \<and>
    (sig \<noteq> [] \<longrightarrow> signed E msg pubkey sig) \<and> passes E vf z p (i + 1) (flag (sig \<noteq> []) # r') as"
  by (rule passes_hold [OF assms(1,2)])
    (auto simp: opcode_range opFuncs_at opCheckSig_def checkEd25519_def signed_def assms(3) intro!: holds)

definition execs :: "'o env \<Rightarrow> 'o vm \<Rightarrow> ctx \<Rightarrow> bytes \<Rightarrow> item list \<Rightarrow> item list \<Rightarrow> bool" where
  \<comment> \<open>the run executes a program on the stacks\<close>
  "execs E vf z q cs as \<longleftrightarrow> (\<exists>vm fuel vm'. rev (cstack vm) = cs \<and> rev (argstack vm) = as \<and> ctx_of vm = z \<and> \<not> unwinding vm \<and>
     \<not> (Finalized vm \<and> stopAfterFinalize vm) \<and> exec E fuel q vm = (Inr (), vm') \<and> leads E vf vm')"

lemma passes_exec:
  assumes "passes E vf z p i cs as" and "at p i op_Exec"
  shows "\<exists>q r. cs = Data (Bytes q) # r \<and> execs E vf z q r as"
proof -
  obtain vm fuel vm' where vm: "here vm z p (i + 1) cs as" "opExec (exec_with (loop E fuel)) vm = (Inr (), vm')" "leads E vf vm'"
    using passes_op [OF assms] unfolding opFuncs_at by (metis opcode_range(27,28))
  from vm(2) obtain q vm1 where q: "popBytes vm = (Inr q, vm1)" "exec E fuel q vm1 = (Inr (), vm')"
    by (auto simp: opExec_def exec_def sm_okE)
  from here_popBytes [OF q(1) vm(1)] q(2) vm(3) show ?thesis unfolding execs_def here_def by blast
qed

lemma hold_txid:
  assumes "\<And>h. c_txid z = Some h \<Longrightarrow> Q () z j (Data (Bytes h) # cs) as"
  shows "hold z p j cs as opTxID Q"
  unfolding hold_def
proof (intro allI impI, elim conjE)
  fix vm x vm'
  assume a: "here vm z p j cs as" "opTxID vm = (Inr x, vm')"
  then have z: "c_txid z = Some (TxID vm)" and "andthen (chargeCopy (Bytes (TxID vm))) (push (Data (Bytes (TxID vm)))) vm = (Inr x, vm')"
    by (auto simp: opTxID_def bind_ok andthen_ok gets_ok guard_ok here_def ctx_of_def)
  moreover have "hold z p j cs as (andthen (chargeCopy (Bytes (TxID vm))) (push (Data (Bytes (TxID vm))))) Q"
    using assms [OF z] by (intro holds)
  ultimately show "\<exists>z' j' cs' as'. here vm' z' p j' cs' as' \<and> Q x z' j' cs' as'" using a(1) unfolding hold_def by blast
qed

lemma passes_txid:
  assumes "passes E vf z p i cs as" and "at p i op_TxID"
  shows "\<exists>h. c_txid z = Some h \<and> passes E vf z p (i + 1) (Data (Bytes h) # cs) as"
  by (rule passes_hold [OF assms]) (auto simp: MinPushdata_def MaxSmallInt_def opFuncs_def opTable_def intro!: hold_txid)

lemma passes_pushdata:
  assumes "passes E vf z p i cs as" and "0 \<le> i" and "i < len p" and "DecodeInst (drop (nat i) p) = Inr (MinPushdata, d, n)"
  shows "passes E vf z p (i + n) (Data (Bytes d) # cs) as"
proof -
  have k: "\<not> IsSmallIntOp MinPushdata" "IsPushdataOp MinPushdata"
    by (auto simp: IsSmallIntOp_def IsPushdataOp_def MinPushdata_def MaxSmallInt_def)
  obtain vm vm' where vm: "here vm z p (i + n) cs as"
    "andthen (chargeCreate (Data (Bytes d))) (push (Data (Bytes d))) vm = (Inr (), vm')" "leads E vf vm'"
    using passes_step [OF assms] unfolding if_not_P [OF k(1)] if_P [OF k(2)] by metis
  have "hold z p (i + n) cs as (andthen (chargeCreate (Data (Bytes d))) (push (Data (Bytes d))))
      (\<lambda>_ z' j cs' as'. z' = z \<and> j = i + n \<and> cs' = Data (Bytes d) # cs \<and> as' = as)" by (intro holds conjI refl)
  with vm leads_here show ?thesis unfolding hold_def by blast
qed

lemma exec_passes:
  assumes "exec E fuel p vm = (Inr (), vm')" and "\<not> unwinding vm" and "\<not> (Finalized vm \<and> stopAfterFinalize vm)"
  obtains vf where "passes E vf (ctx_of vm) p 0 (rev (cstack vm)) (rev (argstack vm))"
    and "argstack vm' = argstack vf" and "contract vm' = contract vf" and "unwinding vm' = unwinding vf" and "Log vm' = Log vf"
proof -
  let ?vm = "if len (prog (run vm)) > 0 then vm\<lparr>runstack := runstack vm @ [run vm]\<rparr> else vm"
  obtain vf where "loop E fuel (?vm\<lparr>run := \<lparr>pc = 0, prog = p\<rparr>\<rparr>) = (Inr (), vf)" and vf: "argstack vm' = argstack vf"
    "contract vm' = contract vf" "unwinding vm' = unwinding vf" "Log vm' = Log vf"
    using assms(1) by (auto simp: exec_def exec_with_def Let_def split: prod.splits if_splits)
  moreover have "here (?vm\<lparr>run := \<lparr>pc = 0, prog = p\<rparr>\<rparr>) (ctx_of vm) p 0 (rev (cstack vm)) (rev (argstack vm))"
    using assms(2,3) by (simp add: here_def)
  ultimately have "passes E vf (ctx_of vm) p 0 (rev (cstack vm)) (rev (argstack vm))" unfolding passes_def completes_def by blast
  then show ?thesis using vf by (rule that)
qed

subsection \<open>Values, the log and contracts\<close>

lemma hold_gets [holds]:
  "Q (rev cs) z j cs as \<Longrightarrow> hold z p j cs as (gets cstack) Q"
  "Q1 (c_caller z) z j cs as \<Longrightarrow> hold z p j cs as (gets caller) Q1"
  "Q2 (c_seed z) z j cs as \<Longrightarrow> hold z p j cs as (gets (seed \<circ> contract)) Q2"
  by (force simp: hold_def here_def ctx_of_def gets_ok)+

lemma hold_value [holds]:
  "(\<And>v r. cs = Value v # r \<Longrightarrow> Q v z j r as) \<Longrightarrow> hold z p j cs as popValue Q"
  "(\<And>v r. cs = Value v # r \<Longrightarrow> Q1 v z j cs as) \<Longrightarrow> hold z p j cs as peekValue Q1"
  "(\<And>v r. cs = Value v # r \<Longrightarrow> isZero v \<Longrightarrow> Q2 v z j r as) \<Longrightarrow> hold z p j cs as popZeroValue Q2"
proof -
  show pv: "hold z p j cs as popValue Q" if "\<And>v r. cs = Value v # r \<Longrightarrow> Q v z j r as" for Q
    unfolding popValue_def using that by (intro holds) (fastforce simp: hold_def return_ok panic_ok split: item.splits data.splits)
  show "hold z p j cs as peekValue Q1" if "\<And>v r. cs = Value v # r \<Longrightarrow> Q1 v z j cs as"
    unfolding peekValue_def using that by (intro holds) (fastforce simp: hold_def return_ok panic_ok split: item.splits data.splits)
  show "hold z p j cs as popZeroValue Q2" if "\<And>v r. cs = Value v # r \<Longrightarrow> isZero v \<Longrightarrow> Q2 v z j r as"
    unfolding popZeroValue_def using that by (intro holds pv) auto
qed

lemma hold_log [holds]:
  assumes "c_txid z = None \<Longrightarrow> Q v (z\<lparr>c_log := c_log z @ [v]\<rparr>) j cs as"
  shows "hold z p j cs as (vmlog E v) Q"
  unfolding hold_def
proof (intro allI impI, elim conjE)
  fix vm x vm'
  assume a: "here vm z p j cs as" "vmlog E v vm = (Inr x, vm')"
  then obtain vm1 where v: "\<not> Finalized vm" "chargeCreate (Data (Tuple v)) vm = (Inr (), vm1)" "x = v"
    "vm' = runHooks (onLog E) (vm1\<lparr>Log := Log vm1 @ [v]\<rparr>)" by (auto simp: vmlog_def sm_okE)
  have h: "here vm1 z p j cs as" by (rule here_chargeCreate [OF v(2) a(1)])
  then have "here (vm1\<lparr>Log := Log vm1 @ [v]\<rparr>) (z\<lparr>c_log := c_log z @ [v]\<rparr>) p j cs as" by (auto simp: here_def ctx_of_def)
  moreover have "c_txid z = None" using v(1) a(1) by (auto simp: here_def ctx_of_def)
  ultimately show "\<exists>z' j' cs' as'. here vm' z' p j' cs' as' \<and> Q x z' j' cs' as'"
    using assms by (auto simp: v(3,4) here_runHooks)
qed

definition buried :: "nat \<Rightarrow> 'a list \<Rightarrow> 'a list" where
  "buried k xs = (case xs of [] \<Rightarrow> [] | x # r \<Rightarrow> take k r @ x # drop k r)"

lemma hold_bury [holds]:
  assumes "0 \<le> n \<Longrightarrow> n < len cs \<Longrightarrow> Q () z j (buried (nat n) cs) as"
  shows "hold z p j cs as (replace_stack (stack_bury (rev cs) n)) Q"
  unfolding hold_def
proof (intro allI impI, elim conjE)
  fix vm x vm'
  assume a: "here vm z p j cs as" "replace_stack (stack_bury (rev cs) n) vm = (Inr x, vm')"
  from a(2) obtain s where s: "stack_bury (rev cs) n = Inr s" "vm' = put_stack s vm" by (auto simp: replace_stack_def sm_okE split: sum.splits)
  from s(1) obtain l y b where l: "rev cs = l @ b @ [y]" "len b = n" "s = l @ y # b" by (auto simp: stack_bury_Inr)
  then have "cs = y # rev b @ rev l" by (metis append.assoc rev_append rev_rev_ident rev_singleton_conv append_Cons append_Nil)
  with l(2,3) have "rev s = buried (nat n) cs" "0 \<le> n" "n < len cs" by (auto simp: buried_def len_def)
  with a(1) assms s(2) show "\<exists>z' j' cs' as'. here vm' z' p j' cs' as' \<and> Q x z' j' cs' as'"
    by (intro exI [of _ z] exI [of _ j] exI [of _ "buried (nat n) cs"] exI [of _ as]) (auto simp: here_def)
qed

lemma hold_roll' [holds]:
  "(0 \<le> n \<Longrightarrow> n < len cs \<Longrightarrow> Q () z j (rolled (nat n) cs) as) \<Longrightarrow> hold z p j cs as (replace_stack (stack_roll (rev cs) n)) Q"
  using hold_roll [of n cs Q z j as p] by (fastforce simp: hold_def here_def bind_ok gets_ok)

lemma hold_popDatas [holds]:
  "(\<And>vs r. cs = map Data (rev vs) @ r \<Longrightarrow> length vs = n \<Longrightarrow> Q vs z j r as) \<Longrightarrow> hold z p j cs as (popDatas n) Q"
proof (induction n arbitrary: cs Q)
  case (Suc n)
  show ?case
    unfolding popDatas.simps
  proof (intro holds Suc.IH)
    fix d r vs r'
    assume "cs = Data d # r" "r = map Data (rev vs) @ r'" "length vs = n"
    then show "Q (vs @ [d]) z j r' as" by (intro Suc.prems) auto
  qed
qed (auto simp: hold_def return_ok)

lemma hold_put: "(\<And>x r. cs = x # r \<Longrightarrow> Q () z j r (x # as)) \<Longrightarrow> hold z p j cs as opPut Q"
  unfolding opPut_def by (intro holds) (auto simp: hold_def modify_ok here_def stack_push_def)

lemma more_opcodes:
  "op_Anchor < MinPushdata" "MaxSmallInt < op_Anchor" "op_Put < MinPushdata" "MaxSmallInt < op_Put"
  "op_Log < MinPushdata" "MaxSmallInt < op_Log" "op_Yield < MinPushdata" "MaxSmallInt < op_Yield"
  "op_Not < MinPushdata" "MaxSmallInt < op_Not" "op_Bury < MinPushdata" "MaxSmallInt < op_Bury"
  "op_Tuple < MinPushdata" "MaxSmallInt < op_Tuple" "op_Encode < MinPushdata" "MaxSmallInt < op_Encode"
  "op_Nonce < MinPushdata" "MaxSmallInt < op_Nonce" "op_Issue < MinPushdata" "MaxSmallInt < op_Issue"
  "op_Output < MinPushdata" "MaxSmallInt < op_Output" "op_Retire < MinPushdata" "MaxSmallInt < op_Retire"
  by (simp_all add: MinPushdata_def MaxSmallInt_def)

lemma more_opFuncs:
  "opFuncs E ex op_Anchor = opAnchor" "opFuncs E ex op_Put = opPut" "opFuncs E ex op_Log = opLog E" "opFuncs E ex op_Yield = opYield"
  "opFuncs E ex op_Not = opNot" "opFuncs E ex op_Bury = opBury" "opFuncs E ex op_Tuple = opTuple" "opFuncs E ex op_Encode = opEncode"
  "opFuncs E ex op_Nonce = opNonce E" "opFuncs E ex op_Issue = opIssue E" "opFuncs E ex op_Output = opOutput E"
  "opFuncs E ex op_Retire = opRetire E"
  by (simp_all add: opFuncs_def opTable_def)

lemma passes_anchor:
  assumes "passes E vf z p i cs as" and "at p i op_Anchor"
  shows "\<exists>v r. cs = Value v # r \<and> passes E vf z p (i + 1) (Data (Bytes (anchor v)) # Value v # r) as"
  by (rule passes_hold [OF assms]) (auto simp: more_opcodes more_opFuncs opAnchor_def intro!: holds)

lemma passes_put:
  assumes "passes E vf z p i cs as" and "at p i op_Put"
  shows "\<exists>x r. cs = x # r \<and> passes E vf z p (i + 1) r (x # as)"
  by (rule passes_hold [OF assms]) (auto simp: more_opcodes more_opFuncs intro!: hold_put)

definition logged :: "data list \<Rightarrow> ctx \<Rightarrow> ctx" where
  "logged v z = z\<lparr>c_log := c_log z @ [v]\<rparr>"

lemma passes_log:
  assumes "passes E vf z p i cs as" and "at p i op_Log"
  shows "\<exists>d r. cs = Data d # r \<and> c_txid z = None \<and> passes E vf (logged [Bytes [LogCode], Bytes (c_seed z), d] z) p (i + 1) r as"
  by (rule passes_hold [OF assms]) (auto simp: more_opcodes more_opFuncs opLog_def logged_def intro!: holds)

lemma passes_not:
  assumes "passes E vf z p i cs as" and "at p i op_Not"
  shows "\<exists>d r. cs = Data d # r \<and> passes E vf z p (i + 1) (flag (\<not> truth d) # r) as"
  by (rule passes_hold [OF assms]) (auto simp: more_opcodes more_opFuncs opNot_def intro!: holds)

lemma passes_bury:
  assumes "passes E vf z p i cs as" and "at p i op_Bury"
  shows "\<exists>n r. cs = Data (Int64 n) # r \<and> 0 \<le> n \<and> n < len r \<and> passes E vf z p (i + 1) (buried (nat n) r) as"
  by (rule passes_hold [OF assms]) (auto simp: more_opcodes more_opFuncs opBury_def intro!: holds)

lemma passes_tuple:
  assumes "passes E vf z p i cs as" and "at p i op_Tuple"
  shows "\<exists>n vs r. cs = Data (Int64 n) # map Data (rev vs) @ r \<and> 0 \<le> n \<and> length vs = nat n \<and>
    passes E vf z p (i + 1) (Data (Tuple vs) # r) as"
  by (rule passes_hold [OF assms]) (auto simp: more_opcodes more_opFuncs opTuple_def not_less intro!: holds)

lemma passes_encode:
  assumes "passes E vf z p i cs as" and "at p i op_Encode"
  shows "\<exists>d r. cs = Data d # r \<and> passes E vf z p (i + 1) (Data (Bytes (Encode d)) # r) as"
  by (rule passes_hold [OF assms]) (auto simp: more_opcodes more_opFuncs opEncode_def Let_def intro!: holds)

lemma passes_nonce:
  assumes "passes E vf z p i cs as" and "at p i op_Nonce"
  shows "\<exists>n b r v. cs = Data (Int64 n) # Data (Bytes b) # r \<and>
    (let nonce = NonceTuple (c_caller z) (c_seed z) b n in
     v = \<lparr>amount = 0, assetID = zeroAssetID, anchor = NonceHash E nonce\<rparr> \<and>
     passes E vf (logged [Bytes [TimerangeCode], Bytes (c_seed z), Int64 0, Int64 n] (logged nonce z)) p (i + 1) (Value v # r) as)"
  by (rule passes_hold [OF assms]) (auto simp: more_opcodes more_opFuncs opNonce_def logNonce_def logTimeRange_def createValue_def
      logged_def Let_def intro!: holds)

lemma passes_issue:
  assumes "passes E vf z p i cs as" and "at p i op_Issue"
  shows "\<exists>tag amt v r. cs = Data (Bytes tag) # Data (Int64 amt) # Value v # r \<and> 0 \<le> amt \<and> isZero v \<and>
    passes E vf (logged [Bytes [IssueCode], Bytes (c_caller z), Int64 amt, Bytes (AssetID E (c_seed z) tag), Bytes (anchor v)] z)
      p (i + 1) (Value \<lparr>amount = amt, assetID = AssetID E (c_seed z) tag, anchor = anchor v\<rparr> # r) as"
  by (rule passes_hold [OF assms]) (auto simp: more_opcodes more_opFuncs opIssue_def logIssuance_def createValue_def
      logged_def Let_def intro!: holds)

lemma passes_retire:
  assumes "passes E vf z p i cs as" and "at p i op_Retire"
  shows "\<exists>v r. cs = Value v # r \<and> passes E vf (logged [Bytes [RetireCode], Bytes (c_seed z), Int64 (amount v), Bytes (assetID v), Bytes (anchor v)] z)
      p (i + 1) r as"
  by (rule passes_hold [OF assms]) (auto simp: more_opcodes more_opFuncs opRetire_def logRetirement_def logged_def intro!: holds)

text \<open>A program that yields or outputs ends there.\<close>

lemma leads_unwinding:
  assumes "leads E vf vm" and "unwinding vm"
  shows "argstack vf = argstack vm" "contract vf = contract vm" "unwinding vf" "Log vf = Log vm"
proof -
  have "completes E vf (runHooks (afterStep E) vm) \<Longrightarrow> vf = runHooks (afterStep E) vm"
    using assms(2) runHooks_obs [of "afterStep E" vm]
    by (auto simp: completes_def) (case_tac fuel, auto simp: panic_ok sm_okE split: if_splits)
  with assms(1) have "vf = runHooks (afterStep E) vm" by (auto simp: leads_def Let_def)
  with assms(2) runHooks_obs [of "afterStep E" vm]
  show "argstack vf = argstack vm" "contract vf = contract vm" "unwinding vf" "Log vf = Log vm" by auto
qed

lemma contract_fields: "set_program q c = MkContract (typecode c) (seed c) q (stack c)"
  by (cases c) simp

lemma passes_yield:
  assumes "passes E vf z p i cs as" and "at p i op_Yield"
  shows "\<exists>q r. cs = Data (Bytes q) # r \<and> unwinding vf \<and> Log vf = c_log z \<and>
    argstack vf = rev as @ [Contract (MkContract (c_type z) (c_seed z) q (rev r))]"
proof -
  obtain vm fuel vm' where vm: "here vm z p (i + 1) cs as" "opYield vm = (Inr (), vm')" "leads E vf vm'"
    using passes_op [OF assms] unfolding more_opFuncs by (metis more_opcodes(7,8))
  from vm(2) obtain q vm1 where q: "popBytes vm = (Inr q, vm1)" and vm': "vm' = (let v = vm1\<lparr>contract := set_program q (contract vm1)\<rparr> in
      v\<lparr>argstack := stack_push (argstack v) (Contract (contract v)), unwinding := True\<rparr>)"
    by (auto simp: opYield_def sm_okE Let_def)
  from here_popBytes [OF q vm(1)] obtain r where r: "cs = Data (Bytes q) # r" "here vm1 z p (i + 1) r as" by auto
  with leads_unwinding [OF vm(3)] show ?thesis
    by (auto simp: vm' Let_def here_def ctx_of_def stack_push_def contract_fields)
qed

lemma passes_output:
  assumes "passes E vf z p i cs as" and "at p i op_Output"
  shows "\<exists>q r. cs = Data (Bytes q) # r \<and> unwinding vf \<and> argstack vf = rev as \<and>
    (let con = MkContract (c_type z) (c_seed z) q (rev r) in
     contract vf = con \<and> Log vf = c_log z @ [[Bytes [OutputCode], Bytes (c_caller z), Bytes (snd (snapshot E con))]])"
proof -
  obtain vm fuel vm' where vm: "here vm z p (i + 1) cs as" "opOutput E vm = (Inr (), vm')" "leads E vf vm'"
    using passes_op [OF assms] unfolding more_opFuncs by (metis more_opcodes(21,22))
  from vm(2) obtain q vm1 vm2 vm3 x where q: "popBytes vm = (Inr q, vm1)"
    and c: "chargeCreate (Data (Bytes (fst (snapshot E (set_program q (contract vm1)))))) (vm1\<lparr>contract := set_program q (contract vm1)\<rparr>) = (Inr (), vm2)"
    and l: "logOutput E (snd (snapshot E (set_program q (contract vm1)))) vm2 = (Inr x, vm3)" and vm': "vm' = vm3\<lparr>unwinding := True\<rparr>"
    by (auto simp: opOutput_def sm_okE case_prod_beta)
  from here_popBytes [OF q vm(1)] obtain r where r: "cs = Data (Bytes q) # r" "here vm1 z p (i + 1) r as" by auto
  from chargeCreate_runlimit [OF c] obtain n where vm2: "vm2 = vm1\<lparr>contract := set_program q (contract vm1), runlimit := n\<rparr>" by auto
  from l obtain vm4 where "chargeCreate (Data (Tuple [Bytes [OutputCode], Bytes (caller vm2), Bytes (snd (snapshot E (set_program q (contract vm1))))])) vm2 = (Inr (), vm4)"
    and vm3: "vm3 = runHooks (onLog E) (vm4\<lparr>Log := Log vm4 @ [[Bytes [OutputCode], Bytes (caller vm2), Bytes (snd (snapshot E (set_program q (contract vm1))))]]\<rparr>)"
    by (auto simp: logOutput_def vmlog_def sm_okE)
  from chargeCreate_runlimit [OF this(1)] vm3 runHooks_obs [of "onLog E"] obtain m w where
    "vm3 = vm2\<lparr>runlimit := m, Log := Log vm2 @ [[Bytes [OutputCode], Bytes (caller vm2), Bytes (snd (snapshot E (set_program q (contract vm1))))]], obs := w\<rparr>"
    by (metis vm.select_convs(14) vm.surjective vm.update_convs(14) vm.update_convs(16) vm.update_convs(2))
  with r leads_unwinding [OF vm(3)] show ?thesis
    by (auto simp: vm' vm2 Let_def here_def ctx_of_def contract_fields)
qed

end
