(* ===== verification/Multisig.thy ===== *)
theory Multisig
  imports Standard VMRuns
begin

text \<open>
  What the multisignature contracts do when they run: the check of a quorum of signatures, the contract that locks a value
  under it, and the unlocking of the value.
\<close>

section \<open>The multisignature check\<close>

lemma at_check:
  "at multisigProgCheck 0 1" "at multisigProgCheck 1 op_Roll" "at multisigProgCheck 2 op_Untuple" "at multisigProgCheck 3 op_Get" "at multisigProgCheck 4 op_Dup"
  "at multisigProgCheck 5 2" "at multisigProgCheck 6 op_Peek" "at multisigProgCheck 7 3" "at multisigProgCheck 8 op_Add" "at multisigProgCheck 9 op_Roll"
  "at multisigProgCheck 10 op_Cat" "at multisigProgCheck 11 0" "at multisigProgCheck 12 3" "at multisigProgCheck 13 op_Roll" "at multisigProgCheck 14 op_Dup"
  "at multisigProgCheck 15 0" "at multisigProgCheck 16 op_Eq" "at multisigProgCheck 17 19" "at multisigProgCheck 18 op_JumpIf" "at multisigProgCheck 19 2"
  "at multisigProgCheck 20 op_Peek" "at multisigProgCheck 21 5" "at multisigProgCheck 22 op_Roll" "at multisigProgCheck 23 op_Get" "at multisigProgCheck 24 0"
  "at multisigProgCheck 25 op_CheckSig" "at multisigProgCheck 26 2" "at multisigProgCheck 27 op_Roll" "at multisigProgCheck 28 op_Add" "at multisigProgCheck 29 1"
  "at multisigProgCheck 30 op_Roll" "at multisigProgCheck 31 1" "at multisigProgCheck 32 op_Neg" "at multisigProgCheck 33 op_Add" "at multisigProgCheck 34 1"
  "at multisigProgCheck 35 24" "at multisigProgCheck 36 op_Neg" "at multisigProgCheck 37 op_JumpIf" "at multisigProgCheck 38 op_Drop" "at multisigProgCheck 39 3"
  "at multisigProgCheck 40 op_Roll" "at multisigProgCheck 41 op_Eq" "at multisigProgCheck 42 op_Verify" "at multisigProgCheck 43 op_Drop" "at multisigProgCheck 44 op_Exec"
  by (simp_all add: at_def multisigProgCheck_def len_def)

lemma check_end:
  assumes "passes E vf z multisigProgCheck 38 (Data (Int64 0) # Data (Int64 t) # Data (Bytes msg) # Data (Bytes q) # x # base) as"
  shows "x = Data (Int64 t) \<and> execs E vf z q base as"
proof -
  let ?P = "\<lambda>i cs. passes E vf z multisigProgCheck i cs as"
  from passes_drop [OF assms at_check(39)] have "?P 39 (Data (Int64 t) # Data (Bytes msg) # Data (Bytes q) # x # base)"
    by simp
  from passes_small [OF this at_check(40)] have "?P 40 (Data (Int64 3) # Data (Int64 t) # Data (Bytes msg) # Data (Bytes q) # x # base)"
    by (simp add: MaxSmallInt_def)
  from passes_roll [OF this at_check(41)] have "?P 41 (x # Data (Int64 t) # Data (Bytes msg) # Data (Bytes q) # base)"
    by (simp add: rolled_def)
  from passes_eq [OF this at_check(42)] obtain d where x: "x = Data d" and "?P 42 (flag (eq_data d (Int64 t)) # Data (Bytes msg) # Data (Bytes q) # base)"
    by auto
  from passes_verify [OF this(2) at_check(43)] have e: "eq_data d (Int64 t)" and "?P 43 (Data (Bytes msg) # Data (Bytes q) # base)"
    by (auto simp: flag_def truth_def split: if_splits)
  from passes_drop [OF this(2) at_check(44)] have "?P 44 (Data (Bytes q) # base)"
    by simp
  from passes_exec [OF this at_check(45)] have "execs E vf z q base as"
    by auto
  with x e show ?thesis by (auto simp: eq_data_def split: data.splits)
qed

lemma AddInt64_True: "is_int64 a \<Longrightarrow> is_int64 b \<Longrightarrow> AddInt64 a b = (c, True) \<longleftrightarrow> c = a + b \<and> is_int64 c"
  and NegateInt64_True: "is_int64 a \<Longrightarrow> NegateInt64 a = (c, True) \<longleftrightarrow> c = - a \<and> is_int64 c"
  by (auto simp: AddInt64_def AddInt_exact NegateInt64_def NegateInt_exact)

text \<open>One round of the loop takes a key and a signature, and counts the signature if it is not empty.\<close>

lemma check_signature:
  assumes "passes E vf z multisigProgCheck 14 (Data (Int64 n) # Data (Int64 t) # Data (Bytes msg) # Data (Bytes q) # k # r) as"
    and "n \<noteq> 0"
  shows "\<exists>pubkey sig as'. k = Data (Bytes pubkey) \<and> as = Data (Bytes sig) # as' \<and> (sig \<noteq> [] \<longrightarrow> signed E msg pubkey sig) \<and>
    passes E vf z multisigProgCheck 26 (flag (sig \<noteq> []) # Data (Int64 n) # Data (Int64 t) # Data (Bytes msg) # Data (Bytes q) # r) as'"
proof -
  let ?P = "passes E vf z multisigProgCheck"
  let ?s = "Data (Bytes msg) # Data (Bytes q) # k # r"
  let ?m = "Data (Bytes msg) # Data (Int64 n) # Data (Int64 t) # Data (Bytes msg) # Data (Bytes q) # r"
  note [simp] = MaxSmallInt_def rolled_def
  from passes_dup [OF assms(1) at_check(15)] have "?P 15 (Data (Int64 n) # Data (Int64 n) # Data (Int64 t) # ?s) as" by simp
  from passes_small [OF this at_check(16)] have "?P 16 (Data (Int64 0) # Data (Int64 n) # Data (Int64 n) # Data (Int64 t) # ?s) as" by simp
  from passes_eq [OF this at_check(17)] assms(2) have "?P 17 (Data (Int64 0) # Data (Int64 n) # Data (Int64 t) # ?s) as"
    by (simp add: eq_data_def flag_def)
  from passes_small [OF this at_check(18)] have "?P 18 (Data (Int64 19) # Data (Int64 0) # Data (Int64 n) # Data (Int64 t) # ?s) as" by simp
  from passes_jumpif [OF this at_check(19)] have "?P 19 (Data (Int64 n) # Data (Int64 t) # ?s) as" by (simp add: truth_def)
  from passes_small [OF this at_check(20)] have "?P 20 (Data (Int64 2) # Data (Int64 n) # Data (Int64 t) # ?s) as" by simp
  from passes_peek [OF this at_check(21)] have "?P 21 (Data (Bytes msg) # Data (Int64 n) # Data (Int64 t) # ?s) as" by simp
  from passes_small [OF this at_check(22)] have "?P 22 (Data (Int64 5) # Data (Bytes msg) # Data (Int64 n) # Data (Int64 t) # ?s) as" by simp
  from passes_roll [OF this at_check(23)] have "?P 23 (k # ?m) as" by simp
  from passes_get [OF this at_check(24)] obtain s as' where as: "as = s # as'" and "?P 24 (s # k # ?m) as'" by auto
  from passes_small [OF this(2) at_check(25)] have "?P 25 (Data (Int64 0) # s # k # ?m) as'" by simp
  from passes_checksig [OF this at_check(26) refl] as show ?thesis by auto
qed

lemma check_count:
  assumes "passes E vf z multisigProgCheck 26 (Data (Int64 c) # Data (Int64 n) # Data (Int64 t) # Data (Bytes msg) # Data (Bytes q) # r) as"
    and "is_int64 n" and "is_int64 t" and "is_int64 c"
  shows "passes E vf z multisigProgCheck 14 (Data (Int64 (n - 1)) # Data (Int64 (t + c)) # Data (Bytes msg) # Data (Bytes q) # r) as"
proof -
  let ?P = "\<lambda>i cs. passes E vf z multisigProgCheck i (cs @ Data (Bytes msg) # Data (Bytes q) # r) as"
  note [simp] = MaxSmallInt_def rolled_def is_int64_iff AddInt64_True NegateInt64_True
  from passes_small [OF assms(1) at_check(27)] have "?P 27 [Data (Int64 2), Data (Int64 c), Data (Int64 n), Data (Int64 t)]" by simp
  from passes_roll [OF this at_check(28)] have "?P 28 [Data (Int64 t), Data (Int64 c), Data (Int64 n)]" by simp
  from passes_add [OF this at_check(29)] assms(3,4) have "?P 29 [Data (Int64 (t + c)), Data (Int64 n)]" by (auto simp: add.commute)
  from passes_small [OF this at_check(30)] have "?P 30 [Data (Int64 1), Data (Int64 (t + c)), Data (Int64 n)]" by simp
  from passes_roll [OF this at_check(31)] have "?P 31 [Data (Int64 n), Data (Int64 (t + c))]" by simp
  from passes_small [OF this at_check(32)] have "?P 32 [Data (Int64 1), Data (Int64 n), Data (Int64 (t + c))]" by simp
  from passes_neg [OF this at_check(33)] have "?P 33 [Data (Int64 (- 1)), Data (Int64 n), Data (Int64 (t + c))]" by auto
  from passes_add [OF this at_check(34)] assms(2) have "?P 34 [Data (Int64 (n - 1)), Data (Int64 (t + c))]" by auto
  from passes_small [OF this at_check(35)] have "?P 35 [Data (Int64 1), Data (Int64 (n - 1)), Data (Int64 (t + c))]" by simp
  from passes_small [OF this at_check(36)] have "?P 36 [Data (Int64 24), Data (Int64 1), Data (Int64 (n - 1)), Data (Int64 (t + c))]" by simp
  from passes_neg [OF this at_check(37)] have "?P 37 [Data (Int64 (- 24)), Data (Int64 1), Data (Int64 (n - 1)), Data (Int64 (t + c))]" by auto
  from passes_jumpif [OF this at_check(38)] show ?thesis by (auto simp: truth_def)
qed

definition signatures_ok :: "('z) crypto_scheme \<Rightarrow> bytes \<Rightarrow> data list \<Rightarrow> bytes list \<Rightarrow> bool" where
  \<comment> \<open>one signature per key, each of them empty or valid\<close>
  "signatures_ok C msg keys sigs \<longleftrightarrow>
     list_all2 (\<lambda>k s. \<exists>pubkey. k = Bytes pubkey \<and> (s = [] \<or> signed C msg pubkey s)) keys sigs"

lemma check_loop:
  assumes "passes E vf z multisigProgCheck 14 (Data (Int64 (len ks)) # Data (Int64 t) # Data (Bytes msg) # Data (Bytes q) # map Data ks @ x # base) as"
    and "0 \<le> t" and "t + len ks < 2 ^ 63"
  shows "\<exists>sigs rest. as = map (Data \<circ> Bytes) sigs @ rest \<and> signatures_ok E msg ks sigs \<and>
    x = Data (Int64 (t + len (filter (\<lambda>s. s \<noteq> []) sigs))) \<and>
    execs E vf z q base rest"
  using assms
proof (induction ks arbitrary: t as)
  case Nil
  let ?P = "\<lambda>i cs. passes E vf z multisigProgCheck i (cs @ Data (Int64 t) # Data (Bytes msg) # Data (Bytes q) # x # base) as"
  note [simp] = MaxSmallInt_def is_int64_iff AddInt64_True
  from passes_dup [OF Nil(1) at_check(15)] have "?P 15 [Data (Int64 0), Data (Int64 0)]" by simp
  from passes_small [OF this at_check(16)] have "?P 16 [Data (Int64 0), Data (Int64 0), Data (Int64 0)]" by simp
  from passes_eq [OF this at_check(17)] have "?P 17 [Data (Int64 1), Data (Int64 0)]" by (simp add: eq_data_def flag_def)
  from passes_small [OF this at_check(18)] have "?P 18 [Data (Int64 19), Data (Int64 1), Data (Int64 0)]" by simp
  from passes_jumpif [OF this at_check(19)] have "?P 38 [Data (Int64 0)]" by (auto simp: truth_def)
  then show ?case using check_end [of E vf z t msg q x base as] by (auto simp: signatures_ok_def intro!: exI [of _ "[]"])
next
  case (Cons k ks)
  have r: "is_int64 (len (k # ks))" "is_int64 t" using Cons.prems(2,3) by (auto simp: is_int64_iff len_def)
  from check_signature [of E vf z "len (k # ks)" t msg q "Data k" "map Data ks @ x # base" as] Cons.prems(1)
  obtain pubkey sig as' where s: "k = Bytes pubkey" "as = Data (Bytes sig) # as'" "sig \<noteq> [] \<longrightarrow> signed E msg pubkey sig"
    and "passes E vf z multisigProgCheck 26 (flag (sig \<noteq> []) # Data (Int64 (len (k # ks))) # Data (Int64 t) # Data (Bytes msg) # Data (Bytes q) # map Data ks @ x # base) as'"
    by (auto simp: len_def)
  from check_count [OF this(4) [unfolded flag_def] r]
  have "passes E vf z multisigProgCheck 14 (Data (Int64 (len ks)) # Data (Int64 (t + of_bool (sig \<noteq> []))) # Data (Bytes msg) # Data (Bytes q) # map Data ks @ x # base) as'"
    by (simp add: is_int64_iff of_bool_def)
  note IH = Cons.IH [OF this]
  have "0 \<le> t + of_bool (sig \<noteq> [])" "t + of_bool (sig \<noteq> []) + len ks < 2 ^ 63"
    using Cons.prems(2,3) by (auto simp: len_def)
  from IH [OF this] obtain sigs rest where
    "as' = map (Data \<circ> Bytes) sigs @ rest" "signatures_ok E msg ks sigs"
    "x = Data (Int64 (t + of_bool (sig \<noteq> []) + len (filter (\<lambda>s. s \<noteq> []) sigs)))"
    "execs E vf z q base rest"
    by blast
  with s show ?case by (intro exI [of _ "sig # sigs"] exI [of _ rest]) (auto simp: signatures_ok_def)
qed

lemma check_start:
  assumes "passes E vf z multisigProgCheck 0 (x # Data (Tuple keys) # r) as" and "len keys + 3 < 2 ^ 63"
  shows "\<exists>anchor q as'. x = Data (Bytes anchor) \<and> as = Data (Bytes q) # as' \<and>
    passes E vf z multisigProgCheck 14 (Data (Int64 (len keys)) # Data (Int64 0) # Data (Bytes (q @ anchor)) # Data (Bytes q) # rev (map Data keys) @ r) as'"
proof -
  let ?P = "passes E vf z multisigProgCheck" and ?n = "Data (Int64 (len keys))" and ?k = "rev (map Data keys)"
  have w: "wrap64 (len keys) = len keys" "is_int64 (len keys)" using assms(2) by (auto simp: wrap64_id is_int64_iff len_def)
  note [simp] = MaxSmallInt_def rolled_def
  from passes_small [OF assms(1) at_check(1)] have "?P 1 (Data (Int64 1) # x # Data (Tuple keys) # r) as" by simp
  from passes_roll [OF this at_check(2)] have "?P 2 (Data (Tuple keys) # x # r) as" by simp
  from passes_untuple [OF this at_check(3)] have "?P 3 (?n # ?k @ x # r) as" by (simp add: w)
  from passes_get [OF this at_check(4)] obtain y as' where as: "as = y # as'" and "?P 4 (y # ?n # ?k @ x # r) as'" by auto
  from passes_dup [OF this(2) at_check(5)] have "?P 5 (y # y # ?n # ?k @ x # r) as'" by auto
  from passes_small [OF this at_check(6)] have "?P 6 (Data (Int64 2) # y # y # ?n # ?k @ x # r) as'" by simp
  from passes_peek [OF this at_check(7)] have "?P 7 (?n # y # y # ?n # ?k @ x # r) as'" by simp
  from passes_small [OF this at_check(8)] have "?P 8 (Data (Int64 3) # ?n # y # y # ?n # ?k @ x # r) as'" by simp
  from passes_add [OF this at_check(9)] w have "?P 9 (Data (Int64 (len keys + 3)) # y # y # ?n # ?k @ x # r) as'"
    by (auto simp: AddInt64_True is_int64_iff)
  moreover have "rolled (nat (len keys + 3)) (y # y # ?n # ?k @ x # r) = x # y # y # ?n # ?k @ r"
  proof -
    have "nat (len keys + 3) = Suc (Suc (Suc (length ?k)))" by (simp add: len_def)
    then show ?thesis by (simp add: nth_append)
  qed
  ultimately have "?P 10 (x # y # y # ?n # ?k @ r) as'"
    using passes_roll [OF _ at_check(10)] by fastforce
  from passes_cat [OF this at_check(11)] obtain anchor q where x: "x = Data (Bytes anchor)" "y = Data (Bytes q)"
    and "?P 11 (Data (Bytes (q @ anchor)) # y # ?n # ?k @ r) as'" by auto
  from passes_small [OF this(3) at_check(12)] have "?P 12 (Data (Int64 0) # Data (Bytes (q @ anchor)) # y # ?n # ?k @ r) as'" by simp
  from passes_small [OF this at_check(13)] have "?P 13 (Data (Int64 3) # Data (Int64 0) # Data (Bytes (q @ anchor)) # y # ?n # ?k @ r) as'" by simp
  from passes_roll [OF this at_check(14)] x as show ?thesis by simp
qed

lemma VerifyTxID_code: "VerifyTxID h = op_TxID # writePushdata h @ [op_Eq, op_Verify]"
  by (simp add: VerifyTxID_def Build_def Op_def PushdataBytes_def b_writePushdata_eq)

lemma VerifyTxID_passes:
  assumes "passes E vf z (VerifyTxID h) 0 cs as" and "len h = 32"
  shows "c_txid z = Some h"
proof -
  let ?P = "passes E vf z (VerifyTxID h)"
  have w: "writePushdata h = 127 # h" using assms(2) by (simp add: writePushdata_def MinPushdata_def PutUvarint.simps)
  let ?code = "op_TxID # (127 # h) @ [op_Eq, op_Verify]"
  have c: "VerifyTxID h = ?code" by (simp add: VerifyTxID_code w)
  have l: "length h = 32" using assms(2) by (simp add: len_def)
  have at: "at (VerifyTxID h) 0 op_TxID" "at (VerifyTxID h) 34 op_Eq" "at (VerifyTxID h) 35 op_Verify"
    using l by (simp_all add: at_def c len_def nth_append)
  from passes_txid [OF assms(1) at(1)] obtain t where t: "c_txid z = Some t" "?P 1 (Data (Bytes t) # cs) as" by auto
  have "DecodeInst (drop (nat 1) (VerifyTxID h)) = Inr (MinPushdata, h, 33)"
    using DecodeInst_pushdata [of "[127]" h "[op_Eq, op_Verify]"] l by (simp add: c MinPushdata_def PutUvarint.simps len_def)
  from passes_pushdata [OF t(2) _ _ this] have "?P 34 (Data (Bytes h) # Data (Bytes t) # cs) as"
    by (simp add: c len_def)
  from passes_eq [OF this at(2)] have "?P 35 (flag (h = t) # cs) as" by (simp add: eq_data_def)
  from passes_verify [OF this at(3)] t(1) show ?thesis by (auto simp: flag_def truth_def split: if_splits)
qed

lemma signatures_ok_rev: "signatures_ok C msg (rev keys) (rev sigs) \<longleftrightarrow> signatures_ok C msg keys sigs"
  by (simp add: signatures_ok_def)

lemma len_filter_rev: "len (filter P (rev xs)) = len (filter P xs)"
  by (simp add: len_def rev_filter [symmetric])

lemma execs_VerifyTxID:
  assumes "execs E vf z (VerifyTxID h) cs as" and "len h = 32"
  shows "c_txid z = Some h"
proof -
  from assms(1) obtain vm fuel vm' where vm: "ctx_of vm = z" "\<not> unwinding vm" "\<not> (Finalized vm \<and> stopAfterFinalize vm)"
    "exec E fuel (VerifyTxID h) vm = (Inr (), vm')" unfolding execs_def by blast
  from exec_passes [OF vm(4,2,3)] VerifyTxID_passes [OF _ assms(2)] vm(1) show ?thesis by metis
qed

text \<open>
  C9: the check of the signatures is sound. When a run of it completes, the argument stack held one signature per
  public key below the program, each of them empty or a valid Ed25519 signature of the program followed by the
  anchor; exactly as many are not empty as the quorum says; and the program ran to its end on what was
  below on the stacks. If the program is the one that \<^verbatim>\<open>VerifyTxID\<close> writes, then the transaction is finalized
  and has the ID that the keys signed.
\<close>

theorem multisig_check_sound:
  assumes "mustAssemble U multisigProgCheckSrc = Some check" and "exec E fuel check vm = (Inr (), vm')"
    and "\<not> unwinding vm" and "\<not> (Finalized vm \<and> stopAfterFinalize vm)"
    and "cstack vm = base @ [quorum, Data (Tuple keys), anch]" and "len keys < 2 ^ 62"
  shows "\<exists>p anchor sigs rest. anch = Data (Bytes anchor) \<and>
    argstack vm = rest @ map (Data \<circ> Bytes) sigs @ [Data (Bytes p)] \<and>
    signatures_ok E (p @ anchor) keys sigs \<and> quorum = Data (Int64 (len (filter (\<lambda>s. s \<noteq> []) sigs))) \<and>
    (\<exists>vm1 n vm2. cstack vm1 = base \<and> argstack vm1 = rest \<and> exec E n p vm1 = (Inr (), vm2)) \<and>
    (\<forall>h. len h = 32 \<longrightarrow> p = VerifyTxID h \<longrightarrow> Finalized vm' \<and> TxID vm' = h)"
proof -
  have run: "exec E fuel multisigProgCheck vm = (Inr (), vm')" using assms(1,2) by (simp add: check_program)
  obtain vf where "passes E vf (ctx_of vm) multisigProgCheck 0 (anch # Data (Tuple keys) # quorum # rev base) (rev (argstack vm))"
    using exec_passes [OF run assms(3,4)] assms(5) by auto
  from check_start [OF this] assms(6) obtain anchor p as' where p: "anch = Data (Bytes anchor)" "rev (argstack vm) = Data (Bytes p) # as'"
    and "passes E vf (ctx_of vm) multisigProgCheck 14 (Data (Int64 (len (rev keys))) # Data (Int64 0) # Data (Bytes (p @ anchor)) # Data (Bytes p) #
      map Data (rev keys) @ quorum # rev base) as'" by (auto simp: rev_map len_def)
  from check_loop [OF this(3)] assms(6) obtain sigs rest where s: "as' = map (Data \<circ> Bytes) sigs @ rest"
    "signatures_ok E (p @ anchor) (rev keys) sigs" "quorum = Data (Int64 (len (filter (\<lambda>s. s \<noteq> []) sigs)))"
    and ex: "execs E vf (ctx_of vm) p (rev base) rest" by (auto simp: len_def)
  have "argstack vm = rev rest @ map (Data \<circ> Bytes) (rev sigs) @ [Data (Bytes p)]"
    using p(2) s(1) by (metis (no_types, lifting) append.assoc rev.simps(2) rev_append rev_map rev_rev_ident)
  moreover have "signatures_ok E (p @ anchor) keys (rev sigs)" using s(2) signatures_ok_rev [of E _ keys "rev sigs"] by simp
  moreover have "\<exists>vm1 n vm2. cstack vm1 = base \<and> argstack vm1 = rev rest \<and> exec E n p vm1 = (Inr (), vm2)"
    using ex unfolding execs_def by (metis rev_rev_ident)
  moreover have "Finalized vm' \<and> TxID vm' = h" if "len h = 32" "p = VerifyTxID h" for h
    using execs_VerifyTxID [of E vf "ctx_of vm" h] ex that logs.exec_relates [OF run]
    by (auto simp: ctx_of_def log_grows_def split: if_splits)
  ultimately show ?thesis using p(1) s(3)
    by (intro exI [of _ p] exI [of _ anchor] exI [of _ "rev sigs"] exI [of _ "rev rest"]) (simp add: len_filter_rev)
qed

section \<open>Locking and unlocking a value\<close>

lemma at_code: "p = pre @ opc # post \<Longrightarrow> i = len pre \<Longrightarrow> at p i opc"
  by (simp add: at_def len_def nth_append)

lemma passes_push_code:
  assumes "passes E vf z p i cs as" and "p = pre @ writePushdata d @ post" and "i = len pre" and "len p < 2 ^ 63"
  shows "passes E vf z p (i + len (writePushdata d)) (Data (Bytes d) # cs) as"
proof -
  have "DecodeInst (drop (nat i) p) = Inr (MinPushdata, d, len (writePushdata d))"
    using assms(2-4) DecodeInst_pushdata [OF refl, of d post] by (simp add: writePushdata_def len_def)
  moreover have "0 \<le> i" "i < len p"
    using assms(2,3) length_PutUvarint_pos [of "word_of_int (len d) + ucast MinPushdata"]
    by (auto simp: len_def writePushdata_def intro!: add_pos_nonneg)
  ultimately show ?thesis using passes_pushdata [OF assms(1)] by blast
qed

lemma writePushdata_check: "writePushdata multisigProgCheck = [0x8c, 1] @ multisigProgCheck"
  and writePushdata_unlock: "writePushdata unlockProg = [0x95, 1] @ unlockProg"
  by code_simp+

lemma len_programs: "len multisigProgCheck = 45" "len unlockProg = 54"
  by code_simp+

lemma unlockProg_code: "unlockProg = [op_Get, op_Log, op_Anchor, 1, op_Roll, op_Put, 0x8c, 1] @ multisigProgCheck @ [op_Yield]"
  by (simp add: unlockProg_def writePushdata_check)

lemma unlock_run:
  assumes "passes E vf z unlockProg 0 (x # r) as"
  shows "\<exists>v refdata as'. x = Value v \<and> as = Data refdata # as' \<and> unwinding vf \<and>
    Log vf = c_log z @ [[Bytes [LogCode], Bytes (c_seed z), refdata]] \<and>
    argstack vf = rev as' @ [Value v, Contract (MkContract (c_type z) (c_seed z) multisigProgCheck (rev (Data (Bytes (anchor v)) # r)))]"
proof -
  have at: "at unlockProg 0 op_Get" "at unlockProg 1 op_Log" "at unlockProg 2 op_Anchor" "at unlockProg 3 1" "at unlockProg 4 op_Roll"
    "at unlockProg 5 op_Put" "at unlockProg 53 op_Yield"
    by (simp_all add: at_def unlockProg_code len_def multisigProgCheck_def)
  from passes_get [OF assms at(1)] obtain y as' where as: "as = y # as'" and "passes E vf z unlockProg 1 (y # x # r) as'" by auto
  from passes_log [OF this(2) at(2)] obtain refdata where y: "y = Data refdata"
    and "passes E vf (logged [Bytes [LogCode], Bytes (c_seed z), refdata] z) unlockProg 2 (x # r) as'" by auto
  from passes_anchor [OF this(2) at(3)] obtain v where x: "x = Value v"
    and "passes E vf (logged [Bytes [LogCode], Bytes (c_seed z), refdata] z) unlockProg 3 (Data (Bytes (anchor v)) # x # r) as'" by auto
  from passes_small [OF this(2) at(4)]
  have "passes E vf (logged [Bytes [LogCode], Bytes (c_seed z), refdata] z) unlockProg 4 (Data (Int64 1) # Data (Bytes (anchor v)) # x # r) as'"
    by (simp add: MaxSmallInt_def)
  from passes_roll [OF this at(5)]
  have "passes E vf (logged [Bytes [LogCode], Bytes (c_seed z), refdata] z) unlockProg 5 (x # Data (Bytes (anchor v)) # r) as'"
    by (simp add: rolled_def)
  from passes_put [OF this at(6)]
  have "passes E vf (logged [Bytes [LogCode], Bytes (c_seed z), refdata] z) unlockProg 6 (Data (Bytes (anchor v)) # r) (x # as')" by simp
  from passes_push_code [OF this unlockProg_def]
  have "passes E vf (logged [Bytes [LogCode], Bytes (c_seed z), refdata] z) unlockProg 53
      (Data (Bytes multisigProgCheck) # Data (Bytes (anchor v)) # r) (x # as')"
    by (simp add: len_programs writePushdata_check)
  from passes_yield [OF this at(7)] show ?thesis by (auto simp: as y x logged_def)
qed

lemma payProg_code:
  "payProg1 = [op_Get, op_Get, op_Get, op_Get, op_Log, 0x95, 1] @ unlockProg @ [op_Output]"
  "payProg2 = [op_Get, op_Get, op_Get, op_Get, op_Log, op_Get, op_Log, 0x95, 1] @ unlockProg @ [op_Output]"
  by (simp_all add: payProg1_def payProg2_def writePushdata_unlock)

definition annotated :: "data list \<Rightarrow> ctx \<Rightarrow> ctx" where
  "annotated anns z = z\<lparr>c_log := c_log z @ map (\<lambda>d. [Bytes [LogCode], Bytes (c_seed z), d]) anns\<rparr>"

lemma annotated_simps [simp]: "annotated [] z = z" "c_seed (annotated n z) = c_seed z" "c_type (annotated n z) = c_type z" "c_caller (annotated n z) = c_caller z"
  "logged [Bytes [LogCode], Bytes (c_seed z), d] (annotated n z) = annotated (n @ [d]) z"
  by (simp_all add: annotated_def logged_def)

lemma pay_end:
  assumes "passes E vf z p i (x # y # q # cs) as" and "p = pre @ writePushdata unlockProg @ [op_Output]" and "i = len pre" and "len pre < 100"
  shows "unwinding vf \<and> argstack vf = rev as \<and> (let con = MkContract (c_type z) (c_seed z) unlockProg (rev (x # y # q # cs)) in
     contract vf = con \<and> Log vf = c_log z @ [[Bytes [OutputCode], Bytes (c_caller z), Bytes (snd (snapshot E con))]])"
proof -
  have l: "len (writePushdata unlockProg) = 56" by (simp add: writePushdata_unlock len_programs)
  then have "passes E vf z p (i + 56) (Data (Bytes unlockProg) # x # y # q # cs) as"
    using passes_push_code [OF assms(1,2,3)] assms(2,4) by simp
  moreover have "at p (i + 56) op_Output"
    using assms(2,3) l by (intro at_code [of _ "pre @ writePushdata unlockProg" _ "[]"]) simp_all
  ultimately show ?thesis using passes_output by fastforce
qed

lemma pay1_run:
  assumes "passes E vf z payProg1 0 cs as"
  shows "\<exists>q y x d as'. as = q # y # x # Data d # as' \<and> unwinding vf \<and> argstack vf = rev as' \<and>
    (let con = MkContract (c_type z) (c_seed z) unlockProg (rev (x # y # q # cs)) in
     contract vf = con \<and> Log vf = c_log (annotated [d] z) @ [[Bytes [OutputCode], Bytes (c_caller z), Bytes (snd (snapshot E con))]])"
proof -
  have at: "at payProg1 0 op_Get" "at payProg1 1 op_Get" "at payProg1 2 op_Get" "at payProg1 3 op_Get" "at payProg1 4 op_Log"
    by (simp_all add: at_def payProg_code len_def)
  from passes_get [OF assms at(1)] obtain q a1 where 1: "as = q # a1" "passes E vf z payProg1 1 (q # cs) a1" by auto
  from passes_get [OF 1(2) at(2)] obtain y a2 where 2: "a1 = y # a2" "passes E vf z payProg1 2 (y # q # cs) a2" by auto
  from passes_get [OF 2(2) at(3)] obtain x a3 where 3: "a2 = x # a3" "passes E vf z payProg1 3 (x # y # q # cs) a3" by auto
  from passes_get [OF 3(2) at(4)] obtain r a4 where 4: "a3 = r # a4" "passes E vf z payProg1 4 (r # x # y # q # cs) a4" by auto
  from passes_log [OF 4(2) at(5)] obtain d where d: "r = Data d" "passes E vf (annotated [d] z) payProg1 5 (x # y # q # cs) a4"
    using annotated_simps(5) [of z _ "[]"] by auto
  from pay_end [OF d(2) payProg1_def] 1(1) 2(1) 3(1) 4(1) d(1) show ?thesis by simp
qed

lemma pay2_run:
  assumes "passes E vf z payProg2 0 cs as"
  shows "\<exists>q y x t d as'. as = q # y # x # Data t # Data d # as' \<and> unwinding vf \<and> argstack vf = rev as' \<and>
    (let con = MkContract (c_type z) (c_seed z) unlockProg (rev (x # y # q # cs)) in
     contract vf = con \<and> Log vf = c_log (annotated [t, d] z) @ [[Bytes [OutputCode], Bytes (c_caller z), Bytes (snd (snapshot E con))]])"
proof -
  have at: "at payProg2 0 op_Get" "at payProg2 1 op_Get" "at payProg2 2 op_Get" "at payProg2 3 op_Get" "at payProg2 4 op_Log"
    "at payProg2 5 op_Get" "at payProg2 6 op_Log"
    by (simp_all add: at_def payProg_code len_def)
  from passes_get [OF assms at(1)] obtain q a1 where 1: "as = q # a1" "passes E vf z payProg2 1 (q # cs) a1" by auto
  from passes_get [OF 1(2) at(2)] obtain y a2 where 2: "a1 = y # a2" "passes E vf z payProg2 2 (y # q # cs) a2" by auto
  from passes_get [OF 2(2) at(3)] obtain x a3 where 3: "a2 = x # a3" "passes E vf z payProg2 3 (x # y # q # cs) a3" by auto
  from passes_get [OF 3(2) at(4)] obtain r a4 where 4: "a3 = r # a4" "passes E vf z payProg2 4 (r # x # y # q # cs) a4" by auto
  from passes_log [OF 4(2) at(5)] obtain t where t: "r = Data t" "passes E vf (annotated [t] z) payProg2 5 (x # y # q # cs) a4"
    using annotated_simps(5) [of z _ "[]"] by auto
  from passes_get [OF t(2) at(6)] obtain r' a5 where 5: "a4 = r' # a5" "passes E vf (annotated [t] z) payProg2 6 (r' # x # y # q # cs) a5" by auto
  from passes_log [OF 5(2) at(7)] obtain d where d: "r' = Data d" "passes E vf (annotated [t, d] z) payProg2 7 (x # y # q # cs) a5" by auto
  from pay_end [OF d(2) payProg2_def] 1(1) 2(1) 3(1) 4(1) t(1) 5(1) d(1) show ?thesis by simp
qed

lemma tb_PushdataByte_eq: "tb_PushdataByte c tb = tb_PushdataBytes [c] tb"
  by (simp add: tb_PushdataByte_def tb_PushdataBytes_def PushdataByte_def PushdataBytes_def b_writePushdata_def)

lemma fold_tb_PushdataBytes: "fold tb_PushdataBytes xs = tb_datas (map Bytes xs)"
proof
  show "fold tb_PushdataBytes xs tb = tb_datas (map Bytes xs) tb" for tb by (induction xs arbitrary: tb) simp_all
qed

lemma tb_datas_fun: "tb_datas [] = (\<lambda>tb. tb)" "tb_datas (t # ts) = (\<lambda>tb. tb_datas ts (tb_data t tb))"
  by (simp_all add: fun_eq_iff)

lemma SpendMultisig_code:
  "SpendMultisig U quorum pubkeys amt aid anc sd b =
   Some (Op op_Call (Op op_Input (build_data (Tuple (inspect_contract (MkContract ContractCode sd unlockProg
     [Data (Int64 quorum), Data (Tuple (map Bytes pubkeys)), Value \<lparr>amount = amt, assetID = Hash_Bytes aid, anchor = anc\<rparr>]))) b)))"
  by (simp add: SpendMultisig_def unlock_program tb_PushdataByte_eq fold_tb_PushdataBytes tb_datas_fun inspect_value_def Let_def)

lemma pay_run:
  assumes "passes E vf z p 0 [] (rev args)" and "c_type z = ContractCode"
    and "version = 1 \<and> PayToMultisigProg1 U = Some p \<or> version = 2 \<and> PayToMultisigProg2 U = Some p"
  shows "\<exists>q y x anns rest. args = rest @ map Data anns @ [x, y, q] \<and> length anns = version \<and> unwinding vf \<and> argstack vf = rest \<and>
    (let con = MkContract ContractCode (c_seed z) unlockProg [q, y, x] in
     contract vf = con \<and> Log vf = c_log (annotated (rev anns) z) @ [[Bytes [OutputCode], Bytes (c_caller z), Bytes (snd (snapshot E con))]])"
  using assms(3)
proof
  assume v: "version = 1 \<and> PayToMultisigProg1 U = Some p"
  with assms(1) have "passes E vf z payProg1 0 [] (rev args)" by (simp add: pay1_program)
  from pay1_run [OF this] assms(2) obtain q y x d as' where a: "rev args = q # y # x # Data d # as'" and "unwinding vf" "argstack vf = rev as'"
    "let con = MkContract ContractCode (c_seed z) unlockProg [q, y, x] in
     contract vf = con \<and> Log vf = c_log (annotated [d] z) @ [[Bytes [OutputCode], Bytes (c_caller z), Bytes (snd (snapshot E con))]]" by auto
  then show ?thesis using v arg_cong [OF a, of rev]
    by (intro exI [of _ q] exI [of _ y] exI [of _ x] exI [of _ "[d]"] exI [of _ "rev as'"]) simp
next
  assume v: "version = 2 \<and> PayToMultisigProg2 U = Some p"
  with assms(1) have "passes E vf z payProg2 0 [] (rev args)" by (simp add: pay2_program)
  from pay2_run [OF this] assms(2) obtain q y x t d as' where a: "rev args = q # y # x # Data t # Data d # as'" and "unwinding vf" "argstack vf = rev as'"
    "let con = MkContract ContractCode (c_seed z) unlockProg [q, y, x] in
     contract vf = con \<and> Log vf = c_log (annotated [t, d] z) @ [[Bytes [OutputCode], Bytes (c_caller z), Bytes (snd (snapshot E con))]]" by auto
  then show ?thesis using v arg_cong [OF a, of rev]
    by (intro exI [of _ q] exI [of _ y] exI [of _ x] exI [of _ "[d, t]"] exI [of _ "rev as'"]) simp
qed

lemma lock_run:
  assumes "exec E fuel p vm = (Inr (), vm')" and "\<not> unwinding vm" and "\<not> (Finalized vm \<and> stopAfterFinalize vm)"
    and "cstack vm = []" and "contract vm = MkContract ContractCode sd code []"
    and "version = 1 \<and> PayToMultisigProg1 U = Some p \<or> version = 2 \<and> PayToMultisigProg2 U = Some p"
  shows "\<exists>rest anns v keys q. argstack vm = rest @ map Data anns @ [v, keys, q] \<and> length anns = version \<and> argstack vm' = rest \<and> unwinding vm' \<and>
    contract vm' = MkContract ContractCode sd unlockProg [q, keys, v] \<and>
    Log vm' = Log vm @ map (\<lambda>d. [Bytes [LogCode], Bytes sd, d]) (rev anns) @
      [[Bytes [OutputCode], Bytes (caller vm), Bytes (snd (snapshot E (contract vm')))]]"
proof -
  from exec_passes [OF assms(1-3)] assms(4) obtain vf where pass: "passes E vf (ctx_of vm) p 0 [] (rev (argstack vm))"
    and vf: "argstack vm' = argstack vf" "contract vm' = contract vf" "unwinding vm' = unwinding vf" "Log vm' = Log vf" by auto
  have z: "c_type (ctx_of vm) = ContractCode" "c_seed (ctx_of vm) = sd" "c_caller (ctx_of vm) = caller vm" "c_log (ctx_of vm) = Log vm"
    by (simp_all add: ctx_of_def assms(5))
  from pay_run [OF pass z(1) assms(6)] obtain q y x anns rest where "argstack vm = rest @ map Data anns @ [x, y, q]"
    "length anns = version" "unwinding vf" "argstack vf = rest" "contract vf = MkContract ContractCode sd unlockProg [q, y, x]"
    "Log vf = c_log (annotated (rev anns) (ctx_of vm)) @ [[Bytes [OutputCode], Bytes (caller vm), Bytes (snd (snapshot E (contract vf)))]]"
    by (auto simp: Let_def z)
  then show ?thesis using vf
    by (intro exI [of _ rest] exI [of _ anns] exI [of _ x] exI [of _ y] exI [of _ q]) (auto simp: annotated_def z)
qed

text \<open>
  C10: locking and spending a value. When the first or second version of the pay-to-multisig program completes on an
  empty contract stack, it took the quorum, the keys, the value and its one or two annotations from the argument
  stack, logged the annotations, and output the contract that holds the quorum, the keys and the value and
  continues with the unlock program. What \<^verbatim>\<open>SpendMultisig\<close> writes for the same parameters is the program that
  pushes the snapshot of exactly this contract, inputs it and calls it.
\<close>

theorem multisig_lock_spend:
  assumes "exec E fuel p vm = (Inr (), vm')" and "\<not> unwinding vm" and "\<not> (Finalized vm \<and> stopAfterFinalize vm)"
    and "cstack vm = []" and "contract vm = MkContract ContractCode sd code []"
    and "version = 1 \<and> PayToMultisigProg1 U = Some p \<or> version = 2 \<and> PayToMultisigProg2 U = Some p"
  shows "\<exists>rest anns v keys q unlock. argstack vm = rest @ map Data anns @ [v, keys, q] \<and> length anns = version \<and>
    payToMultisigProgUnlock U = Some unlock \<and> argstack vm' = rest \<and> unwinding vm' \<and>
    (let con = MkContract ContractCode sd unlock [q, keys, v] in
     contract vm' = con \<and>
     Log vm' = Log vm @ map (\<lambda>d. [Bytes [LogCode], Bytes sd, d]) (rev anns) @
       [[Bytes [OutputCode], Bytes (caller vm), Bytes (snd (snapshot E con))]] \<and>
     (\<forall>quorum pubkeys amt aid anc b. q = Data (Int64 quorum) \<longrightarrow> keys = Data (Tuple (map Bytes pubkeys)) \<longrightarrow>
        v = Value \<lparr>amount = amt, assetID = Hash_Bytes aid, anchor = anc\<rparr> \<longrightarrow>
        SpendMultisig U quorum pubkeys amt aid anc sd b =
          Some (Op op_Call (Op op_Input (build_data (Tuple (inspect_contract con)) b)))))"
proof -
  from lock_run [OF assms] obtain rest anns v keys q where "argstack vm = rest @ map Data anns @ [v, keys, q]" "length anns = version"
    "argstack vm' = rest" "unwinding vm'" "contract vm' = MkContract ContractCode sd unlockProg [q, keys, v]"
    "Log vm' = Log vm @ map (\<lambda>d. [Bytes [LogCode], Bytes sd, d]) (rev anns) @
      [[Bytes [OutputCode], Bytes (caller vm), Bytes (snd (snapshot E (contract vm')))]]"
    by blast
  then show ?thesis
    by (intro exI [of _ rest] exI [of _ anns] exI [of _ v] exI [of _ keys] exI [of _ q] exI [of _ unlockProg])
      (auto simp: unlock_program SpendMultisig_code)
qed

text \<open>
  C11: unlocking a value defers the check. When the unlock program completes on a stack with the quorum, the keys and a
  value, it logged the spender's annotation and returned the value together with a contract that can only
  continue with the check of the signatures, on the quorum, the keys and the anchor of this value.
\<close>

theorem multisig_unlock_defers:
  assumes "exec E fuel unlock vm = (Inr (), vm')" and "\<not> unwinding vm" and "\<not> (Finalized vm \<and> stopAfterFinalize vm)"
    and "payToMultisigProgUnlock U = Some unlock" and "cstack vm = [quorum, keys, x]"
  shows "\<exists>v refdata rest check. x = Value v \<and> argstack vm = rest @ [Data refdata] \<and> mustAssemble U multisigProgCheckSrc = Some check \<and>
    Log vm' = Log vm @ [[Bytes [LogCode], Bytes (seed (contract vm)), refdata]] \<and> unwinding vm' \<and>
    argstack vm' = rest @ [Value v, Contract (MkContract (typecode (contract vm)) (seed (contract vm)) check [quorum, keys, Data (Bytes (anchor v))])]"
proof -
  have "exec E fuel unlockProg vm = (Inr (), vm')" using assms(1,4) by (simp add: unlock_program)
  from exec_passes [OF this assms(2,3)] assms(5) obtain vf where "passes E vf (ctx_of vm) unlockProg 0 [x, keys, quorum] (rev (argstack vm))"
    and vf: "argstack vm' = argstack vf" "unwinding vm' = unwinding vf" "Log vm' = Log vf" by auto
  from unlock_run [OF this(1)] obtain v refdata as' where u: "x = Value v" "rev (argstack vm) = Data refdata # as'" "unwinding vf"
    "Log vf = Log vm @ [[Bytes [LogCode], Bytes (seed (contract vm)), refdata]]"
    "argstack vf = rev as' @ [Value v, Contract (MkContract (typecode (contract vm)) (seed (contract vm)) multisigProgCheck [quorum, keys, Data (Bytes (anchor v))])]"
    by (auto simp: ctx_of_def)
  have "argstack vm = rev as' @ [Data refdata]" using arg_cong [OF u(2), of rev] by simp
  with u vf check_program show ?thesis by auto
qed

section \<open>Sample machines\<close>

definition ms_env :: "unit env" where
  \<comment> \<open>a hash that keeps the first 32 bytes of its input, and signatures that repeat the key\<close>
  "ms_env = init_env (sample_crypto\<lparr>CShakeSum128 := \<lambda>n x _ s. pad n (x @ s)\<rparr>)"

definition ms_vm :: "bytes \<Rightarrow> item list \<Rightarrow> item list \<Rightarrow> unit vm" where
  \<comment> \<open>a machine in the contract of this program, with these stacks\<close>
  "ms_vm p stk args = (init_vm () [] 3 10000)\<lparr>contract := MkContract ContractCode (ContractSeed ms_env p) p stk, argstack := args\<rparr>"

definition ms_keys :: "bytes list" where
  "ms_keys = [replicate 32 1, replicate 32 2]"

definition ms_value :: "vmvalue" where
  "ms_value = \<lparr>amount = 5, assetID = replicate 32 3, anchor = replicate 32 4\<rparr>"

definition check_vm :: "unit vm" where
  "check_vm = (ms_vm [] [Data (Int64 1), Data (Tuple (map Bytes ms_keys)), Data (Bytes [7])]
     [Data (Bytes (replicate 64 1)), Data (Bytes []), Data (Bytes (VerifyTxID (replicate 32 5)))])\<lparr>Finalized := True, TxID := replicate 32 5\<rparr>"

definition lock_vm :: "unit vm" where
  "lock_vm = ms_vm payProg1 [] [Data (Bytes [9]), Value ms_value, Data (Tuple (map Bytes ms_keys)), Data (Int64 1)]"

definition unlock_vm :: "unit vm" where
  "unlock_vm = ms_vm payProg1 [Data (Int64 1), Data (Tuple (map Bytes ms_keys)), Value ms_value] [Data (Bytes [8])]"

lemma sample_runs:
  "fst (exec ms_env 200 multisigProgCheck check_vm) = Inr ()" "fst (exec ms_env 50 payProg1 lock_vm) = Inr ()"
  "fst (exec ms_env 50 unlockProg unlock_vm) = Inr ()"
  by code_simp+

lemma sample_run: "fst (exec E n p vm) = Inr () \<Longrightarrow> exec E n p vm = (Inr (), snd (exec E n p vm))"
  by (simp add: prod_eq_iff)

lemma sample_vms:
  "contract check_vm = MkContract ContractCode (ContractSeed ms_env []) [] [Data (Int64 1), Data (Tuple (map Bytes ms_keys)), Data (Bytes [7])]"
  "argstack check_vm = [Data (Bytes (replicate 64 1)), Data (Bytes []), Data (Bytes (VerifyTxID (replicate 32 5)))]"
  "contract lock_vm = MkContract ContractCode (ContractSeed ms_env payProg1) payProg1 []"
  "argstack lock_vm = [Data (Bytes [9]), Value ms_value, Data (Tuple (map Bytes ms_keys)), Data (Int64 1)]"
  "contract unlock_vm = MkContract ContractCode (ContractSeed ms_env payProg1) payProg1 [Data (Int64 1), Data (Tuple (map Bytes ms_keys)), Value ms_value]"
  "argstack unlock_vm = [Data (Bytes [8])]" "\<not> unwinding check_vm" "\<not> unwinding lock_vm" "\<not> unwinding unlock_vm"
  "\<not> stopAfterFinalize check_vm" "\<not> stopAfterFinalize lock_vm" "\<not> stopAfterFinalize unlock_vm"
  by (simp_all add: check_vm_def lock_vm_def unlock_vm_def ms_vm_def init_vm_def)

theorem multisig_check_sound_witness:
  "\<exists>p anchor sigs rest. argstack check_vm = rest @ map (Data \<circ> Bytes) sigs @ [Data (Bytes p)] \<and>
    signatures_ok ms_env (p @ anchor) (map Bytes ms_keys) sigs \<and> len (filter (\<lambda>s. s \<noteq> []) sigs) = 1 \<and>
    Finalized (snd (exec ms_env 200 multisigProgCheck check_vm)) \<and> TxID (snd (exec ms_env 200 multisigProgCheck check_vm)) = replicate 32 5"
proof -
  have "\<exists>p anchor sigs rest. argstack check_vm = rest @ map (Data \<circ> Bytes) sigs @ [Data (Bytes p)] \<and>
    signatures_ok ms_env (p @ anchor) (map Bytes ms_keys) sigs \<and> Data (Int64 1) = Data (Int64 (len (filter (\<lambda>s. s \<noteq> []) sigs))) \<and>
    (\<forall>h. len h = 32 \<longrightarrow> p = VerifyTxID h \<longrightarrow>
      Finalized (snd (exec ms_env 200 multisigProgCheck check_vm)) \<and> TxID (snd (exec ms_env 200 multisigProgCheck check_vm)) = h)"
    using multisig_check_sound [OF check_program sample_run [OF sample_runs(1)], of "[]" "Data (Int64 1)" "map Bytes ms_keys" "Data (Bytes [7])"]
    by (simp add: sample_vms(1,7,10) len_def ms_keys_def) blast
  then obtain p anchor sigs rest where w: "argstack check_vm = rest @ map (Data \<circ> Bytes) sigs @ [Data (Bytes p)]"
    "signatures_ok ms_env (p @ anchor) (map Bytes ms_keys) sigs" "Data (Int64 1) = Data (Int64 (len (filter (\<lambda>s. s \<noteq> []) sigs)))"
    "\<And>h. len h = 32 \<Longrightarrow> p = VerifyTxID h \<Longrightarrow>
      Finalized (snd (exec ms_env 200 multisigProgCheck check_vm)) \<and> TxID (snd (exec ms_env 200 multisigProgCheck check_vm)) = h"
    by blast
  from arg_cong [OF w(1), of last] have "p = VerifyTxID (replicate 32 5)" by (simp add: sample_vms(2))
  with w(1-3) w(4) [of "replicate 32 5"] show ?thesis by (auto simp: len_def)
qed

theorem multisig_lock_spend_witness:
  "\<exists>unlock con. contract (snd (exec ms_env 50 payProg1 lock_vm)) = con \<and> payToMultisigProgUnlock ascii_unicode = Some unlock \<and>
    con = MkContract ContractCode (ContractSeed ms_env payProg1) unlock [Data (Int64 1), Data (Tuple (map Bytes ms_keys)), Value ms_value] \<and>
    SpendMultisig ascii_unicode 1 ms_keys 5 (HashFromBytes (replicate 32 3)) (replicate 32 4) (ContractSeed ms_env payProg1) [] =
      Some (Op op_Call (Op op_Input (build_data (Tuple (inspect_contract con)) [])))"
proof -
  have "ms_value = \<lparr>amount = 5, assetID = Hash_Bytes (HashFromBytes (replicate 32 3)), anchor = replicate 32 4\<rparr>"
    by (simp add: ms_value_def Hash_Bytes_HashFromBytes copy32_def)
  with multisig_lock_spend [OF sample_run [OF sample_runs(2)], of "ContractSeed ms_env payProg1" payProg1 1 ascii_unicode] show ?thesis
    by (auto simp: sample_vms pay1_program Let_def length_Suc_conv Cons_eq_append_conv append_eq_append_conv2)
qed

theorem multisig_unlock_defers_witness:
  "\<exists>check. mustAssemble ascii_unicode multisigProgCheckSrc = Some check \<and>
    argstack (snd (exec ms_env 50 unlockProg unlock_vm)) =
      [Value ms_value, Contract (MkContract ContractCode (ContractSeed ms_env payProg1) check
         [Data (Int64 1), Data (Tuple (map Bytes ms_keys)), Data (Bytes (replicate 32 4))])]"
proof -
  have "anchor ms_value = replicate 32 4" by (simp add: ms_value_def)
  with multisig_unlock_defers [OF sample_run [OF sample_runs(3)] _ _ unlock_program [of ascii_unicode], of "Data (Int64 1)" "Data (Tuple (map Bytes ms_keys))" "Value ms_value"]
  show ?thesis by (auto simp: sample_vms)
qed

end
