(* ===== verification/Asset.thy ===== *)
theory Asset
  imports Multisig
begin

text \<open>
  What the standard asset contract does when it runs: it takes an anchor or makes one from a nonce, issues, and leaves the
  signature check to a deferred contract.
\<close>

section \<open>Issuing\<close>

lemma at_append: "at q j opc \<Longrightarrow> at (pre @ q) (len pre + j) opc"
  by (auto simp: at_def len_def nth_append nat_add_distrib)

lemma asset_tail_code: "asset_tail = [op_Get, op_Get, op_Get, op_Dup, 4, op_Bury, op_Get, op_Dup, 5, op_Bury, 3, op_Tuple, op_Encode, op_Issue,
     op_Get, op_Log, op_Anchor, 1, op_Roll, op_Put, 0x8c, 1] @ multisigProgCheck @ [op_Yield]"
  by (simp add: asset_tail_def writePushdata_check)

lemma at_asset_tail:
  "at asset_tail 0 op_Get" "at asset_tail 1 op_Get" "at asset_tail 2 op_Get" "at asset_tail 3 op_Dup" "at asset_tail 4 4" "at asset_tail 5 op_Bury"
  "at asset_tail 6 op_Get" "at asset_tail 7 op_Dup" "at asset_tail 8 5" "at asset_tail 9 op_Bury" "at asset_tail 10 3" "at asset_tail 11 op_Tuple"
  "at asset_tail 12 op_Encode" "at asset_tail 13 op_Issue" "at asset_tail 14 op_Get" "at asset_tail 15 op_Log" "at asset_tail 16 op_Anchor"
  "at asset_tail 17 1" "at asset_tail 18 op_Roll" "at asset_tail 19 op_Put" "at asset_tail 67 op_Yield"
  by (simp_all add: at_def asset_tail_code len_def multisigProgCheck_def)

lemma issue_arguments:
  assumes "passes E vf z (pre @ asset_tail) (len pre) (x # r) as"
  shows "\<exists>a t q k as'. as = a # Data t # Data q # Data k # as' \<and>
    passes E vf z (pre @ asset_tail) (len pre + 13) (Data (Bytes (Encode (Tuple [t, q, k]))) # a # x # Data k # Data q # r) as'"
proof -
  let ?P = "\<lambda>i. passes E vf z (pre @ asset_tail) (len pre + i)"
  note at = at_asset_tail [THEN at_append, of pre]
  note [simp] = MaxSmallInt_def buried_def
  have "?P 0 (x # r) as" using assms by simp
  from passes_get [OF this at(1)] obtain a a1 where 1: "as = a # a1" "?P 1 (a # x # r) a1" by auto
  from passes_get [OF 1(2) at(2)] obtain t a2 where 2: "a1 = t # a2" "?P 2 (t # a # x # r) a2" by (auto simp: add.assoc)
  from passes_get [OF 2(2) at(3)] obtain q a3 where 3: "a2 = q # a3" "?P 3 (q # t # a # x # r) a3" by (auto simp: add.assoc)
  from passes_dup [OF 3(2) at(4)] obtain qd where q: "q = Data qd" and "?P 4 (q # q # t # a # x # r) a3" by (auto simp: add.assoc)
  from passes_small [OF this(2) at(5)] have "?P 5 (Data (Int64 4) # q # q # t # a # x # r) a3" by (simp add: add.assoc)
  from passes_bury [OF this at(6)] have "?P 6 (q # t # a # x # q # r) a3" by (simp add: add.assoc)
  from passes_get [OF this at(7)] obtain k a4 where 4: "a3 = k # a4" "?P 7 (k # q # t # a # x # q # r) a4" by (auto simp: add.assoc)
  from passes_dup [OF 4(2) at(8)] obtain kd where k: "k = Data kd" and "?P 8 (k # k # q # t # a # x # q # r) a4" by (auto simp: add.assoc)
  from passes_small [OF this(2) at(9)] have "?P 9 (Data (Int64 5) # k # k # q # t # a # x # q # r) a4" by (simp add: add.assoc)
  from passes_bury [OF this at(10)] have "?P 10 (k # q # t # a # x # k # q # r) a4" by (simp add: add.assoc)
  from passes_small [OF this at(11)] have "?P 11 (Data (Int64 3) # k # q # t # a # x # k # q # r) a4" by (simp add: add.assoc)
  from passes_tuple [OF this at(12)] obtain vs r' where vs: "k # q # t # a # x # k # q # r = map Data (rev vs) @ r'" "length vs = 3"
    and "?P 12 (Data (Tuple vs) # r') a4" by (auto simp: add.assoc)
  then obtain td where t: "t = Data td" "vs = [td, qd, kd]" "r' = a # x # k # q # r"
    using q k by (auto simp: length_Suc_conv numeral_3_eq_3)
  from passes_encode [OF \<open>?P 12 (Data (Tuple vs) # r') a4\<close> at(13)] show ?thesis
    using 1(1) 2(1) 3(1) 4(1) q k t by (auto simp: add.assoc)
qed

lemma issue_end:
  assumes "passes E vf z (pre @ asset_tail) (len pre + 13) (Data (Bytes tag) # a # x # r) as" and "len pre < 100"
  shows "\<exists>amt v refdata as'. a = Data (Int64 amt) \<and> 0 \<le> amt \<and> x = Value v \<and> isZero v \<and> as = Data refdata # as' \<and> unwinding vf \<and>
    (let iss = \<lparr>amount = amt, assetID = AssetID E (c_seed z) tag, anchor = anchor v\<rparr> in
     Log vf = c_log z @ [[Bytes [IssueCode], Bytes (c_caller z), Int64 amt, Bytes (assetID iss), Bytes (anchor v)],
       [Bytes [LogCode], Bytes (c_seed z), refdata]] \<and>
     argstack vf = rev as' @ [Value iss, Contract (MkContract (c_type z) (c_seed z) multisigProgCheck (rev (Data (Bytes (anchor v)) # r)))])"
proof -
  note at = at_asset_tail [THEN at_append, of pre]
  from passes_issue [OF assms(1) at(14)] obtain amt v where a: "a = Data (Int64 amt)" "0 \<le> amt" "x = Value v" "isZero v"
    and "passes E vf (logged [Bytes [IssueCode], Bytes (c_caller z), Int64 amt, Bytes (AssetID E (c_seed z) tag), Bytes (anchor v)] z)
      (pre @ asset_tail) (len pre + 14) (Value \<lparr>amount = amt, assetID = AssetID E (c_seed z) tag, anchor = anchor v\<rparr> # r) as"
    by (auto simp: add.assoc)
  moreover define z1 iss where "z1 = logged [Bytes [IssueCode], Bytes (c_caller z), Int64 amt, Bytes (AssetID E (c_seed z) tag), Bytes (anchor v)] z"
    and "iss = \<lparr>amount = amt, assetID = AssetID E (c_seed z) tag, anchor = anchor v\<rparr>"
  ultimately have p: "passes E vf z1 (pre @ asset_tail) (len pre + 14) (Value iss # r) as" by simp
  let ?P = "\<lambda>d i. passes E vf (logged [Bytes [LogCode], Bytes (c_seed z1), d] z1) (pre @ asset_tail) (len pre + i)"
  from passes_get [OF p at(15)] obtain y as' where y: "as = y # as'" "passes E vf z1 (pre @ asset_tail) (len pre + 15) (y # Value iss # r) as'"
    by (auto simp: add.assoc)
  from passes_log [OF y(2) at(16)] obtain d where d: "y = Data d" "?P d 16 (Value iss # r) as'" by (auto simp: add.assoc)
  from passes_anchor [OF d(2) at(17)] have "?P d 17 (Data (Bytes (anchor v)) # Value iss # r) as'" by (simp add: add.assoc iss_def)
  from passes_small [OF this at(18)] have "?P d 18 (Data (Int64 1) # Data (Bytes (anchor v)) # Value iss # r) as'" by (simp add: add.assoc MaxSmallInt_def)
  from passes_roll [OF this at(19)] have "?P d 19 (Value iss # Data (Bytes (anchor v)) # r) as'" by (simp add: add.assoc rolled_def)
  from passes_put [OF this at(20)] have "?P d 20 (Data (Bytes (anchor v)) # r) (Value iss # as')" by (simp add: add.assoc)
  note push = passes_push_code [OF this, of "pre @ take 20 asset_tail" multisigProgCheck "[op_Yield]"]
  have "pre @ asset_tail = (pre @ take 20 asset_tail) @ writePushdata multisigProgCheck @ [op_Yield]"
    "len pre + 20 = len (pre @ take 20 asset_tail)" "len (writePushdata multisigProgCheck) = 47" by (simp_all add: asset_tail_def len_programs writePushdata_check)
  moreover have "len (pre @ asset_tail) < 2 ^ 63" using assms(2) by (simp add: asset_tail_code len_programs)
  ultimately have "?P d 67 (Data (Bytes multisigProgCheck) # Data (Bytes (anchor v)) # r) (Value iss # as')"
    using push by (simp only: add.assoc) (simp add: add.commute)
  from passes_yield [OF this at(21)] show ?thesis by (auto simp: a y(1) d(1) Let_def logged_def z1_def iss_def)
qed

section \<open>The anchor\<close>

text \<open>
  The program first makes an anchor: the zero value it was given, or a new nonce.
\<close>

lemma truth_flag [simp]: "truth (Int64 (if b then 1 else 0)) = b"
  by (simp add: truth_def)

lemma jump_over: "AddInt64 i n = (j, True) \<Longrightarrow> is_int64 i \<Longrightarrow> is_int64 n \<Longrightarrow> j = i + n"
  by (simp add: AddInt64_True)

lemma anchor_choice:
  assumes "passes E vf z p 0 cs as" and "at p 0 op_Get" and "at p 1 op_Dup" and "at p 2 op_Not" and "at p 3 opc" and "at p 4 op_JumpIf"
    and "opc \<le> MaxSmallInt" and "5 + uint opc = j"
  shows "\<exists>m as'. as = Data m # as' \<and> passes E vf z p (if truth m then 5 else j) (Data m # cs) as'"
proof -
  from passes_get [OF assms(1,2)] obtain x as' where x: "as = x # as'" "passes E vf z p 1 (x # cs) as'" by auto
  from passes_dup [OF x(2) assms(3)] obtain m where m: "x = Data m" "passes E vf z p 2 (Data m # Data m # cs) as'" by auto
  from passes_not [OF m(2) assms(4)] have "passes E vf z p 3 (flag (\<not> truth m) # Data m # cs) as'" by auto
  from passes_small [OF this assms(5,7)] have p4: "passes E vf z p 4 (Data (Int64 (uint opc)) # flag (\<not> truth m) # Data m # cs) as'" by simp
  have o: "is_int64 (uint opc)"
    using unsigned_less [of opc, where ?'a = int] order_trans [OF _ unsigned_greater_eq [of opc, where ?'a = int]] by (simp add: is_int64_iff)
  from passes_jumpif [OF p4 assms(6)] obtain d k where d: "flag (\<not> truth m) = Data d"
    and k: "if truth d then AddInt64 (4 + 1) (uint opc) = (k, True) else k = 4 + 1" "passes E vf z p k (Data m # cs) as'"
    by blast
  from d have d': "truth d \<longleftrightarrow> \<not> truth m" by (auto simp: flag_def truth_def split: if_splits)
  have "k = (if truth m then 5 else j)"
    using k(1) d' o assms(8) by (auto simp: AddInt64_True is_int64_iff split: if_splits)
  with k(2) x(1) m(1) show ?thesis by auto
qed

definition nonce_anchor :: "('z) crypto_scheme \<Rightarrow> ctx \<Rightarrow> bytes \<Rightarrow> int \<Rightarrow> vmvalue" where
  "nonce_anchor C z b n = \<lparr>amount = 0, assetID = zeroAssetID, anchor = NonceHash C (NonceTuple (c_caller z) (c_seed z) b n)\<rparr>"

definition anchor_ok :: "('z) crypto_scheme \<Rightarrow> ctx \<Rightarrow> item list \<Rightarrow> item \<Rightarrow> bool" where
  \<comment> \<open>the arguments that give an anchor, top first\<close>
  "anchor_ok C z args x \<longleftrightarrow> args = [Data (Int64 0), x] \<or>
     (\<exists>n b. n \<noteq> 0 \<and> (args = [Data (Int64 n), Data (Bytes b)] \<or> (\<exists>y. args = [Data (Int64 n), y, Data (Bytes b)])) \<and> x = Value (nonce_anchor C z b n))"

definition same_contract :: "ctx \<Rightarrow> ctx \<Rightarrow> bool" where
  "same_contract z z' \<longleftrightarrow> c_seed z' = c_seed z \<and> c_type z' = c_type z \<and> c_caller z' = c_caller z \<and> (\<exists>l. c_log z' = c_log z @ l)"

lemma anchor_nonce:
  assumes "passes E vf z p i (Data m # cs) as" and "at p i op_Get" and "at p (i + 1) 1" and "at p (i + 2) op_Roll" and "at p (i + 3) op_Nonce"
    and "at p (i + 4) 1" and "at p (i + 5) 2" and "at p (i + 6) op_JumpIf" and "truth m" and "i < 100"
  shows "\<exists>n b as' z'. m = Int64 n \<and> n \<noteq> 0 \<and> as = Data (Bytes b) # as' \<and> same_contract z z' \<and>
    passes E vf z' p (i + 9) (Value (nonce_anchor E z b n) # cs) as'"
proof -
  have i: "0 \<le> i" using assms(2) by (simp add: at_def)
  note [simp] = MaxSmallInt_def rolled_def
  from passes_get [OF assms(1,2)] obtain x as' where x: "as = x # as'" "passes E vf z p (i + 1) (x # Data m # cs) as'" by auto
  from passes_small [OF x(2) assms(3)] have "passes E vf z p (i + 2) (Data (Int64 1) # x # Data m # cs) as'" by (simp add: add.assoc)
  from passes_roll [OF this assms(4)] have "passes E vf z p (i + 3) (Data m # x # cs) as'" by (simp add: add.assoc)
  from passes_nonce [OF this assms(5)] obtain n b where nb: "m = Int64 n" "x = Data (Bytes b)" and
    "passes E vf (logged [Bytes [TimerangeCode], Bytes (c_seed z), Int64 0, Int64 n] (logged (NonceTuple (c_caller z) (c_seed z) b n) z)) p (i + 4)
       (Value (nonce_anchor E z b n) # cs) as'"
    by (auto simp: Let_def nonce_anchor_def add.assoc)
  moreover define z' where "z' = logged [Bytes [TimerangeCode], Bytes (c_seed z), Int64 0, Int64 n] (logged (NonceTuple (c_caller z) (c_seed z) b n) z)"
  ultimately have "passes E vf z' p (i + 4) (Value (nonce_anchor E z b n) # cs) as'" by simp
  from passes_small [OF this assms(6)] have "passes E vf z' p (i + 5) (Data (Int64 1) # Value (nonce_anchor E z b n) # cs) as'" by (simp add: add.assoc)
  from passes_small [OF this assms(7)] have "passes E vf z' p (i + 6) (Data (Int64 2) # Data (Int64 1) # Value (nonce_anchor E z b n) # cs) as'"
    by (simp add: add.assoc)
  from passes_jumpif [OF this assms(8)] have "passes E vf z' p (i + 9) (Value (nonce_anchor E z b n) # cs) as'"
    using i assms(10) by (auto simp: truth_def AddInt64_True is_int64_iff add.assoc)
  moreover have "same_contract z z'" by (simp add: same_contract_def z'_def logged_def)
  ultimately show ?thesis using x(1) nb assms(9) by (auto simp: truth_def)
qed

lemma asset1_anchor:
  assumes "passes E vf z assetProg1 0 [] as"
  shows "\<exists>args as' x z'. as = args @ as' \<and> anchor_ok E z args x \<and> same_contract z z' \<and> passes E vf z' assetProg1 14 [x] as'"
proof -
  have at: "at assetProg1 0 op_Get" "at assetProg1 1 op_Dup" "at assetProg1 2 op_Not" "at assetProg1 3 7" "at assetProg1 4 op_JumpIf"
    "at assetProg1 5 op_Get" "at assetProg1 6 1" "at assetProg1 7 op_Roll" "at assetProg1 8 op_Nonce" "at assetProg1 9 1" "at assetProg1 10 2"
    "at assetProg1 11 op_JumpIf" "at assetProg1 12 op_Drop" "at assetProg1 13 op_Get"
    by (simp_all add: at_def assetProg1_def len_def)
  from anchor_choice [OF assms at(1-5), of 12] obtain m as1 where m: "as = Data m # as1"
    "passes E vf z assetProg1 (if truth m then 5 else 12) [Data m] as1" by (auto simp: MaxSmallInt_def)
  show ?thesis
  proof (cases "truth m")
    case True
    from anchor_nonce [of E vf z assetProg1 5 m "[]" as1] at True m obtain n b as' z' where "m = Int64 n" "n \<noteq> 0" "as1 = Data (Bytes b) # as'"
      "same_contract z z'" "passes E vf z' assetProg1 14 [Value (nonce_anchor E z b n)] as'" by auto
    with m(1) show ?thesis by (intro exI [of _ "[Data m, Data (Bytes b)]"] exI [of _ as'] exI) (auto simp: anchor_ok_def)
  next
    case False
    with m passes_drop [OF _ at(13)] have "passes E vf z assetProg1 13 [] as1" by fastforce
    from passes_get [OF this at(14)] obtain x as' where "as1 = x # as'" "passes E vf z assetProg1 14 [x] as'" by auto
    moreover have "m = Int64 0" using False by (auto simp: truth_def split: data.splits)
    ultimately show ?thesis using m(1)
      by (intro exI [of _ "[Data m, x]"] exI [of _ as'] exI [of _ x] exI [of _ z]) (auto simp: anchor_ok_def same_contract_def)
  qed
qed

lemma asset2_anchor:
  assumes "passes E vf z assetProg2 0 [] as"
  shows "\<exists>args as' x z'. as = args @ as' \<and> anchor_ok E z args x \<and> same_contract z z' \<and> passes E vf z' assetProg2 16 [x] as'"
proof -
  have at: "at assetProg2 0 op_Get" "at assetProg2 1 op_Dup" "at assetProg2 2 op_Not" "at assetProg2 3 9" "at assetProg2 4 op_JumpIf"
    "at assetProg2 5 op_Get" "at assetProg2 6 op_Drop" "at assetProg2 7 op_Get" "at assetProg2 8 1" "at assetProg2 9 op_Roll" "at assetProg2 10 op_Nonce"
    "at assetProg2 11 1" "at assetProg2 12 2" "at assetProg2 13 op_JumpIf" "at assetProg2 14 op_Drop" "at assetProg2 15 op_Get"
    by (simp_all add: at_def assetProg2_def len_def)
  from anchor_choice [OF assms at(1-5), of 14] obtain m as1 where m: "as = Data m # as1"
    "passes E vf z assetProg2 (if truth m then 5 else 14) [Data m] as1" by (auto simp: MaxSmallInt_def)
  show ?thesis
  proof (cases "truth m")
    case True
    with m(2) passes_get [OF _ at(6)] obtain y as2 where y: "as1 = y # as2" "passes E vf z assetProg2 6 [y, Data m] as2" by fastforce
    from passes_drop [OF y(2) at(7)] have "passes E vf z assetProg2 7 [Data m] as2" by auto
    with anchor_nonce [of E vf z assetProg2 7 m "[]" as2] at True obtain n b as' z' where "m = Int64 n" "n \<noteq> 0" "as2 = Data (Bytes b) # as'"
      "same_contract z z'" "passes E vf z' assetProg2 16 [Value (nonce_anchor E z b n)] as'" by auto
    with m(1) y(1) show ?thesis by (intro exI [of _ "[Data m, y, Data (Bytes b)]"] exI [of _ as'] exI) (auto simp: anchor_ok_def)
  next
    case False
    with m passes_drop [OF _ at(15)] have "passes E vf z assetProg2 15 [] as1" by fastforce
    from passes_get [OF this at(16)] obtain x as' where "as1 = x # as'" "passes E vf z assetProg2 16 [x] as'" by auto
    moreover have "m = Int64 0" using False by (auto simp: truth_def split: data.splits)
    ultimately show ?thesis using m(1)
      by (intro exI [of _ "[Data m, x]"] exI [of _ as'] exI [of _ x] exI [of _ z]) (auto simp: anchor_ok_def same_contract_def)
  qed
qed

lemma asset_anchor:
  assumes "passes E vf z p 0 [] as" and "version = 1 \<or> version = 2" and "assetProg U version = Some p"
  shows "\<exists>pre args as1 x z'. p = pre @ asset_tail \<and> len pre < 100 \<and> as = args @ as1 \<and> anchor_ok E z args x \<and> same_contract z z' \<and>
    passes E vf z' (pre @ asset_tail) (len pre) [x] as1"
  using assms(2)
proof
  assume "version = 1"
  with assms(1,3) have p: "p = assetProg1" "passes E vf z assetProg1 0 [] as" by (simp_all add: asset1_program)
  from asset1_anchor [OF p(2)] obtain args as1 x z' where "as = args @ as1" "anchor_ok E z args x" "same_contract z z'"
    "passes E vf z' assetProg1 14 [x] as1" by blast
  moreover obtain pre where "assetProg1 = pre @ asset_tail" "len pre = 14" by (simp add: assetProg1_def)
  ultimately show ?thesis using p(1) by (intro exI [of _ pre] exI [of _ args] exI [of _ as1] exI [of _ x] exI [of _ z']) simp
next
  assume "version = 2"
  with assms(1,3) have p: "p = assetProg2" "passes E vf z assetProg2 0 [] as" by (simp_all add: asset2_program)
  from asset2_anchor [OF p(2)] obtain args as1 x z' where "as = args @ as1" "anchor_ok E z args x" "same_contract z z'"
    "passes E vf z' assetProg2 16 [x] as1" by blast
  moreover obtain pre where "assetProg2 = pre @ asset_tail" "len pre = 16" by (simp add: assetProg2_def)
  ultimately show ?thesis using p(1) by (intro exI [of _ pre] exI [of _ args] exI [of _ as1] exI [of _ x] exI [of _ z']) simp
qed

lemma asset_run:
  assumes "passes E vf z p 0 [] as" and "version = 1 \<or> version = 2" and "assetProg U version = Some p"
  shows "\<exists>args amt t q k refdata as' v. as = args @ [Data (Int64 amt), Data t, Data q, Data k, Data refdata] @ as' \<and>
    anchor_ok E z args (Value v) \<and> isZero v \<and> 0 \<le> amt \<and> unwinding vf \<and>
    (let iss = \<lparr>amount = amt, assetID = AssetID E (c_seed z) (Encode (Tuple [t, q, k])), anchor = anchor v\<rparr> in
     (\<exists>l. Log vf = c_log z @ l @ [[Bytes [IssueCode], Bytes (c_caller z), Int64 amt, Bytes (assetID iss), Bytes (anchor v)],
       [Bytes [LogCode], Bytes (c_seed z), refdata]]) \<and>
     argstack vf = rev as' @ [Value iss, Contract (MkContract (c_type z) (c_seed z) multisigProgCheck [Data q, Data k, Data (Bytes (anchor v))])])"
proof -
  obtain pre args as1 x z' where p: "p = pre @ asset_tail" "len pre < 100" and a: "as = args @ as1" "anchor_ok E z args x" "same_contract z z'"
    and run: "passes E vf z' (pre @ asset_tail) (len pre) [x] as1"
    using asset_anchor [OF assms] by blast
  from issue_arguments [OF run] obtain amtd t q k as2 where i: "as1 = amtd # Data t # Data q # Data k # as2"
    "passes E vf z' (pre @ asset_tail) (len pre + 13) [Data (Bytes (Encode (Tuple [t, q, k]))), amtd, x, Data k, Data q] as2" by auto
  from issue_end [OF i(2) p(2)] obtain amt v refdata as' where "amtd = Data (Int64 amt)" "0 \<le> amt" "x = Value v" "isZero v" "as2 = Data refdata # as'" "unwinding vf"
    "let iss = \<lparr>amount = amt, assetID = AssetID E (c_seed z') (Encode (Tuple [t, q, k])), anchor = anchor v\<rparr> in
     Log vf = c_log z' @ [[Bytes [IssueCode], Bytes (c_caller z'), Int64 amt, Bytes (assetID iss), Bytes (anchor v)],
       [Bytes [LogCode], Bytes (c_seed z'), refdata]] \<and>
     argstack vf = rev as' @ [Value iss, Contract (MkContract (c_type z') (c_seed z') multisigProgCheck [Data q, Data k, Data (Bytes (anchor v))])]"
    by auto
  with a i(1) show ?thesis
    by (intro exI [of _ args] exI [of _ amt] exI [of _ t] exI [of _ q] exI [of _ k] exI [of _ refdata] exI [of _ as'] exI [of _ v])
      (auto simp: same_contract_def Let_def)
qed

text \<open>
  C12: the asset contract. When the first or second version of the asset program completes as the program of its
  own contract, it took an anchor (a zero value, or the block ID and expiration of a new nonce), an amount
  that is not negative, a tag, a quorum, the keys and an annotation from the argument stack, and issued that
  amount of the asset that \<^verbatim>\<open>AssetID\<close> computes for the tag, the quorum and the keys, on that anchor; the value
  comes together with a contract that checks the signatures of the quorum on its anchor.
\<close>

theorem asset_contract_issues:
  assumes "exec E fuel p vm = (Inr (), vm')" and "\<not> unwinding vm" and "\<not> (Finalized vm \<and> stopAfterFinalize vm)"
    and "version = 1 \<or> version = 2" and "assetProg U version = Some p" and "contract vm = MkContract ContractCode (ContractSeed E p) p []"
  shows "\<exists>args amt t q k refdata rest v iss check. argstack vm = rest @ [Data refdata, Data k, Data q, Data t, Data (Int64 amt)] @ args \<and>
    anchor_ok E (ctx_of vm) (rev args) (Value v) \<and> isZero v \<and> 0 \<le> amt \<and> amount iss = amt \<and> anchor iss = anchor v \<and>
    (\<forall>tag quorum pubkeys. t = Bytes tag \<longrightarrow> q = Int64 quorum \<longrightarrow> k = Tuple (map Bytes pubkeys) \<longrightarrow>
       standard_AssetID E U version quorum pubkeys tag = Some (assetID iss)) \<and>
    mustAssemble U multisigProgCheckSrc = Some check \<and> unwinding vm' \<and>
    argstack vm' = rest @ [Value iss, Contract (MkContract ContractCode (ContractSeed E p) check [Data q, Data k, Data (Bytes (anchor v))])]"
proof -
  have cs: "cstack vm = []" using assms(6) by simp
  from exec_passes [OF assms(1-3)] cs obtain vf where pass: "passes E vf (ctx_of vm) p 0 [] (rev (argstack vm))"
    and vf: "argstack vm' = argstack vf" "unwinding vm' = unwinding vf" by auto
  have z: "c_type (ctx_of vm) = ContractCode" "c_seed (ctx_of vm) = ContractSeed E p" by (simp_all add: ctx_of_def assms(6))
  from asset_run [OF pass assms(4,5)] obtain args amt t q k refdata as' v where
    a: "rev (argstack vm) = args @ [Data (Int64 amt), Data t, Data q, Data k, Data refdata] @ as'" and
    ok: "anchor_ok E (ctx_of vm) args (Value v)" "isZero v" "0 \<le> amt" "unwinding vf" and
    iss: "argstack vf = rev as' @ [Value \<lparr>amount = amt, assetID = AssetID E (ContractSeed E p) (Encode (Tuple [t, q, k])), anchor = anchor v\<rparr>,
      Contract (MkContract ContractCode (ContractSeed E p) multisigProgCheck [Data q, Data k, Data (Bytes (anchor v))])]"
    by (auto simp: Let_def z)
  have "argstack vm = rev as' @ [Data refdata, Data k, Data q, Data t, Data (Int64 amt)] @ rev args"
    using arg_cong [OF a, of rev] by simp
  then show ?thesis using ok iss vf check_program assms(4,5)
    by (intro exI [of _ "rev args"] exI [of _ amt] exI [of _ t] exI [of _ q] exI [of _ k] exI [of _ refdata] exI [of _ "rev as'"] exI [of _ v]
        exI [of _ "\<lparr>amount = amt, assetID = AssetID E (ContractSeed E p) (Encode (Tuple [t, q, k])), anchor = anchor v\<rparr>"] exI [of _ multisigProgCheck])
      (auto simp: standard_AssetID_def AssetContractSeed_def)
qed

definition asset_vm :: "unit vm" where
  "asset_vm = ms_vm assetProg1 []
     [Data (Bytes [9]), Data (Tuple (map Bytes ms_keys)), Data (Int64 1), Data (Bytes [6]), Data (Int64 5), Value (ms_value\<lparr>amount := 0\<rparr>), Data (Int64 0)]"

lemma asset_vm_run: "fst (exec ms_env 200 assetProg1 asset_vm) = Inr ()"
  by code_simp

lemma asset_vm_simps:
  "contract asset_vm = MkContract ContractCode (ContractSeed ms_env assetProg1) assetProg1 []" "\<not> unwinding asset_vm" "\<not> stopAfterFinalize asset_vm"
  "argstack asset_vm = [Data (Bytes [9]), Data (Tuple (map Bytes ms_keys)), Data (Int64 1), Data (Bytes [6]), Data (Int64 5),
     Value (ms_value\<lparr>amount := 0\<rparr>), Data (Int64 0)]"
  by (simp_all add: asset_vm_def ms_vm_def init_vm_def)

theorem asset_contract_issues_witness:
  "\<exists>iss check. argstack (snd (exec ms_env 200 assetProg1 asset_vm)) = [Value iss, Contract check] \<and> amount iss = 5 \<and> anchor iss = replicate 32 4 \<and>
    standard_AssetID ms_env ascii_unicode 1 1 ms_keys [6] = Some (assetID iss)"
proof -
  have "\<exists>args amt t q k refdata rest v iss check. argstack asset_vm = rest @ [Data refdata, Data k, Data q, Data t, Data (Int64 amt)] @ args \<and>
    anchor_ok ms_env (ctx_of asset_vm) (rev args) (Value v) \<and> amount iss = amt \<and> anchor iss = anchor v \<and>
    (\<forall>tag quorum pubkeys. t = Bytes tag \<longrightarrow> q = Int64 quorum \<longrightarrow> k = Tuple (map Bytes pubkeys) \<longrightarrow>
       standard_AssetID ms_env ascii_unicode 1 quorum pubkeys tag = Some (assetID iss)) \<and>
    argstack (snd (exec ms_env 200 assetProg1 asset_vm)) = rest @ [Value iss, Contract check]"
    using asset_contract_issues [OF sample_run [OF asset_vm_run], of 1 ascii_unicode] by (simp add: asset_vm_simps(1-3) asset1_program) metis
  then obtain args amt t q k refdata rest v iss check where
    w: "argstack asset_vm = rest @ [Data refdata, Data k, Data q, Data t, Data (Int64 amt)] @ args"
      "anchor_ok ms_env (ctx_of asset_vm) (rev args) (Value v)" "amount iss = amt" "anchor iss = anchor v"
      "\<And>tag quorum pubkeys. t = Bytes tag \<Longrightarrow> q = Int64 quorum \<Longrightarrow> k = Tuple (map Bytes pubkeys) \<Longrightarrow>
       standard_AssetID ms_env ascii_unicode 1 quorum pubkeys tag = Some (assetID iss)"
      "argstack (snd (exec ms_env 200 assetProg1 asset_vm)) = rest @ [Value iss, Contract check]" by blast
  from w(1,2) have "rest = []" "amt = 5" "t = Bytes [6]" "q = Int64 1" "k = Tuple (map Bytes ms_keys)" "v = ms_value\<lparr>amount := 0\<rparr>"
    by (auto simp: asset_vm_simps anchor_ok_def Cons_eq_append_conv rev_swap)
  with w(3-6) show ?thesis by (auto simp: ms_value_def)
qed

end
