(* ===== verification/BCTx.thy ===== *)
theory BCTx
  imports BCHash VMValidate
begin

text \<open>
  Transactions (\<^verbatim>\<open>protocol/bc/tx.go\<close>): a program, its run by the virtual machine, and the parsed
  copies of the side effects that two callbacks collect during the run. A callback that panics is
  silently abandoned by \<^verbatim>\<open>runHook\<close>, with the changes it made so far kept; so the callbacks are
  state-and-panic computations on the transaction. The record of a transaction is extensible: the
  rest of it is what the callbacks passed by the caller of \<^verbatim>\<open>NewTx\<close> record.
\<close>

section \<open>Entries\<close>

definition InputType :: int where "InputType = 0"
definition OutputType :: int where "OutputType = 1"

record tx_contract =
  c_Type :: int
  c_ID :: Hash

record Timerange =
  MinMS :: int
  MaxMS :: int

record Nonce =
  n_ID :: Hash
  n_BlockID :: Hash
  ExpMS :: uint64

record Output = \<comment> \<open>\<^verbatim>\<open>Input\<close> has the same fields\<close>
  io_ID :: Hash
  io_Seed :: Hash
  io_Stack :: "data list"
  io_Program :: bytes
  io_LogPos :: int

type_synonym Input = Output

record Issuance = \<comment> \<open>\<^verbatim>\<open>Retirement\<close> has the same fields\<close>
  i_Amount :: int
  i_AssetID :: Hash
  i_Anchor :: bytes
  i_LogPos :: int

type_synonym Retirement = Issuance

record tx =
  WitnessProg :: bytes
  tx_Version :: int
  tx_Runlimit :: int
  tx_Finalized :: bool
  tx_ID :: Hash
  tx_Log :: "data list list"
  Contracts :: "tx_contract list"
  Timeranges :: "Timerange list"
  Nonces :: "Nonce list"
  tx_Anchor :: bytes
  Inputs :: "Input list"
  Issuances :: "Issuance list"
  Outputs :: "Output list"
  Retirements :: "Retirement list"

section \<open>Callbacks\<close>

type_synonym ('w, 'a) hookact = "('w tx_scheme, unit, 'a) sm"

definition idx :: "'a list \<Rightarrow> nat \<Rightarrow> ('w, 'a) hookact" where
  \<comment> \<open>an index expression\<close>
  "idx xs i = (if i < length xs then return (xs ! i) else panic ())"

definition asBytes :: "data \<Rightarrow> ('w, bytes) hookact" where
  \<comment> \<open>the type assertion \<^verbatim>\<open>d.(txvm.Bytes)\<close>\<close>
  "asBytes d = (case d of Bytes b \<Rightarrow> return b | _ \<Rightarrow> panic ())"

definition asInt :: "data \<Rightarrow> ('w, int) hookact" where
  "asInt d = (case d of Int64 i \<Rightarrow> return i | _ \<Rightarrow> panic ())"

definition asTuple :: "data \<Rightarrow> ('w, data list) hookact" where
  "asTuple d = (case d of Tuple t \<Rightarrow> return t | _ \<Rightarrow> panic ())"

definition stackHook :: "'o vm \<Rightarrow> ('w, unit) hookact" where
  "stackHook vm =
     (if opcode vm = op_Output then
        (let stk = map inspect (cstack vm) in
         bind (if stk = [] then panic () else return (last stk)) (\<lambda>progTup.
         bind (idx progTup 1) (\<lambda>p. bind (asBytes p) (\<lambda>pr.
         modify (\<lambda>t. t\<lparr>Outputs := Outputs t @
           [\<lparr>io_ID = zero_Hash, io_Seed = HashFromBytes (seed (contract vm)),
             io_Stack = map Tuple (butlast stk), io_Program = pr, io_LogPos = 0\<rparr>]\<rparr>)))))
      else if opcode vm = op_Input then
        bind (if cstack vm = [] then panic () else return (inspect (last (cstack vm)))) (\<lambda>top.
        bind (bind (idx top 1) asTuple) (\<lambda>inputTup.
        bind (bind (idx inputTup 1) asBytes) (\<lambda>sd.
        bind (bind (idx inputTup 2) asBytes) (\<lambda>pr.
        modify (\<lambda>t. t\<lparr>Inputs := Inputs t @
          [\<lparr>io_ID = zero_Hash, io_Seed = HashFromBytes sd, io_Stack = drop 3 inputTup,
            io_Program = pr, io_LogPos = 0\<rparr>]\<rparr>)))))
      else return ())"

definition entry :: "('z) crypto_scheme \<Rightarrow> nat \<Rightarrow> data list \<Rightarrow> nat \<times> nat \<Rightarrow> ('w, nat \<times> nat) hookact" where
  \<comment> \<open>the loop body of \<^verbatim>\<open>entryHook\<close> for the log tuple \<open>tup\<close> at position \<open>i\<close>; it returns the
     input and output counters\<close>
  "entry C i tup = (\<lambda>(inputIdx, outputIdx).
     andthen (modify (\<lambda>t. t\<lparr>tx_Log := tx_Log t @ [tup]\<rparr>))
    (bind (bind (idx tup 0) asBytes) (\<lambda>tupType.
     bind (idx tupType 0) (\<lambda>code.
     if code = FinalizeCode then
       bind (bind (idx tup 3) asBytes) (\<lambda>a.
       andthen (modify (\<lambda>t. t\<lparr>tx_Anchor := a\<rparr>)) (return (inputIdx, outputIdx)))
     else if code = InputCode then
       bind (bind (idx tup 2) asBytes) (\<lambda>b. let id' = HashFromBytes b in
       bind (bind (gets Inputs) (\<lambda>xs. idx xs inputIdx)) (\<lambda>x.
       andthen (modify (\<lambda>t. t\<lparr>Inputs := (Inputs t)[inputIdx := x\<lparr>io_ID := id', io_LogPos := int i\<rparr>]\<rparr>))
      (andthen (modify (\<lambda>t. t\<lparr>Contracts := Contracts t @ [\<lparr>c_Type = InputType, c_ID = id'\<rparr>]\<rparr>))
       (return (inputIdx + 1, outputIdx)))))
     else if code = OutputCode then
       bind (bind (idx tup 2) asBytes) (\<lambda>b. let id' = HashFromBytes b in
       bind (bind (gets Outputs) (\<lambda>xs. idx xs outputIdx)) (\<lambda>x.
       andthen (modify (\<lambda>t. t\<lparr>Outputs := (Outputs t)[outputIdx := x\<lparr>io_ID := id', io_LogPos := int i\<rparr>]\<rparr>))
      (andthen (modify (\<lambda>t. t\<lparr>Contracts := Contracts t @ [\<lparr>c_Type = OutputType, c_ID = id'\<rparr>]\<rparr>))
       (return (inputIdx, outputIdx + 1)))))
     else if code = IssueCode then
       bind (bind (idx tup 2) asInt) (\<lambda>a. bind (bind (idx tup 3) asBytes) (\<lambda>asset.
       bind (bind (idx tup 4) asBytes) (\<lambda>anc.
       andthen (modify (\<lambda>t. t\<lparr>Issuances := Issuances t @
         [\<lparr>i_Amount = a, i_AssetID = HashFromBytes asset, i_Anchor = anc, i_LogPos = int i\<rparr>]\<rparr>))
       (return (inputIdx, outputIdx)))))
     else if code = RetireCode then
       bind (bind (idx tup 2) asInt) (\<lambda>a. bind (bind (idx tup 3) asBytes) (\<lambda>asset.
       bind (bind (idx tup 4) asBytes) (\<lambda>anc.
       andthen (modify (\<lambda>t. t\<lparr>Retirements := Retirements t @
         [\<lparr>i_Amount = a, i_AssetID = HashFromBytes asset, i_Anchor = anc, i_LogPos = int i\<rparr>]\<rparr>))
       (return (inputIdx, outputIdx)))))
     else if code = TimerangeCode then
       bind (bind (idx tup 2) asInt) (\<lambda>mn. bind (bind (idx tup 3) asInt) (\<lambda>mx.
       andthen (modify (\<lambda>t. t\<lparr>Timeranges := Timeranges t @ [\<lparr>MinMS = mn, MaxMS = mx\<rparr>]\<rparr>))
       (return (inputIdx, outputIdx))))
     else if code = NonceCode then
       bind (bind (idx tup 3) asBytes) (\<lambda>b. bind (bind (idx tup 4) asInt) (\<lambda>e.
       andthen (modify (\<lambda>t. t\<lparr>Nonces := Nonces t @
         [\<lparr>n_ID = NewHash (VMHash C (str ''Nonce'') (Encode (Tuple tup))),
           n_BlockID = HashFromBytes b, ExpMS = word_of_int e\<rparr>]\<rparr>))
       (return (inputIdx, outputIdx))))
     else return (inputIdx, outputIdx)))))"

fun entries :: "('z) crypto_scheme \<Rightarrow> nat \<Rightarrow> data list list \<Rightarrow> nat \<times> nat \<Rightarrow> ('w, unit) hookact" where
  "entries C i [] st = return ()"
| "entries C i (tup # log) st = bind (entry C i tup st) (entries C (i + 1) log)"

definition entryHook :: "('z) crypto_scheme \<Rightarrow> 'o vm \<Rightarrow> ('w, unit) hookact" where
  "entryHook C vm = andthen (modify (\<lambda>t. t\<lparr>tx_Version := txVersion vm\<rparr>)) (entries C 0 (Log vm) (0, 0))"

definition as_hook :: "('w tx_scheme vm \<Rightarrow> ('w, unit) hookact) \<Rightarrow> 'w tx_scheme hook" where
  \<comment> \<open>a callback on the machine: \<^verbatim>\<open>runHook\<close> drops its panic\<close>
  "as_hook h = (\<lambda>vm. snd (h vm (obs vm)))"

section \<open>NewTx\<close>

definition empty_tx :: "bytes \<Rightarrow> int \<Rightarrow> int \<Rightarrow> 'w \<Rightarrow> 'w tx_scheme" where
  "empty_tx p version limit w =
     \<lparr>WitnessProg = p, tx_Version = version, tx_Runlimit = limit, tx_Finalized = False,
      tx_ID = zero_Hash, tx_Log = [], Contracts = [], Timeranges = [], Nonces = [],
      tx_Anchor = [], Inputs = [], Issuances = [], Outputs = [], Retirements = [], \<dots> = w\<rparr>"

definition NewTx ::
  "crypto \<Rightarrow> 'w \<Rightarrow> bytes \<Rightarrow> int \<Rightarrow> int \<Rightarrow> 'w tx_scheme Option list \<Rightarrow>
   ('w tx_scheme \<times> vmerror option) option" where
  \<comment> \<open>\<open>None\<close>: the nil machine that \<^verbatim>\<open>Validate\<close> returns for an unknown version is dereferenced\<close>
  "NewTx C w p version limit option =
     (case Validate C (empty_tx p version limit w) p version limit
         (option @ [OnFinalize [as_hook (entryHook C)], BeforeStep [as_hook stackHook]]) of
        (None, _) \<Rightarrow> None
      | (Some vm, err) \<Rightarrow>
          (let t = (obs vm)\<lparr>tx_Finalized := Finalized vm\<rparr> in
           Some (if Finalized vm then t\<lparr>tx_ID := NewHash (TxID vm)\<rparr> else t, err)))"

section \<open>The witness commitment\<close>

definition witness_hash :: "('z) crypto_scheme \<Rightarrow> 'w tx_scheme \<Rightarrow> bytes" where
  "witness_hash C t = VMHash C (str ''WitnessHash'')
     (Encode (Tuple [Int64 (tx_Version t), Int64 (tx_Runlimit t), Bytes (WitnessProg t)]))"

definition writeWitnessHashTo ::
  "('z) crypto_scheme \<Rightarrow> 'w tx_scheme \<Rightarrow> ('s, 'e) writer \<Rightarrow> 's \<Rightarrow> (int \<times> 'e option) \<times> 's" where
  "writeWitnessHashTo C t wr s = wr (witness_hash C t) s"

definition WriteWitnessCommitmentTo ::
  "('z) crypto_scheme \<Rightarrow> 'w tx_scheme \<Rightarrow> ('s, 'e) writer \<Rightarrow> 's \<Rightarrow> (int \<times> 'e option) \<times> 's" where
  "WriteWitnessCommitmentTo C t wr s =
     (case Hash_WriteTo (tx_ID t) wr s of
        ((n, Some e), s') \<Rightarrow> ((n, Some e), s')
      | ((n, None), s') \<Rightarrow>
          (case writeWitnessHashTo C t wr s' of
             ((n2, Some e), s'') \<Rightarrow> ((n + n2, Some e), s'')
           | ((n2, None), s'') \<Rightarrow> ((n + n2, None), s'')))"

definition buffer :: "(bytes, 'e) writer" where
  \<comment> \<open>a \<^verbatim>\<open>bytes.Buffer\<close>\<close>
  "buffer b s = ((len b, None), s @ b)"

definition TxMerkleRoot :: "('z) crypto_scheme \<Rightarrow> 'w tx_scheme list \<Rightarrow> Hash" where
  "TxMerkleRoot C txs =
     NewHash (Root C (map (\<lambda>t. snd (WriteWitnessCommitmentTo C t (buffer :: (bytes, unit) writer) [])) txs))"

end
