(* ===== verification/TxResult.thy ===== *)
theory TxResult
  imports Multisig BCTx "HOL-Library.Monad_Syntax"
begin

text \<open>
  Results of transactions (\<^verbatim>\<open>src/standard/txresult/result.go\<close>): what a transaction did, read back from the log and from the contracts it
  output and input, with the annotations of the standard contracts. An index out of range or a type assertion that fails is
  a panic, \<open>None\<close>. A slice that is never set, the nil slice, is \<open>None\<close> too where the code tells it from a slice that is set.
\<close>

section \<open>Data\<close>

record RValue =
  v_AssetID :: Hash
  v_Amount :: uint64
  v_Anchor :: bytes

record ROutput =
  o_LogPos :: uint64
  o_OutputID :: Hash
  o_Value :: "RValue option"
  o_Pubkeys :: "bytes list"
  o_RefData :: "bytes option"
  o_TokenTags :: "bytes option"
  o_Version :: int

record RInput =
  in_OutputID :: Hash
  in_Value :: "RValue option"
  in_RefData :: "bytes option"

record RIssuance = \<comment> \<open>\<^verbatim>\<open>Retirement\<close> has the same fields\<close>
  iss_Value :: "RValue option"
  iss_RefData :: "bytes option"

type_synonym RRetirement = RIssuance

record 'w Result =
  r_Tx :: "'w tx_scheme"
  r_Outputs :: "ROutput list"
  r_Inputs :: "RInput list"
  r_Issuances :: "RIssuance list"
  r_Retirements :: "RRetirement list"
  r_RefData :: "bytes option"

section \<open>Index expressions and type assertions\<close>

definition ix :: "'a list \<Rightarrow> int \<Rightarrow> 'a option" where
  "ix xs i = (if 0 \<le> i \<and> i < len xs then Some (xs ! nat i) else None)"

definition toBytes :: "data \<Rightarrow> bytes option" where
  "toBytes d = (case d of Bytes b \<Rightarrow> Some b | _ \<Rightarrow> None)"

definition toInt :: "data \<Rightarrow> int option" where
  "toInt d = (case d of Int64 i \<Rightarrow> Some i | _ \<Rightarrow> None)"

definition toTuple :: "data \<Rightarrow> data list option" where
  "toTuple d = (case d of Tuple t \<Rightarrow> Some t | _ \<Rightarrow> None)"

lemmas assertions = toBytes_def toInt_def toTuple_def

section \<open>Annotations\<close>

definition logTuple :: "data list \<Rightarrow> bytes option \<Rightarrow> (data list \<times> bool) option" where
  "logTuple t sd = do {
     h \<leftarrow> ix t 0 \<bind> toBytes;
     c \<leftarrow> ix h 0;
     if c \<noteq> LogCode then Some ([], False)
     else (case sd of
       None \<Rightarrow> Some (t, True)
     | Some s \<Rightarrow> do { b \<leftarrow> ix t 1 \<bind> toBytes; Some (t, s = b) })
   }"

definition parse_value :: "data list \<Rightarrow> RValue option" where
  \<comment> \<open>the \<^verbatim>\<open>Value\<close> literal of \<^verbatim>\<open>addOutputMeta\<close> and \<^verbatim>\<open>addInputMeta\<close>\<close>
  "parse_value val = do {
     a \<leftarrow> ix val 1 \<bind> toInt;
     asset \<leftarrow> ix val 2 \<bind> toBytes;
     anc \<leftarrow> ix val 3 \<bind> toBytes;
     Some \<lparr>v_AssetID = HashFromBytes asset, v_Amount = word_of_int a, v_Anchor = anc\<rparr>
   }"

definition addOutputDetails :: "ROutput \<Rightarrow> Output \<Rightarrow> 'w tx_scheme \<Rightarrow> int \<Rightarrow> ROutput option" where
  \<comment> \<open>\<^verbatim>\<open>addOutputMeta\<close> after its \<^verbatim>\<open>switch\<close>\<close>
  "addOutputDetails out txOut t logPos = do {
     l \<leftarrow> ix (tx_Log t) (logPos - 1);
     (refdataTuple, ok) \<leftarrow> logTuple l None;
     if \<not> ok then Some out
     else do {
       refdata \<leftarrow> ix refdataTuple 2 \<bind> toBytes;
       val \<leftarrow> ix (io_Stack txOut) (len (io_Stack txOut) - 1) \<bind> toTuple;
       k \<leftarrow> ix (io_Stack txOut) (len (io_Stack txOut) - 2) \<bind> toTuple;
       pubkeyBytes \<leftarrow> ix k 1 \<bind> toTuple;
       pubkeys \<leftarrow> those (map toBytes pubkeyBytes);
       v \<leftarrow> parse_value val;
       Some (out\<lparr>o_Value := Some v, o_Pubkeys := pubkeys, o_RefData := Some refdata\<rparr>)
     }
   }"

definition addOutputMeta :: "('z) crypto_scheme \<Rightarrow> unicode \<Rightarrow> ROutput \<Rightarrow> Output \<Rightarrow> 'w tx_scheme \<Rightarrow> int \<Rightarrow> ROutput option" where
  "addOutputMeta C U out txOut t logPos = do {
     seed1 \<leftarrow> PayToMultisigSeed1 C U;
     seed2 \<leftarrow> PayToMultisigSeed2 C U;
     if Byte32 (io_Seed txOut) = seed1 then
       addOutputDetails (out\<lparr>o_Version := 1\<rparr>) txOut t logPos
     else if Byte32 (io_Seed txOut) = seed2 then do {
       let out = out\<lparr>o_Version := 2\<rparr>;
       l \<leftarrow> ix (tx_Log t) (logPos - 2);
       (tagsTuple, ok) \<leftarrow> logTuple l None;
       if \<not> ok then Some out
       else do {
         tags \<leftarrow> ix tagsTuple 2 \<bind> toBytes;
         addOutputDetails (out\<lparr>o_TokenTags := Some tags\<rparr>) txOut t logPos
       }
     }
     else Some out
   }"

definition addInputMeta :: "('z) crypto_scheme \<Rightarrow> unicode \<Rightarrow> RInput \<Rightarrow> Input \<Rightarrow> 'w tx_scheme \<Rightarrow> int \<Rightarrow> RInput option" where
  "addInputMeta C U inp txIn t logPos =
     (if logPos + 1 \<ge> len (tx_Log t) then Some inp
      else do {
        spendRefTuple \<leftarrow> ix (tx_Log t) (logPos + 1);
        sd \<leftarrow> ix spendRefTuple 1 \<bind> toBytes;
        seed1 \<leftarrow> PayToMultisigSeed1 C U;
        seed2 \<leftarrow> PayToMultisigSeed2 C U;
        if sd \<noteq> seed1 \<and> sd \<noteq> seed2 then Some inp
        else do {
          spendRefdata \<leftarrow> ix spendRefTuple 2 \<bind> toBytes;
          val \<leftarrow> ix (io_Stack txIn) (len (io_Stack txIn) - 1) \<bind> toTuple;
          v \<leftarrow> parse_value val;
          Some (inp\<lparr>in_Value := Some v, in_RefData := Some spendRefdata\<rparr>)
        }
      })"

definition addIssueMeta :: "('z) crypto_scheme \<Rightarrow> unicode \<Rightarrow> RIssuance \<Rightarrow> 'w tx_scheme \<Rightarrow> int \<Rightarrow> RIssuance option" where
  "addIssueMeta C U issuance t logPos =
     (if logPos + 1 \<ge> len (tx_Log t) then Some issuance
      else do {
        v1Seed \<leftarrow> AssetContractSeed C U 1;
        v2Seed \<leftarrow> AssetContractSeed C U 2;
        l \<leftarrow> ix (tx_Log t) (logPos + 1);
        r \<leftarrow> logTuple l (Some v2Seed);
        (refdataTuple, ok) \<leftarrow> (if \<not> snd r then logTuple l (Some v1Seed) else Some r);
        if \<not> ok then Some issuance
        else do {
          refdata \<leftarrow> ix refdataTuple 2 \<bind> toBytes;
          Some (issuance\<lparr>iss_RefData := Some refdata\<rparr>)
        }
      })"

definition addRetireMeta :: "('z) crypto_scheme \<Rightarrow> unicode \<Rightarrow> RRetirement \<Rightarrow> 'w tx_scheme \<Rightarrow> int \<Rightarrow> RRetirement option" where
  "addRetireMeta C U retirement t logPos =
     (if logPos + 1 \<ge> len (tx_Log t) then Some retirement
      else do {
        sd \<leftarrow> RetireContractSeed C U;
        l \<leftarrow> ix (tx_Log t) (logPos + 1);
        (refdataTuple, ok) \<leftarrow> logTuple l (Some sd);
        if \<not> ok then Some retirement
        else do {
          refdata \<leftarrow> ix refdataTuple 2 \<bind> toBytes;
          Some (retirement\<lparr>iss_RefData := Some refdata\<rparr>)
        }
      })"

definition addFinalizeMeta :: "'w Result \<Rightarrow> 'w tx_scheme \<Rightarrow> int \<Rightarrow> 'w Result option" where
  "addFinalizeMeta res t logPos =
     (if logPos < 1 then Some res
      else do {
        l \<leftarrow> ix (tx_Log t) (logPos - 1);
        (tup, ok) \<leftarrow> logTuple l None;
        if \<not> ok then Some res
        else do {
          d \<leftarrow> ix tup 2;
          Some (case d of Bytes refdata \<Rightarrow> res\<lparr>r_RefData := Some refdata\<rparr> | _ \<Rightarrow> res)
        }
      })"

section \<open>New and Results\<close>

definition result_output :: "('z) crypto_scheme \<Rightarrow> unicode \<Rightarrow> 'w tx_scheme \<Rightarrow> Output \<Rightarrow> ROutput option" where
  "result_output C U t out = addOutputMeta C U
     \<lparr>o_LogPos = word_of_int (io_LogPos out), o_OutputID = io_ID out, o_Value = None, o_Pubkeys = [],
      o_RefData = None, o_TokenTags = None, o_Version = 0\<rparr> out t (io_LogPos out)"

definition result_input :: "('z) crypto_scheme \<Rightarrow> unicode \<Rightarrow> 'w tx_scheme \<Rightarrow> Input \<Rightarrow> RInput option" where
  "result_input C U t inp = addInputMeta C U \<lparr>in_OutputID = io_ID inp, in_Value = None, in_RefData = None\<rparr> inp t (io_LogPos inp)"

definition value_of :: "Issuance \<Rightarrow> RValue" where
  "value_of iss = \<lparr>v_AssetID = i_AssetID iss, v_Amount = word_of_int (i_Amount iss), v_Anchor = i_Anchor iss\<rparr>"

definition result_issuance :: "('z) crypto_scheme \<Rightarrow> unicode \<Rightarrow> 'w tx_scheme \<Rightarrow> Issuance \<Rightarrow> RIssuance option" where
  "result_issuance C U t iss = addIssueMeta C U \<lparr>iss_Value = Some (value_of iss), iss_RefData = None\<rparr> t (i_LogPos iss)"

definition result_retirement :: "('z) crypto_scheme \<Rightarrow> unicode \<Rightarrow> 'w tx_scheme \<Rightarrow> Retirement \<Rightarrow> RRetirement option" where
  "result_retirement C U t ret = addRetireMeta C U \<lparr>iss_Value = Some (value_of ret), iss_RefData = None\<rparr> t (i_LogPos ret)"

definition New :: "('z) crypto_scheme \<Rightarrow> unicode \<Rightarrow> 'w tx_scheme \<Rightarrow> 'w Result option" where
  "New C U t = do {
     outs \<leftarrow> those (map (result_output C U t) (Outputs t));
     ins \<leftarrow> those (map (result_input C U t) (Inputs t));
     isss \<leftarrow> those (map (result_issuance C U t) (Issuances t));
     rets \<leftarrow> those (map (result_retirement C U t) (Retirements t));
     addFinalizeMeta \<lparr>r_Tx = t, r_Outputs = outs, r_Inputs = ins, r_Issuances = isss, r_Retirements = rets, r_RefData = None\<rparr>
       t (len (tx_Log t) - 1)
   }"

definition Results :: "('z) crypto_scheme \<Rightarrow> unicode \<Rightarrow> 'w tx_scheme list \<Rightarrow> 'w Result list option" where
  \<comment> \<open>one goroutine per transaction, each with a slot of its own; a panic of one of them ends the program\<close>
  "Results C U txs = those (map (New C U) txs)"

section \<open>What a result says\<close>

lemma those_map: "those (map f xs) = Some ys \<longleftrightarrow> list_all2 (\<lambda>x y. f x = Some y) xs ys"
proof (induction xs arbitrary: ys)
  case (Cons x xs)
  show ?case by (cases ys) (auto simp: Cons.IH split: option.splits)
qed auto

lemma those_None: "x \<in> set xs \<Longrightarrow> f x = None \<Longrightarrow> those (map f xs) = None"
  by (induction xs) (auto split: option.splits)

lemma list_all2_field: "list_all2 R xs ys \<Longrightarrow> (\<And>x y. R x y \<Longrightarrow> g y = h x) \<Longrightarrow> map g ys = map h xs"
  by (induction rule: list_all2_induct) simp_all

lemma parse_value_Some:
  "parse_value val = Some v \<longleftrightarrow> (\<exists>c amt asset rest. val = c # Int64 amt # Bytes asset # Bytes (v_Anchor v) # rest \<and>
     v_AssetID v = HashFromBytes asset \<and> v_Amount v = word_of_int amt)"
proof
  assume "parse_value val = Some v"
  moreover from this have "3 < length val" by (auto simp: parse_value_def ix_def len_def split: Option.bind_splits if_splits)
  then obtain a b c d rest where "val = a # b # c # d # rest" by (auto simp: numeral_3_eq_3 Suc_less_eq2 length_Suc_conv neq_Nil_conv)
  ultimately show "\<exists>c amt asset rest. val = c # Int64 amt # Bytes asset # Bytes (v_Anchor v) # rest \<and>
     v_AssetID v = HashFromBytes asset \<and> v_Amount v = word_of_int amt"
    by (auto simp: parse_value_def ix_def len_def assertions split: Option.bind_splits if_splits data.splits)
qed (auto simp: parse_value_def ix_def len_def assertions)

lemma top_tuple: "ix xs (len xs - 1) = Some d \<Longrightarrow> toTuple d = Some val \<Longrightarrow> \<exists>st. xs = st @ [Tuple val]"
  by (cases xs rule: rev_cases) (auto simp: ix_def len_def assertions split: if_splits data.splits)

definition same_output :: "ROutput \<Rightarrow> ROutput \<Rightarrow> bool" where
  "same_output a b \<longleftrightarrow> o_OutputID b = o_OutputID a \<and> o_LogPos b = o_LogPos a"

lemma output_details:
  assumes "addOutputDetails out txOut t p = Some out'"
  shows "same_output out out' \<and>
    (o_Value out' = o_Value out \<or> (\<exists>v st val. o_Value out' = Some v \<and> io_Stack txOut = st @ [Tuple val] \<and> parse_value val = Some v))"
  using assms by (auto simp: addOutputDetails_def same_output_def bind_eq_Some_conv split: if_splits dest!: top_tuple)

lemma those_toBytes [simp]: "those (map (toBytes \<circ> Bytes) xs) = Some xs"
  by (induction xs) (simp_all add: toBytes_def)

lemma output_meta_cases:
  assumes "addOutputMeta C U out txOut t p = Some out'"
  shows "same_output out out' \<and> o_Value out' = o_Value out \<or>
    (PayToMultisigSeed1 C U = Some (Byte32 (io_Seed txOut)) \<or> PayToMultisigSeed2 C U = Some (Byte32 (io_Seed txOut))) \<and>
    (\<exists>o1. same_output out o1 \<and> o_Value o1 = o_Value out \<and> addOutputDetails o1 txOut t p = Some out')"
proof -
  have "same_output out (out\<lparr>o_Version := k\<rparr>)" "o_Value (out\<lparr>o_Version := k\<rparr>) = o_Value out"
    "same_output out (out\<lparr>o_Version := k, o_TokenTags := d\<rparr>)" "o_Value (out\<lparr>o_Version := k, o_TokenTags := d\<rparr>) = o_Value out" for k d
    by (simp_all add: same_output_def)
  with assms show ?thesis
    unfolding addOutputMeta_def bind_eq_Some_conv Let_def by (auto simp: bind_eq_Some_conv same_output_def split: if_splits)
qed

lemma output_meta:
  assumes "addOutputMeta C U out txOut t p = Some out'"
  shows "same_output out out' \<and>
    (o_Value out' = o_Value out \<or> (PayToMultisigSeed1 C U = Some (Byte32 (io_Seed txOut)) \<or> PayToMultisigSeed2 C U = Some (Byte32 (io_Seed txOut))) \<and>
      (\<exists>v st val. o_Value out' = Some v \<and> io_Stack txOut = st @ [Tuple val] \<and> parse_value val = Some v))"
  using output_meta_cases [OF assms] output_details by (fastforce simp: same_output_def)

lemma result_output_Some:
  assumes "result_output C U t x = Some out"
  shows "o_OutputID out = io_ID x" and "o_LogPos out = word_of_int (io_LogPos x)"
    and "o_Value out = Some v \<Longrightarrow> (PayToMultisigSeed1 C U = Some (Byte32 (io_Seed x)) \<or> PayToMultisigSeed2 C U = Some (Byte32 (io_Seed x))) \<and>
      (\<exists>st val. io_Stack x = st @ [Tuple val] \<and> parse_value val = Some v)"
  using output_meta [OF assms [unfolded result_output_def]] by (auto simp: same_output_def)

lemma result_input_Some: "result_input C U t x = Some i \<Longrightarrow> in_OutputID i = io_ID x"
  by (auto simp: result_input_def addInputMeta_def bind_eq_Some_conv split: if_splits)

lemma result_issuance_Some: "result_issuance C U t x = Some i \<Longrightarrow> iss_Value i = Some (value_of x)"
  by (auto simp: result_issuance_def addIssueMeta_def bind_eq_Some_conv split: if_splits)

lemma result_retirement_Some: "result_retirement C U t x = Some i \<Longrightarrow> iss_Value i = Some (value_of x)"
  by (auto simp: result_retirement_def addRetireMeta_def bind_eq_Some_conv split: if_splits)

lemma refdata_case: "\<exists>e. (case d of Bytes b \<Rightarrow> r\<lparr>r_RefData := Some b\<rparr> | _ \<Rightarrow> r) = r\<lparr>r_RefData := e\<rparr>"
  by (cases d; cases r) auto

lemma addFinalizeMeta_Some: "addFinalizeMeta r t p = Some r' \<Longrightarrow> \<exists>e. r' = r\<lparr>r_RefData := e\<rparr>"
  using refdata_case [of r] refdata_case [of r "Int64 0"]
  by (fastforce simp: addFinalizeMeta_def bind_eq_Some_conv split: if_splits)

lemma New_Some:
  assumes "New C U t = Some r"
  shows "r_Tx r = t" and "list_all2 (\<lambda>x y. result_output C U t x = Some y) (Outputs t) (r_Outputs r)"
    and "list_all2 (\<lambda>x y. result_input C U t x = Some y) (Inputs t) (r_Inputs r)"
    and "list_all2 (\<lambda>x y. result_issuance C U t x = Some y) (Issuances t) (r_Issuances r)"
    and "list_all2 (\<lambda>x y. result_retirement C U t x = Some y) (Retirements t) (r_Retirements r)"
  using assms by (auto simp: New_def bind_eq_Some_conv those_map dest!: addFinalizeMeta_Some)

text \<open>
  A result tells what the transaction did. When \<^verbatim>\<open>New\<close> returns, its outputs and inputs are those of the transaction, in order; its
  issuances and retirements have the values the transaction recorded; and an output is shown with a value only if
  its contract has the seed of a standard pay-to-multisig contract and has this value on the top of its stack.
\<close>

lemma result_faithful:
  assumes "New C U t = Some r"
  shows "r_Tx r = t \<and> map o_OutputID (r_Outputs r) = map io_ID (Outputs t) \<and> map in_OutputID (r_Inputs r) = map io_ID (Inputs t) \<and>
    map iss_Value (r_Issuances r) = map (Some \<circ> value_of) (Issuances t) \<and> map iss_Value (r_Retirements r) = map (Some \<circ> value_of) (Retirements t) \<and>
    (\<forall>i < length (r_Outputs r). \<forall>v. o_Value (r_Outputs r ! i) = Some v \<longrightarrow>
       (PayToMultisigSeed1 C U = Some (Byte32 (io_Seed (Outputs t ! i))) \<or> PayToMultisigSeed2 C U = Some (Byte32 (io_Seed (Outputs t ! i)))) \<and>
       (\<exists>st c amt asset rest. io_Stack (Outputs t ! i) = st @ [Tuple (c # Int64 amt # Bytes asset # Bytes (v_Anchor v) # rest)] \<and>
         v_AssetID v = HashFromBytes asset \<and> v_Amount v = word_of_int amt))"
proof (intro conjI allI impI)
  note N = New_Some [OF assms]
  show "r_Tx r = t" by (rule N(1))
  show "map o_OutputID (r_Outputs r) = map io_ID (Outputs t)" by (rule list_all2_field [OF N(2) result_output_Some(1)])
  show "map in_OutputID (r_Inputs r) = map io_ID (Inputs t)" by (rule list_all2_field [OF N(3) result_input_Some])
  show "map iss_Value (r_Issuances r) = map (Some \<circ> value_of) (Issuances t)" by (rule list_all2_field [OF N(4)]) (simp add: result_issuance_Some)
  show "map iss_Value (r_Retirements r) = map (Some \<circ> value_of) (Retirements t)" by (rule list_all2_field [OF N(5)]) (simp add: result_retirement_Some)
  fix i v assume i: "i < length (r_Outputs r)" "o_Value (r_Outputs r ! i) = Some v"
  from N(2) i(1) have o: "result_output C U t (Outputs t ! i) = Some (r_Outputs r ! i)" by (simp add: list_all2_conv_all_nth)
  note out = result_output_Some(3) [OF o i(2)]
  then show "PayToMultisigSeed1 C U = Some (Byte32 (io_Seed (Outputs t ! i))) \<or> PayToMultisigSeed2 C U = Some (Byte32 (io_Seed (Outputs t ! i)))" ..
  from out show "\<exists>st c amt asset rest. io_Stack (Outputs t ! i) = st @ [Tuple (c # Int64 amt # Bytes asset # Bytes (v_Anchor v) # rest)] \<and>
      v_AssetID v = HashFromBytes asset \<and> v_Amount v = word_of_int amt"
    by (auto simp: parse_value_Some)
qed

section \<open>The result of locking a value\<close>

lemma logTuple_log: "logTuple [Bytes [LogCode], Bytes s, d] None = Some ([Bytes [LogCode], Bytes s, d], True)"
  by (simp add: logTuple_def ix_def len_def toBytes_def)

lemma ix_Cons: "ix (x # xs) 0 = Some x" "0 < i \<Longrightarrow> ix (x # xs) i = ix xs (i - 1)"
  by (auto simp: ix_def len_def nth_Cons' nat_diff_distrib)

lemma ix_append: "len xs \<le> i \<Longrightarrow> ix (xs @ ys) i = ix ys (i - len xs)"
  by (auto simp: ix_def len_def nth_append nat_diff_distrib)

lemma details_lock:
  assumes "ix (tx_Log t) (logPos - 1) = Some [Bytes [LogCode], Bytes s, d]"
    and "io_Stack x = [Tuple (inspect q), Tuple (inspect (Data (Tuple (map Bytes pubkeys)))), Tuple (inspect (Value v))]"
  shows "addOutputDetails out x t logPos = map_option (\<lambda>refdata. out\<lparr>
    o_Value := Some \<lparr>v_AssetID = HashFromBytes (assetID v), v_Amount = word_of_int (amount v), v_Anchor = anchor v\<rparr>,
    o_Pubkeys := pubkeys, o_RefData := Some refdata\<rparr>) (toBytes d)"
  by (cases d) (simp_all add: addOutputDetails_def assms logTuple_log ix_Cons len_def toTuple_def parse_value_def inspect_value_def toInt_def toBytes_def)

text \<open>
  C13: locking a value shows in the result. When a pay-to-multisig contract of either version has locked a value, the
  transaction's log continues that of the run, and its record of the output is the stack of the contract and the position
  of the output in the log, then the result shows the amount, the asset, the anchor, the keys, and the annotations,
  if the annotations are strings. An annotation that is no string makes \<^verbatim>\<open>New\<close> panic.
\<close>

theorem result_of_lock:
  assumes "exec E fuel p vm = (Inr (), vm')" and "\<not> unwinding vm" and "\<not> (Finalized vm \<and> stopAfterFinalize vm)"
    and "cstack vm = []" and "contract vm = MkContract ContractCode sd code []"
    and "version = 1 \<and> PayToMultisigProg1 U = Some p \<or> version = 2 \<and> PayToMultisigProg2 U = Some p"
    and "sd = ContractSeed E p" and "PayToMultisigSeed1 E U \<noteq> PayToMultisigSeed2 E U"
    and "argstack vm = rest @ map Data anns @ [Value v, Data (Tuple (map Bytes pubkeys)), q]" and "length anns = version"
    and "tx_Log t = Log vm' @ later" and "Byte32 (io_Seed x) = sd" and "io_LogPos x = len (Log vm') - 1"
    and "io_Stack x = map (\<lambda>i. Tuple (inspect i)) (stack (contract vm'))"
  shows "result_output E U t x = map_option (\<lambda>texts.
      \<lparr>o_LogPos = word_of_int (io_LogPos x), o_OutputID = io_ID x,
       o_Value = Some \<lparr>v_AssetID = HashFromBytes (assetID v), v_Amount = word_of_int (amount v), v_Anchor = anchor v\<rparr>,
       o_Pubkeys = pubkeys, o_RefData = Some (texts ! 0), o_TokenTags = (if version = 2 then Some (texts ! 1) else None), o_Version = int version\<rparr>)
    (those (map toBytes anns)) \<and>
    (those (map toBytes anns) = None \<longrightarrow> x \<in> set (Outputs t) \<longrightarrow> New E U t = None)"
proof -
  from lock_run [OF assms(1-6)] assms(9,10) have con: "stack (contract vm') = [q, Data (Tuple (map Bytes pubkeys)), Value v]" and
    log: "\<exists>e. Log vm' = Log vm @ map (\<lambda>d. [Bytes [LogCode], Bytes sd, d]) (rev anns) @ [e]"
    using inj_map_eq_map [of Data anns] by (auto simp: inj_def)
  note det = details_lock [OF _ assms(14) [unfolded con list.map]]
  have main: "result_output E U t x = map_option (\<lambda>texts.
      \<lparr>o_LogPos = word_of_int (io_LogPos x), o_OutputID = io_ID x,
       o_Value = Some \<lparr>v_AssetID = HashFromBytes (assetID v), v_Amount = word_of_int (amount v), v_Anchor = anchor v\<rparr>,
       o_Pubkeys = pubkeys, o_RefData = Some (texts ! 0), o_TokenTags = (if version = 2 then Some (texts ! 1) else None), o_Version = int version\<rparr>)
    (those (map toBytes anns))"
    using assms(6)
  proof
    assume v: "version = 1 \<and> PayToMultisigProg1 U = Some p"
    then obtain d where d: "anns = [d]" using assms(10) by (auto simp: length_Suc_conv)
    have "ix (tx_Log t) (io_LogPos x - 1) = Some [Bytes [LogCode], Bytes sd, d]"
      using log assms(11,13) by (auto simp: d ix_append ix_Cons len_def)
    note det = det [OF this]
    show ?thesis using v assms(7,8) by (cases d) (auto simp: d result_output_def addOutputMeta_def PayToMultisigSeed1_def PayToMultisigSeed2_def
        assms(12) det pay2_program toBytes_def)
  next
    assume v: "version = 2 \<and> PayToMultisigProg2 U = Some p"
    then obtain r d where d: "anns = [r, d]" using assms(10) by (auto simp: length_Suc_conv numeral_2_eq_2)
    have "ix (tx_Log t) (io_LogPos x - 1) = Some [Bytes [LogCode], Bytes sd, r]" "ix (tx_Log t) (io_LogPos x - 2) = Some [Bytes [LogCode], Bytes sd, d]"
      using log assms(11,13) by (auto simp: d ix_append ix_Cons len_def)
    note det = det [OF this(1)] this(2)
    show ?thesis using v assms(7,8) by (cases d; cases r) (auto simp: d result_output_def addOutputMeta_def PayToMultisigSeed1_def PayToMultisigSeed2_def
        assms(12) det pay1_program toBytes_def logTuple_log ix_Cons)
  qed
  moreover have "New E U t = None" if "those (map toBytes anns) = None" "x \<in> set (Outputs t)"
    using those_None [OF that(2), of "result_output E U t"] main that(1) by (simp add: New_def)
  ultimately show ?thesis by blast
qed

definition locked_output :: "unit vm \<Rightarrow> Output" where
  \<comment> \<open>what the callbacks record of the output that a run ended with\<close>
  "locked_output vm = \<lparr>io_ID = zero_Hash, io_Seed = HashFromBytes (ContractSeed ms_env payProg1),
     io_Stack = map (\<lambda>i. Tuple (inspect i)) (stack (contract vm)), io_Program = program (contract vm), io_LogPos = len (Log vm) - 1\<rparr>"

definition locked_tx :: "unit vm \<Rightarrow> tx" where
  "locked_tx vm = (empty_tx [] 3 1000 ())\<lparr>tx_Log := Log vm, Outputs := [locked_output vm]\<rparr>"

lemma sample_seeds: "ContractSeed ms_env payProg1 \<noteq> ContractSeed ms_env payProg2" "length (ContractSeed ms_env payProg1) = 32"
  by code_simp+

theorem result_of_lock_witness:
  "let vm' = snd (exec ms_env 50 payProg1 lock_vm) in
   result_output ms_env ascii_unicode (locked_tx vm') (locked_output vm') = Some
     \<lparr>o_LogPos = word_of_int (len (Log vm') - 1), o_OutputID = zero_Hash,
      o_Value = Some \<lparr>v_AssetID = HashFromBytes (replicate 32 3), v_Amount = 5, v_Anchor = replicate 32 4\<rparr>,
      o_Pubkeys = ms_keys, o_RefData = Some [9], o_TokenTags = None, o_Version = 1\<rparr>"
  using result_of_lock [OF sample_run [OF sample_runs(2)], of "ContractSeed ms_env payProg1" payProg1 1 ascii_unicode "[]" "[Bytes [9]]" ms_value ms_keys "Data (Int64 1)"
      "locked_tx (snd (exec ms_env 50 payProg1 lock_vm))" "[]" "locked_output (snd (exec ms_env 50 payProg1 lock_vm))"]
  by (simp add: Let_def sample_vms sample_seeds pay1_program pay2_program PayToMultisigSeed1_def PayToMultisigSeed2_def locked_tx_def locked_output_def
      toBytes_def ms_value_def Hash_Bytes_HashFromBytes [unfolded Hash_Bytes_def] copy32_def)

end
