(* ===== verification/Patricia.thy ===== *)
theory Patricia
  imports Crypto "HOL-Library.Sublist"
begin

text \<open>
  The Merkle Patricia tree (\<^verbatim>\<open>protocol/patricia\<close>). A node is either a leaf, with its item and the
  item's hash, or a branch, with the bits its items share (the bytes \<open>key\<close>, of whose last byte
  only the bits up to \<open>keybit\<close> count), two children and a hash that may or may not be cached.
  The Go code reads fields of a nil child when an item extends an element of the tree; that
  run-time panic is the value \<open>None\<close>.

  Shown here: the tree implements a prefix-free set of byte strings, exactly when each operation
  fails, that the cached hashes stay coherent, and that the root hash is a function of the set
  that two different sets share only if the hash function collides.
\<close>

section \<open>Bits of a key\<close>

definition mask :: "byte \<Rightarrow> nat \<Rightarrow> byte" where
  "mask b bits = push_bit (7 - bits) (drop_bit (7 - bits) b)"

definition bitAt :: "byte \<Rightarrow> nat \<Rightarrow> byte" where
  "bitAt b i = drop_bit (7 - i) b AND 1"

definition childIdx :: "bytes \<Rightarrow> nat \<Rightarrow> nat \<Rightarrow> byte option" where
  \<comment> \<open>\<open>None\<close>: index out of range\<close>
  "childIdx key l i =
     (let (l', i') = (if i = 7 then (l + 1, 0) else (l, i + 1)) in
      if 1 \<le> l' \<and> l' \<le> length key then Some (bitAt (key ! (l' - 1)) i') else None)"

definition hasPrefix :: "bytes \<Rightarrow> bytes \<Rightarrow> nat \<Rightarrow> bool" where
  "hasPrefix s p i =
     (if length p = 0 then True
      else if length p > length s then False
      else if take (length p - 1) s \<noteq> take (length p - 1) p then False
      else mask (s ! (length p - 1)) i = mask (p ! (length p - 1)) i)"

definition commonBits :: "byte \<Rightarrow> byte \<Rightarrow> nat" where
  \<comment> \<open>the inner loop of \<^verbatim>\<open>commonPrefix\<close>\<close>
  "commonBits x y = length (takeWhile (\<lambda>j. mask x j = mask y j) [0..<8])"

fun commonPrefix_loop :: "bytes \<Rightarrow> bytes \<Rightarrow> nat \<Rightarrow> nat \<times> nat" where
  "commonPrefix_loop (x # xs) (y # ys) common =
     (if x \<noteq> y then
        (let n = commonBits x y in if n > 0 then (common + 1, n - 1) else (common, 7))
      else commonPrefix_loop xs ys (common + 1))"
| "commonPrefix_loop _ _ common = (common, 7)"

definition commonPrefix :: "bytes \<Rightarrow> bytes \<Rightarrow> nat \<times> nat" where
  "commonPrefix a b = commonPrefix_loop a b 0"

text \<open>The bit string of a key, and the bits that a branch key stands for.\<close>

definition byte_bits :: "byte \<Rightarrow> bool list" where
  "byte_bits b = map (\<lambda>i. bit b (7 - i)) [0..<8]"

definition key_bits :: "bytes \<Rightarrow> bool list" where
  "key_bits k = concat (map byte_bits k)"

definition pbits :: "bytes \<Rightarrow> nat \<Rightarrow> bool list" where
  "pbits k i = (if k = [] then [] else key_bits (butlast k) @ take (Suc i) (byte_bits (last k)))"

lemma length_byte_bits [simp]: "length (byte_bits b) = 8"
  by (simp add: byte_bits_def)

lemma byte_bits_not_Nil [simp]: "byte_bits b \<noteq> []"
  by (simp add: byte_bits_def)

lemma key_bits_simps [simp]:
  "key_bits [] = []" "key_bits (b # k) = byte_bits b @ key_bits k"
  "key_bits (k @ k') = key_bits k @ key_bits k'"
  by (simp_all add: key_bits_def)

lemma length_key_bits [simp]: "length (key_bits k) = 8 * length k"
  by (induction k) auto

lemma byte_bits_nth: "i < 8 \<Longrightarrow> byte_bits b ! i = bit b (7 - i)"
  by (simp add: byte_bits_def)

lemma byte_bits_inject [simp]: "byte_bits a = byte_bits b \<longleftrightarrow> a = b"
proof
  assume eq: "byte_bits a = byte_bits b"
  show "a = b"
  proof (rule bit_word_eqI)
    fix n assume "n < LENGTH(8)"
    then have "n < 8" by simp
    then show "bit a n = bit b n"
      using arg_cong [OF eq, of "\<lambda>l. l ! (7 - n)"] by (simp add: byte_bits_nth)
  qed
qed simp

lemma key_bits_inject [simp]: "key_bits a = key_bits b \<longleftrightarrow> a = b"
proof (induction a arbitrary: b)
  case Nil
  then show ?case by (cases b) simp_all
next
  case (Cons x a)
  then show ?case by (cases b) simp_all
qed

lemma prefix_key_bits [simp]: "prefix (key_bits a) (key_bits b) \<longleftrightarrow> prefix a b"
proof (induction a arbitrary: b)
  case (Cons x a)
  show ?case
  proof (cases b)
    case Nil
    then show ?thesis by simp
  next
    case (Cons y b')
    have "prefix (byte_bits x @ key_bits a) (byte_bits y @ key_bits b') \<longleftrightarrow>
        x = y \<and> prefix (key_bits a) (key_bits b')"
      by (auto simp: prefix_def append_eq_append_conv)
    with Cons Cons.IH show ?thesis by simp
  qed
qed simp

lemma bit_mask: "bit (mask a j) n \<longleftrightarrow> 7 - j \<le> n \<and> bit a n"
  by (auto simp: mask_def bit_push_bit_iff bit_drop_bit_eq dest: bit_imp_le_length)

lemma mask_eq_iff:
  "mask a j = mask b j \<longleftrightarrow> take (Suc j) (byte_bits a) = take (Suc j) (byte_bits b)"
proof -
  have "mask a j = mask b j \<longleftrightarrow> (\<forall>n<8. 7 - j \<le> n \<longrightarrow> bit a n = bit b n)"
    by (auto simp: bit_eq_iff bit_mask)
  also have "\<dots> \<longleftrightarrow> (\<forall>i<8. i < Suc j \<longrightarrow> byte_bits a ! i = byte_bits b ! i)"
  proof
    assume *: "\<forall>n<8. 7 - j \<le> n \<longrightarrow> bit a n = bit b n"
    then show "\<forall>i<8. i < Suc j \<longrightarrow> byte_bits a ! i = byte_bits b ! i" by (auto simp: byte_bits_nth)
  next
    assume *: "\<forall>i<8. i < Suc j \<longrightarrow> byte_bits a ! i = byte_bits b ! i"
    have "bit a n = bit b n" if "n < 8" "7 - j \<le> n" for n
      using *[rule_format, of "7 - n"] that by (auto simp: byte_bits_nth)
    then show "\<forall>n<8. 7 - j \<le> n \<longrightarrow> bit a n = bit b n" by blast
  qed
  also have "\<dots> \<longleftrightarrow> take (Suc j) (byte_bits a) = take (Suc j) (byte_bits b)"
    by (auto simp: list_eq_iff_nth_eq)
  finally show ?thesis .
qed

lemma prefix_append_same_length:
  "length u = length v \<Longrightarrow> prefix (u @ w) (v @ z) \<longleftrightarrow> u = v \<and> prefix w z"
  by (auto simp: prefix_def)

lemma prefix_take_iff: "prefix u v \<longleftrightarrow> u = take (length u) v"
  by (metis append_eq_conv_conj prefix_def take_is_prefix)

lemma prefix_take_byte: "prefix (take n (byte_bits x)) (byte_bits y @ z) \<longleftrightarrow>
  take n (byte_bits x) = take n (byte_bits y)"
proof -
  have "prefix (take n (byte_bits x)) (byte_bits y @ z) \<longleftrightarrow>
      take n (byte_bits x) = take (min n 8) (byte_bits y @ z)"
    using prefix_take_iff [of "take n (byte_bits x)"] by (simp add: min.commute)
  then show ?thesis by (cases "n \<le> 8") (simp_all add: min_def)
qed

lemma length_pbits: "p \<noteq> [] \<Longrightarrow> length (pbits p i) = 8 * (length p - 1) + min 8 (Suc i)"
  by (simp add: pbits_def)

lemma hasPrefix_iff: "hasPrefix s p i \<longleftrightarrow> prefix (pbits p i) (key_bits s)"
proof (cases p rule: rev_cases)
  case Nil
  then show ?thesis by (simp add: hasPrefix_def pbits_def)
next
  case (snoc q x)
  show ?thesis
  proof (cases "length q < length s")
    case False
    then have "length (key_bits s) < length (pbits p i)" using snoc by (simp add: length_pbits)
    then have "\<not> prefix (pbits p i) (key_bits s)" using prefix_length_le by fastforce
    with False snoc show ?thesis by (simp add: hasPrefix_def)
  next
    case True
    then obtain s1 y s2 where s: "s = s1 @ y # s2" "length s1 = length q"
      by (metis id_take_nth_drop length_take less_imp_le_nat min.absorb2)
    then have "hasPrefix s p i \<longleftrightarrow> s1 = q \<and> mask y i = mask x i"
      using snoc by (simp add: hasPrefix_def nth_append)
    also have "\<dots> \<longleftrightarrow> prefix (pbits p i) (key_bits s)"
      using snoc s by (auto simp: pbits_def prefix_append_same_length prefix_take_byte mask_eq_iff)
    finally show ?thesis .
  qed
qed

lemma bitAt_eq: "i < 8 \<Longrightarrow> bitAt b i = (if byte_bits b ! i then 1 else 0)"
proof -
  assume "i < 8"
  have "drop_bit (7 - i) b AND 1 = of_bool (bit b (7 - i))"
    by (rule bit_word_eqI) (auto simp: bit_and_iff bit_drop_bit_eq bit_1_iff intro: gr0I)
  with \<open>i < 8\<close> show ?thesis by (simp add: bitAt_def byte_bits_nth)
qed

lemma key_bits_nth: "n < length k \<Longrightarrow> i < 8 \<Longrightarrow> key_bits k ! (8 * n + i) = byte_bits (k ! n) ! i"
proof (induction k arbitrary: n)
  case (Cons b k)
  then show ?case by (cases n) (auto simp: nth_append algebra_simps)
qed simp

text \<open>The child index is the first bit of the key beyond the bits of the branch.\<close>

lemma childIdx_next:
  assumes "i \<le> 7" and "k = [] \<longrightarrow> i = 7" and "prefix (pbits k i) (key_bits key)"
    and "\<not> (key = k \<and> i = 7)"
  shows "length (pbits k i) < length (key_bits key) \<and>
    childIdx key (length k) i = Some (if key_bits key ! length (pbits k i) then 1 else 0)"
proof (cases "i = 7")
  case True
  then have k: "pbits k i = key_bits k"
    by (cases k rule: rev_cases) (simp_all add: pbits_def)
  with assms have "strict_prefix k key" by (auto simp: True strict_prefix_def)
  then have l: "length k < length key" by (rule prefix_length_less)
  with True show ?thesis
    using key_bits_nth [OF l, of 0] by (simp add: k [unfolded True] childIdx_def bitAt_eq)
next
  case False
  then have i: "i < 7" and k: "k \<noteq> []" using assms by auto
  have lp: "length (pbits k i) = 8 * (length k - 1) + Suc i" using k i by (simp add: length_pbits)
  from prefix_length_le [OF assms(3)] lp have l: "length k - 1 < length key"
    by simp
  have "8 * (length k - 1) + Suc i < 8 * length key" using l i by simp
  moreover have "childIdx key (length k) i = Some (bitAt (key ! (length k - 1)) (Suc i))"
    using i k l by (auto simp: childIdx_def Suc_le_eq) 
  ultimately show ?thesis
    using key_bits_nth [OF l, of "Suc i"] i by (simp add: lp bitAt_eq)
qed

lemma commonBits_spec:
  assumes "x \<noteq> y"
  defines "n \<equiv> commonBits x y"
  shows "n < 8 \<and> take n (byte_bits x) = take n (byte_bits y) \<and> byte_bits x ! n \<noteq> byte_bits y ! n"
proof -
  let ?P = "\<lambda>j. mask x j = mask y j"
  have n: "n = length (takeWhile ?P [0..<8])" by (simp add: n_def commonBits_def)
  have P: "?P j" if "j < n" for j
  proof -
    have "takeWhile ?P [0..<8] ! j = [0..<8] ! j" using that n by (simp add: takeWhile_nth)
    moreover have "j < 8" using that n length_takeWhile_le [of ?P "[0..<8]"] by simp
    ultimately have "j \<in> set (takeWhile ?P [0..<8])" using that n by (metis add_0 nth_mem nth_upt)
    then show ?thesis by (rule set_takeWhileD [THEN conjunct2])
  qed
  have n8: "n < 8"
  proof (rule ccontr)
    assume "\<not> n < 8"
    then have "?P 7" using P [of 7] by simp
    then show False using assms(1) by (simp add: mask_eq_iff)
  qed
  then have nP: "\<not> ?P n" using nth_length_takeWhile [of ?P "[0..<8]"] n by simp
  have t: "take n (byte_bits x) = take n (byte_bits y)"
    using P [of "n - 1"] by (cases n) (auto simp: mask_eq_iff)
  with nP n8 show ?thesis by (simp add: mask_eq_iff take_Suc_conv_app_nth)
qed

definition diverge :: "bytes \<Rightarrow> bytes \<Rightarrow> bool list \<Rightarrow> bool" where
  \<comment> \<open>\<open>p\<close> is the longest common bit prefix of two keys\<close>
  "diverge a b p \<longleftrightarrow> prefix p (key_bits a) \<and> prefix p (key_bits b) \<and>
     length p < length (key_bits a) \<and> length p < length (key_bits b) \<and>
     key_bits a ! length p \<noteq> key_bits b ! length p"

lemma prefix_same_prefix_take: "length pre = n \<Longrightarrow> take n (pre @ xs) = pre"
  by simp

lemma diverge_byte:
  assumes "x \<noteq> y"
  shows "diverge (pre @ x # xs) (pre @ y # ys)
    (key_bits pre @ take (commonBits x y) (byte_bits y))"
proof -
  note c = commonBits_spec [OF assms]
  have "prefix (take (commonBits x y) (byte_bits y)) (byte_bits x @ key_bits xs)"
    "prefix (take (commonBits x y) (byte_bits y)) (byte_bits y @ key_bits ys)"
    using c by (simp_all add: prefix_take_byte)
  with c show ?thesis by (auto simp: diverge_def nth_append)
qed

lemma commonPrefix_loop_spec:
  assumes "\<not> prefix xs ys" and "\<not> prefix ys xs"
    and "commonPrefix_loop xs ys (length pre) = (c, i)"
  shows "i \<le> 7 \<and> c \<le> length (pre @ ys) \<and> (c = 0 \<longrightarrow> i = 7) \<and>
    diverge (pre @ xs) (pre @ ys) (pbits (take c (pre @ ys)) i)"
  using assms
proof (induction xs ys "length pre" arbitrary: pre rule: commonPrefix_loop.induct)
  case (1 x xs y ys)
  show ?case
  proof (cases "x = y")
    case True
    with "1.prems" have "\<not> prefix xs ys" "\<not> prefix ys xs"
      "commonPrefix_loop xs ys (length (pre @ [x])) = (c, i)" by auto
    with "1.hyps" [of "pre @ [x]"] True show ?thesis by simp
  next
    case False
    note d = diverge_byte [OF False, of pre xs ys]
    show ?thesis
    proof (cases "commonBits x y = 0")
      case True
      with False "1.prems" have "c = length pre" "i = 7" by auto
      moreover have "pbits pre 7 = key_bits pre"
        by (cases pre rule: rev_cases) (simp_all add: pbits_def)
      ultimately show ?thesis using d True by simp
    next
      case nz: False
      with False "1.prems" have "c = length pre + 1" "i = commonBits x y - 1" by (auto simp: Let_def)
      moreover have "pbits (pre @ [y]) (commonBits x y - 1) = key_bits pre @ take (commonBits x y) (byte_bits y)"
        using nz by (simp add: pbits_def)
      moreover have "commonBits x y - 1 \<le> 7" using commonBits_spec [OF False] by linarith
      ultimately show ?thesis using d by simp
    qed
  qed
qed auto

lemma commonPrefix_spec:
  assumes "\<not> prefix a b" and "\<not> prefix b a" and "commonPrefix a b = (c, i)"
  shows "i \<le> 7" "c \<le> length b" "c = 0 \<longrightarrow> i = 7" "diverge a b (pbits (take c b) i)"
  using commonPrefix_loop_spec [of a b "[]" c i] assms by (simp_all add: commonPrefix_def)

section \<open>Nodes and their operations\<close>

datatype node =
    Leaf bytes bytes \<comment> \<open>key, hash\<close>
  | Branch bytes nat "bytes option" node node \<comment> \<open>key, keybit, cached hash, children\<close>

type_synonym tree = "node option"

fun node_key :: "node \<Rightarrow> bytes" where
  "node_key (Leaf k _) = k"
| "node_key (Branch k _ _ _ _) = k"

definition leafPrefix :: bytes where "leafPrefix = [0x00]"
definition interiorPrefix :: bytes where "interiorPrefix = [0x01]"

definition leaf_hash :: "('z) crypto_scheme \<Rightarrow> bytes \<Rightarrow> bytes" where
  "leaf_hash C item = Sum256 C (leafPrefix @ item)"

fun walk :: "('s \<Rightarrow> bytes \<Rightarrow> 'e option \<times> 's) \<Rightarrow> node \<Rightarrow> 's \<Rightarrow> 'e option \<times> 's" where
  "walk f (Leaf k _) s = f s k"
| "walk f (Branch _ _ _ l r) s =
     (case walk f l s of (Some e, s') \<Rightarrow> (Some e, s') | (None, s') \<Rightarrow> walk f r s')"

definition Walk :: "tree \<Rightarrow> ('s \<Rightarrow> bytes \<Rightarrow> 'e option \<times> 's) \<Rightarrow> 's \<Rightarrow> 'e option \<times> 's" where
  \<comment> \<open>the callback's captured variables are the state \<open>'s\<close>\<close>
  "Walk t f s = (case t of None \<Rightarrow> (None, s) | Some n \<Rightarrow> walk f n s)"

fun lookup :: "node \<Rightarrow> bytes \<Rightarrow> node option option" where
  \<comment> \<open>outer \<open>None\<close>: panic; inner \<open>None\<close>: nil\<close>
  "lookup (Leaf k h) key =
     (if k = key then Some (Some (Leaf k h))
      else if \<not> hasPrefix key k 7 then Some None
      else None)"
| "lookup (Branch k i h l r) key =
     (if k = key \<and> i = 7 then Some None
      else if \<not> hasPrefix key k i then Some None
      else case childIdx key (length k) i of
        None \<Rightarrow> None
      | Some b \<Rightarrow> lookup (if b = 0 then l else r) key)"

definition Contains :: "tree \<Rightarrow> bytes \<Rightarrow> bool option" where
  "Contains t item =
     (case t of None \<Rightarrow> Some False
      | Some n \<Rightarrow> (case lookup n item of None \<Rightarrow> None | Some r \<Rightarrow> Some (r \<noteq> None)))"

datatype insert_error = ErrPrefix

definition split_node :: "node \<Rightarrow> bytes \<Rightarrow> bytes \<Rightarrow> (insert_error + node) option" where
  \<comment> \<open>the end of \<^verbatim>\<open>insert\<close>: a new branch above the node and the new leaf\<close>
  "split_node n key hash =
     (case commonPrefix (node_key n) key of (common, i) \<Rightarrow>
        (case childIdx key common i of
           None \<Rightarrow> None
         | Some b \<Rightarrow>
             Some (Inr (if b = 0 then Branch (take common key) i None (Leaf key hash) n
                        else Branch (take common key) i None n (Leaf key hash)))))"

fun insert_node :: "node \<Rightarrow> bytes \<Rightarrow> bytes \<Rightarrow> (insert_error + node) option" where
  "insert_node (Leaf k h) key hash =
     (if k = key then Some (Inr (Leaf k h))
      else if hasPrefix key k 7 then Some (Inl ErrPrefix)
      else if hasPrefix k key 7 then Some (Inl ErrPrefix)
      else split_node (Leaf k h) key hash)"
| "insert_node (Branch k i h l r) key hash =
     (if k = key \<and> i = 7 then Some (Inl ErrPrefix)
      else if hasPrefix key k i then
        (case childIdx key (length k) i of
           None \<Rightarrow> None
         | Some b \<Rightarrow>
             (case insert_node (if b = 0 then l else r) key hash of
                None \<Rightarrow> None
              | Some (Inl e) \<Rightarrow> Some (Inl e)
              | Some (Inr child) \<Rightarrow>
                  Some (Inr (if b = 0 then Branch k i None child r else Branch k i None l child))))
      else if hasPrefix k key 7 then Some (Inl ErrPrefix)
      else split_node (Branch k i h l r) key hash)"

definition Insert :: "('z) crypto_scheme \<Rightarrow> tree \<Rightarrow> bytes \<Rightarrow> (insert_error option \<times> tree) option" where
  "Insert C t item =
     (let hash = leaf_hash C item in
      case t of
        None \<Rightarrow> Some (None, Some (Leaf item hash))
      | Some n \<Rightarrow>
          (case insert_node n item hash of
             None \<Rightarrow> None
           | Some (Inl e) \<Rightarrow> Some (Some e, Some n)
           | Some (Inr n') \<Rightarrow> Some (None, Some n')))"

datatype deleted = Same | Gone | New node \<comment> \<open>the same pointer, nil, another node\<close>

fun delete_node :: "node \<Rightarrow> bytes \<Rightarrow> deleted option" where
  "delete_node (Leaf k h) key =
     (if key = k then Some Gone
      else if \<not> hasPrefix key k 7 then Some Same
      else None)"
| "delete_node (Branch k i h l r) key =
     (if key = k \<and> i = 7 then Some Same
      else if \<not> hasPrefix key k i then Some Same
      else case childIdx key (length k) i of
        None \<Rightarrow> None
      | Some b \<Rightarrow>
          (case delete_node (if b = 0 then l else r) key of
             None \<Rightarrow> None
           | Some Gone \<Rightarrow> Some (New (if b = 0 then r else l))
           | Some Same \<Rightarrow> Some Same
           | Some (New c) \<Rightarrow>
               Some (New (if b = 0 then Branch (take (length k) (node_key c)) i None c r
                          else Branch (take (length k) (node_key c)) i None l c))))"

definition Delete :: "tree \<Rightarrow> bytes \<Rightarrow> tree option" where
  "Delete t item =
     (case t of
        None \<Rightarrow> Some None
      | Some n \<Rightarrow>
          (case delete_node n item of
             None \<Rightarrow> None
           | Some Same \<Rightarrow> Some (Some n)
           | Some Gone \<Rightarrow> Some None
           | Some (New n') \<Rightarrow> Some (Some n')))"

fun node_hash :: "node \<Rightarrow> bytes option" where
  "node_hash (Leaf _ h) = Some h"
| "node_hash (Branch _ _ h _ _) = h"

fun calcHash :: "('z) crypto_scheme \<Rightarrow> node \<Rightarrow> bytes \<times> node" where
  \<comment> \<open>the hash and the node with the cache filled\<close>
  "calcHash C (Leaf k h) = (h, Leaf k h)"
| "calcHash C (Branch k i h l r) =
     (case h of
        Some x \<Rightarrow> (x, Branch k i h l r)
      | None \<Rightarrow>
          (case calcHash C l of (x, l') \<Rightarrow>
           case calcHash C r of (y, r') \<Rightarrow>
           let z = Sum256 C (interiorPrefix @ x @ y) in (z, Branch k i (Some z) l' r')))"

definition RootHash :: "('z) crypto_scheme \<Rightarrow> tree \<Rightarrow> bytes \<times> tree" where
  "RootHash C t =
     (case t of
        None \<Rightarrow> (replicate 32 0, None)
      | Some n \<Rightarrow> (case calcHash C n of (x, n') \<Rightarrow> (x, Some n')))"

section \<open>The invariant and the set of elements\<close>

fun elems :: "node \<Rightarrow> bytes set" where
  "elems (Leaf k _) = {k}"
| "elems (Branch _ _ _ l r) = elems l \<union> elems r"

fun spec_hash :: "('z) crypto_scheme \<Rightarrow> node \<Rightarrow> bytes" where
  "spec_hash C (Leaf k _) = leaf_hash C k"
| "spec_hash C (Branch _ _ _ l r) = Sum256 C (interiorPrefix @ spec_hash C l @ spec_hash C r)"

definition below :: "bool list \<Rightarrow> bytes set \<Rightarrow> bool" where
  "below p X \<longleftrightarrow> (\<forall>x\<in>X. prefix p (key_bits x))"

fun node_ok :: "('z) crypto_scheme \<Rightarrow> node \<Rightarrow> bool" where
  "node_ok C (Leaf k h) \<longleftrightarrow> h = leaf_hash C k"
| "node_ok C (Branch k i h l r) \<longleftrightarrow> i \<le> 7 \<and> (k = [] \<longrightarrow> i = 7) \<and> node_ok C l \<and> node_ok C r \<and>
     (h = None \<or> h = Some (spec_hash C (Branch k i h l r))) \<and>
     below (pbits k i @ [False]) (elems l) \<and> below (pbits k i @ [True]) (elems r)"

definition items :: "tree \<Rightarrow> bytes set" where
  "items t = (case t of None \<Rightarrow> {} | Some n \<Rightarrow> elems n)"

definition tree_ok :: "('z) crypto_scheme \<Rightarrow> tree \<Rightarrow> bool" where
  "tree_ok C t \<longleftrightarrow> (case t of None \<Rightarrow> True | Some n \<Rightarrow> node_ok C n)"

lemma elems_nonempty: "elems n \<noteq> {}"
  by (induction n) auto

lemma finite_elems: "finite (elems n)"
  by (induction n) auto

lemma prefix_snoc_iff: "prefix (p @ [b]) xs \<longleftrightarrow> prefix p xs \<and> length p < length xs \<and> xs ! length p = b"
proof (cases "length p < length xs")
  case True
  then show ?thesis
    using prefix_take_iff [of "p @ [b]" xs] prefix_take_iff [of p xs]
    by (auto simp: take_Suc_conv_app_nth)
next
  case False
  then show ?thesis using prefix_length_le [of "p @ [b]" xs] by auto
qed

lemma prefix_nth: "prefix u v \<Longrightarrow> n < length u \<Longrightarrow> u ! n = v ! n"
  by (auto simp: prefix_def nth_append)

lemma branch_elems:
  assumes "node_ok C (Branch k i h l r)"
  shows "x \<in> elems l \<Longrightarrow> \<not> key_bits x ! length (pbits k i)"
    and "x \<in> elems r \<Longrightarrow> key_bits x ! length (pbits k i)"
    and "x \<in> elems (Branch k i h l r) \<Longrightarrow> prefix (pbits k i) (key_bits x) \<and> length (pbits k i) < length (key_bits x)"
  using assms by (auto simp: below_def prefix_snoc_iff)

text \<open>The elements of a tree are prefix-free.\<close>

lemma elems_prefix_free: "node_ok C n \<Longrightarrow> x \<in> elems n \<Longrightarrow> y \<in> elems n \<Longrightarrow> prefix x y \<Longrightarrow> x = y"
proof (induction n)
  case (Branch k i h l r)
  from Branch.prems(4) have p: "prefix (key_bits x) (key_bits y)" by simp
  have "key_bits x ! length (pbits k i) = key_bits y ! length (pbits k i)"
    using branch_elems(3) [OF Branch.prems(1,2)] prefix_nth [OF p] by blast
  then have "x \<in> elems l \<and> y \<in> elems l \<or> x \<in> elems r \<and> y \<in> elems r"
    using Branch.prems(2,3) branch_elems(1,2) [OF Branch.prems(1)] by auto
  with Branch show ?case by auto
qed simp

section \<open>Looking up\<close>

lemma hasPrefix_leaf: "hasPrefix key k 7 \<longleftrightarrow> prefix k key"
proof -
  have "pbits k 7 = key_bits k" by (cases k rule: rev_cases) (simp_all add: pbits_def)
  then show ?thesis by (simp add: hasPrefix_iff)
qed

lemma branch_cases:
  assumes ok: "node_ok C (Branch k i h l r)"
  obtains (self) "k = key" "i = 7" "\<And>x. x \<in> elems (Branch k i h l r) \<Longrightarrow> strict_prefix key x"
  | (away) "\<not> (k = key \<and> i = 7)" "\<not> hasPrefix key k i"
      "\<And>x. x \<in> elems (Branch k i h l r) \<Longrightarrow> \<not> prefix x key"
  | (down) b where "\<not> (k = key \<and> i = 7)" "hasPrefix key k i"
      "childIdx key (length k) i = Some (if b then 1 else 0)"
      "prefix (pbits k i @ [b]) (key_bits key)"
      "\<And>x. x \<in> elems (if b then l else r) \<Longrightarrow> \<not> prefix x key \<and> \<not> prefix key x"
proof -
  have i: "i \<le> 7" "k = [] \<longrightarrow> i = 7" using ok by auto
  show ?thesis
  proof (cases "k = key \<and> i = 7")
    case True
    then have "pbits k i = key_bits key" by (cases k rule: rev_cases) (auto simp: pbits_def)
    with branch_elems(3) [OF ok] have "strict_prefix key x" if "x \<in> elems (Branch k i h l r)" for x
      using that by (fastforce simp: strict_prefix_def)
    with True show ?thesis by (intro self) auto
  next
    case nself: False
    show ?thesis
    proof (cases "hasPrefix key k i")
      case False
      have "\<not> prefix x key" if "x \<in> elems (Branch k i h l r)" for x
      proof
        assume "prefix x key"
        then have "prefix (key_bits x) (key_bits key)" by simp
        with branch_elems(3) [OF ok that] have "prefix (pbits k i) (key_bits key)"
          using prefix_order.trans by blast
        with False show False by (simp add: hasPrefix_iff)
      qed
      with nself False show ?thesis by (intro away) auto
    next
      case True
      then have p: "prefix (pbits k i) (key_bits key)" by (simp add: hasPrefix_iff)
      define b where "b = key_bits key ! length (pbits k i)"
      have c: "length (pbits k i) < length (key_bits key)"
        "childIdx key (length k) i = Some (if b then 1 else 0)"
        using childIdx_next [OF i p] nself by (auto simp: b_def)
      have "\<not> prefix x key \<and> \<not> prefix key x" if x: "x \<in> elems (if b then l else r)" for x
      proof -
        have "x \<in> elems (Branch k i h l r) \<and> key_bits x ! length (pbits k i) = (\<not> b)"
          using x branch_elems(1,2) [OF ok, of x] by (cases b) simp_all
        then have "x \<in> elems (Branch k i h l r)" "key_bits x ! length (pbits k i) = (\<not> b)"
          by blast+
        moreover from this branch_elems(3) [OF ok] have "length (pbits k i) < length (key_bits x)"
          by blast
        moreover have "prefix x key \<longleftrightarrow> prefix (key_bits x) (key_bits key)"
          "prefix key x \<longleftrightarrow> prefix (key_bits key) (key_bits x)" by simp_all
        ultimately show ?thesis
          using prefix_nth [of "key_bits x" "key_bits key" "length (pbits k i)"] c(1)
            prefix_nth [of "key_bits key" "key_bits x" "length (pbits k i)"] b_def by metis
      qed
      moreover have "prefix (pbits k i @ [b]) (key_bits key)"
        using p c(1) by (simp add: prefix_snoc_iff b_def)
      ultimately show ?thesis using nself True c by (intro down [of b]) auto
    qed
  qed
qed

lemma lookup_eq:
  assumes "node_ok C n"
  shows "lookup n key =
    (if \<exists>x\<in>elems n. strict_prefix x key then None
     else if key \<in> elems n then Some (Some (Leaf key (leaf_hash C key)))
     else Some None)"
  using assms
proof (induction n)
  case (Leaf k h)
  then show ?case by (auto simp: hasPrefix_leaf strict_prefix_def)
next
  case (Branch k i h l r)
  from Branch.prems have ok: "node_ok C l" "node_ok C r" by auto
  show ?case
  proof (cases rule: branch_cases [OF Branch.prems, of key, case_names self away down])
    case self
    then have "key \<notin> elems (Branch k i h l r)"
      "\<not> (\<exists>x\<in>elems (Branch k i h l r). strict_prefix x key)"
      by (auto simp: strict_prefix_def dest: prefix_order.antisym)
    with self show ?thesis by (auto simp del: elems.simps)
  next
    case away
    then have "key \<notin> elems (Branch k i h l r)"
      "\<not> (\<exists>x\<in>elems (Branch k i h l r). strict_prefix x key)"
      by (auto simp: strict_prefix_def)
    with away show ?thesis by (auto simp del: elems.simps)
  next
    case (down b)
    have "key \<notin> elems (if b then l else r)" using down(5) [of key] by auto
    moreover have "\<not> (\<exists>x\<in>elems (if b then l else r). strict_prefix x key)"
      using down(5) by (auto simp: strict_prefix_def)
    ultimately show ?thesis using down(1-3) Branch.IH ok by (cases b) auto
  qed
qed

lemma Contains_eq:
  assumes "tree_ok C t"
  shows "Contains t item =
    (if \<exists>x\<in>items t. strict_prefix x item then None else Some (item \<in> items t))"
  using assms by (cases t) (simp_all add: Contains_def items_def tree_ok_def lookup_eq)

section \<open>Inserting\<close>

lemma pbits_prefix: "prefix (pbits k i) (key_bits k)"
proof (cases k rule: rev_cases)
  case (snoc q x)
  then show ?thesis by (simp add: pbits_def take_is_prefix)
qed (simp add: pbits_def)

lemma split_node_ok:
  assumes ok: "node_ok C n" and bel: "below P (elems n)" and P: "prefix P (key_bits (node_key n))"
    and nP: "\<not> prefix P (key_bits key)" and nk: "\<not> prefix key (node_key n)"
  shows "\<exists>n'. split_node n key (leaf_hash C key) = Some (Inr n') \<and> node_ok C n' \<and>
    elems n' = insert key (elems n)"
proof -
  let ?k = "node_key n"
  obtain c i where ci: "commonPrefix ?k key = (c, i)" by (cases "commonPrefix ?k key")
  have "\<not> prefix ?k key" using P nP prefix_order.trans [of P "key_bits ?k" "key_bits key"] by auto
  note cp = commonPrefix_spec [OF this nk ci]
  define p where "p = pbits (take c key) i"
  define b where "b = key_bits key ! length p"
  have d: "prefix p (key_bits ?k)" "prefix p (key_bits key)" "length p < length (key_bits key)"
    "length p < length (key_bits ?k)" "key_bits ?k ! length p = (\<not> b)"
    using cp(4) by (auto simp: diverge_def p_def b_def)
  have "\<not> (key = take c key \<and> i = 7)"
  proof
    assume *: "key = take c key \<and> i = 7"
    then have "pbits key 7 = p" by (simp add: p_def)
    moreover have "pbits key 7 = key_bits key"
      by (cases key rule: rev_cases) (simp_all add: pbits_def)
    ultimately show False using d(3) by simp
  qed
  moreover have "key \<noteq> []" using d(3) by auto
  ultimately have idx: "childIdx key c i = Some (if b then 1 else 0)"
    using childIdx_next [of i "take c key" key] cp(1-3) d(2,3)
    by (auto simp: p_def [symmetric] b_def)
  have "length p < length P"
  proof (rule ccontr)
    assume "\<not> length p < length P"
    with prefix_length_prefix [OF P d(1)] have "prefix P p" by simp
    with d(2) nP show False using prefix_order.trans by blast
  qed
  then have len: "length (p @ [\<not> b]) \<le> length P" by simp
  have "prefix (p @ [\<not> b]) (key_bits ?k)" using d by (simp add: prefix_snoc_iff)
  then have "prefix (p @ [\<not> b]) P" by (rule prefix_length_prefix [OF _ P len])
  with bel have "below (p @ [\<not> b]) (elems n)"
    by (auto simp: below_def intro: prefix_order.trans)
  moreover have "below (p @ [b]) {key}" using d by (simp add: below_def prefix_snoc_iff b_def)
  ultimately show ?thesis
    using ci idx ok cp(1-3)
    by (cases b) (auto simp: split_node_def p_def [symmetric])
qed

lemma insert_node_eq:
  assumes "node_ok C n"
  shows "if \<exists>x\<in>elems n. strict_prefix x key \<or> strict_prefix key x
    then insert_node n key (leaf_hash C key) = Some (Inl ErrPrefix)
    else \<exists>n'. insert_node n key (leaf_hash C key) = Some (Inr n') \<and> node_ok C n' \<and>
      elems n' = insert key (elems n)"
  using assms
proof (induction n)
  case (Leaf k h)
  show ?case
  proof (cases "prefix k key \<or> prefix key k")
    case True
    with Leaf show ?thesis by (auto simp: hasPrefix_leaf strict_prefix_def)
  next
    case False
    with Leaf split_node_ok [OF Leaf.prems, of "key_bits k" key] show ?thesis
      by (auto simp: hasPrefix_leaf strict_prefix_def below_def)
  qed
next
  case (Branch k i h l r)
  let ?n = "Branch k i h l r"
  from Branch.prems have ok: "node_ok C l" "node_ok C r" by auto
  show ?case
  proof (cases rule: branch_cases [OF Branch.prems, of key, case_names self away down])
    case self
    with elems_nonempty [of ?n] show ?thesis by (auto simp del: elems.simps)
  next
    case away
    show ?thesis
    proof (cases "prefix key k")
      case True
      have "key \<noteq> k" using away(2) pbits_prefix [of k i] by (auto simp: hasPrefix_iff)
      with True obtain z zs where k: "k = key @ z # zs"
        by (metis append_Nil2 neq_Nil_conv prefix_def)
      then have "prefix (key_bits key) (pbits k i)" by (simp add: pbits_def butlast_append)
      then have "strict_prefix key x" if "x \<in> elems ?n" for x
        using branch_elems(3) [OF Branch.prems that] prefix_order.trans [of "key_bits key" "pbits k i" "key_bits x"]
          away(3) [OF that]
        by (auto simp: strict_prefix_def)
      with away True elems_nonempty [of ?n] show ?thesis
        by (auto simp: hasPrefix_leaf simp del: elems.simps)
    next
      case False
      have bel: "below (pbits k i) (elems ?n)"
        using branch_elems(3) [OF Branch.prems] by (auto simp: below_def)
      have "\<not> prefix key x" if "x \<in> elems ?n" for x
      proof
        assume "prefix key x"
        then have "prefix (key_bits key) (key_bits x)" by simp
        with branch_elems(3) [OF Branch.prems that]
        have "prefix (key_bits key) (pbits k i) \<or> prefix (pbits k i) (key_bits key)"
          using prefix_same_cases by blast
        then have "prefix (key_bits key) (key_bits k)"
          using away(2) pbits_prefix [of k i] hasPrefix_iff prefix_order.trans by blast
        with False show False by simp
      qed
      with away(3) have "\<not> (\<exists>x\<in>elems ?n. strict_prefix x key \<or> strict_prefix key x)"
        by (auto simp: strict_prefix_def simp del: elems.simps)
      moreover have "insert_node ?n key (leaf_hash C key) = split_node ?n key (leaf_hash C key)"
        using away False by (auto simp: hasPrefix_leaf)
      moreover have "\<exists>n'. split_node ?n key (leaf_hash C key) = Some (Inr n') \<and> node_ok C n' \<and>
          elems n' = insert key (elems ?n)"
        using away(2) False pbits_prefix [of k i]
        by (intro split_node_ok [OF Branch.prems bel]) (simp_all add: hasPrefix_iff)
      ultimately show ?thesis by presburger
    qed
  next
    case (down b)
    let ?c = "if b then r else l"
    have other: "\<not> (\<exists>x\<in>elems (if b then l else r). strict_prefix x key \<or> strict_prefix key x)"
      using down(5) by (auto simp: strict_prefix_def)
    have ex: "(\<exists>x\<in>elems ?n. strict_prefix x key \<or> strict_prefix key x) \<longleftrightarrow>
        (\<exists>x\<in>elems ?c. strict_prefix x key \<or> strict_prefix key x)"
      using other by (cases b) auto
    have bel: "below (pbits k i @ [b]) {key}" using down(4) by (simp add: below_def)
    show ?thesis
    proof (cases "\<exists>x\<in>elems ?c. strict_prefix x key \<or> strict_prefix key x")
      case True
      then have "insert_node ?c key (leaf_hash C key) = Some (Inl ErrPrefix)"
        using Branch.IH ok by (cases b) simp_all
      with True ex down(1-3) show ?thesis by (cases b) (auto simp del: elems.simps)
    next
      case False
      then obtain c' where "insert_node ?c key (leaf_hash C key) = Some (Inr c')" "node_ok C c'"
        "elems c' = insert key (elems ?c)"
        using Branch.IH ok by (cases b) (simp_all, blast+)
      with False ex down(1-3) bel Branch.prems show ?thesis
        by (cases b) (auto simp: below_def)
    qed
  qed
qed

lemma Insert_eq:
  assumes "tree_ok C t"
  shows "if \<exists>x\<in>items t. strict_prefix x item \<or> strict_prefix item x
    then Insert C t item = Some (Some ErrPrefix, t)
    else \<exists>t'. Insert C t item = Some (None, t') \<and> tree_ok C t' \<and> items t' = insert item (items t)"
proof (cases t)
  case None
  then show ?thesis by (simp add: Insert_def items_def tree_ok_def)
next
  case (Some n)
  with assms insert_node_eq [of C n item] show ?thesis
    by (auto simp: Insert_def items_def tree_ok_def split: if_splits)
qed

section \<open>Deleting\<close>

lemma child_key_prefix:
  assumes "node_ok C c" and "below (p @ [b]) (elems c)"
  shows "prefix (p @ [b]) (key_bits (node_key c))"
proof (cases c)
  case (Leaf k h)
  with assms(2) show ?thesis by (simp add: below_def)
next
  case (Branch k i h l r)
  obtain x y where x: "x \<in> elems l" and y: "y \<in> elems r"
    using elems_nonempty [of l] elems_nonempty [of r] by blast
  note ok = assms(1) [unfolded Branch]
  have px: "prefix (p @ [b]) (key_bits x)" "prefix (p @ [b]) (key_bits y)"
    using assms(2) x y Branch by (auto simp: below_def)
  have bx: "prefix (pbits k i) (key_bits x)" using branch_elems(3) [OF ok, of x] x by simp
  have "length (p @ [b]) \<le> length (pbits k i)"
  proof (rule ccontr)
    assume "\<not> length (p @ [b]) \<le> length (pbits k i)"
    then have "length (pbits k i) < length (p @ [b])" by simp
    then have "key_bits x ! length (pbits k i) = key_bits y ! length (pbits k i)"
      using prefix_nth [OF px(1)] prefix_nth [OF px(2)] by metis
    then show False using branch_elems(1) [OF ok x] branch_elems(2) [OF ok y] by simp
  qed
  then have "prefix (p @ [b]) (pbits k i)" by (rule prefix_length_prefix [OF px(1) bx])
  with pbits_prefix [of k i] show ?thesis using Branch prefix_order.trans by fastforce
qed

lemma pbits_take:
  assumes "prefix (pbits k i) (key_bits k')" and "k \<noteq> []"
  shows "pbits (take (length k) k') i = pbits k i"
proof -
  from assms(2) obtain q x where k: "k = q @ [x]" by (cases k rule: rev_cases) auto
  have "8 * length q + min 8 (Suc i) \<le> 8 * length k'"
    using prefix_length_le [OF assms(1)] k by (simp add: length_pbits)
  then have "length q < length k'" by simp
  then obtain s1 y s2 where s: "k' = s1 @ y # s2" "length s1 = length q"
    by (metis id_take_nth_drop length_take less_imp_le_nat min.absorb2)
  with assms(1) k show ?thesis
    by (auto simp: pbits_def prefix_append_same_length prefix_take_byte)
qed

lemma delete_node_eq:
  assumes "node_ok C n"
  shows "case delete_node n key of
      None \<Rightarrow> \<exists>x\<in>elems n. strict_prefix x key
    | Some Same \<Rightarrow> key \<notin> elems n \<and> \<not> (\<exists>x\<in>elems n. strict_prefix x key)
    | Some Gone \<Rightarrow> elems n = {key}
    | Some (New n') \<Rightarrow> node_ok C n' \<and> key \<in> elems n \<and> elems n' = elems n - {key}"
  using assms
proof (induction n)
  case (Leaf k h)
  then show ?case by (auto simp: hasPrefix_leaf strict_prefix_def)
next
  case (Branch k i h l r)
  let ?n = "Branch k i h l r"
  from Branch.prems have ok: "node_ok C l" "node_ok C r" by auto
  show ?case
  proof (cases rule: branch_cases [OF Branch.prems, of key, case_names self away down])
    case self
    then have "key \<notin> elems ?n" "\<not> (\<exists>x\<in>elems ?n. strict_prefix x key)"
      by (auto simp: strict_prefix_def dest: prefix_order.antisym simp del: elems.simps)
    with self show ?thesis by (simp del: elems.simps)
  next
    case away
    then have "key \<notin> elems ?n" "\<not> (\<exists>x\<in>elems ?n. strict_prefix x key)"
      by (auto simp: strict_prefix_def simp del: elems.simps)
    with away show ?thesis by (auto simp del: elems.simps)
  next
    case (down b)
    let ?c = "if b then r else l" and ?o = "if b then l else r"
    have kn: "key \<notin> elems ?o" "\<not> (\<exists>x\<in>elems ?o. strict_prefix x key)"
      using down(5) [of key] down(5) by (auto simp: strict_prefix_def)
    have un: "elems ?n = elems ?c \<union> elems ?o" by auto
    have bel: "below (pbits k i @ [b]) (elems ?c)" "below (pbits k i @ [\<not> b]) (elems ?o)"
      using Branch.prems by (cases b; simp)+
    have IH: "case delete_node ?c key of
        None \<Rightarrow> \<exists>x\<in>elems ?c. strict_prefix x key
      | Some Same \<Rightarrow> key \<notin> elems ?c \<and> \<not> (\<exists>x\<in>elems ?c. strict_prefix x key)
      | Some Gone \<Rightarrow> elems ?c = {key}
      | Some (New n') \<Rightarrow> node_ok C n' \<and> key \<in> elems ?c \<and> elems n' = elems ?c - {key}"
      using Branch.IH ok by (cases b) simp_all
    have D: "delete_node ?n key = (case delete_node ?c key of None \<Rightarrow> None
        | Some Gone \<Rightarrow> Some (New ?o) | Some Same \<Rightarrow> Some Same
        | Some (New c) \<Rightarrow> Some (New (if b then Branch (take (length k) (node_key c)) i None l c
             else Branch (take (length k) (node_key c)) i None c r)))"
      using down(1-3) by (cases b) (auto split: option.split deleted.split)
    show ?thesis
    proof (cases "delete_node ?c key")
      case None
      with IH have "\<exists>x\<in>elems ?c. strict_prefix x key" by simp
      then have "\<exists>x\<in>elems ?n. strict_prefix x key" unfolding un by blast
      with None D show ?thesis by (simp del: elems.simps)
    next
      case (Some d)
      show ?thesis
      proof (cases d)
        case Same
        with Some IH have "key \<notin> elems ?c \<and> \<not> (\<exists>x\<in>elems ?c. strict_prefix x key)" by simp
        with kn have "key \<notin> elems ?n \<and> \<not> (\<exists>x\<in>elems ?n. strict_prefix x key)"
          unfolding un by blast
        with Same Some D show ?thesis by (simp del: elems.simps)
      next
        case Gone
        with Some IH have "elems ?c = {key}" by simp
        then have "elems ?n - {key} = elems ?o" using kn(1) unfolding un by blast
        moreover have "key \<in> elems ?n" using \<open>elems ?c = {key}\<close> unfolding un by blast
        moreover have "node_ok C ?o" using ok by simp
        ultimately show ?thesis using Gone Some D by (simp del: elems.simps)
      next
        case (New c)
        with Some IH have c: "node_ok C c" "key \<in> elems ?c" "elems c = elems ?c - {key}" by auto
        have belc: "below (pbits k i @ [b]) (elems c)" using bel(1) c(3) by (auto simp: below_def)
        have kp: "prefix (pbits k i) (key_bits (node_key c))"
          using child_key_prefix [OF c(1) belc] by (rule append_prefixD)
        have pk: "pbits (take (length k) (node_key c)) i = pbits k i"
          using pbits_take [OF kp] by (cases "k = []") (simp_all add: pbits_def)
        have nonempty: "take (length k) (node_key c) = [] \<longrightarrow> i = 7"
        proof
          assume e: "take (length k) (node_key c) = []"
          show "i = 7"
          proof (cases "k = []")
            case True
            then show ?thesis using Branch.prems by simp
          next
            case False
            with pk e have "length (pbits k i) = 0" by (simp add: pbits_def)
            with False show ?thesis by (simp add: length_pbits)
          qed
        qed
        let ?n' = "if b then Branch (take (length k) (node_key c)) i None l c
             else Branch (take (length k) (node_key c)) i None c r"
        have "elems ?n' = elems ?n - {key}" using c(3) kn by (cases b) auto
        moreover have "node_ok C ?n'"
          using c(1) ok belc bel(2) nonempty pk Branch.prems by (cases b) auto
        moreover have "key \<in> elems ?n" using c(2) unfolding un by blast
        ultimately show ?thesis using New Some D by (simp del: elems.simps node_ok.simps)
      qed
    qed
  qed
qed

lemma Delete_eq:
  assumes "tree_ok C t"
  shows "if \<exists>x\<in>items t. strict_prefix x item then Delete t item = None
    else \<exists>t'. Delete t item = Some t' \<and> tree_ok C t' \<and> items t' = items t - {item}"
proof (cases t)
  case None
  then show ?thesis by (simp add: Delete_def items_def tree_ok_def)
next
  case (Some n)
  with assms have ok: "node_ok C n" by (simp add: tree_ok_def)
  have free: "\<not> strict_prefix x item" if "item \<in> elems n" "x \<in> elems n" for x
    using elems_prefix_free [OF ok that(2,1)] by (auto simp: strict_prefix_def)
  show ?thesis
  proof (cases "delete_node n item")
    case None
    with Some delete_node_eq [OF ok, of item] show ?thesis by (simp add: Delete_def items_def)
  next
    case (Some d)
    with \<open>t = Some n\<close> delete_node_eq [OF ok, of item] ok free show ?thesis
      by (cases d) (auto simp: Delete_def items_def tree_ok_def)
  qed
qed

section \<open>The root hash\<close>

lemma calcHash_spec:
  "node_ok C n \<Longrightarrow> calcHash C n = (h, n') \<Longrightarrow>
   h = spec_hash C n \<and> node_ok C n' \<and> elems n' = elems n \<and> spec_hash C n' = spec_hash C n"
proof (induction n arbitrary: h n')
  case (Branch k i c l r)
  obtain x l' where l: "calcHash C l = (x, l')" by (cases "calcHash C l")
  obtain y r' where r: "calcHash C r = (y, r')" by (cases "calcHash C r")
  from Branch.IH(1) [OF _ l] Branch.IH(2) [OF _ r] Branch.prems l r show ?case
    by (cases c) (auto simp: Let_def)
qed auto

lemma branch_two:
  assumes "node_ok C (Branch k i h l r)"
  obtains x y where "x \<in> elems l" "y \<in> elems r" "x \<noteq> y"
    "prefix (pbits k i) (key_bits x)" "prefix (pbits k i) (key_bits y)"
    "length (pbits k i) < length (key_bits x)" "length (pbits k i) < length (key_bits y)"
    "\<not> key_bits x ! length (pbits k i)" "key_bits y ! length (pbits k i)"
proof -
  obtain x y where "x \<in> elems l" "y \<in> elems r"
    using elems_nonempty [of l] elems_nonempty [of r] by blast
  with branch_elems [OF assms, of x] branch_elems [OF assms, of y] that show ?thesis by fastforce
qed

lemma shared_prefix_le:
  assumes "node_ok C (Branch k i h l r)" and "node_ok C (Branch k' i' h' l' r')"
    and "elems (Branch k i h l r) = elems (Branch k' i' h' l' r')"
  shows "length (pbits k' i') \<le> length (pbits k i)"
proof (rule ccontr)
  assume less: "\<not> length (pbits k' i') \<le> length (pbits k i)"
  obtain x y where xy: "x \<in> elems l" "y \<in> elems r"
    "\<not> key_bits x ! length (pbits k i)" "key_bits y ! length (pbits k i)"
    by (rule branch_two [OF assms(1)])
  then have "x \<in> elems (Branch k' i' h' l' r')" "y \<in> elems (Branch k' i' h' l' r')"
    using assms(3) by auto
  then have "prefix (pbits k' i') (key_bits x)" "prefix (pbits k' i') (key_bits y)"
    using branch_elems(3) [OF assms(2)] by blast+
  then have "key_bits x ! length (pbits k i) = key_bits y ! length (pbits k i)"
    using less by (metis prefix_nth not_le)
  with xy show False by simp
qed

lemma branch_not_singleton:
  assumes "node_ok C (Branch k i h l r)"
  shows "elems (Branch k i h l r) \<noteq> {x}"
proof
  assume single: "elems (Branch k i h l r) = {x}"
  obtain a b where "a \<in> elems l" "b \<in> elems r" "a \<noteq> b" by (rule branch_two [OF assms])
  moreover from this have "a \<in> {x}" "b \<in> {x}" unfolding single [symmetric] by simp_all
  ultimately show False by simp
qed

lemma branch_elems_eq:
  assumes "node_ok C (Branch k i h l r)"
  shows "elems l = {x \<in> elems (Branch k i h l r). \<not> key_bits x ! length (pbits k i)}"
    and "elems r = {x \<in> elems (Branch k i h l r). key_bits x ! length (pbits k i)}"
  using branch_elems(1,2) [OF assms] by auto

lemma spec_hash_canonical:
  "node_ok C n \<Longrightarrow> node_ok C m \<Longrightarrow> elems n = elems m \<Longrightarrow> spec_hash C n = spec_hash C m"
proof (induction n arbitrary: m)
  case (Leaf k h)
  show ?case
  proof (cases m)
    case (Branch k' i' h' l' r')
    with branch_not_singleton [of C k' i' h' l' r' k] Leaf.prems show ?thesis
      by (metis elems.simps(1))
  qed (use Leaf in auto)
next
  case (Branch k i h l r)
  show ?case
  proof (cases m)
    case (Leaf k' h')
    with branch_not_singleton [OF Branch.prems(1), of k'] Branch.prems(3) show ?thesis
      by (metis elems.simps(1))
  next
    case m: (Branch k' i' h' l' r')
    have "length (pbits k i) = length (pbits k' i')"
      using shared_prefix_le [OF Branch.prems(1) Branch.prems(2) [unfolded m]]
        shared_prefix_le [OF Branch.prems(2) [unfolded m] Branch.prems(1)] Branch.prems(3) m by simp
    moreover have "elems (Branch k i h l r) = elems (Branch k' i' h' l' r')"
      using Branch.prems(3) m by simp
    ultimately have "elems l = elems l'" "elems r = elems r'"
      by (metis branch_elems_eq [OF Branch.prems(1)] branch_elems_eq [OF Branch.prems(2) [unfolded m]])+
    with Branch.IH(1) [of l'] Branch.IH(2) [of r'] Branch.prems(1,2) m show ?thesis by simp
  qed
qed

definition tree_hash :: "('z) crypto_scheme \<Rightarrow> tree \<Rightarrow> bytes" where
  "tree_hash C t = (case t of None \<Rightarrow> replicate 32 0 | Some n \<Rightarrow> spec_hash C n)"

lemma RootHash_spec:
  assumes "tree_ok C t"
  shows "fst (RootHash C t) = tree_hash C t \<and> tree_ok C (snd (RootHash C t)) \<and>
    items (snd (RootHash C t)) = items t"
proof (cases t)
  case (Some n)
  obtain h n' where c: "calcHash C n = (h, n')" by (cases "calcHash C n")
  with calcHash_spec [of C n h n'] assms Some show ?thesis
    by (simp add: RootHash_def tree_ok_def items_def tree_hash_def)
qed (simp add: RootHash_def tree_ok_def items_def tree_hash_def)

fun node_hashed :: "('z) crypto_scheme \<Rightarrow> node \<Rightarrow> bytes set" where
  \<comment> \<open>the strings hashed for a node\<close>
  "node_hashed C (Leaf k _) = {leafPrefix @ k}"
| "node_hashed C (Branch _ _ _ l r) = insert (interiorPrefix @ spec_hash C l @ spec_hash C r)
     (node_hashed C l \<union> node_hashed C r)"

definition tree_hashed :: "('z) crypto_scheme \<Rightarrow> tree \<Rightarrow> bytes set" where
  "tree_hashed C t = (case t of None \<Rightarrow> {} | Some n \<Rightarrow> node_hashed C n)"

lemma spec_hash_binds:
  assumes size: "\<And>x. length (Sum256 C x) = 32"
  shows "inj_on (Sum256 C) (node_hashed C n \<union> node_hashed C m) \<Longrightarrow>
    spec_hash C n = spec_hash C m \<Longrightarrow> elems n = elems m"
proof (induction n arbitrary: m)
  case (Leaf k h)
  show ?case
  proof (cases m)
    case (Leaf k' h')
    with Leaf.prems inj_onD [OF Leaf.prems(1), of "leafPrefix @ k" "leafPrefix @ k'"] show ?thesis
      by (simp add: leaf_hash_def)
  next
    case (Branch k' i' h' l' r')
    with Leaf.prems inj_onD [OF Leaf.prems(1), of "leafPrefix @ k" "interiorPrefix @ spec_hash C l' @ spec_hash C r'"]
    show ?thesis by (simp add: leaf_hash_def leafPrefix_def interiorPrefix_def)
  qed
next
  case (Branch k i h l r)
  let ?s = "interiorPrefix @ spec_hash C l @ spec_hash C r"
  show ?case
  proof (cases m)
    case (Leaf k' h')
    with Branch.prems inj_onD [OF Branch.prems(1), of "leafPrefix @ k'" ?s]
    show ?thesis by (simp add: leaf_hash_def leafPrefix_def interiorPrefix_def)
  next
    case m: (Branch k' i' h' l' r')
    have "?s = interiorPrefix @ spec_hash C l' @ spec_hash C r'"
      by (rule inj_onD [OF Branch.prems(1)]) (use Branch.prems(2) m in simp_all)
    moreover have "length (spec_hash C n) = 32" for n
      by (cases n) (simp_all add: leaf_hash_def size)
    ultimately have "spec_hash C l = spec_hash C l'" "spec_hash C r = spec_hash C r'" by simp_all
    moreover have "inj_on (Sum256 C) (node_hashed C l \<union> node_hashed C l')"
      "inj_on (Sum256 C) (node_hashed C r \<union> node_hashed C r')"
      using m by (auto intro: inj_on_subset [OF Branch.prems(1)])
    ultimately have "elems l = elems l'" "elems r = elems r'"
      using Branch.IH by blast+
    with m show ?thesis by simp
  qed
qed

end
