(* ===== verification/PatriciaSet.thy ===== *)
theory PatriciaSet
  imports Patricia
begin

text \<open>
  The Patricia tree as its clients use it. The blockchain state stores keys of one fixed length per
  tree, so that no key is a proper prefix of another; for such keys the tree is a finite set with
  total operations. The locale \<open>keyset\<close> is that interface; the state component is verified
  against it, and the tree is its interpretation.
\<close>

section \<open>Walking\<close>

fun node_list :: "node \<Rightarrow> bytes list" where
  "node_list (Leaf k _) = [k]"
| "node_list (Branch _ _ _ l r) = node_list l @ node_list r"

definition tree_list :: "tree \<Rightarrow> bytes list" where
  "tree_list t = (case t of None \<Rightarrow> [] | Some n \<Rightarrow> node_list n)"

fun visit :: "('s \<Rightarrow> bytes \<Rightarrow> 'e option \<times> 's) \<Rightarrow> bytes list \<Rightarrow> 's \<Rightarrow> 'e option \<times> 's" where
  "visit f [] s = (None, s)"
| "visit f (k # ks) s = (case f s k of (Some e, s') \<Rightarrow> (Some e, s') | (None, s') \<Rightarrow> visit f ks s')"

lemma visit_append:
  "visit f (xs @ ys) s = (case visit f xs s of (Some e, s') \<Rightarrow> (Some e, s') | (None, s') \<Rightarrow> visit f ys s')"
  by (induction xs arbitrary: s) (auto split: prod.splits option.splits)

lemma walk_visit: "walk f n s = visit f (node_list n) s"
  by (induction n arbitrary: s) (auto simp: visit_append split: prod.splits option.splits)

lemma Walk_visit: "Walk t f s = visit f (tree_list t) s"
  by (cases t) (simp_all add: Walk_def tree_list_def walk_visit)

lemma set_node_list: "set (node_list n) = elems n"
  by (induction n) auto

lemma set_tree_list: "set (tree_list t) = items t"
  by (cases t) (simp_all add: tree_list_def items_def set_node_list)

lemma distinct_node_list: "node_ok C n \<Longrightarrow> distinct (node_list n)"
proof (induction n)
  case (Branch k i h l r)
  have "elems l \<inter> elems r = {}" using branch_elems(1,2) [OF Branch.prems] by auto
  with Branch show ?case by (simp add: set_node_list)
qed simp

lemma distinct_tree_list: "tree_ok C t \<Longrightarrow> distinct (tree_list t)"
  by (cases t) (auto simp: tree_ok_def tree_list_def intro: distinct_node_list)

section \<open>Sets of keys of a fixed length\<close>

fun insert_all :: "('t \<Rightarrow> bytes \<Rightarrow> ('e option \<times> 't) option) \<Rightarrow> bytes list \<Rightarrow> 't \<Rightarrow> ('e + 't) option" where
  \<comment> \<open>insert the keys one by one, stopping at the first error\<close>
  "insert_all ins [] t = Some (Inr t)"
| "insert_all ins (k # ks) t =
     (case ins t k of None \<Rightarrow> None
      | Some (Some e, _) \<Rightarrow> Some (Inl e)
      | Some (None, t') \<Rightarrow> insert_all ins ks t')"

fun delete_all :: "('t \<Rightarrow> bytes \<Rightarrow> 't option) \<Rightarrow> bytes list \<Rightarrow> 't \<Rightarrow> 't option" where
  "delete_all del [] t = Some t"
| "delete_all del (k # ks) t = (case del t k of None \<Rightarrow> None | Some t' \<Rightarrow> delete_all del ks t')"

locale keyset =
  fixes ok :: "nat \<Rightarrow> 't \<Rightarrow> bool" and keys :: "'t \<Rightarrow> bytes set"
    and contains :: "'t \<Rightarrow> bytes \<Rightarrow> bool option"
    and ins :: "'t \<Rightarrow> bytes \<Rightarrow> ('e option \<times> 't) option"
    and del :: "'t \<Rightarrow> bytes \<Rightarrow> 't option"
  assumes keys_length: "ok n t \<Longrightarrow> k \<in> keys t \<Longrightarrow> length k = n"
    and contains_key: "ok n t \<Longrightarrow> length k = n \<Longrightarrow> contains t k = Some (k \<in> keys t)"
    and ins_key: "ok n t \<Longrightarrow> length k = n \<Longrightarrow>
      \<exists>t'. ins t k = Some (None, t') \<and> ok n t' \<and> keys t' = insert k (keys t)"
    and del_key: "ok n t \<Longrightarrow> length k = n \<Longrightarrow>
      \<exists>t'. del t k = Some t' \<and> ok n t' \<and> keys t' = keys t - {k}"
begin

lemma insert_all_keys:
  "ok n t \<Longrightarrow> (\<And>k. k \<in> set ks \<Longrightarrow> length k = n) \<Longrightarrow>
   \<exists>t'. insert_all ins ks t = Some (Inr t') \<and> ok n t' \<and> keys t' = set ks \<union> keys t"
proof (induction ks arbitrary: t)
  case (Cons k ks)
  obtain t1 where t1: "ins t k = Some (None, t1)" "ok n t1" "keys t1 = insert k (keys t)"
    using ins_key Cons.prems by (meson list.set_intros(1))
  then obtain t' where "insert_all ins ks t1 = Some (Inr t')" "ok n t'" "keys t' = set ks \<union> keys t1"
    using Cons.IH Cons.prems(2) by (meson list.set_intros(2))
  with t1 show ?case by auto
qed simp

lemma delete_all_keys:
  "ok n t \<Longrightarrow> (\<And>k. k \<in> set ks \<Longrightarrow> length k = n) \<Longrightarrow>
   \<exists>t'. delete_all del ks t = Some t' \<and> ok n t' \<and> keys t' = keys t - set ks"
proof (induction ks arbitrary: t)
  case (Cons k ks)
  obtain t1 where t1: "del t k = Some t1" "ok n t1" "keys t1 = keys t - {k}"
    using del_key Cons.prems by (meson list.set_intros(1))
  then obtain t' where "delete_all del ks t1 = Some t'" "ok n t'" "keys t' = keys t1 - set ks"
    using Cons.IH Cons.prems(2) by (meson list.set_intros(2))
  with t1 show ?case by auto
qed simp

end

definition sized :: "('z) crypto_scheme \<Rightarrow> nat \<Rightarrow> tree \<Rightarrow> bool" where
  "sized C n t \<longleftrightarrow> tree_ok C t \<and> (\<forall>k\<in>items t. length k = n)"

lemma same_length_prefix: "length x = length y \<Longrightarrow> \<not> strict_prefix x y"
  by (auto simp: strict_prefix_def prefix_def)

interpretation trees: keyset "sized C" items Contains "Insert C" Delete
  for C :: "('z) crypto_scheme"
proof
  fix n t and k :: bytes
  assume ok: "sized C n t"
  then show "k \<in> items t \<Longrightarrow> length k = n" by (simp add: sized_def)
  assume k: "length k = n"
  from ok k have free: "\<not> strict_prefix x k" "\<not> strict_prefix k x" if "x \<in> items t" for x
    using that same_length_prefix [of x k] same_length_prefix [of k x] by (auto simp: sized_def)
  show "Contains t k = Some (k \<in> items t)"
    using Contains_eq [of C t k] ok free by (auto simp: sized_def)
  show "\<exists>t'. Insert C t k = Some (None, t') \<and> sized C n t' \<and> items t' = insert k (items t)"
    using Insert_eq [of C t k] ok k free by (auto simp: sized_def split: if_splits)
  show "\<exists>t'. Delete t k = Some t' \<and> sized C n t' \<and> items t' = items t - {k}"
    using Delete_eq [of C t k] ok free by (fastforce simp: sized_def split: if_splits)
qed

lemma sized_empty [simp]: "sized C n None"
  by (simp add: sized_def tree_ok_def items_def)

section \<open>What the tree promises\<close>

definition sample_tree :: tree where
  "sample_tree = (case insert_all (Insert sample_crypto) [[1, 2], [1, 7], [9, 0]] None of
     Some (Inr t) \<Rightarrow> t | _ \<Rightarrow> None)"

lemma sample_tree_sized: "sized sample_crypto 2 sample_tree \<and> items sample_tree = {[1, 2], [1, 7], [9, 0]}"
proof -
  have "length k = 2" if "k \<in> set [[1, 2], [1, 7], [9, 0]]" for k :: bytes using that by auto
  then obtain t where "insert_all (Insert sample_crypto) [[1, 2], [1, 7], [9, 0]] None = Some (Inr t)"
    "sized sample_crypto 2 t" "items t = set [[1, 2], [1, 7], [9, 0]] \<union> items None"
    using trees.insert_all_keys [OF sized_empty] by blast
  then show ?thesis by (auto simp: sample_tree_def items_def)
qed

lemma sample_tree_ok: "tree_ok sample_crypto sample_tree"
  and sample_tree_items: "items sample_tree = {[1, 2], [1, 7], [9, 0]}"
  using sample_tree_sized by (simp_all add: sized_def)

text \<open>
  Membership in a Patricia tree. On a well-formed tree \<^verbatim>\<open>Contains\<close> tells whether the item is an
  element, unless some element is a proper prefix of the item: then, and only then, it follows
  the nil child of a leaf and panics.
\<close>

theorem Contains_correct:
  assumes "tree_ok C t"
  shows "Contains t item =
    (if \<exists>x\<in>items t. strict_prefix x item then None else Some (item \<in> items t))"
  using assms by (rule Contains_eq)

theorem Contains_correct_witness:
  "Contains sample_tree [1, 7] = Some True \<and> Contains sample_tree [1, 7, 0] = None"
  using Contains_correct [OF sample_tree_ok, of "[1, 7]"] Contains_correct [OF sample_tree_ok, of "[1, 7, 0]"]
  by (auto simp: sample_tree_items strict_prefix_def)

text \<open>
  C31: Insertion into a Patricia tree. On a well-formed tree \<^verbatim>\<open>Insert\<close> never panics; it reports an
  error, and leaves the tree as it was, exactly when the item is a proper prefix of an element
  or extends one; otherwise the new tree is well formed and has exactly one item more.
\<close>

theorem Insert_correct:
  assumes "tree_ok C t"
  shows "if \<exists>x\<in>items t. strict_prefix x item \<or> strict_prefix item x
    then Insert C t item = Some (Some ErrPrefix, t)
    else \<exists>t'. Insert C t item = Some (None, t') \<and> tree_ok C t' \<and> items t' = insert item (items t)"
  using assms by (rule Insert_eq)

theorem Insert_correct_witness:
  "Insert sample_crypto sample_tree [1] = Some (Some ErrPrefix, sample_tree) \<and>
   (\<exists>t'. Insert sample_crypto sample_tree [4] = Some (None, t') \<and>
     items t' = {[4], [1, 2], [1, 7], [9, 0]})"
  using Insert_correct [OF sample_tree_ok, of "[1]"] Insert_correct [OF sample_tree_ok, of "[4]"]
  by (auto simp: sample_tree_items strict_prefix_def)

text \<open>
  C32: Deletion from a Patricia tree. On a well-formed tree \<^verbatim>\<open>Delete\<close> panics exactly when some
  element is a proper prefix of the item; otherwise the resulting tree is well formed and holds
  the other items.
\<close>

theorem Delete_correct:
  assumes "tree_ok C t"
  shows "if \<exists>x\<in>items t. strict_prefix x item then Delete t item = None
    else \<exists>t'. Delete t item = Some t' \<and> tree_ok C t' \<and> items t' = items t - {item}"
  using assms by (rule Delete_eq)

theorem Delete_correct_witness:
  "Delete sample_tree [1, 7, 0] = None \<and>
   (\<exists>t'. Delete sample_tree [1, 7] = Some t' \<and> items t' = {[1, 2], [9, 0]})"
  using Delete_correct [OF sample_tree_ok, of "[1, 7, 0]"] Delete_correct [OF sample_tree_ok, of "[1, 7]"]
  by (auto simp: sample_tree_items strict_prefix_def)

text \<open>
  C33: The root hash of a Patricia tree is a commitment to its set of items: it does not depend
  on the order of insertions and deletions or on which hashes happen to be cached, computing it
  leaves the set alone, and two trees with different items have different root hashes unless
  SHA3-256 (with its 32-byte digests) collides on the strings hashed for the two trees or yields
  the all-zero hash that stands for the empty tree.
\<close>

theorem RootHash_commits:
  assumes "tree_ok C t" and "tree_ok C t'" and "\<And>x. length (Sum256 C x) = 32"
    and "inj_on (Sum256 C) (tree_hashed C t \<union> tree_hashed C t')"
    and "replicate 32 0 \<notin> Sum256 C ` (tree_hashed C t \<union> tree_hashed C t')"
  shows "(fst (RootHash C t) = fst (RootHash C t') \<longleftrightarrow> items t = items t') \<and>
    items (snd (RootHash C t)) = items t"
proof -
  have leaf_in: "\<exists>y\<in>node_hashed C n. spec_hash C n = Sum256 C y" for n
    by (cases n) (auto simp: leaf_hash_def)
  have "tree_hash C t = tree_hash C t' \<longleftrightarrow> items t = items t'"
  proof (cases t; cases t')
    fix n assume "t = None" "t' = Some n"
    with leaf_in [of n] assms(5) show ?thesis
      using elems_nonempty [of n] by (auto simp: tree_hash_def items_def tree_hashed_def)
  next
    fix n assume "t = Some n" "t' = None"
    with leaf_in [of n] assms(5) show ?thesis
      using elems_nonempty [of n] by (auto simp: tree_hash_def items_def tree_hashed_def)
  next
    fix n m assume "t = Some n" "t' = Some m"
    with spec_hash_canonical [of C n m] spec_hash_binds [of C n m, OF assms(3)] assms show ?thesis
      by (auto simp: tree_hash_def items_def tree_hashed_def tree_ok_def)
  qed (simp add: tree_hash_def items_def)
  with RootHash_spec [OF assms(1)] RootHash_spec [OF assms(2)] show ?thesis by simp
qed

theorem RootHash_commits_witness:
  "fst (RootHash sample_crypto (Some (Leaf [1] (leaf_hash sample_crypto [1])))) \<noteq>
   fst (RootHash sample_crypto (Some (Leaf [2] (leaf_hash sample_crypto [2]))))"
proof -
  let ?t = "Some (Leaf [1] (leaf_hash sample_crypto [1]))"
    and ?t' = "Some (Leaf [2] (leaf_hash sample_crypto [2]))"
  have "Sum256 sample_crypto [0, 1] \<noteq> Sum256 sample_crypto [0, 2] \<and>
    Sum256 sample_crypto [0, 1] \<noteq> replicate 32 0 \<and> Sum256 sample_crypto [0, 2] \<noteq> replicate 32 0"
    by code_simp
  then show ?thesis
    using RootHash_commits [of sample_crypto ?t ?t']
    by (simp add: tree_ok_def tree_hashed_def leafPrefix_def items_def sample_crypto_def eq_commute)
qed

end
