(* ===== verification/BCBlock.thy ===== *)
theory BCBlock
  imports BCTx VMEncode
begin

text \<open>
  Blocks (\<^verbatim>\<open>protocol/bc/block.go\<close>, \<^verbatim>\<open>blockheader.go\<close>, \<^verbatim>\<open>merkle.go\<close> and the message types of
  \<^verbatim>\<open>bc.proto\<close>): headers, the block ID, data items, and the conversion of blocks to and from the
  protobuf message \<^verbatim>\<open>RawBlock\<close>. The protobuf codec itself is a parameter. A pointer that may be
  nil is an option; code that would dereference nil, and the encoding of a data item of an unknown
  type, has no value (\<open>None\<close>).

  Shown here: the block ID commits to every field of the header that has a meaning, and a block round trips through its bytes.
\<close>

section \<open>Messages\<close>

definition DataType_BYTES :: int where "DataType_BYTES = 0"
definition DataType_INT :: int where "DataType_INT = 1"
definition DataType_TUPLE :: int where "DataType_TUPLE = 2"

datatype DataItem =
  MkDataItem (di_Type: int) (di_Bytes: bytes) (di_Int: int) (di_Tuple: "DataItem list")

record Predicate =
  p_Version :: int
  Quorum :: int
  Pubkeys :: "bytes list"
  OtherFields :: "DataItem list"

record BlockHeader =
  bh_Version :: uint64
  Height :: uint64
  PreviousBlockId :: "Hash option"
  TimestampMs :: uint64
  bh_Runlimit :: int
  RefsCount :: int
  TransactionsRoot :: "Hash option"
  ContractsRoot :: "Hash option"
  NoncesRoot :: "Hash option"
  NextPredicate :: "Predicate option"
  ExtraFields :: "DataItem list"

record RawTx =
  rt_Version :: int
  rt_Runlimit :: int
  rt_Program :: bytes

record RawBlock =
  rb_Header :: "BlockHeader option"
  rb_Transactions :: "RawTx list"
  rb_Arguments :: "DataItem list"

section \<open>The block ID\<close>

fun asTxvm :: "DataItem \<Rightarrow> data option" where
  \<comment> \<open>\<open>None\<close>: a nil somewhere in the result, which \<^verbatim>\<open>Encode\<close> would dereference\<close>
  "asTxvm (MkDataItem ty b i t) =
     (if ty = DataType_BYTES then Some (Bytes b)
      else if ty = DataType_INT then Some (Int64 i)
      else if ty = DataType_TUPLE then map_option Tuple (those (map asTxvm t))
      else None)"

definition emptyHash :: bytes where "emptyHash = replicate 32 0"

definition hash_or_empty :: "Hash option \<Rightarrow> bytes" where
  "hash_or_empty p = (case p of None \<Rightarrow> emptyHash | Some h \<Rightarrow> Hash_Bytes h)"

definition predicateTuple :: "Predicate \<Rightarrow> data list option" where
  "predicateTuple p =
     (if p_Version p = 1 then
        Some (Int64 (p_Version p) # Int64 (Quorum p) # map Bytes (Pubkeys p))
      else map_option (\<lambda>fs. Int64 (p_Version p) # fs) (those (map asTxvm (OtherFields p))))"

definition int64_of :: "uint64 \<Rightarrow> int" where
  \<comment> \<open>the conversion \<^verbatim>\<open>txvm.Int(x)\<close> of a uint64\<close>
  "int64_of x = sint x"

definition tupleHeader :: "BlockHeader \<Rightarrow> data list option" where
  "tupleHeader bh =
     (case NextPredicate bh of None \<Rightarrow> None
      | Some np \<Rightarrow>
         (case predicateTuple np of None \<Rightarrow> None
          | Some pt \<Rightarrow> map_option (\<lambda>extra.
              [Int64 (int64_of (bh_Version bh)), Int64 (int64_of (Height bh)),
               Bytes (hash_or_empty (PreviousBlockId bh)), Int64 (int64_of (TimestampMs bh)),
               Int64 (RefsCount bh), Int64 (bh_Runlimit bh),
               Bytes (hash_or_empty (TransactionsRoot bh)),
               Bytes (hash_or_empty (ContractsRoot bh)), Bytes (hash_or_empty (NoncesRoot bh)),
               Tuple pt] @ extra) (those (map asTxvm (ExtraFields bh)))))"

definition header_Hash :: "('z) crypto_scheme \<Rightarrow> BlockHeader \<Rightarrow> Hash option" where
  "header_Hash C bh =
     map_option (\<lambda>t. NewHash (VMHash C (str ''BlockID'') (Encode (Tuple t)))) (tupleHeader bh)"

section \<open>Blocks\<close>

datatype argument = \<comment> \<open>an \<^verbatim>\<open>interface{}\<close>; \<open>ArgOther\<close> is a value of any other type\<close>
  ArgBytes bytes | ArgInt int | ArgTuple "DataItem list" | ArgOther

record 'w block =
  header :: "BlockHeader option"
  Transactions :: "'w tx_scheme list"
  Arguments :: "argument list"

definition raw_of_tx :: "'w tx_scheme \<Rightarrow> RawTx" where
  "raw_of_tx t = \<lparr>rt_Version = tx_Version t, rt_Runlimit = tx_Runlimit t, rt_Program = WitnessProg t\<rparr>"

fun item_of_arg :: "argument \<Rightarrow> DataItem list" where
  \<comment> \<open>what the type switch appends for an argument\<close>
  "item_of_arg (ArgBytes b) = [MkDataItem DataType_BYTES b 0 []]"
| "item_of_arg (ArgInt i) = [MkDataItem DataType_INT [] i []]"
| "item_of_arg (ArgTuple t) = [MkDataItem DataType_TUPLE [] 0 t]"
| "item_of_arg ArgOther = []"

definition arg_of_item :: "DataItem \<Rightarrow> argument list" where
  "arg_of_item d =
     (if di_Type d = DataType_BYTES then [ArgBytes (di_Bytes d)]
      else if di_Type d = DataType_INT then [ArgInt (di_Int d)]
      else if di_Type d = DataType_TUPLE then [ArgTuple (di_Tuple d)]
      else [])"

definition raw_block :: "'w block \<Rightarrow> RawBlock" where
  "raw_block b = \<lparr>rb_Header = header b, rb_Transactions = map raw_of_tx (Transactions b),
     rb_Arguments = concat (map item_of_arg (Arguments b))\<rparr>"

record 'e codec = \<comment> \<open>\<^verbatim>\<open>proto.Marshal\<close> and \<^verbatim>\<open>proto.Unmarshal\<close>\<close>
  marshal_block :: "RawBlock \<Rightarrow> 'e + bytes"
  unmarshal_block :: "bytes \<Rightarrow> 'e + RawBlock"
  marshal_header :: "BlockHeader \<Rightarrow> 'e + bytes"
  unmarshal_header :: "bytes \<Rightarrow> 'e + BlockHeader"

definition Block_Bytes :: "'e codec \<Rightarrow> 'w block \<Rightarrow> 'e + bytes" where
  "Block_Bytes P b = marshal_block P (raw_block b)"

datatype 'e block_error =
    Codec 'e
  | TxErrors "vmerror list" \<comment> \<open>one of them is returned: the first goroutine to fail\<close>
  | NotBytes
  | BadHexText

definition parse_tx :: "crypto \<Rightarrow> RawTx \<Rightarrow> (vmerror + tx) option" where
  \<comment> \<open>the goroutine of one transaction; \<open>None\<close>: it panics\<close>
  "parse_tx C r =
     (case NewTx C () (rt_Program r) (rt_Version r) (rt_Runlimit r) [] of
        None \<Rightarrow> None
      | Some (t, Some e) \<Rightarrow> Some (Inl e)
      | Some (t, None) \<Rightarrow> Some (if tx_Finalized t then Inr t else Inl ErrUnfinalized))"

definition lefts :: "('a + 'b) list \<Rightarrow> 'a list" where
  "lefts xs = List.map_filter (\<lambda>x. case x of Inl a \<Rightarrow> Some a | Inr _ \<Rightarrow> None) xs"

definition rights :: "('a + 'b) list \<Rightarrow> 'b list" where
  "rights xs = List.map_filter (\<lambda>x. case x of Inl _ \<Rightarrow> None | Inr b \<Rightarrow> Some b) xs"

definition Block_FromBytes ::
  "crypto \<Rightarrow> 'e codec \<Rightarrow> bytes \<Rightarrow> unit block \<Rightarrow> ('e block_error option \<times> unit block) option" where
  \<comment> \<open>the error and the new value of the receiver; \<open>None\<close>: a goroutine panics\<close>
  "Block_FromBytes C P bits b =
     (case unmarshal_block P bits of Inl e \<Rightarrow> Some (Some (Codec e), b)
      | Inr rb \<Rightarrow>
         (case those (map (parse_tx C) (rb_Transactions rb)) of None \<Rightarrow> None
          | Some txs \<Rightarrow>
              if lefts txs \<noteq> [] then Some (Some (TxErrors (lefts txs)), b)
              else Some (None, \<lparr>header = rb_Header rb, Transactions = rights txs,
                Arguments = Arguments b @ concat (map arg_of_item (rb_Arguments rb))\<rparr>)))"

definition Block_MarshalText :: "'e codec \<Rightarrow> 'w block \<Rightarrow> 'e + bytes" where
  "Block_MarshalText P b =
     (case Block_Bytes P b of Inl e \<Rightarrow> Inl e | Inr bits \<Rightarrow> Inr (hex_Encode bits))"

definition Block_UnmarshalText ::
  "crypto \<Rightarrow> 'e codec \<Rightarrow> bytes \<Rightarrow> unit block \<Rightarrow> ('e block_error option \<times> unit block) option" where
  "Block_UnmarshalText C P text b =
     (case hex_Decode text of (decoded, ok) \<Rightarrow>
        if ok then Block_FromBytes C P decoded b else Some (Some BadHexText, b))"

definition Block_Scan ::
  "crypto \<Rightarrow> 'e codec \<Rightarrow> bytes option \<Rightarrow> unit block \<Rightarrow> ('e block_error option \<times> unit block) option" where
  "Block_Scan C P val b =
     (case val of None \<Rightarrow> Some (Some NotBytes, b) | Some driverBuf \<Rightarrow> Block_FromBytes C P driverBuf b)"

definition Block_Value :: "'e codec \<Rightarrow> 'w block \<Rightarrow> 'e + bytes" where
  "Block_Value P b = Block_Bytes P b"

definition header_Scan :: "'e codec \<Rightarrow> bytes option \<Rightarrow> BlockHeader \<Rightarrow> 'e block_error option \<times> BlockHeader" where
  "header_Scan P val bh =
     (case val of None \<Rightarrow> (Some NotBytes, bh)
      | Some driverBuf \<Rightarrow>
         (case unmarshal_header P driverBuf of Inl e \<Rightarrow> (Some (Codec e), bh) | Inr bh' \<Rightarrow> (None, bh')))"

definition header_Value :: "'e codec \<Rightarrow> BlockHeader \<Rightarrow> 'e + bytes" where
  "header_Value P bh = marshal_header P bh"

section \<open>What the block ID commits to\<close>

fun DataItem_ok :: "DataItem \<Rightarrow> bool" where
  \<comment> \<open>integers fit their Go type\<close>
  "DataItem_ok (MkDataItem ty b i t) \<longleftrightarrow> is_int64 i \<and> list_all DataItem_ok t"

definition header_ok :: "BlockHeader \<Rightarrow> bool" where
  "header_ok bh \<longleftrightarrow> is_int64 (bh_Runlimit bh) \<and> is_int64 (RefsCount bh) \<and>
     list_all DataItem_ok (ExtraFields bh) \<and>
     (case NextPredicate bh of None \<Rightarrow> True
      | Some p \<Rightarrow> is_int64 (p_Version p) \<and> in_range 32 (Quorum p) \<and> list_all DataItem_ok (OtherFields p))"

lemma those_eq: "those xs = Some ys \<longleftrightarrow> xs = map Some ys"
  by (induction xs arbitrary: ys) (auto split: option.splits simp: Cons_eq_map_conv)

lemma those_list_all:
  assumes "those (map f xs) = Some ys" and "\<And>x y. x \<in> set xs \<Longrightarrow> f x = Some y \<Longrightarrow> P y"
  shows "list_all P ys"
proof -
  have "\<exists>x\<in>set xs. f x = Some y" if "y \<in> set ys" for y
  proof -
    from that have "Some y \<in> set (map f xs)" using assms(1) by (simp add: those_eq)
    then show ?thesis by (auto simp: eq_commute)
  qed
  with assms(2) show ?thesis unfolding list_all_iff by blast
qed

lemma asTxvm_ok: "DataItem_ok d \<Longrightarrow> asTxvm d = Some t \<Longrightarrow> data_ok t"
proof (induction d arbitrary: t rule: asTxvm.induct)
  case (1 ty b i ts)
  show ?case
  proof (cases "ty = DataType_TUPLE")
    case True
    with 1 obtain us where us: "those (map asTxvm ts) = Some us" "t = Tuple us"
      by (auto simp: DataType_BYTES_def DataType_INT_def DataType_TUPLE_def)
    have "list_all data_ok us"
      by (rule those_list_all [OF us(1)])
        (use 1 True in \<open>auto simp: list_all_iff DataType_BYTES_def DataType_INT_def DataType_TUPLE_def\<close>)
    with us show ?thesis by simp
  qed (use 1 in \<open>auto split: if_splits\<close>)
qed

lemma asTxvm_list_ok: "list_all DataItem_ok ds \<Longrightarrow> those (map asTxvm ds) = Some ts \<Longrightarrow> list_all data_ok ts"
  by (rule those_list_all) (auto simp: list_all_iff intro: asTxvm_ok)

lemma in_range_32_64: "in_range 32 x \<Longrightarrow> is_int64 x"
  by (simp add: in_range_def)

lemma tupleHeader_ok:
  assumes "header_ok bh" and "tupleHeader bh = Some t"
  shows "list_all data_ok t"
proof -
  obtain np pt ex where np: "NextPredicate bh = Some np" "predicateTuple np = Some pt"
    and ex: "those (map asTxvm (ExtraFields bh)) = Some ex"
    and t: "t = [Int64 (int64_of (bh_Version bh)), Int64 (int64_of (Height bh)),
               Bytes (hash_or_empty (PreviousBlockId bh)), Int64 (int64_of (TimestampMs bh)),
               Int64 (RefsCount bh), Int64 (bh_Runlimit bh),
               Bytes (hash_or_empty (TransactionsRoot bh)),
               Bytes (hash_or_empty (ContractsRoot bh)), Bytes (hash_or_empty (NoncesRoot bh)),
               Tuple pt] @ ex"
    using assms(2) by (auto simp: tupleHeader_def split: option.splits)
  have "list_all data_ok ex" using assms(1) ex by (auto simp: header_ok_def intro: asTxvm_list_ok)
  moreover have "list_all data_ok pt"
    using np assms(1) asTxvm_list_ok [of "OtherFields np"]
    by (auto simp: header_ok_def predicateTuple_def list_all_iff in_range_32_64 split: if_splits)
  ultimately show ?thesis using assms(1)
    by (simp add: t header_ok_def int64_of_def is_int64_word)
qed

lemma hash_or_empty_eq:
  "hash_or_empty p = hash_or_empty q \<longleftrightarrow> p = q \<or> IsZero p \<and> IsZero q"
proof -
  have zero: "Hash_Bytes zero_Hash = emptyHash" by code_simp
  show ?thesis
    by (cases p; cases q) (auto simp: hash_or_empty_def IsZero_def zero [symmetric])
qed

function same_item :: "DataItem \<Rightarrow> DataItem \<Rightarrow> bool" where
  \<comment> \<open>equal in the fields that the type of the item uses\<close>
  "same_item (MkDataItem ty b i ts) (MkDataItem ty' b' i' ts') \<longleftrightarrow> ty = ty' \<and> (ty = DataType_BYTES \<longrightarrow> b = b') \<and>
     (ty = DataType_INT \<longrightarrow> i = i') \<and> (ty = DataType_TUPLE \<longrightarrow> length ts = length ts' \<and> (\<forall>(t, t')\<in>set (zip ts ts'). same_item t t'))"
  by pat_completeness auto
termination
  by (relation "measure (\<lambda>(a, _). size a)") (auto dest!: set_zip_leftD simp: less_Suc_eq_le intro: size_list_estimation' [OF _ order_refl])

definition same_predicate :: "Predicate \<Rightarrow> Predicate \<Rightarrow> bool" where
  \<comment> \<open>a version 1 predicate is its quorum and its keys; any other is its list of fields\<close>
  "same_predicate p q \<longleftrightarrow> p_Version p = p_Version q \<and>
     (if p_Version p = 1 then Quorum p = Quorum q \<and> Pubkeys p = Pubkeys q else list_all2 same_item (OtherFields p) (OtherFields q))"

definition same_hash :: "Hash option \<Rightarrow> Hash option \<Rightarrow> bool" where
  \<comment> \<open>equal, nil counting as the zero hash\<close>
  "same_hash p q \<longleftrightarrow> p = q \<or> p \<in> {None, Some zero_Hash} \<and> q \<in> {None, Some zero_Hash}"

definition same_header :: "BlockHeader \<Rightarrow> BlockHeader \<Rightarrow> bool" where
  \<comment> \<open>equal in every field that has a meaning\<close>
  "same_header a b \<longleftrightarrow> bh_Version a = bh_Version b \<and> Height a = Height b \<and>
     TimestampMs a = TimestampMs b \<and> RefsCount a = RefsCount b \<and> bh_Runlimit a = bh_Runlimit b \<and>
     same_hash (PreviousBlockId a) (PreviousBlockId b) \<and> same_hash (TransactionsRoot a) (TransactionsRoot b) \<and>
     same_hash (ContractsRoot a) (ContractsRoot b) \<and> same_hash (NoncesRoot a) (NoncesRoot b) \<and>
     rel_option same_predicate (NextPredicate a) (NextPredicate b) \<and> list_all2 same_item (ExtraFields a) (ExtraFields b)"

lemma sint_eq_iff: "sint (x :: uint64) = sint y \<longleftrightarrow> x = y"
  using signed_word_eqI by blast

lemma same_hash_eq: "hash_or_empty p = hash_or_empty q \<longleftrightarrow> same_hash p q"
  by (cases p; cases q) (auto simp: hash_or_empty_eq same_hash_def IsZero_def)

lemma asTxvm_list_same:
  assumes "\<And>d d' t t'. d \<in> set ds \<Longrightarrow> asTxvm d = Some t \<Longrightarrow> asTxvm d' = Some t' \<Longrightarrow> t = t' \<longleftrightarrow> same_item d d'"
    and "those (map asTxvm ds) = Some ts" and "those (map asTxvm ds') = Some ts'"
  shows "ts = ts' \<longleftrightarrow> list_all2 same_item ds ds'"
  using assms
proof (induction ds arbitrary: ds' ts ts')
  case Nil
  then show ?case by (cases ds') (auto split: option.splits)
next
  case (Cons d ds)
  note same = Cons.prems(1) and IH = Cons.IH [OF same]
  show ?case
  proof (cases ds')
    case Nil
    with Cons.prems(2,3) show ?thesis by (auto split: option.splits)
  next
    case (Cons d' es)
    with Cons.prems(2,3) obtain x xs x' xs' where x: "ts = x # xs" "asTxvm d = Some x" "those (map asTxvm ds) = Some xs"
      "ts' = x' # xs'" "asTxvm d' = Some x'" "those (map asTxvm es) = Some xs'" by (auto split: option.splits)
    have "x = x' \<longleftrightarrow> same_item d d'" using x by (intro same) simp_all
    moreover have "xs = xs' \<longleftrightarrow> list_all2 same_item ds es" using x by (intro IH) simp_all
    ultimately show ?thesis using x Cons by simp
  qed
qed

lemma asTxvm_same: "asTxvm d = Some t \<Longrightarrow> asTxvm d' = Some t' \<Longrightarrow> t = t' \<longleftrightarrow> same_item d d'"
proof (induction d arbitrary: d' t t' rule: asTxvm.induct)
  case (1 ty b i ts)
  obtain ty' b' i' ts' where d': "d' = MkDataItem ty' b' i' ts'" by (cases d')
  show ?case
  proof (cases "ty = DataType_TUPLE \<and> ty' = DataType_TUPLE")
    case True
    with 1(2,3) d' obtain us us' where us: "those (map asTxvm ts) = Some us" "those (map asTxvm ts') = Some us'" "t = Tuple us" "t' = Tuple us'"
      by (auto simp: DataType_BYTES_def DataType_INT_def DataType_TUPLE_def)
    have "us = us' \<longleftrightarrow> list_all2 same_item ts ts'"
      by (rule asTxvm_list_same [OF _ us(1,2)]) (use 1(1) True in \<open>auto simp: DataType_BYTES_def DataType_INT_def DataType_TUPLE_def\<close>)
    with us(3,4) True d' show ?thesis by (simp add: list_all2_iff DataType_BYTES_def DataType_INT_def DataType_TUPLE_def)
  next
    case False
    with 1(2,3) d' show ?thesis by (auto simp: DataType_BYTES_def DataType_INT_def DataType_TUPLE_def split: if_splits)
  qed
qed

lemma predicateTuple_same:
  assumes "predicateTuple p = Some t" and "predicateTuple q = Some t'"
  shows "t = t' \<longleftrightarrow> same_predicate p q"
  using assms asTxvm_list_same [OF asTxvm_same, of "OtherFields p" _ "OtherFields q"]
  by (auto simp: predicateTuple_def same_predicate_def inj_map_eq_map inj_def split: if_splits)

lemma tupleHeader_same:
  assumes "tupleHeader a = Some t" and "tupleHeader b = Some t'"
  shows "t = t' \<longleftrightarrow> same_header a b"
  using assms predicateTuple_same asTxvm_list_same [OF asTxvm_same, of "ExtraFields a" _ "ExtraFields b"]
  by (auto simp: tupleHeader_def same_header_def same_hash_eq int64_of_def sint_eq_iff split: option.splits)

text \<open>
  C34: The block ID commits to the header. Two headers that have IDs have the same one exactly when they agree on the
  version, the height, the timestamp, the reference count, the runlimit, the previous block ID and the three roots (nil
  counting as the zero hash), the next predicate (its version, and the quorum and the keys of a version 1 predicate, the other fields
  of any other) and the extra fields (data items being compared by their type and the content that the type uses),
  unless the hash collides on the encodings of the two headers.
\<close>

theorem header_Hash_binds:
  assumes "header_ok a" and "header_ok b"
    and "tupleHeader a = Some t" and "tupleHeader b = Some t'" and "len (Encode (Tuple t)) < 2 ^ 63"
    and "inj_on (VMHash C (str ''BlockID'')) {Encode (Tuple t), Encode (Tuple t')}"
    and "\<And>x. length (VMHash C (str ''BlockID'') x) = 32"
  shows "header_Hash C a = header_Hash C b \<longleftrightarrow> same_header a b"
proof -
  have "header_Hash C a = header_Hash C b \<longleftrightarrow>
    VMHash C (str ''BlockID'') (Encode (Tuple t)) = VMHash C (str ''BlockID'') (Encode (Tuple t'))"
    using assms(3,4,7) by (simp add: header_Hash_def NewHash_inject)
  also have "\<dots> \<longleftrightarrow> Encode (Tuple t) = Encode (Tuple t')"
    by (rule inj_on_eq_iff [OF assms(6)]) simp_all
  also have "\<dots> \<longleftrightarrow> t = t'"
    using tupleHeader_ok [OF assms(1,3)] tupleHeader_ok [OF assms(2,4)] assms(5)
      Encode_inj [of "Tuple t" "Tuple t'"] by auto
  finally show ?thesis using tupleHeader_same [OF assms(3,4)] by simp
qed

definition sample_header :: BlockHeader where
  "sample_header = \<lparr>bh_Version = 3, Height = 1, PreviousBlockId = None, TimestampMs = 7,
     bh_Runlimit = 0, RefsCount = 0, TransactionsRoot = None, ContractsRoot = None,
     NoncesRoot = None,
     NextPredicate = Some \<lparr>p_Version = 1, Quorum = 0, Pubkeys = [], OtherFields = []\<rparr>,
     ExtraFields = []\<rparr>"

lemma length_VMHash_sample [simp]: "length (VMHash sample_crypto f x) = 32"
  by (simp add: VMHash_def sample_crypto_def)

theorem header_Hash_binds_witness:
  "header_Hash sample_crypto sample_header \<noteq>
   header_Hash sample_crypto (sample_header\<lparr>ExtraFields := [MkDataItem 1 [] 5 []]\<rparr>)"
proof -
  let ?b = "sample_header\<lparr>ExtraFields := [MkDataItem 1 [] 5 []]\<rparr>"
  obtain t t' where t: "tupleHeader sample_header = Some t" "tupleHeader ?b = Some t'"
    by (simp add: tupleHeader_def sample_header_def predicateTuple_def
        DataType_BYTES_def DataType_INT_def)
  have "map_option (\<lambda>t. VMHash sample_crypto (str ''BlockID'') (Encode (Tuple t))) (tupleHeader sample_header) \<noteq>
    map_option (\<lambda>t. VMHash sample_crypto (str ''BlockID'') (Encode (Tuple t))) (tupleHeader ?b) \<and>
    map_option (\<lambda>t. len (Encode (Tuple t)) < 2 ^ 63) (tupleHeader sample_header) = Some True"
    by code_simp
  with t have "inj_on (VMHash sample_crypto (str ''BlockID'')) {Encode (Tuple t), Encode (Tuple t')}"
    "len (Encode (Tuple t)) < 2 ^ 63" by (auto intro: inj_on_pair)
  moreover have "header_ok sample_header" "header_ok ?b"
    by (simp_all add: header_ok_def sample_header_def in_range_def)
  moreover have "\<not> same_header sample_header ?b" by (simp add: same_header_def sample_header_def)
  ultimately show ?thesis
    using header_Hash_binds [of sample_header ?b t t' sample_crypto] t by simp
qed

section \<open>Round trip\<close>

lemma lefts_map_Inr [simp]: "lefts (map Inr xs) = []"
  and rights_map_Inr [simp]: "rights (map Inr xs) = xs"
  by (induction xs) (simp_all add: lefts_def rights_def List.map_filter_simps)

lemma arg_of_item_of_arg: "a \<noteq> ArgOther \<Longrightarrow> concat (map arg_of_item (item_of_arg a)) = [a]"
  by (cases a) (auto simp: arg_of_item_def DataType_BYTES_def DataType_INT_def DataType_TUPLE_def)

lemma args_roundtrip:
  "ArgOther \<notin> set as \<Longrightarrow> concat (map arg_of_item (concat (map item_of_arg as))) = as"
  by (induction as) (auto simp: arg_of_item_of_arg)

lemma those_map_Some: "(\<And>x. x \<in> set xs \<Longrightarrow> f x = Some (g x)) \<Longrightarrow> those (map f xs) = Some (map g xs)"
  by (induction xs) auto

definition from_program :: "crypto \<Rightarrow> tx \<Rightarrow> bool" where
  \<comment> \<open>the transaction is what \<^verbatim>\<open>NewTx\<close> makes of its own program\<close>
  "from_program C t \<longleftrightarrow>
     NewTx C () (WitnessProg t) (tx_Version t) (tx_Runlimit t) [] = Some (t, None) \<and> tx_Finalized t"

text \<open>
  C39: A block survives its binary and its text form. If the protobuf codec gives back the message
  it wrote, the arguments have the types that \<^verbatim>\<open>Bytes\<close> writes, and every transaction is what
  \<^verbatim>\<open>NewTx\<close> computes from its program, then parsing the bytes or the hexadecimal text into an
  empty block yields the block: header, arguments, and all transactions with their parsed entries.
\<close>

theorem Block_roundtrip:
  assumes "marshal_block P (raw_block b) = Inr bits" and "unmarshal_block P bits = Inr (raw_block b)"
    and "ArgOther \<notin> set (Arguments b)" and "list_all (from_program C) (Transactions b)"
    and "Arguments b0 = []"
  shows "Block_Bytes P b = Inr bits \<and> Block_FromBytes C P bits b0 = Some (None, b) \<and>
    (\<exists>text. Block_MarshalText P b = Inr text \<and> Block_UnmarshalText C P text b0 = Some (None, b))"
proof -
  have "those (map (parse_tx C) (map raw_of_tx (Transactions b))) = Some (map Inr (Transactions b))"
    using assms(4) unfolding map_map
    by (intro those_map_Some) (simp add: parse_tx_def raw_of_tx_def from_program_def list_all_iff)
  then have "Block_FromBytes C P bits b0 = Some (None, b)"
    using assms by (simp add: Block_FromBytes_def raw_block_def args_roundtrip)
  with assms(1) show ?thesis
    by (simp add: Block_Bytes_def Block_MarshalText_def Block_UnmarshalText_def)
qed

definition sample_tx :: tx where
  "sample_tx = (case NewTx sample_crypto () sample_prog 3 1000 [] of
     Some (t, _) \<Rightarrow> t | None \<Rightarrow> empty_tx [] 0 0 ())"

lemma sample_tx_ok: "from_program sample_crypto sample_tx"
  by code_simp

definition sample_block :: "unit block" where
  "sample_block = \<lparr>header = Some sample_header, Transactions = [sample_tx], Arguments = [ArgBytes [1]]\<rparr>"

definition sample_codec :: "unit codec" where
  \<comment> \<open>a codec that knows one message\<close>
  "sample_codec = \<lparr>marshal_block = (\<lambda>m. if m = raw_block sample_block then Inr [7] else Inl ()),
     unmarshal_block = (\<lambda>b. if b = [7] then Inr (raw_block sample_block) else Inl ()),
     marshal_header = (\<lambda>_. Inl ()), unmarshal_header = (\<lambda>_. Inl ())\<rparr>"

theorem Block_roundtrip_witness:
  "Block_FromBytes sample_crypto sample_codec [7] \<lparr>header = None, Transactions = [], Arguments = []\<rparr> =
   Some (None, sample_block)"
  using Block_roundtrip [of sample_codec sample_block "[7]" sample_crypto
      "\<lparr>header = None, Transactions = [], Arguments = []\<rparr>"] sample_tx_ok
  by (simp add: sample_codec_def) (simp add: sample_block_def)

end
