(* ===== verification/State.thy ===== *)
theory State
  imports PatriciaSet BCBlock
begin

text \<open>
  The blockchain state (\<^verbatim>\<open>protocol/state\<close>): a snapshot holds the Patricia tree of unspent contract
  IDs, the Patricia tree of unexpired nonces, the latest header, the ID of the initial block and the
  IDs of the blocks applied. Operations that update a snapshot in place are state-and-panic
  computations: an error keeps the changes made before it.
\<close>

section \<open>Snapshots\<close>

record snapshot =
  ContractsTree :: tree
  NonceTree :: tree
  Header :: "BlockHeader option"
  InitialBlockID :: Hash
  RefIDs :: "Hash list"

datatype state_error =
    Panicked
  | BadHeightEmpty \<comment> \<open>cannot apply block with height h to an empty state\<close>
  | BadHeightInitialized \<comment> \<open>cannot apply block with height = 1 to an initialized state\<close>
  | TxOnEmpty \<comment> \<open>cannot apply a transaction to an empty state\<close>
  | ConflictingNonce
  | BadNonceBlock
  | InvalidPrevout
  | InsertFailed insert_error

type_synonym 'a sact = "(snapshot, state_error, 'a) sm"

definition Empty :: snapshot where
  "Empty = \<lparr>ContractsTree = None, NonceTree = None, Header = None, InitialBlockID = zero_Hash, RefIDs = []\<rparr>"

definition Copy :: "snapshot \<Rightarrow> snapshot" where
  "Copy original = \<lparr>ContractsTree = ContractsTree original, NonceTree = NonceTree original,
     Header = Header original, InitialBlockID = InitialBlockID original,
     RefIDs = [] @ RefIDs original\<rparr>"

definition NonceCommitment :: "Hash \<Rightarrow> uint64 \<Rightarrow> bytes" where
  "NonceCommitment id' expms = Hash_Bytes id' @ PutUint64_le expms"

definition idTime :: "bytes \<Rightarrow> (Hash \<times> uint64) option" where
  \<comment> \<open>\<open>None\<close>: slice bounds out of range\<close>
  "idTime b = (if length b < 40 then None
     else Some (HashFromBytes (take 32 b), Uint64_le (drop 32 b)))"

definition prune_visitor :: "uint64 \<Rightarrow> tree \<Rightarrow> bytes \<Rightarrow> unit option \<times> tree" where
  \<comment> \<open>the function that \<^verbatim>\<open>PruneNonces\<close> passes to \<^verbatim>\<open>Walk\<close>; it returns no errors, so \<open>Some ()\<close> stands
     for a panic\<close>
  "prune_visitor timestampMS newTree item =
     (case idTime item of None \<Rightarrow> (Some (), newTree)
      | Some (_, t) \<Rightarrow>
          if timestampMS > t then
            (case Delete newTree item of None \<Rightarrow> (Some (), newTree) | Some t' \<Rightarrow> (None, t'))
          else (None, newTree))"

definition PruneNonces :: "uint64 \<Rightarrow> unit sact" where
  "PruneNonces timestampMS = bind (gets NonceTree) (\<lambda>t.
     case Walk t (prune_visitor timestampMS) t of
       (Some _, _) \<Rightarrow> panic Panicked
     | (None, newTree) \<Rightarrow> modify (\<lambda>s. s\<lparr>NonceTree := newTree\<rparr>))"

definition ApplyBlockHeader :: "('z) crypto_scheme \<Rightarrow> BlockHeader \<Rightarrow> unit sact" where
  "ApplyBlockHeader C bh =
     (case header_Hash C bh of None \<Rightarrow> panic Panicked
      | Some bHash \<Rightarrow> bind (gets InitialBlockID) (\<lambda>initial.
          andthen
           (if IsZero (Some initial) then
              andthen (guard (Height bh = 1) BadHeightEmpty)
                (modify (\<lambda>s. s\<lparr>InitialBlockID := bHash\<rparr>))
            else guard (Height bh \<noteq> 1) BadHeightInitialized)
           (modify (\<lambda>s. s\<lparr>Header := Some bh, RefIDs := RefIDs s @ [bHash]\<rparr>))))"

fun apply_nonces :: "('z) crypto_scheme \<Rightarrow> snapshot \<Rightarrow> Nonce list \<Rightarrow> tree \<Rightarrow> state_error + tree" where
  "apply_nonces C s [] nonceTree = Inr nonceTree"
| "apply_nonces C s (n # ns) nonceTree =
     (let nc = NonceCommitment (n_ID n) (ExpMS n) in
      case Contains nonceTree nc of None \<Rightarrow> Inl Panicked
      | Some True \<Rightarrow> Inl ConflictingNonce
      | Some False \<Rightarrow>
          if \<not> (IsZero (Some (n_BlockID n)) \<or> n_BlockID n = InitialBlockID s) \<and>
             \<not> list_ex (\<lambda>i. i = n_BlockID n) (RefIDs s)
          then Inl BadNonceBlock
          else case Insert C nonceTree nc of None \<Rightarrow> Inl Panicked
            | Some (_, t) \<Rightarrow> apply_nonces C s ns t)"

fun apply_contracts :: "('z) crypto_scheme \<Rightarrow> tx_contract list \<Rightarrow> tree \<Rightarrow> state_error + tree" where
  "apply_contracts C [] conTree = Inr conTree"
| "apply_contracts C (con # cons) conTree =
     (if c_Type con = InputType then
        (case Contains conTree (Hash_Bytes (c_ID con)) of None \<Rightarrow> Inl Panicked
         | Some False \<Rightarrow> Inl InvalidPrevout
         | Some True \<Rightarrow>
             (case Delete conTree (Hash_Bytes (c_ID con)) of None \<Rightarrow> Inl Panicked
              | Some t \<Rightarrow> apply_contracts C cons t))
      else if c_Type con = OutputType then
        (case Insert C conTree (Hash_Bytes (c_ID con)) of None \<Rightarrow> Inl Panicked
         | Some (Some e, _) \<Rightarrow> Inl (InsertFailed e)
         | Some (None, t) \<Rightarrow> apply_contracts C cons t)
      else apply_contracts C cons conTree)"

definition ApplyTx :: "('z) crypto_scheme \<Rightarrow> 'w tx_scheme \<Rightarrow> unit sact" where
  "ApplyTx C tx = bind (gets (\<lambda>s. s)) (\<lambda>s.
     andthen (guard (\<not> IsZero (Some (InitialBlockID s))) TxOnEmpty)
     (case apply_nonces C s (Nonces tx) (NonceTree s) of Inl e \<Rightarrow> panic e
      | Inr nonceTree \<Rightarrow>
         (case apply_contracts C (Contracts tx) (ContractsTree s) of Inl e \<Rightarrow> panic e
          | Inr conTree \<Rightarrow> modify (\<lambda>s. s\<lparr>NonceTree := nonceTree, ContractsTree := conTree\<rparr>))))"

definition ApplyBlock :: "('z) crypto_scheme \<Rightarrow> 'w block \<Rightarrow> unit sact" where
  "ApplyBlock C block =
     (case header block of None \<Rightarrow> panic Panicked
      | Some bh \<Rightarrow>
          andthen (PruneNonces (TimestampMs bh))
         (andthen (ApplyBlockHeader C bh)
         (each (ApplyTx C) (Transactions block))))"

definition snapshot_Height :: "snapshot option \<Rightarrow> uint64" where
  "snapshot_Height s = (case s of None \<Rightarrow> 0
     | Some s' \<Rightarrow> (case Header s' of None \<Rightarrow> 0 | Some bh \<Rightarrow> Height bh))"

definition snapshot_TimestampMS :: "snapshot option \<Rightarrow> uint64" where
  "snapshot_TimestampMS s = (case s of None \<Rightarrow> 0
     | Some s' \<Rightarrow> (case Header s' of None \<Rightarrow> 0 | Some bh \<Rightarrow> TimestampMs bh))"

section \<open>Serialization\<close>

record RawSnapshot = \<comment> \<open>the protobuf message\<close>
  rs_Header :: "BlockHeader option"
  ContractNodes :: "bytes list"
  NonceNodes :: "bytes list"
  InitialBlockId :: "Hash option"
  RefIds :: "Hash list"

definition treeToBytes :: "tree \<Rightarrow> bytes list" where
  "treeToBytes t = snd (Walk t (\<lambda>nodes item. (None :: unit option, nodes @ [item])) [])"

definition treeFromBytes :: "('z) crypto_scheme \<Rightarrow> bytes list \<Rightarrow> (insert_error + tree) option" where
  "treeFromBytes C keys = insert_all (Insert C) keys None"

definition raw_snapshot :: "snapshot \<Rightarrow> RawSnapshot" where
  "raw_snapshot s = \<lparr>rs_Header = Header s, ContractNodes = treeToBytes (ContractsTree s),
     NonceNodes = treeToBytes (NonceTree s),
     InitialBlockId = (if IsZero (Some (InitialBlockID s)) then None else Some (InitialBlockID s)),
     RefIds = []\<rparr>"

definition Snapshot_Bytes :: "(RawSnapshot \<Rightarrow> 'e + bytes) \<Rightarrow> snapshot \<Rightarrow> 'e + bytes" where
  \<comment> \<open>the first argument is \<^verbatim>\<open>proto.Marshal\<close>\<close>
  "Snapshot_Bytes marshal s = marshal (raw_snapshot s)"

datatype 'e snapshot_error = Unmarshal 'e | ContractsErr insert_error | NoncesErr insert_error | TreePanic

definition Snapshot_FromBytes ::
  "('z) crypto_scheme \<Rightarrow> (bytes \<Rightarrow> 'e + RawSnapshot) \<Rightarrow> bytes \<Rightarrow> snapshot \<Rightarrow> 'e snapshot_error + snapshot" where
  \<comment> \<open>the second argument is \<^verbatim>\<open>proto.Unmarshal\<close>; after an error the receiver is of no use (a tree
     pointer is nil) and not part of the result\<close>
  "Snapshot_FromBytes C unmarshal b s =
     (case unmarshal b of Inl e \<Rightarrow> Inl (Unmarshal e)
      | Inr rs \<Rightarrow>
         (case treeFromBytes C (ContractNodes rs) of None \<Rightarrow> Inl TreePanic
          | Some (Inl e) \<Rightarrow> Inl (ContractsErr e)
          | Some (Inr ct) \<Rightarrow>
             (case treeFromBytes C (NonceNodes rs) of None \<Rightarrow> Inl TreePanic
              | Some (Inl e) \<Rightarrow> Inl (NoncesErr e)
              | Some (Inr nt) \<Rightarrow>
                  Inr (s\<lparr>ContractsTree := ct, NonceTree := nt,
                    Header := (case rs_Header rs of None \<Rightarrow> Header s | Some bh \<Rightarrow> Some bh),
                    InitialBlockID := (case InitialBlockId rs of None \<Rightarrow> InitialBlockID s | Some i \<Rightarrow> i),
                    RefIDs := RefIDs s @ RefIds rs\<rparr>))))"

section \<open>The abstract state\<close>

text \<open>
  What a snapshot stands for: the set of unspent contracts, the set of nonces with their
  expirations, and the header and block IDs. The trees hold the contract IDs as 32-byte keys and
  the nonces as 40-byte keys.
\<close>

record ledger_state =
  utxos :: "Hash set"
  nonces :: "(Hash \<times> uint64) set"
  latest :: "BlockHeader option"
  initial :: Hash
  refs :: "Hash list"

definition snap_ok :: "('z) crypto_scheme \<Rightarrow> snapshot \<Rightarrow> bool" where
  "snap_ok C s \<longleftrightarrow> sized C 32 (ContractsTree s) \<and> sized C 40 (NonceTree s)"

definition utxos_of :: "tree \<Rightarrow> Hash set" where
  "utxos_of t = {h. Hash_Bytes h \<in> items t}"

definition nonces_of :: "tree \<Rightarrow> (Hash \<times> uint64) set" where
  "nonces_of t = {(i, e). NonceCommitment i e \<in> items t}"

definition abs_state :: "snapshot \<Rightarrow> ledger_state" where
  "abs_state s = \<lparr>utxos = utxos_of (ContractsTree s), nonces = nonces_of (NonceTree s),
     latest = Header s, initial = InitialBlockID s, refs = RefIDs s\<rparr>"

fun spec_nonces :: "Hash \<Rightarrow> Hash list \<Rightarrow> Nonce list \<Rightarrow> (Hash \<times> uint64) set \<Rightarrow> state_error + (Hash \<times> uint64) set" where
  "spec_nonces ini rs [] N = Inr N"
| "spec_nonces ini rs (n # ns) N =
     (if (n_ID n, ExpMS n) \<in> N then Inl ConflictingNonce
      else if n_BlockID n \<notin> {zero_Hash, ini} \<union> set rs then Inl BadNonceBlock
      else spec_nonces ini rs ns (insert (n_ID n, ExpMS n) N))"

fun spec_contracts :: "tx_contract list \<Rightarrow> Hash set \<Rightarrow> state_error + Hash set" where
  "spec_contracts [] U = Inr U"
| "spec_contracts (con # cons) U =
     (if c_Type con = InputType then
        (if c_ID con \<in> U then spec_contracts cons (U - {c_ID con}) else Inl InvalidPrevout)
      else if c_Type con = OutputType then spec_contracts cons (insert (c_ID con) U)
      else spec_contracts cons U)"

definition spec_ApplyTx :: "'w tx_scheme \<Rightarrow> ledger_state \<Rightarrow> state_error + ledger_state" where
  "spec_ApplyTx t a =
     (if initial a = zero_Hash then Inl TxOnEmpty
      else case spec_nonces (initial a) (refs a) (Nonces t) (nonces a) of Inl e \<Rightarrow> Inl e
        | Inr N \<Rightarrow> (case spec_contracts (Contracts t) (utxos a) of Inl e \<Rightarrow> Inl e
          | Inr U \<Rightarrow> Inr (a\<lparr>nonces := N, utxos := U\<rparr>)))"

definition spec_header :: "('z) crypto_scheme \<Rightarrow> BlockHeader \<Rightarrow> ledger_state \<Rightarrow> state_error + ledger_state" where
  "spec_header C bh a =
     (case header_Hash C bh of None \<Rightarrow> Inl Panicked
      | Some i \<Rightarrow>
          if initial a = zero_Hash \<and> Height bh \<noteq> 1 then Inl BadHeightEmpty
          else if initial a \<noteq> zero_Hash \<and> Height bh = 1 then Inl BadHeightInitialized
          else Inr (a\<lparr>initial := if initial a = zero_Hash then i else initial a,
                      latest := Some bh, refs := refs a @ [i]\<rparr>))"

fun spec_txs :: "'w tx_scheme list \<Rightarrow> ledger_state \<Rightarrow> state_error + ledger_state" where
  "spec_txs [] a = Inr a"
| "spec_txs (t # ts) a = (case spec_ApplyTx t a of Inl e \<Rightarrow> Inl e | Inr a' \<Rightarrow> spec_txs ts a')"

definition spec_prune :: "uint64 \<Rightarrow> ledger_state \<Rightarrow> ledger_state" where
  "spec_prune now a = a\<lparr>nonces := {(i, e) \<in> nonces a. now \<le> e}\<rparr>"

definition spec_ApplyBlock :: "('z) crypto_scheme \<Rightarrow> 'w block \<Rightarrow> ledger_state \<Rightarrow> state_error + ledger_state" where
  "spec_ApplyBlock C b a =
     (case header b of None \<Rightarrow> Inl Panicked
      | Some bh \<Rightarrow> (case spec_header C bh (spec_prune (TimestampMs bh) a) of Inl e \<Rightarrow> Inl e
          | Inr a' \<Rightarrow> spec_txs (Transactions b) a'))"

section \<open>Refinement\<close>

lemma length_NonceCommitment [simp]: "length (NonceCommitment i e) = 40"
  by (simp add: NonceCommitment_def)

lemma NonceCommitment_inject [simp]: "NonceCommitment i e = NonceCommitment i' e' \<longleftrightarrow> i = i' \<and> e = e'"
proof -
  have "PutUint64_le e = PutUint64_le e' \<longleftrightarrow> e = e'"
    by (metis Uint64_le_PutUint64_le append_Nil2)
  then show ?thesis by (auto simp: NonceCommitment_def)
qed

lemma idTime_NonceCommitment: "idTime (NonceCommitment i e) = Some (i, e)"
  using Uint64_le_PutUint64_le [of e "[]"] by (simp add: idTime_def NonceCommitment_def)

lemma NonceCommitment_surj: "length k = 40 \<Longrightarrow> \<exists>i e. k = NonceCommitment i e"
proof -
  assume k: "length k = 40"
  then have "k = NonceCommitment (HashFromBytes (take 32 k)) (Uint64_le (drop 32 k))"
    by (simp add: NonceCommitment_def Hash_Bytes_HashFromBytes PutUint64_le_Uint64_le)
  then show ?thesis by blast
qed

lemma IsZero_Some [simp]: "IsZero (Some h) \<longleftrightarrow> h = zero_Hash"
  by (simp add: IsZero_def)

lemma apply_nonces_refines:
  "sized C 40 t \<Longrightarrow>
   (case apply_nonces C s ns t of
      Inl e \<Rightarrow> spec_nonces (InitialBlockID s) (RefIDs s) ns (nonces_of t) = Inl e
    | Inr t' \<Rightarrow> sized C 40 t' \<and>
        spec_nonces (InitialBlockID s) (RefIDs s) ns (nonces_of t) = Inr (nonces_of t'))"
proof (induction ns arbitrary: t)
  case (Cons n ns)
  let ?nc = "NonceCommitment (n_ID n) (ExpMS n)"
  have c: "Contains t ?nc = Some ((n_ID n, ExpMS n) \<in> nonces_of t)"
    using trees.contains_key [OF Cons.prems] by (simp add: nonces_of_def)
  obtain t1 where t1: "Insert C t ?nc = Some (None, t1)" "sized C 40 t1" "items t1 = insert ?nc (items t)"
    using trees.ins_key [OF Cons.prems, of ?nc] by auto
  then have "nonces_of t1 = insert (n_ID n, ExpMS n) (nonces_of t)" by (auto simp: nonces_of_def)
  with Cons.IH [OF t1(2)] c t1(1) show ?case
    by (auto simp: Let_def list_ex_iff split: bool.splits sum.splits)
qed simp

lemma apply_contracts_refines:
  "sized C 32 t \<Longrightarrow>
   (case apply_contracts C cs t of
      Inl e \<Rightarrow> spec_contracts cs (utxos_of t) = Inl e
    | Inr t' \<Rightarrow> sized C 32 t' \<and> spec_contracts cs (utxos_of t) = Inr (utxos_of t'))"
proof (induction cs arbitrary: t)
  case (Cons con cs)
  let ?k = "Hash_Bytes (c_ID con)"
  have c: "Contains t ?k = Some (c_ID con \<in> utxos_of t)"
    using trees.contains_key [OF Cons.prems] by (simp add: utxos_of_def)
  obtain t1 where t1: "Insert C t ?k = Some (None, t1)" "sized C 32 t1" "items t1 = insert ?k (items t)"
    using trees.ins_key [OF Cons.prems, of ?k] by auto
  obtain t2 where t2: "Delete t ?k = Some t2" "sized C 32 t2" "items t2 = items t - {?k}"
    using trees.del_key [OF Cons.prems, of ?k] by auto
  have "utxos_of t1 = insert (c_ID con) (utxos_of t)" "utxos_of t2 = utxos_of t - {c_ID con}"
    using t1(3) t2(3) by (auto simp: utxos_of_def)
  with Cons.IH [OF t1(2)] Cons.IH [OF t2(2)] Cons.IH [OF Cons.prems] c t1(1) t2(1) show ?case
    by (auto split: bool.splits sum.splits)
qed simp

lemma ApplyTx_spec:
  assumes "snap_ok C s"
  shows "case ApplyTx C t s of
      (Inl e, s') \<Rightarrow> s' = s \<and> spec_ApplyTx t (abs_state s) = Inl e
    | (Inr _, s') \<Rightarrow> snap_ok C s' \<and> spec_ApplyTx t (abs_state s) = Inr (abs_state s')"
  using assms apply_nonces_refines [of C "NonceTree s" s "Nonces t"]
    apply_contracts_refines [of C "ContractsTree s" "Contracts t"]
  by (auto simp: ApplyTx_def spec_ApplyTx_def sm_simps snap_ok_def abs_state_def split: sum.splits)

lemma prune_visit:
  "sized C 40 t \<Longrightarrow> (\<And>k. k \<in> set ks \<Longrightarrow> length k = 40) \<Longrightarrow>
   \<exists>t'. visit (prune_visitor now) ks t = (None, t') \<and> sized C 40 t' \<and>
     items t' = items t - {k \<in> set ks. \<exists>i e. k = NonceCommitment i e \<and> e < now}"
proof (induction ks arbitrary: t)
  case (Cons k ks)
  obtain i e where k: "k = NonceCommitment i e" using NonceCommitment_surj [of k] Cons.prems(2) [of k] by auto
  obtain t1 where t1: "Delete t k = Some t1" "sized C 40 t1" "items t1 = items t - {k}"
    using trees.del_key [OF Cons.prems(1), of k] k by auto
  let ?t = "if e < now then t1 else t"
  have "prune_visitor now t k = (None, ?t)"
    by (simp add: prune_visitor_def k idTime_NonceCommitment t1(1) [unfolded k])
  moreover have "sized C 40 ?t" using t1(2) Cons.prems(1) by simp
  then obtain t' where "visit (prune_visitor now) ks ?t = (None, t')" "sized C 40 t'"
     "items t' = items ?t - {k \<in> set ks. \<exists>i e. k = NonceCommitment i e \<and> e < now}"
    using Cons.IH Cons.prems(2) by (meson list.set_intros(2))
  ultimately show ?case using t1(3) k by auto
qed simp

lemma PruneNonces_refines:
  assumes "snap_ok C s"
  shows "\<exists>s'. PruneNonces now s = (Inr (), s') \<and> snap_ok C s' \<and>
    abs_state s' = spec_prune now (abs_state s)"
proof -
  let ?t = "NonceTree s"
  have "\<And>k. k \<in> set (tree_list ?t) \<Longrightarrow> length k = 40"
    using assms by (auto simp: snap_ok_def sized_def set_tree_list)
  then obtain t' where t': "visit (prune_visitor now) (tree_list ?t) ?t = (None, t')" "sized C 40 t'"
    "items t' = items ?t - {k \<in> items ?t. \<exists>i e. k = NonceCommitment i e \<and> e < now}"
    using prune_visit [of C ?t "tree_list ?t" now] assms by (auto simp: snap_ok_def set_tree_list)
  then have "nonces_of t' = {(i, e) \<in> nonces_of ?t. now \<le> e}"
    by (auto simp: nonces_of_def not_less)
  with t' assms show ?thesis
    by (auto simp: PruneNonces_def sm_simps Walk_visit snap_ok_def abs_state_def spec_prune_def)
qed

lemma ApplyBlockHeader_refines:
  assumes "snap_ok C s"
  shows "case ApplyBlockHeader C bh s of
      (Inl e, s') \<Rightarrow> s' = s \<and> spec_header C bh (abs_state s) = Inl e
    | (Inr _, s') \<Rightarrow> snap_ok C s' \<and> spec_header C bh (abs_state s) = Inr (abs_state s')"
  using assms
  by (auto simp: ApplyBlockHeader_def spec_header_def sm_simps snap_ok_def abs_state_def
      split: option.splits)

lemma ApplyTxs_refine:
  "snap_ok C s \<Longrightarrow>
   case each (ApplyTx C) ts s of
      (Inl e, s') \<Rightarrow> spec_txs ts (abs_state s) = Inl e
    | (Inr _, s') \<Rightarrow> snap_ok C s' \<and> spec_txs ts (abs_state s) = Inr (abs_state s')"
proof (induction ts arbitrary: s)
  case (Cons t ts)
  obtain r s1 where r: "ApplyTx C t s = (r, s1)" by (cases "ApplyTx C t s")
  with ApplyTx_spec [OF Cons.prems, of t] Cons.IH [of s1] show ?case
    by (cases r) (auto simp: sm_simps split: sum.splits)
qed (simp add: sm_simps)

lemma ApplyBlock_spec:
  assumes "snap_ok C s"
  shows "case ApplyBlock C b s of
      (Inl e, s') \<Rightarrow> spec_ApplyBlock C b (abs_state s) = Inl e
    | (Inr _, s') \<Rightarrow> snap_ok C s' \<and> spec_ApplyBlock C b (abs_state s) = Inr (abs_state s')"
proof (cases "header b")
  case (Some bh)
  obtain s1 where s1: "PruneNonces (TimestampMs bh) s = (Inr (), s1)" "snap_ok C s1"
    "abs_state s1 = spec_prune (TimestampMs bh) (abs_state s)"
    using PruneNonces_refines [OF assms] by blast
  obtain r s2 where s2: "ApplyBlockHeader C bh s1 = (r, s2)" by (cases "ApplyBlockHeader C bh s1")
  with ApplyBlockHeader_refines [OF s1(2), of bh] ApplyTxs_refine [of C s2 "Transactions b"] s1 Some
  show ?thesis
    by (cases r) (auto simp: ApplyBlock_def spec_ApplyBlock_def sm_simps split: sum.splits)
qed (simp add: ApplyBlock_def spec_ApplyBlock_def sm_simps)

text \<open>
  C21: Applying a transaction refines rules on sets: a nonce must be new and refer to a known block, an input must be unspent, an output
  becomes unspent, in the order of the transaction. (Like the code, these rules do not look at the time ranges of a transaction, for which
  \<^verbatim>\<open>specifications/blockchain.md\<close> has another rule.) On a well-formed snapshot \<^verbatim>\<open>ApplyTx\<close> rejects a transaction exactly when, and with the error that, the abstract rules
  reject it (a nonce already present, a nonce with an unknown block, an input that is not unspent),
  leaving the snapshot untouched; otherwise the new snapshot is well formed and stands for the
  abstract successor. It never panics, and never fails for want of room in a tree.
\<close>

theorem ApplyTx_refines:
  assumes "snap_ok C s"
  shows "case ApplyTx C t s of
      (Inl e, s') \<Rightarrow> s' = s \<and> spec_ApplyTx t (abs_state s) = Inl e
    | (Inr _, s') \<Rightarrow> snap_ok C s' \<and> spec_ApplyTx t (abs_state s) = Inr (abs_state s')"
  using assms by (rule ApplyTx_spec)

text \<open>
  C22: Applying a block refines the abstract rules: prune the expired nonces, record the header,
  then apply the transactions in order. The block is rejected exactly when the rules reject it
  and with the same error; after success the snapshot is well formed and stands for the abstract
  successor state.
\<close>

theorem ApplyBlock_refines:
  assumes "snap_ok C s"
  shows "case ApplyBlock C b s of
      (Inl e, s') \<Rightarrow> spec_ApplyBlock C b (abs_state s) = Inl e
    | (Inr _, s') \<Rightarrow> snap_ok C s' \<and> spec_ApplyBlock C b (abs_state s) = Inr (abs_state s')"
  using assms by (rule ApplyBlock_spec)

section \<open>Examples\<close>

definition sample_snapshot :: snapshot where
  "sample_snapshot = Empty\<lparr>InitialBlockID := NewHash (replicate 32 9), RefIDs := [NewHash (replicate 32 8)]\<rparr>"

lemma sample_snapshot_ok: "snap_ok C sample_snapshot"
  by (simp add: snap_ok_def sample_snapshot_def Empty_def)

definition io_tx :: "tx_contract list \<Rightarrow> tx" where
  \<comment> \<open>a transaction with the given inputs and outputs\<close>
  "io_tx cs = (empty_tx [] 3 0 ())\<lparr>Contracts := cs,
     Nonces := [\<lparr>n_ID = NewHash (replicate 32 (of_nat (length cs))), n_BlockID = zero_Hash, ExpMS = 9\<rparr>]\<rparr>"

abbreviation sample_out :: tx_contract where
  "sample_out \<equiv> \<lparr>c_Type = OutputType, c_ID = NewHash (replicate 32 1)\<rparr>"
abbreviation sample_in :: tx_contract where
  "sample_in \<equiv> \<lparr>c_Type = InputType, c_ID = NewHash (replicate 32 1)\<rparr>"

lemma sample_txs_ok:
  "fst (each (ApplyTx sample_crypto) [io_tx [sample_out], io_tx [sample_in, sample_out]] sample_snapshot) = Inr ()"
  by code_simp

lemma sample_double_spend:
  "fst (ApplyTx sample_crypto (io_tx [sample_in]) sample_snapshot) = Inl InvalidPrevout"
  by code_simp

theorem ApplyTx_refines_witness:
  "spec_ApplyTx (io_tx [sample_in]) (abs_state sample_snapshot) = Inl InvalidPrevout"
  using ApplyTx_refines [OF sample_snapshot_ok, of "io_tx [sample_in]" sample_crypto] sample_double_spend
  by (auto split: prod.splits sum.splits)

theorem ApplyBlock_refines_witness:
  "snap_ok sample_crypto Empty \<and>
   (\<exists>s'. ApplyBlock sample_crypto \<lparr>header = Some sample_header, Transactions = [sample_tx], Arguments = []\<rparr> Empty =
      (Inr (), s') \<and> snap_ok sample_crypto s' \<and>
    spec_ApplyBlock sample_crypto \<lparr>header = Some sample_header, Transactions = [sample_tx], Arguments = []\<rparr>
      (abs_state Empty) = Inr (abs_state s'))"
proof -
  let ?b = "\<lparr>header = Some sample_header, Transactions = [sample_tx], Arguments = []\<rparr>"
  have ok: "snap_ok sample_crypto Empty" by (simp add: snap_ok_def Empty_def)
  have "fst (ApplyBlock sample_crypto ?b Empty) = Inr ()" by code_simp
  with ApplyBlock_refines [OF ok, of ?b] ok show ?thesis by (auto split: prod.splits sum.splits)
qed

section \<open>Double spending and replay\<close>

lemma spec_ApplyTx_Inr:
  "spec_ApplyTx t a = Inr a' \<Longrightarrow>
   spec_contracts (Contracts t) (utxos a) = Inr (utxos a') \<and>
   spec_nonces (initial a) (refs a) (Nonces t) (nonces a) = Inr (nonces a') \<and>
   initial a' = initial a \<and> refs a' = refs a \<and> latest a' = latest a"
  by (auto simp: spec_ApplyTx_def split: if_splits sum.splits)

lemma spec_contracts_append:
  "spec_contracts (xs @ ys) U = (case spec_contracts xs U of Inl e \<Rightarrow> Inl e | Inr V \<Rightarrow> spec_contracts ys V)"
  by (induction xs arbitrary: U) auto

lemma spec_nonces_append:
  "spec_nonces i r (xs @ ys) N = (case spec_nonces i r xs N of Inl e \<Rightarrow> Inl e | Inr M \<Rightarrow> spec_nonces i r ys M)"
  by (induction xs arbitrary: N) auto

lemma spec_txs_flat:
  "spec_txs ts a = Inr a' \<Longrightarrow>
   spec_contracts (concat (map Contracts ts)) (utxos a) = Inr (utxos a') \<and>
   spec_nonces (initial a) (refs a) (concat (map Nonces ts)) (nonces a) = Inr (nonces a') \<and>
   initial a' = initial a \<and> refs a' = refs a \<and> latest a' = latest a"
proof (induction ts arbitrary: a)
  case (Cons t ts)
  then obtain a1 where a1: "spec_ApplyTx t a = Inr a1" "spec_txs ts a1 = Inr a'"
    by (auto split: sum.splits)
  with spec_ApplyTx_Inr [OF a1(1)] Cons.IH [OF a1(2)] show ?case
    by (simp add: spec_contracts_append spec_nonces_append)
qed simp

definition touches :: "Hash \<Rightarrow> tx_contract \<Rightarrow> bool" where
  "touches h c \<longleftrightarrow> c_ID c = h \<and> (c_Type c = InputType \<or> c_Type c = OutputType)"

lemma spec_contracts_member:
  "spec_contracts xs U = Inr V \<Longrightarrow>
   h \<in> V \<longleftrightarrow> (case filter (touches h) xs of [] \<Rightarrow> h \<in> U | zs \<Rightarrow> c_Type (last zs) = OutputType)"
proof (induction xs arbitrary: V rule: rev_induct)
  case (snoc x xs)
  then obtain W where W: "spec_contracts xs U = Inr W" "spec_contracts [x] W = Inr V"
    by (auto simp: spec_contracts_append split: sum.splits)
  from snoc.IH [OF W(1)] W(2) show ?case
    by (auto simp: touches_def InputType_def OutputType_def split: if_splits list.splits)
qed simp

lemma txs_relate:
  assumes "snap_ok C s" and "each (ApplyTx C) ts s = (Inr (), s')"
  shows "spec_txs ts (abs_state s) = Inr (abs_state s')" and "snap_ok C s'"
  using ApplyTxs_refine [OF assms(1), of ts] assms(2) by simp_all

text \<open>
  C23: No contract is spent twice. If a sequence of transactions is applied to a well-formed
  snapshot, then before every input of the sequence the latest earlier entry for the same contract
  ID is an output, or there is none and the contract was unspent in the snapshot to begin with.
\<close>

theorem ApplyTx_no_double_spend:
  assumes "snap_ok C s" and "each (ApplyTx C) ts s = (Inr (), s')"
    and "concat (map Contracts ts) = xs @ [con] @ ys" and "c_Type con = InputType"
  shows "case filter (touches (c_ID con)) xs of
      [] \<Rightarrow> Hash_Bytes (c_ID con) \<in> items (ContractsTree s)
    | zs \<Rightarrow> c_Type (last zs) = OutputType"
proof -
  have "spec_contracts (xs @ [con] @ ys) (utxos_of (ContractsTree s)) = Inr (utxos_of (ContractsTree s'))"
    using spec_txs_flat [OF txs_relate(1) [OF assms(1,2)]] assms(3) by (simp add: abs_state_def)
  then obtain W where W: "spec_contracts xs (utxos_of (ContractsTree s)) = Inr W" "c_ID con \<in> W"
    using assms(4) by (auto simp: spec_contracts_append split: sum.splits if_splits)
  then show ?thesis
    using spec_contracts_member [OF W(1), of "c_ID con"] by (auto simp: utxos_of_def split: list.splits)
qed

theorem ApplyTx_no_double_spend_witness:
  "case filter (touches (NewHash (replicate 32 1))) [sample_out] of
      [] \<Rightarrow> Hash_Bytes (NewHash (replicate 32 1)) \<in> items (ContractsTree sample_snapshot)
    | zs \<Rightarrow> c_Type (last zs) = OutputType"
proof -
  let ?ts = "[io_tx [sample_out], io_tx [sample_in, sample_out]]"
  obtain s' where "each (ApplyTx sample_crypto) ?ts sample_snapshot = (Inr (), s')"
    using sample_txs_ok by (metis prod.collapse)
  from ApplyTx_no_double_spend [OF sample_snapshot_ok this, of "[sample_out]" sample_in "[sample_out]"]
  show ?thesis by (simp add: io_tx_def split: if_splits)
qed

lemma spec_nonces_distinct:
  "spec_nonces i r ns N = Inr M \<Longrightarrow>
   distinct (map (\<lambda>n. (n_ID n, ExpMS n)) ns) \<and> (\<lambda>n. (n_ID n, ExpMS n)) ` set ns \<inter> N = {} \<and>
   M = N \<union> (\<lambda>n. (n_ID n, ExpMS n)) ` set ns"
  by (induction ns arbitrary: N) (auto split: if_splits)

text \<open>
  C24: No transaction is replayed. If a sequence of transactions is applied to a well-formed
  snapshot, their nonces are pairwise distinct and none was in the nonce set before; afterwards
  all of them are, until their expiration lets \<^verbatim>\<open>PruneNonces\<close> remove them.
\<close>

theorem ApplyTx_nonces_unique:
  assumes "snap_ok C s" and "each (ApplyTx C) ts s = (Inr (), s')"
  shows "distinct (map (\<lambda>n. NonceCommitment (n_ID n) (ExpMS n)) (concat (map Nonces ts))) \<and>
    (\<forall>n \<in> set (concat (map Nonces ts)).
       NonceCommitment (n_ID n) (ExpMS n) \<notin> items (NonceTree s) \<and>
       NonceCommitment (n_ID n) (ExpMS n) \<in> items (NonceTree s') \<and>
       (\<forall>now. \<exists>s''. PruneNonces now s' = (Inr (), s'') \<and>
          (NonceCommitment (n_ID n) (ExpMS n) \<in> items (NonceTree s'') \<longleftrightarrow> now \<le> ExpMS n)))"
proof -
  let ?ns = "concat (map Nonces ts)"
  have d: "distinct (map (\<lambda>n. (n_ID n, ExpMS n)) ?ns)"
    "(\<lambda>n. (n_ID n, ExpMS n)) ` set ?ns \<inter> nonces_of (NonceTree s) = {}"
    "nonces_of (NonceTree s') = nonces_of (NonceTree s) \<union> (\<lambda>n. (n_ID n, ExpMS n)) ` set ?ns"
    using spec_nonces_distinct spec_txs_flat [OF txs_relate(1) [OF assms]]
    by (fastforce simp: abs_state_def)+
  have "distinct (map (\<lambda>n. NonceCommitment (n_ID n) (ExpMS n)) ?ns)"
    using d(1) by (simp add: distinct_map inj_on_def)
  moreover have "NonceCommitment (n_ID n) (ExpMS n) \<notin> items (NonceTree s)" if "n \<in> set ?ns" for n
    using d(2) that by (auto simp: nonces_of_def)
  moreover have in': "NonceCommitment (n_ID n) (ExpMS n) \<in> items (NonceTree s')" if "n \<in> set ?ns" for n
    using d(3) that by (auto simp: nonces_of_def)
  moreover have "\<exists>s''. PruneNonces now s' = (Inr (), s'') \<and>
      (NonceCommitment (n_ID n) (ExpMS n) \<in> items (NonceTree s'') \<longleftrightarrow> now \<le> ExpMS n)"
    if "n \<in> set ?ns" for n now
  proof -
    obtain s'' where s'': "PruneNonces now s' = (Inr (), s'')"
      "nonces_of (NonceTree s'') = {(i, e) \<in> nonces_of (NonceTree s'). now \<le> e}"
      using PruneNonces_refines [OF txs_relate(2) [OF assms], of now]
      by (auto simp: abs_state_def spec_prune_def)
    then show ?thesis using in' [OF that] by (auto simp: nonces_of_def set_eq_iff)
  qed
  ultimately show ?thesis by blast
qed

theorem ApplyTx_nonces_unique_witness:
  "\<exists>s'. each (ApplyTx sample_crypto) [io_tx [sample_out], io_tx [sample_in, sample_out]] sample_snapshot = (Inr (), s') \<and>
    NonceCommitment (NewHash (replicate 32 1)) 9 \<in> items (NonceTree s')"
proof -
  let ?ts = "[io_tx [sample_out], io_tx [sample_in, sample_out]]"
  obtain s' where s': "each (ApplyTx sample_crypto) ?ts sample_snapshot = (Inr (), s')"
    using sample_txs_ok by (metis prod.collapse)
  with ApplyTx_nonces_unique [OF sample_snapshot_ok s'] show ?thesis
    by (auto simp: io_tx_def)
qed

section \<open>Serialization round trip\<close>

lemma treeToBytes_list: "treeToBytes t = tree_list t"
proof -
  have "visit (\<lambda>nodes item. (None :: unit option, nodes @ [item])) ks acc = (None, acc @ ks)" for ks acc
    by (induction ks arbitrary: acc) auto
  then show ?thesis by (simp add: treeToBytes_def Walk_visit)
qed

lemma tree_roundtrip:
  assumes "sized C n t"
  shows "\<exists>t'. treeFromBytes C (treeToBytes t) = Some (Inr t') \<and> sized C n t' \<and> items t' = items t"
proof -
  have "\<And>k. k \<in> set (tree_list t) \<Longrightarrow> length k = n"
    using assms by (auto simp: sized_def set_tree_list)
  from trees.insert_all_keys [OF sized_empty this, of "tree_list t" C] show ?thesis
    by (auto simp: treeFromBytes_def treeToBytes_list set_tree_list items_def [of None])
qed

lemma RootHash_items:
  assumes "tree_ok C t" and "tree_ok C t'" and "items t = items t'"
  shows "fst (RootHash C t) = fst (RootHash C t')"
proof -
  have "tree_hash C t = tree_hash C t'"
    using assms spec_hash_canonical [of C "the t" "the t'"] elems_nonempty [of "the t"] elems_nonempty [of "the t'"]
    by (cases t; cases t') (simp_all add: tree_hash_def items_def tree_ok_def)
  with RootHash_spec [OF assms(1)] RootHash_spec [OF assms(2)] show ?thesis by simp
qed

text \<open>
  C38: A snapshot survives its serialization, but for the recent block IDs. If the protobuf codec
  gives back the message it wrote, then reading the bytes of a well-formed snapshot into an empty
  one restores the contracts, the nonces, both root hashes, the header and the initial block ID.
  The list of block IDs that nonces may refer to comes back empty: \<^verbatim>\<open>Bytes\<close> does not write it.
\<close>

theorem Snapshot_roundtrip:
  assumes "snap_ok C s" and "marshal (raw_snapshot s) = Inr b" and "unmarshal b = Inr (raw_snapshot s)"
  shows "Snapshot_Bytes marshal s = Inr b \<and>
    (\<exists>s'. Snapshot_FromBytes C unmarshal b Empty = Inr s' \<and> snap_ok C s' \<and>
       abs_state s' = (abs_state s)\<lparr>refs := []\<rparr> \<and>
       fst (RootHash C (ContractsTree s')) = fst (RootHash C (ContractsTree s)) \<and>
       fst (RootHash C (NonceTree s')) = fst (RootHash C (NonceTree s)))"
proof -
  obtain ct where ct: "treeFromBytes C (treeToBytes (ContractsTree s)) = Some (Inr ct)" "sized C 32 ct"
    "items ct = items (ContractsTree s)" using tree_roundtrip assms(1) unfolding snap_ok_def by blast
  obtain nt where nt: "treeFromBytes C (treeToBytes (NonceTree s)) = Some (Inr nt)" "sized C 40 nt"
    "items nt = items (NonceTree s)" using tree_roundtrip assms(1) unfolding snap_ok_def by blast
  define s' where "s' = s\<lparr>ContractsTree := ct, NonceTree := nt, RefIDs := []\<rparr>"
  have "Snapshot_FromBytes C unmarshal b Empty = Inr s'"
    using ct(1) nt(1) assms(3)
    by (auto simp: Snapshot_FromBytes_def raw_snapshot_def Empty_def s'_def split: option.splits)
  moreover have "fst (RootHash C ct) = fst (RootHash C (ContractsTree s))"
    "fst (RootHash C nt) = fst (RootHash C (NonceTree s))"
    using ct nt assms(1) by (auto simp: snap_ok_def sized_def intro!: RootHash_items)
  moreover have "snap_ok C s'" "abs_state s' = (abs_state s)\<lparr>refs := []\<rparr>"
    using ct nt by (auto simp: snap_ok_def s'_def abs_state_def utxos_of_def nonces_of_def)
  ultimately show ?thesis using assms(2) by (auto simp: Snapshot_Bytes_def s'_def)
qed

theorem Snapshot_roundtrip_witness:
  "\<exists>s'. Snapshot_FromBytes sample_crypto (\<lambda>_. Inr (raw_snapshot sample_snapshot) :: unit + RawSnapshot) [7] Empty = Inr s' \<and>
     InitialBlockID s' = NewHash (replicate 32 9) \<and> RefIDs s' = []"
proof -
  obtain s' where "Snapshot_FromBytes sample_crypto (\<lambda>_. Inr (raw_snapshot sample_snapshot) :: unit + RawSnapshot) [7] Empty = Inr s'"
    and s': "abs_state s' = (abs_state sample_snapshot)\<lparr>refs := []\<rparr>"
    using Snapshot_roundtrip [OF sample_snapshot_ok, of "\<lambda>_. Inr [7]" "[7]"
      "\<lambda>_. Inr (raw_snapshot sample_snapshot) :: unit + RawSnapshot" sample_crypto] by blast
  moreover have "InitialBlockID s' = NewHash (replicate 32 9)"
    using arg_cong [OF s', of initial] by (simp add: abs_state_def sample_snapshot_def)
  moreover have "RefIDs s' = []" using arg_cong [OF s', of refs] by (simp add: abs_state_def)
  ultimately show ?thesis by blast
qed

end
