(* ===== verification/Validation.thy ===== *)
theory Validation
  imports State
begin

text \<open>
  Block validation (\<^verbatim>\<open>protocol/validation\<close>). A nil error is \<open>None\<close>; the errors are the package's
  error values, and \<open>ErrPanic\<close> is a nil pointer dereference.

  Shown here: when a block's signatures satisfy a predicate, when its transactions fit its runlimit,
  and that blocks validated one against the other form a chain.
\<close>

datatype validation_error =
    ErrMismatchedBlock | ErrMismatchedMerkleRoot | ErrMisorderedBlockHeight
  | ErrMisorderedBlockTime | ErrNoPrevBlock | ErrTxVersion | ErrVersionRegression
  | ErrBadPredicate | ErrBadArguments | ErrRunlimitBlock | ErrRefsCount | ErrExtraFields
  | ErrPanic

section \<open>Signatures\<close>

fun check_sigs :: "('z) crypto_scheme \<Rightarrow> bytes \<Rightarrow> (bytes \<times> argument) list \<Rightarrow> int \<Rightarrow> validation_error + int" where
  \<comment> \<open>the loop of \<^verbatim>\<open>BlockSig\<close> over the public keys and arguments; it returns the count\<close>
  "check_sigs C hash [] sigCount = Inr sigCount"
| "check_sigs C hash ((pk, arg) # rest) sigCount =
     (if len pk \<noteq> PublicKeySize then Inl ErrBadPredicate
      else case arg of
        ArgBytes sig \<Rightarrow>
          if len sig = 0 then check_sigs C hash rest sigCount
          else if len sig \<noteq> SignatureSize then Inl ErrBadArguments
          else if \<not> ed25519_Verify C pk hash sig then Inl ErrBadArguments
          else check_sigs C hash rest (wrap 32 (sigCount + 1))
      | _ \<Rightarrow> Inl ErrBadArguments)"

definition BlockSig :: "('z) crypto_scheme \<Rightarrow> 'w block \<Rightarrow> Predicate \<Rightarrow> validation_error option" where
  "BlockSig C b predicate =
     (if p_Version predicate \<noteq> 1 then Some ErrBadPredicate
      else if Quorum predicate < 0 then Some ErrBadPredicate
      else if Quorum predicate > len (Pubkeys predicate) then Some ErrBadPredicate
      else if len (Arguments b) \<noteq> len (Pubkeys predicate) then Some ErrBadArguments
      else case Option.bind (header b) (header_Hash C) of None \<Rightarrow> Some ErrPanic
        | Some hash \<Rightarrow>
            (case check_sigs C (Hash_Bytes hash) (zip (Pubkeys predicate) (Arguments b)) 0 of
               Inl e \<Rightarrow> Some e
             | Inr sigCount \<Rightarrow> if sigCount \<noteq> Quorum predicate then Some ErrBadArguments else None))"

section \<open>Blocks\<close>

fun check_txs :: "uint64 \<Rightarrow> 'w tx_scheme list \<Rightarrow> int \<Rightarrow> validation_error option" where
  \<comment> \<open>the loop of \<^verbatim>\<open>BlockOnly\<close>; the last argument is the remaining runlimit, an int64\<close>
  "check_txs version [] remaining = None"
| "check_txs version (tx # txs) remaining =
     (if version = 3 \<and> tx_Version tx \<noteq> 3 then Some ErrTxVersion
      else let remaining' = wrap64 (remaining - tx_Runlimit tx) in
        if remaining' < 0 then Some ErrRunlimitBlock else check_txs version txs remaining')"

definition BlockOnly :: "('z) crypto_scheme \<Rightarrow> 'w block \<Rightarrow> validation_error option" where
  "BlockOnly C b =
     (case header b of None \<Rightarrow> Some ErrPanic
      | Some bh \<Rightarrow>
         (case check_txs (bh_Version bh) (Transactions b) (bh_Runlimit bh) of Some e \<Rightarrow> Some e
          | None \<Rightarrow>
             (case TransactionsRoot bh of None \<Rightarrow> Some ErrPanic
              | Some root \<Rightarrow>
                  if TxMerkleRoot C (Transactions b) \<noteq> root then Some ErrMismatchedMerkleRoot
                  else if bh_Version bh = 3 \<and> len (ExtraFields bh) > 0 then Some ErrExtraFields
                  else None)))"

definition BlockPrev :: "('z) crypto_scheme \<Rightarrow> BlockHeader \<Rightarrow> BlockHeader \<Rightarrow> validation_error option" where
  \<comment> \<open>of the block only its header is used\<close>
  "BlockPrev C bh prev =
     (if bh_Version bh < bh_Version prev then Some ErrVersionRegression
      else if Height bh \<noteq> Height prev + 1 then Some ErrMisorderedBlockHeight
      else case header_Hash C prev of None \<Rightarrow> Some ErrPanic
        | Some h \<Rightarrow>
           (case PreviousBlockId bh of None \<Rightarrow> Some ErrPanic
            | Some p \<Rightarrow>
                if h \<noteq> p then Some ErrMismatchedBlock
                else if TimestampMs bh \<le> TimestampMs prev then Some ErrMisorderedBlockTime
                else if RefsCount bh > wrap64 (RefsCount prev + 1) then Some ErrRefsCount
                else None))"

definition Block :: "('z) crypto_scheme \<Rightarrow> 'w block \<Rightarrow> BlockHeader option \<Rightarrow> validation_error option" where
  "Block C b prev =
     (case header b of None \<Rightarrow> Some ErrPanic
      | Some bh \<Rightarrow>
          if Height bh > 1 then
            (case prev of None \<Rightarrow> Some ErrNoPrevBlock
             | Some p \<Rightarrow> (case BlockPrev C bh p of Some e \<Rightarrow> Some e | None \<Rightarrow> BlockOnly C b))
          else BlockOnly C b)"

section \<open>Quorum\<close>

definition signed_by :: "('z) crypto_scheme \<Rightarrow> bytes \<Rightarrow> bytes \<times> argument \<Rightarrow> bool" where
  \<comment> \<open>the argument is a signature by the key\<close>
  "signed_by C hash x \<longleftrightarrow> (\<exists>sig. snd x = ArgBytes sig \<and> len sig = SignatureSize \<and> ed25519_Verify C (fst x) hash sig)"

definition abstains :: "bytes \<times> argument \<Rightarrow> bool" where
  "abstains x \<longleftrightarrow> snd x = ArgBytes []"

lemma check_sigs_count:
  assumes "0 \<le> n" and "n + len xs < 2 ^ 31"
  shows "check_sigs C hash xs n = Inr m \<longleftrightarrow>
    (\<forall>x\<in>set xs. len (fst x) = PublicKeySize \<and> (abstains x \<or> signed_by C hash x)) \<and>
    m = n + len (filter (signed_by C hash) xs)"
  using assms
proof (induction xs arbitrary: n)
  case (Cons x xs)
  obtain pk arg where x: "x = (pk, arg)" by (cases x)
  have "wrap 32 (n + 1) = n + 1"
    using Cons.prems len_nonneg [of xs] by (intro wrap_id) (simp_all add: in_range_def del: len_nonneg)
  moreover have "abstains x \<Longrightarrow> \<not> signed_by C hash x"
    by (auto simp: abstains_def signed_by_def SignatureSize_def)
  ultimately show ?case using Cons.IH [of n] Cons.IH [of "n + 1"] Cons.prems
    by (cases arg) (auto simp: x signed_by_def abstains_def SignatureSize_def)
qed auto

text \<open>
  C35: When a block satisfies a signing predicate. For a predicate of version 1 and fewer than
  \<open>2^31\<close> keys, \<^verbatim>\<open>BlockSig\<close> accepts a block exactly when there is one argument per key, each is
  empty or a valid 64-byte signature of the block ID by its 32-byte key, and the number of
  signatures equals the quorum. (More signatures than the quorum are refused as well.)
\<close>

theorem BlockSig_quorum:
  assumes "p_Version p = 1" and "len (Pubkeys p) < 2 ^ 31"
    and "header b = Some bh" and "header_Hash C bh = Some h"
  shows "BlockSig C b p = None \<longleftrightarrow>
    (let xs = zip (Pubkeys p) (Arguments b) in
     length (Arguments b) = length (Pubkeys p) \<and>
     (\<forall>x\<in>set xs. len (fst x) = PublicKeySize \<and> (abstains x \<or> signed_by C (Hash_Bytes h) x)) \<and>
     Quorum p = len (filter (signed_by C (Hash_Bytes h)) xs))"
proof (cases "length (Arguments b) = length (Pubkeys p)")
  case True
  let ?xs = "zip (Pubkeys p) (Arguments b)"
  have len: "len ?xs = len (Pubkeys p)" using True by (simp add: len_def)
  let ?n = "len (filter (signed_by C (Hash_Bytes h)) ?xs)"
  have n: "0 \<le> ?n" "?n \<le> len (Pubkeys p)"
    using length_filter_le [of "signed_by C (Hash_Bytes h)" ?xs] True by (simp_all add: len_def)
  have "BlockSig C b p = None \<longleftrightarrow> 0 \<le> Quorum p \<and> Quorum p \<le> len (Pubkeys p) \<and>
      check_sigs C (Hash_Bytes h) ?xs 0 = Inr (Quorum p)"
    using assms True by (auto simp: BlockSig_def len_def split: sum.splits)
  also have "\<dots> \<longleftrightarrow> (\<forall>x\<in>set ?xs. len (fst x) = PublicKeySize \<and> (abstains x \<or> signed_by C (Hash_Bytes h) x)) \<and>
      Quorum p = ?n"
    using check_sigs_count [of 0 ?xs C "Hash_Bytes h" "Quorum p"] assms(2) len n by auto
  finally show ?thesis using True by (simp add: Let_def)
qed (use assms in \<open>auto simp: BlockSig_def Let_def len_def\<close>)

definition quorum_crypto :: crypto where
  "quorum_crypto = sample_crypto\<lparr>ed25519_Verify := (\<lambda>pk m sig. True)\<rparr>"

theorem BlockSig_quorum_witness:
  "BlockSig quorum_crypto \<lparr>header = Some sample_header, Transactions = [] :: tx list,
      Arguments = [ArgBytes [], ArgBytes (replicate 64 1)]\<rparr>
     \<lparr>p_Version = 1, Quorum = 1, Pubkeys = [replicate 32 2, replicate 32 3], OtherFields = []\<rparr> = None"
proof -
  obtain h where "header_Hash quorum_crypto sample_header = Some h"
    by (simp add: header_Hash_def tupleHeader_def sample_header_def predicateTuple_def)
  with BlockSig_quorum [of "\<lparr>p_Version = 1, Quorum = 1, Pubkeys = [replicate 32 2, replicate 32 3], OtherFields = []\<rparr>"
    "\<lparr>header = Some sample_header, Transactions = [] :: tx list,
      Arguments = [ArgBytes [], ArgBytes (replicate 64 1)]\<rparr>" sample_header quorum_crypto h]
  show ?thesis
    by (simp add: Let_def PublicKeySize_def abstains_def signed_by_def SignatureSize_def len_def quorum_crypto_def)
qed

section \<open>Runlimit\<close>

lemma check_txs_sum:
  assumes "0 \<le> l" and "is_int64 l" and "\<forall>t\<in>set txs. 0 \<le> tx_Runlimit t \<and> is_int64 (tx_Runlimit t)"
  shows "check_txs v txs l = None \<longleftrightarrow>
    (\<forall>t\<in>set txs. v = 3 \<longrightarrow> tx_Version t = 3) \<and> sum_list (map tx_Runlimit txs) \<le> l"
  using assms
proof (induction txs arbitrary: l)
  case (Cons t txs)
  have nonneg: "0 \<le> sum_list (map tx_Runlimit txs)"
    using Cons.prems(3) by (intro sum_list_nonneg) auto
  have "wrap64 (l - tx_Runlimit t) = l - tx_Runlimit t"
    using Cons.prems by (intro wrap64_id) (auto simp: is_int64_iff)
  with Cons.IH [of "l - tx_Runlimit t"] Cons.prems nonneg show ?case
    by (auto simp: Let_def is_int64_iff)
qed simp

text \<open>
  C36: A block's runlimit bounds its transactions. For a block whose runlimit and whose
  transactions' runlimits are not negative, \<^verbatim>\<open>BlockOnly\<close> accepts it exactly when the sum of the
  transactions' runlimits (as mathematical integers: no wrap-around can hide an excess) is at most
  the block's, the versions agree, the Merkle root is that of the transactions and a version 3
  header has no extra fields.
\<close>

theorem BlockOnly_bounds_runlimit:
  assumes "header b = Some bh" and "0 \<le> bh_Runlimit bh" and "is_int64 (bh_Runlimit bh)"
    and "TransactionsRoot bh = Some root"
    and "\<forall>t\<in>set (Transactions b). 0 \<le> tx_Runlimit t \<and> is_int64 (tx_Runlimit t)"
  shows "BlockOnly C b = None \<longleftrightarrow>
    sum_list (map tx_Runlimit (Transactions b)) \<le> bh_Runlimit bh \<and>
    (bh_Version bh = 3 \<longrightarrow> (\<forall>t\<in>set (Transactions b). tx_Version t = 3) \<and> ExtraFields bh = []) \<and>
    TxMerkleRoot C (Transactions b) = root"
  using check_txs_sum [OF assms(2,3,5), of "bh_Version bh"] assms(1,4)
  by (auto simp: BlockOnly_def len_def split: option.splits)

theorem BlockOnly_bounds_runlimit_witness:
  "BlockOnly sample_crypto \<lparr>header = Some (sample_header\<lparr>bh_Runlimit := 999,
       TransactionsRoot := Some (TxMerkleRoot sample_crypto [sample_tx])\<rparr>),
     Transactions = [sample_tx], Arguments = []\<rparr> \<noteq> None"
proof -
  have "tx_Runlimit sample_tx = 1000" by code_simp
  then show ?thesis
    using BlockOnly_bounds_runlimit [of "\<lparr>header = Some (sample_header\<lparr>bh_Runlimit := 999,
       TransactionsRoot := Some (TxMerkleRoot sample_crypto [sample_tx])\<rparr>),
     Transactions = [sample_tx], Arguments = []\<rparr>" _ _ sample_crypto] by (simp add: is_int64_iff)
qed

text \<open>A header with a negative runlimit lets the subtraction wrap: the largest transaction passes.\<close>

theorem BlockOnly_negative_runlimit:
  "BlockOnly sample_crypto \<lparr>header = Some (sample_header\<lparr>bh_Runlimit := -2,
       TransactionsRoot := Some (TxMerkleRoot sample_crypto [empty_tx [] 3 9223372036854775807 ()])\<rparr>),
     Transactions = [empty_tx [] 3 9223372036854775807 ()], Arguments = []\<rparr> = None"
  by (simp add: BlockOnly_def sample_header_def empty_tx_def Let_def wrap_def)

section \<open>Chains of headers\<close>

fun validated :: "('z) crypto_scheme \<Rightarrow> BlockHeader list \<Rightarrow> bool" where
  \<comment> \<open>each header is validated against the one before it\<close>
  "validated C (a # b # bs) \<longleftrightarrow> BlockPrev C b a = None \<and> validated C (b # bs)"
| "validated C _ \<longleftrightarrow> True"

lemma BlockPrev_None:
  "BlockPrev C bh prev = None \<longleftrightarrow>
   bh_Version prev \<le> bh_Version bh \<and> Height bh = Height prev + 1 \<and>
   header_Hash C prev \<noteq> None \<and> PreviousBlockId bh = header_Hash C prev \<and>
   TimestampMs prev < TimestampMs bh \<and> RefsCount bh \<le> wrap64 (RefsCount prev + 1)"
  by (auto simp: BlockPrev_def split: option.splits)

lemma validated_nth:
  "validated C bs \<Longrightarrow> Suc i < length bs \<Longrightarrow> BlockPrev C (bs ! Suc i) (bs ! i) = None"
proof (induction bs arbitrary: i rule: validated.induct)
  case (1 C a b bs)
  then show ?case by (cases i) auto
qed auto

text \<open>
  C37: Blocks validated one against the other form a chain. The \<open>i\<close>th header's height is the
  first one's plus \<open>i\<close>, each header names the ID of the one before it, timestamps grow strictly
  (so no two headers are the same), and versions never go back.
\<close>

theorem validated_chain:
  assumes "validated C bs" and "j < length bs" and "i < j"
  shows "Height (bs ! j) = Height (bs ! i) + of_nat (j - i) \<and>
    TimestampMs (bs ! i) < TimestampMs (bs ! j) \<and> bh_Version (bs ! i) \<le> bh_Version (bs ! j) \<and>
    PreviousBlockId (bs ! j) = header_Hash C (bs ! (j - 1)) \<and> header_Hash C (bs ! (j - 1)) \<noteq> None"
  using assms(2,3)
proof (induction j)
  case (Suc j)
  have step: "BlockPrev C (bs ! Suc j) (bs ! j) = None" using validated_nth [OF assms(1) Suc.prems(1)] .
  show ?case
  proof (cases "i = j")
    case True
    with step show ?thesis by (simp add: BlockPrev_None)
  next
    case False
    with Suc have "Height (bs ! j) = Height (bs ! i) + of_nat (j - i)"
      "TimestampMs (bs ! i) < TimestampMs (bs ! j)" "bh_Version (bs ! i) \<le> bh_Version (bs ! j)" by auto
    moreover have "Suc j - i = Suc (j - i)" using Suc.prems by simp
    ultimately show ?thesis using step
      by (auto simp: BlockPrev_None)
  qed
qed simp

definition sample_header2 :: BlockHeader where
  "sample_header2 = sample_header\<lparr>Height := 2, TimestampMs := 8,
     PreviousBlockId := header_Hash sample_crypto sample_header\<rparr>"

theorem validated_chain_witness:
  "validated sample_crypto [sample_header, sample_header2] \<and>
   Height sample_header2 = Height sample_header + 1"
proof -
  have v: "validated sample_crypto [sample_header, sample_header2]"
    by (simp add: BlockPrev_None sample_header2_def)
      (simp add: sample_header_def header_Hash_def tupleHeader_def predicateTuple_def wrap_def)
  with validated_chain [OF v, of 1 0] show ?thesis by simp
qed

end
