(* ===== verification/Chain.thy ===== *)
theory Chain
  imports Validation "HOL-Library.AList"
begin

text \<open>
  The blockchain (\<^verbatim>\<open>protocol/protocol.go\<close>, \<^verbatim>\<open>block.go\<close>, \<^verbatim>\<open>recover.go\<close>, \<^verbatim>\<open>tx.go\<close>) and the store that
  keeps it in memory (\<^verbatim>\<open>protocol/prottest/memstore\<close>).

  \<^item> \<open>'st chain\<close> is the struct \<^verbatim>\<open>Chain\<close>, with the state of its store. The goroutines blocked in
    \<^verbatim>\<open>cond.Wait\<close> of \<^verbatim>\<open>BlockWaiter\<close> are the list \<open>waiting\<close> of the heights they wait for; those whose
    channel was signalled are in \<open>released\<close>. The channel \<^verbatim>\<open>pendingSnapshots\<close> is a list of at most
    one element.
  \<^item> \<open>'st store_ops\<close> is the interface \<^verbatim>\<open>Store\<close>: operations on a store state that may fail.
  \<^item> The bodies of the two goroutines of \<^verbatim>\<open>NewChain\<close> are the operations \<open>setHeight\<close> and
    \<open>save_pending\<close>.
  \<^item> \<^verbatim>\<open>RootHash\<close> fills the hash caches of the tree; the chain only uses the hash (see
    \<open>RootHash_spec\<close>: the cache does not change the tree's items or its hash).
\<close>

section \<open>Stores\<close>

datatype store_error = Duplicate | Missing | StorePanic | StoreFailure

record 'st store_ops =
  Store_Height :: "('st, store_error, uint64) sm"
  GetBlock :: "uint64 \<Rightarrow> ('st, store_error, unit block) sm"
  LatestSnapshot :: "('st, store_error, snapshot option) sm"
  SaveBlock :: "unit block \<Rightarrow> ('st, store_error, unit) sm"
  FinalizeHeight :: "uint64 \<Rightarrow> ('st, store_error, unit) sm"
  SaveSnapshot :: "snapshot \<Rightarrow> ('st, store_error, unit) sm"

record MemStore =
  Blocks :: "(uint64 \<times> unit block) list" \<comment> \<open>a map: an association list with distinct keys\<close>
  State :: "snapshot option"

definition mem_New :: MemStore where
  "mem_New = \<lparr>Blocks = [], State = None\<rparr>"

definition mem_Height :: "(MemStore, store_error, uint64) sm" where
  "mem_Height = gets (\<lambda>m. of_nat (length (Blocks m)))"

definition block_Hash :: "('z) crypto_scheme \<Rightarrow> 'w block \<Rightarrow> Hash option" where
  \<comment> \<open>\<^verbatim>\<open>b.Hash()\<close>, the method of the embedded header\<close>
  "block_Hash C b = Option.bind (header b) (header_Hash C)"

definition mem_SaveBlock :: "('z) crypto_scheme \<Rightarrow> unit block \<Rightarrow> (MemStore, store_error, unit) sm" where
  "mem_SaveBlock C b =
     (case header b of None \<Rightarrow> panic StorePanic
      | Some bh \<Rightarrow> bind (gets (\<lambda>m. map_of (Blocks m) (Height bh))) (\<lambda>existing.
          andthen
           (case existing of None \<Rightarrow> return ()
            | Some e \<Rightarrow>
                (case (block_Hash C e, block_Hash C b) of
                   (Some h, Some h') \<Rightarrow> guard (h = h') Duplicate
                 | _ \<Rightarrow> panic StorePanic))
           (modify (\<lambda>m. m\<lparr>Blocks := AList.update (Height bh) b (Blocks m)\<rparr>))))"

definition mem_SaveSnapshot :: "snapshot \<Rightarrow> (MemStore, store_error, unit) sm" where
  "mem_SaveSnapshot s = modify (\<lambda>m. m\<lparr>State := Some (Copy s)\<rparr>)"

definition mem_GetBlock :: "uint64 \<Rightarrow> (MemStore, store_error, unit block) sm" where
  "mem_GetBlock h = bind (gets (\<lambda>m. map_of (Blocks m) h)) (\<lambda>b.
     case b of None \<Rightarrow> panic Missing | Some b' \<Rightarrow> return b')"

definition mem_LatestSnapshot :: "(MemStore, store_error, snapshot option) sm" where
  "mem_LatestSnapshot =
     andthen (modify (\<lambda>m. if State m = None then m\<lparr>State := Some Empty\<rparr> else m))
     (gets (\<lambda>m. map_option Copy (State m)))"

definition mem_FinalizeHeight :: "uint64 \<Rightarrow> (MemStore, store_error, unit) sm" where
  "mem_FinalizeHeight h = return ()"

definition memstore :: "('z) crypto_scheme \<Rightarrow> MemStore store_ops" where
  "memstore C = \<lparr>Store_Height = mem_Height, GetBlock = mem_GetBlock,
     LatestSnapshot = mem_LatestSnapshot, SaveBlock = mem_SaveBlock C,
     FinalizeHeight = mem_FinalizeHeight, SaveSnapshot = mem_SaveSnapshot\<rparr>"

section \<open>The chain\<close>

record 'st chain =
  InitialBlockHash :: Hash
  MaxNonceWindow :: int
  MaxBlockWindow :: uint64
  height :: uint64 \<comment> \<open>\<^verbatim>\<open>state.height\<close>\<close>
  snap :: snapshot \<comment> \<open>\<^verbatim>\<open>state.snapshot\<close>\<close>
  store :: 'st
  lastQueuedSnapshotMS :: uint64
  pendingSnapshots :: "snapshot list"
  waiting :: "uint64 list"
  released :: "uint64 list"

datatype chain_error =
    StoreErr store_error
  | StateErr state_error
  | ErrBadContractsRoot
  | ErrBadNoncesRoot
  | ErrTheDistantFuture
  | ErrTimestamp \<comment> \<open>the timestamp is not greater than the previous block's\<close>
  | ErrContractRootReplay \<comment> \<open>a replayed block has another contract root\<close>
  | ChainPanic

type_synonym ('st, 'a) cact = "('st chain, chain_error, 'a) sm"

definition on_store :: "('st, store_error, 'a) sm \<Rightarrow> ('st, 'a) cact" where
  \<comment> \<open>a call of a method of the store\<close>
  "on_store m = (\<lambda>c. case m (store c) of
     (Inl e, st) \<Rightarrow> (Inl (StoreErr e), c\<lparr>store := st\<rparr>)
   | (Inr x, st) \<Rightarrow> (Inr x, c\<lparr>store := st\<rparr>))"

definition deref :: "'a option \<Rightarrow> ('st, 'a) cact" where
  \<comment> \<open>the use of a pointer\<close>
  "deref p = (case p of None \<Rightarrow> panic ChainPanic | Some x \<Rightarrow> return x)"

definition broadcast :: "'st chain \<Rightarrow> 'st chain" where
  \<comment> \<open>\<^verbatim>\<open>cond.Broadcast()\<close>: every waiter tests its condition again\<close>
  "broadcast c = c\<lparr>released := released c @ filter (\<lambda>h. \<not> height c < h) (waiting c),
     waiting := filter (\<lambda>h. height c < h) (waiting c)\<rparr>"

definition NewChain :: "('z) crypto_scheme \<Rightarrow> 'st store_ops \<Rightarrow> 'w block \<Rightarrow> 'st \<Rightarrow> chain_error + 'st chain" where
  "NewChain C S initialBlock st =
     (case block_Hash C initialBlock of None \<Rightarrow> Inl ChainPanic
      | Some h \<Rightarrow>
         (case Store_Height S st of (Inl e, _) \<Rightarrow> Inl (StoreErr e)
          | (Inr ht, st') \<Rightarrow>
              Inr \<lparr>InitialBlockHash = h, MaxNonceWindow = 0, MaxBlockWindow = 0, height = ht,
                snap = Empty, store = st', lastQueuedSnapshotMS = 0, pendingSnapshots = [],
                waiting = [], released = []\<rparr>))"

definition Chain_GetBlock :: "'st store_ops \<Rightarrow> uint64 \<Rightarrow> ('st, unit block) cact" where
  "Chain_GetBlock S h = on_store (GetBlock S h)"

definition Chain_Height :: "('st, uint64) cact" where
  "Chain_Height = gets height"

definition Chain_State :: "('st, snapshot) cact" where
  "Chain_State = gets snap"

definition setState :: "snapshot \<Rightarrow> ('st, unit) cact" where
  "setState s = bind (gets (\<lambda>c. snapshot_Height (Some (snap c)))) (\<lambda>cur.
     if snapshot_Height (Some s) \<le> cur then return ()
     else andthen (modify (\<lambda>c. c\<lparr>snap := s\<rparr>))
       (modify (\<lambda>c. if snapshot_Height (Some s) > height c
          then broadcast (c\<lparr>height := snapshot_Height (Some s)\<rparr>) else c)))"

definition setHeight :: "uint64 \<Rightarrow> ('st, unit) cact" where
  "setHeight h = modify (\<lambda>c. if h \<le> height c then c else broadcast (c\<lparr>height := h\<rparr>))"

definition BlockWaiter :: "uint64 \<Rightarrow> ('st, unit) cact" where
  "BlockWaiter h = modify (\<lambda>c. if height c < h then c\<lparr>waiting := waiting c @ [h]\<rparr>
     else c\<lparr>released := released c @ [h]\<rparr>)"

definition BlockSoonWaiter :: "uint64 \<Rightarrow> ('st, unit) cact" where
  \<comment> \<open>up to the \<^verbatim>\<open>select\<close> between the waiter and the context\<close>
  "BlockSoonWaiter h = bind Chain_Height (\<lambda>cur.
     if h > cur + 3 then panic ErrTheDistantFuture else BlockWaiter h)"

definition saveSnapshotFrequencyMS :: uint64 where
  "saveSnapshotFrequencyMS = DurationMillis 3600000000000"

definition queueSnapshot :: "snapshot \<Rightarrow> ('st, unit) cact" where
  "queueSnapshot s = modify (\<lambda>c.
     if length (pendingSnapshots c) < 1 then
       c\<lparr>pendingSnapshots := pendingSnapshots c @ [s], lastQueuedSnapshotMS := snapshot_TimestampMS (Some s)\<rparr>
     else c)"

definition save_pending :: "'st store_ops \<Rightarrow> ('st, unit) cact" where
  \<comment> \<open>one round of the goroutine that saves snapshots; errors are only logged\<close>
  "save_pending S = (\<lambda>c. case pendingSnapshots c of [] \<Rightarrow> (Inr (), c)
     | s # rest \<Rightarrow>
         (Inr (), c\<lparr>pendingSnapshots := rest, store := snd (SaveSnapshot S s (store c))\<rparr>))"

definition finalizeCommitState :: "'st store_ops \<Rightarrow> snapshot \<Rightarrow> ('st, unit) cact" where
  "finalizeCommitState S s = bind (gets lastQueuedSnapshotMS) (\<lambda>lq.
     andthen (if snapshot_TimestampMS (Some s) > lq + saveSnapshotFrequencyMS then queueSnapshot s
              else return ())
    (andthen (setState s)
     (on_store (FinalizeHeight S (snapshot_Height (Some s))))))"

definition CommitAppliedBlock :: "'st store_ops \<Rightarrow> unit block \<Rightarrow> snapshot \<Rightarrow> ('st, unit) cact" where
  "CommitAppliedBlock S block s =
     andthen (on_store (SaveBlock S block))
    (bind Chain_State (\<lambda>curState.
     bind (deref (header block)) (\<lambda>bh.
     if Height bh \<le> snapshot_Height (Some curState) then return ()
     else finalizeCommitState S s)))"

definition check_roots ::
  "('z) crypto_scheme \<Rightarrow> BlockHeader \<Rightarrow> snapshot \<Rightarrow> ('st, unit) cact" where
  "check_roots C bh s =
     bind (deref (ContractsRoot bh)) (\<lambda>cr.
     andthen (guard (Byte32 cr = fst (RootHash C (ContractsTree s))) ErrBadContractsRoot)
    (bind (deref (NoncesRoot bh)) (\<lambda>nr.
     guard (Byte32 nr = fst (RootHash C (NonceTree s))) ErrBadNoncesRoot)))"

definition CommitBlock :: "('z) crypto_scheme \<Rightarrow> 'st store_ops \<Rightarrow> unit block \<Rightarrow> ('st, unit) cact" where
  "CommitBlock C S block =
     andthen (on_store (SaveBlock S block))
    (bind Chain_State (\<lambda>curSnapshot.
     bind (deref (header block)) (\<lambda>bh.
     if Height bh \<le> snapshot_Height (Some curSnapshot) then return ()
     else case ApplyBlock C block (Copy curSnapshot) of
         (Inl e, _) \<Rightarrow> panic (StateErr e)
       | (Inr _, s) \<Rightarrow> andthen (check_roots C bh s) (finalizeCommitState S s))))"

section \<open>Recovery\<close>

fun replay :: "('z) crypto_scheme \<Rightarrow> 'st store_ops \<Rightarrow> uint64 list \<Rightarrow> unit block option \<Rightarrow> snapshot \<Rightarrow>
    ('st, unit block option \<times> snapshot) cact" where
  \<comment> \<open>the loop of \<^verbatim>\<open>Recover\<close> over the heights to replay, with the latest block and the snapshot\<close>
  "replay C S [] b s = return (b, s)"
| "replay C S (h # hs) b s =
     bind (on_store (GetBlock S h)) (\<lambda>b'.
     case ApplyBlock C b' s of
       (Inl e, _) \<Rightarrow> panic (StateErr e)
     | (Inr _, s') \<Rightarrow>
         bind (deref (header b')) (\<lambda>bh. bind (deref (ContractsRoot bh)) (\<lambda>cr.
         andthen (guard (Byte32 cr = fst (RootHash C (ContractsTree s'))) ErrContractRootReplay)
         (replay C S hs (Some b') s'))))"

definition heights :: "uint64 \<Rightarrow> uint64 \<Rightarrow> uint64 list" where
  \<comment> \<open>\<^verbatim>\<open>for h := from; h <= to; h++\<close>, for \<open>to\<close> below the largest uint64\<close>
  "heights from to = map of_nat [unat from..<Suc (unat to)]"

definition Recover :: "('z) crypto_scheme \<Rightarrow> 'st store_ops \<Rightarrow> ('st, snapshot) cact" where
  "Recover C S =
     bind (on_store (LatestSnapshot S)) (\<lambda>latest.
     bind (if snapshot_Height latest > 0 then
             bind (on_store (GetBlock S (snapshot_Height latest))) (\<lambda>b.
             andthen (modify (\<lambda>c. c\<lparr>lastQueuedSnapshotMS := snapshot_TimestampMS latest\<rparr>))
             (return (Some b)))
           else return None) (\<lambda>b.
     let s = (case latest of None \<Rightarrow> Empty | Some s \<Rightarrow> s) in
     bind (on_store (Store_Height S)) (\<lambda>ht.
     bind (replay C S (heights (snapshot_Height (Some s) + 1) ht) b s) (\<lambda>(b', s').
     andthen (case b' of None \<Rightarrow> return () | Some bl \<Rightarrow> CommitAppliedBlock S bl s')
     (return s')))))"

section \<open>Generating blocks\<close>

definition maxBlockTxs :: int where "maxBlockTxs = 10000"

fun check_timeranges :: "Timerange list \<Rightarrow> uint64 \<Rightarrow> bool" where
  "check_timeranges [] blockTimeMS = True"
| "check_timeranges (tr # trs) blockTimeMS =
     (if MaxMS tr > 0 \<and> blockTimeMS > word_of_int (MaxMS tr) then False
      else if MinMS tr > 0 \<and> blockTimeMS > 0 \<and> blockTimeMS < word_of_int (MinMS tr) then False
      else check_timeranges trs blockTimeMS)"

definition checkTransactionTime :: "int \<Rightarrow> 'w tx_scheme \<Rightarrow> uint64 \<Rightarrow> bool" where
  \<comment> \<open>whether the error is nil; the first argument is \<^verbatim>\<open>c.MaxNonceWindow\<close>\<close>
  "checkTransactionTime window tx blockTimeMS \<longleftrightarrow>
     check_timeranges (Timeranges tx) blockTimeMS \<and>
     (window > 0 \<longrightarrow>
       list_all (\<lambda>n. \<not> ExpMS n > DurationMillis window + blockTimeMS) (Nonces tx))"

fun gen_txs :: "('z) crypto_scheme \<Rightarrow> int \<Rightarrow> uint64 \<Rightarrow> tx list \<Rightarrow> int \<Rightarrow> tx list \<Rightarrow> snapshot \<Rightarrow>
    chain_error + int \<times> tx list \<times> snapshot" where
  \<comment> \<open>the loop of \<^verbatim>\<open>GenerateBlock\<close>, with the block's runlimit and transactions and the snapshot\<close>
  "gen_txs C window ts [] runl acc s = Inr (runl, acc, s)"
| "gen_txs C window ts (tx # txs) runl acc s =
     (if len acc \<ge> maxBlockTxs then Inr (runl, acc, s)
      else if \<not> checkTransactionTime window tx ts then gen_txs C window ts txs runl acc s
      else case AddInt64 runl (tx_Runlimit tx) of (runl', ok) \<Rightarrow>
        if \<not> ok then gen_txs C window ts txs runl acc s
        else case ApplyTx C tx s of
            (Inl e, s') \<Rightarrow> if e = Panicked then Inl ChainPanic else gen_txs C window ts txs runl acc s'
          | (Inr _, s') \<Rightarrow> gen_txs C window ts txs runl' (acc @ [tx]) s')"

definition generated_header ::
  "('z) crypto_scheme \<Rightarrow> uint64 \<Rightarrow> BlockHeader \<Rightarrow> Hash \<Rightarrow> uint64 \<Rightarrow> int \<Rightarrow> tx list \<Rightarrow> snapshot \<Rightarrow> BlockHeader" where
  \<comment> \<open>the header that \<^verbatim>\<open>GenerateBlock\<close> fills in, from \<^verbatim>\<open>c.MaxBlockWindow\<close>, the previous header and its
     ID, the timestamp, and the runlimit, transactions and snapshot after the loop\<close>
  "generated_header C maxWindow prev prevID timestampMS runl included s =
     (let window = sint maxWindow;
          refsCount = (if RefsCount prev < window then wrap64 (RefsCount prev + 1) else window) in
      \<lparr>bh_Version = 3, Height = Height prev + 1, PreviousBlockId = Some prevID,
       TimestampMs = timestampMS, bh_Runlimit = runl, RefsCount = refsCount,
       TransactionsRoot = Some (TxMerkleRoot C included),
       ContractsRoot = Some (NewHash (fst (RootHash C (ContractsTree s)))),
       NoncesRoot = Some (NewHash (fst (RootHash C (NonceTree s)))),
       NextPredicate = NextPredicate prev, ExtraFields = []\<rparr>)"

definition GenerateBlock ::
  "('z) crypto_scheme \<Rightarrow> 'st chain \<Rightarrow> snapshot \<Rightarrow> uint64 \<Rightarrow> tx list \<Rightarrow>
   chain_error + unit block \<times> snapshot \<times> state_error option" where
  "GenerateBlock C c s timestampMS txs =
     (case Header s of None \<Rightarrow> Inl ChainPanic
      | Some prev \<Rightarrow>
        if timestampMS \<le> TimestampMs prev then Inl ErrTimestamp
        else case PruneNonces timestampMS (Copy (snap c)) of
          (Inl _, _) \<Rightarrow> Inl ChainPanic
        | (Inr _, s1) \<Rightarrow>
          (case header_Hash C prev of None \<Rightarrow> Inl ChainPanic
           | Some prevID \<Rightarrow>
             (case gen_txs C (MaxNonceWindow c) timestampMS txs 0 [] s1 of Inl e \<Rightarrow> Inl e
              | Inr (runl, included, s2) \<Rightarrow>
                (let bh = generated_header C (MaxBlockWindow c) prev prevID timestampMS runl included s2;
                     b = \<lparr>header = Some bh, Transactions = included, Arguments = []\<rparr> in
                 case ApplyBlockHeader C bh s2 of
                   (Inl e, s3) \<Rightarrow> if e = Panicked then Inl ChainPanic else Inr (b, s3, Some e)
                 | (Inr _, s3) \<Rightarrow> Inr (b, s3, None)))))"

definition NewInitialBlock :: "('z) crypto_scheme \<Rightarrow> bytes list \<Rightarrow> int \<Rightarrow> int \<Rightarrow> unit block" where
  \<comment> \<open>public keys, quorum (an int), and the time in nanoseconds\<close>
  "NewInitialBlock C pubkeys quorum timestamp =
     (let root = TxMerkleRoot C ([] :: tx list); patRoot = NewHash (fst (RootHash C None)) in
      \<lparr>header = Some \<lparr>bh_Version = 3, Height = 1, PreviousBlockId = None,
         TimestampMs = Millis timestamp, bh_Runlimit = 0, RefsCount = 0,
         TransactionsRoot = Some root, ContractsRoot = Some patRoot, NoncesRoot = Some patRoot,
         NextPredicate = Some \<lparr>p_Version = 1, Quorum = wrap 32 quorum, Pubkeys = pubkeys, OtherFields = []\<rparr>,
         ExtraFields = []\<rparr>,
       Transactions = [], Arguments = []\<rparr>)"

end
