(* ===== verification/ChainSafety.thy ===== *)
theory ChainSafety
  imports Chain
begin

text \<open>
  Facts about every operation of the chain, whatever its outcome and whatever the store does: the
  height and the height of the current snapshot never go down, the snapshot is never ahead of the
  height, at most one snapshot is queued, and no goroutine waits for a height that has been reached.
\<close>

section \<open>Monotonicity\<close>

abbreviation snap_height :: "'st chain \<Rightarrow> uint64" where
  "snap_height c \<equiv> snapshot_Height (Some (snap c))"

definition chain_inv :: "'st chain \<Rightarrow> bool" where
  "chain_inv c \<longleftrightarrow> snap_height c \<le> height c \<and> length (pendingSnapshots c) \<le> 1 \<and>
     (\<forall>h\<in>set (waiting c). height c < h) \<and> (\<forall>h\<in>set (released c). h \<le> height c)"

definition chain_grows :: "'st chain \<Rightarrow> 'st chain \<Rightarrow> bool" where
  "chain_grows c c' \<longleftrightarrow> height c \<le> height c' \<and> snap_height c \<le> snap_height c' \<and>
     (\<exists>new. released c' = released c @ new) \<and>
     set (waiting c) \<union> set (released c) \<subseteq> set (waiting c') \<union> set (released c') \<and>
     (chain_inv c \<longrightarrow> chain_inv c')"

interpretation chains: run_preorder "chain_grows :: 'st chain \<Rightarrow> 'st chain \<Rightarrow> bool"
proof
  show "chain_grows s s" for s :: "'st chain" by (simp add: chain_grows_def)
  show "chain_grows s s''" if "chain_grows s s'" "chain_grows s' s''" for s s' s'' :: "'st chain"
    using that by (auto simp: chain_grows_def)
qed

abbreviation keeps :: "('st, 'a) cact \<Rightarrow> bool" where
  "keeps \<equiv> stays chain_grows"

lemma keeps_modify: "(\<And>c. chain_grows c (f c)) \<Longrightarrow> keeps (modify f)"
  by (simp add: stays_def sm_simps)

lemma keeps_store: "keeps (on_store m)"
  unfolding stays_def on_store_def
  by (auto simp: chain_grows_def chain_inv_def split: prod.splits sum.splits)

lemma keeps_deref: "keeps (deref p)"
  unfolding deref_def by (cases p) (auto intro: chains.stays_intros)

lemma broadcast_sel [simp]:
  "height (broadcast c) = height c" "snap (broadcast c) = snap c"
  "pendingSnapshots (broadcast c) = pendingSnapshots c"
  "waiting (broadcast c) = filter (\<lambda>h. height c < h) (waiting c)"
  "released (broadcast c) = released c @ filter (\<lambda>h. \<not> height c < h) (waiting c)"
  "store (broadcast c) = store c" "lastQueuedSnapshotMS (broadcast c) = lastQueuedSnapshotMS c"
  by (simp_all add: broadcast_def)

lemma keeps_setState: "keeps (setState s)"
  unfolding stays_def
proof
  fix c :: "'st chain"
  show "chain_grows c (snd (setState s c))"
    by (auto simp: setState_def sm_simps chain_grows_def chain_inv_def)
qed

lemma keeps_setHeight: "keeps (setHeight h)"
  and keeps_queue: "keeps (queueSnapshot s)"
  and keeps_waiter: "keeps (BlockWaiter h)"
  unfolding setHeight_def queueSnapshot_def BlockWaiter_def
  by (rule keeps_modify; auto simp: chain_grows_def chain_inv_def)+

lemma keeps_save_pending: "keeps (save_pending S)"
  unfolding stays_def save_pending_def
  by (auto simp: chain_grows_def chain_inv_def split: list.splits)

lemma keeps_lastQueued: "keeps (modify (\<lambda>c. c\<lparr>lastQueuedSnapshotMS := f c\<rparr>))"
  by (rule keeps_modify) (simp add: chain_grows_def chain_inv_def)

lemmas keeps_prims = chains.stays_intros keeps_store keeps_deref keeps_setState keeps_setHeight
  keeps_queue keeps_waiter keeps_save_pending keeps_lastQueued

lemma keeps_finalize: "keeps (finalizeCommitState S s)"
  unfolding finalizeCommitState_def by (intro keeps_prims)

lemma keeps_commit: "keeps (CommitAppliedBlock S b s)" "keeps (CommitBlock C S b)"
  unfolding CommitAppliedBlock_def CommitBlock_def check_roots_def Chain_State_def
  by (intro keeps_prims keeps_finalize)+

lemma keeps_replay: "keeps (replay C S hs b s)"
  by (induction hs arbitrary: b s) (simp_all, (intro keeps_prims | assumption)+)

lemma keeps_recover: "keeps (Recover C S)"
  unfolding Recover_def Let_def by (intro keeps_prims keeps_replay keeps_commit)

lemma keeps_soon: "keeps (BlockSoonWaiter h)"
  unfolding BlockSoonWaiter_def Chain_Height_def by (intro keeps_prims)

section \<open>Histories of a chain\<close>

text \<open>
  The operations that goroutines perform on a chain, in any order: the exported ones, the two
  goroutines of \<^verbatim>\<open>NewChain\<close>, and the critical section of \<^verbatim>\<open>setState\<close> alone, with any snapshot, which
  covers commits that overlap.
\<close>

inductive chain_step :: "('z) crypto_scheme \<Rightarrow> 'st store_ops \<Rightarrow> 'st chain \<Rightarrow> 'st chain \<Rightarrow> bool"
  for C :: "('z) crypto_scheme" and S :: "'st store_ops" where
  commit: "CommitBlock C S b c = (r, c') \<Longrightarrow> chain_step C S c c'"
| commit_applied: "CommitAppliedBlock S b s c = (r, c') \<Longrightarrow> chain_step C S c c'"
| recover: "Recover C S c = (r', c') \<Longrightarrow> chain_step C S c c'"
| set_state: "setState s c = (r, c') \<Longrightarrow> chain_step C S c c'"
| set_height: "setHeight h c = (r, c') \<Longrightarrow> chain_step C S c c'"
| wait: "BlockWaiter h c = (r, c') \<Longrightarrow> chain_step C S c c'"
| wait_soon: "BlockSoonWaiter h c = (r, c') \<Longrightarrow> chain_step C S c c'"
| save: "save_pending S c = (r, c') \<Longrightarrow> chain_step C S c c'"

inductive_cases chain_stepE: "chain_step C S c c'"

lemma chain_step_grows: "chain_step C S c c' \<Longrightarrow> chain_grows c c'"
  by (erule chain_stepE)
    (blast dest: staysD [OF keeps_commit(1)] staysD [OF keeps_commit(2)] staysD [OF keeps_recover]
      staysD [OF keeps_setState] staysD [OF keeps_setHeight] staysD [OF keeps_waiter]
      staysD [OF keeps_soon] staysD [OF keeps_save_pending])+

lemma chain_steps_grow: "(chain_step C S)\<^sup>*\<^sup>* c c' \<Longrightarrow> chain_grows c c'"
  by (induction rule: rtranclp_induct)
    (auto intro: chains.run_refl chains.run_trans dest: chain_step_grows)

lemma NewChain_inv: "NewChain C S b st = Inr c \<Longrightarrow> chain_inv c"
  by (auto simp: NewChain_def chain_inv_def Empty_def snapshot_Height_def split: option.splits prod.splits sum.splits)

text \<open>
  C29: Along every history of a chain made by \<^verbatim>\<open>NewChain\<close>, with operations of any goroutines in any
  order and any store, its height and the height of its current snapshot never go down, the
  snapshot is never ahead of the height, and at most one snapshot is queued.
\<close>

theorem chain_height_monotone:
  assumes "NewChain C S b st = Inr c0" and "(chain_step C S)\<^sup>*\<^sup>* c0 c" and "(chain_step C S)\<^sup>*\<^sup>* c c'"
  shows "height c \<le> height c' \<and> snapshot_Height (Some (snap c)) \<le> snapshot_Height (Some (snap c')) \<and>
    snapshot_Height (Some (snap c)) \<le> height c \<and> length (pendingSnapshots c) \<le> 1"
  using chain_steps_grow [OF assms(2)] chain_steps_grow [OF assms(3)] NewChain_inv [OF assms(1)]
  by (auto simp: chain_grows_def chain_inv_def)

text \<open>
  C30: No wake-up is lost. Along every history of a chain, a goroutine that called
  \<^verbatim>\<open>BlockWaiter\<close> for a height is released as soon as the chain's height reaches it, and only then,
  and it stays released: nobody waits for a height that the chain has reached.
\<close>

theorem BlockWaiter_released:
  assumes "NewChain C S b st = Inr c0" and "(chain_step C S)\<^sup>*\<^sup>* c0 c"
    and "BlockWaiter h c = (Inr (), c1)" and "(chain_step C S)\<^sup>*\<^sup>* c1 c'"
  shows "(h \<le> height c' \<longleftrightarrow> h \<in> set (released c')) \<and> (height c' < h \<longleftrightarrow> h \<in> set (waiting c'))"
proof -
  have "chain_inv c" using chain_steps_grow [OF assms(2)] NewChain_inv [OF assms(1)]
    by (simp add: chain_grows_def)
  moreover have "chain_grows c c1" using staysD [OF keeps_waiter assms(3)] .
  moreover have "h \<in> set (waiting c1) \<union> set (released c1)"
    using assms(3) by (auto simp: BlockWaiter_def sm_simps split: if_splits)
  moreover note chain_steps_grow [OF assms(4)]
  ultimately have "h \<in> set (waiting c') \<union> set (released c')" "chain_inv c'"
    by (auto simp: chain_grows_def)
  then show ?thesis by (auto simp: chain_inv_def)
qed

definition genesis :: "unit block" where
  "genesis = NewInitialBlock sample_crypto [] 0 1000000"

definition sample_chain :: "MemStore chain" where
  "sample_chain = \<lparr>InitialBlockHash = (case block_Hash sample_crypto genesis of Some h \<Rightarrow> h | None \<Rightarrow> zero_Hash),
     MaxNonceWindow = 0, MaxBlockWindow = 0, height = 0, snap = Empty, store = mem_New,
     lastQueuedSnapshotMS = 0, pendingSnapshots = [], waiting = [], released = []\<rparr>"

lemma genesis_Hash: "block_Hash sample_crypto genesis \<noteq> None"
  by (simp add: block_Hash_def genesis_def NewInitialBlock_def header_Hash_def tupleHeader_def predicateTuple_def Let_def)

lemma sample_chain_new: "NewChain sample_crypto (memstore sample_crypto) genesis mem_New = Inr sample_chain"
  using genesis_Hash
  by (auto simp: sample_chain_def NewChain_def memstore_def mem_Height_def mem_New_def sm_simps)

lemma sample_chain_height: "height sample_chain = 0"
  by (simp add: sample_chain_def)

theorem chain_height_monotone_witness:
  "\<exists>c. (chain_step sample_crypto (memstore sample_crypto))\<^sup>*\<^sup>* sample_chain c \<and> height c = 5 \<and>
     snapshot_Height (Some (snap c)) \<le> height c"
proof -
  obtain c r where c: "setHeight 5 sample_chain = (r, c)" by (cases "setHeight 5 sample_chain")
  then have s: "(chain_step sample_crypto (memstore sample_crypto))\<^sup>*\<^sup>* sample_chain c"
    by (auto intro: chain_step.set_height)
  have "height c = 5" using c sample_chain_height by (auto simp: setHeight_def sm_simps)
  with chain_height_monotone [OF sample_chain_new s rtranclp.rtrancl_refl] s show ?thesis by auto
qed

theorem BlockWaiter_released_witness:
  "\<exists>c1 c. BlockWaiter 4 sample_chain = (Inr (), c1) \<and> setHeight 5 c1 = (Inr (), c) \<and>
     4 \<in> set (released c)"
proof -
  obtain c1 where c1: "BlockWaiter 4 sample_chain = (Inr (), c1)" by (simp add: BlockWaiter_def sm_simps)
  obtain c where c: "setHeight 5 c1 = (Inr (), c)" by (simp add: setHeight_def sm_simps)
  have "height c1 = 0" using c1 sample_chain_height by (auto simp: BlockWaiter_def sm_simps)
  then have "height c = 5" using c by (auto simp: setHeight_def sm_simps)
  moreover have "(chain_step sample_crypto (memstore sample_crypto))\<^sup>*\<^sup>* c1 c"
    using c by (auto intro: chain_step.set_height)
  ultimately show ?thesis
    using BlockWaiter_released [OF sample_chain_new rtranclp.rtrancl_refl c1, of c] c1 c by auto
qed

end
