(* ===== verification/ChainCommit.thy ===== *)
theory ChainCommit
  imports ChainSafety
begin

text \<open>
  Committing, generating and recovering blocks. What the chain relies on of its store is the locale
  \<open>block_store\<close>; the store in memory is its interpretation.
\<close>

section \<open>What a store promises\<close>

locale block_store =
  fixes C :: "('z) crypto_scheme" and S :: "'st store_ops" and blocks :: "'st \<Rightarrow> uint64 \<rightharpoonup> unit block"
  assumes save_stores: "SaveBlock S b st = (Inr (), st') \<Longrightarrow>
      \<exists>bh. header b = Some bh \<and> blocks st' = (blocks st)(Height bh \<mapsto> b)"
    and save_fails: "SaveBlock S b st = (Inl e, st') \<Longrightarrow> blocks st' = blocks st"
    and save_conflict: "header b = Some bh \<Longrightarrow> blocks st (Height bh) = Some b' \<Longrightarrow>
      block_Hash C b' = Some h' \<Longrightarrow> block_Hash C b = Some h \<Longrightarrow> h \<noteq> h' \<Longrightarrow>
      \<exists>e st'. SaveBlock S b st = (Inl e, st')"
    and save_again: "header b = Some bh \<Longrightarrow> blocks st (Height bh) = Some b \<Longrightarrow>
      block_Hash C b = Some h \<Longrightarrow> \<exists>st'. SaveBlock S b st = (Inr (), st')"
    and finalize_keeps: "FinalizeHeight S ht st = (r, st') \<Longrightarrow> blocks st' = blocks st"
    and finalize_ok: "\<exists>st'. FinalizeHeight S ht st = (Inr (), st')"
    and get_block: "GetBlock S ht st =
      (case blocks st ht of None \<Rightarrow> (Inl Missing, st) | Some b \<Rightarrow> (Inr b, st))"
begin

definition stored :: "'st chain \<Rightarrow> uint64 \<rightharpoonup> unit block" where
  "stored c = blocks (store c)"

lemma on_store_save:
  assumes "on_store (SaveBlock S b) c = (Inr u, c1)"
  obtains bh where "header b = Some bh" "stored c1 = (stored c)(Height bh \<mapsto> b)" "c1 = c\<lparr>store := store c1\<rparr>"
  using assms save_stores [of b "store c"] that
  by (auto simp: on_store_def stored_def split: prod.splits sum.splits)

lemma finalizeCommitState_run:
  assumes "finalizeCommitState S s c = (r, c')"
  shows "r = Inr () \<and> stored c' = stored c \<and>
    snap c' = (if snap_height c < snapshot_Height (Some s) then s else snap c)"
proof -
  let ?m = "if snapshot_TimestampMS (Some s) > lastQueuedSnapshotMS c + saveSnapshotFrequencyMS
    then queueSnapshot s else return ()"
  define c1 where "c1 = snd (?m c)"
  have c1: "?m c = (Inr (), c1)" "store c1 = store c" "snap c1 = snap c"
    by (simp_all add: c1_def sm_simps queueSnapshot_def)
  define c2 where "c2 = snd (setState s c1)"
  have c2: "setState s c1 = (Inr (), c2)" "store c2 = store c"
    "snap c2 = (if snap_height c < snapshot_Height (Some s) then s else snap c)"
    using c1 by (cases "snapshot_Height (Some s) \<le> snap_height c"; simp add: c2_def setState_def sm_simps)+
  obtain st' where "FinalizeHeight S (snapshot_Height (Some s)) (store c2) = (Inr (), st')"
    "blocks st' = blocks (store c2)"
    using finalize_ok finalize_keeps by meson
  with assms c1(1) c2 show ?thesis
    by (auto simp: finalizeCommitState_def sm_simps andthen_run_Inr [where m = ?m, OF c1(1)] on_store_def stored_def)
qed

text \<open>Committing a block, phase by phase.\<close>

lemma CommitBlock_cases:
  assumes "CommitBlock C S b c = (r, c')"
  obtains (not_saved) e where "r = Inl (StoreErr e)" "snap c' = snap c" "stored c' = stored c"
  | (known) bh where "header b = Some bh" "r = Inr ()" "snap c' = snap c"
      "stored c' = (stored c)(Height bh \<mapsto> b)" "Height bh \<le> snap_height c"
  | (rejected) bh e where "header b = Some bh" "r = Inl e" "snap c' = snap c"
      "stored c' = (stored c)(Height bh \<mapsto> b)" "\<not> Height bh \<le> snap_height c"
  | (applied) bh s where "header b = Some bh" "r = Inr ()" "stored c' = (stored c)(Height bh \<mapsto> b)"
      "\<not> Height bh \<le> snap_height c" "ApplyBlock C b (Copy (snap c)) = (Inr (), s)"
      "check_roots C bh s (c\<lparr>store := store c'\<rparr>) = (Inr (), c\<lparr>store := store c'\<rparr>)"
      "snap c' = (if snap_height c < snapshot_Height (Some s) then s else snap c)"
proof -
  obtain r1 c1 where c1: "on_store (SaveBlock S b) c = (r1, c1)" by (cases "on_store (SaveBlock S b) c")
  show ?thesis
  proof (cases r1)
    case (Inl e)
    with c1 assms have "r = Inl e" "c' = c1" by (simp_all add: CommitBlock_def sm_simps)
    with c1 Inl save_fails [of b "store c"] show ?thesis
      by (auto simp: on_store_def stored_def split: prod.splits sum.splits intro: not_saved)
  next
    case (Inr u)
    then obtain bh where bh: "header b = Some bh" "stored c1 = (stored c)(Height bh \<mapsto> b)"
      and eq: "c1 = c\<lparr>store := store c1\<rparr>" using on_store_save c1 by blast
    then have snap: "snap c1 = snap c" by (metis chain.ext_inject chain.surjective chain.update_convs(6))
    show ?thesis
    proof (cases "Height bh \<le> snap_height c")
      case True
      with assms c1 Inr bh snap have "r = Inr ()" "c' = c1"
        by (simp_all add: CommitBlock_def sm_simps Chain_State_def deref_def return_def)
      with True bh snap known show ?thesis by blast
    next
      case False
      obtain ra s where a: "ApplyBlock C b (Copy (snap c)) = (ra, s)" by (cases "ApplyBlock C b (Copy (snap c))")
      have run: "CommitBlock C S b c = (case ra of Inl e \<Rightarrow> panic (StateErr e)
          | Inr _ \<Rightarrow> andthen (check_roots C bh s) (finalizeCommitState S s)) c1"
        using c1 Inr bh snap False a
        by (simp add: CommitBlock_def sm_simps Chain_State_def deref_def split: sum.split)
      obtain rr c2 where rr: "check_roots C bh s c1 = (rr, c2)" by (cases "check_roots C bh s c1")
      then have "c2 = c1" by (auto simp: check_roots_def deref_def guard_def return_def panic_def bind_def andthen_def split: option.splits if_splits)
      note rr = rr [unfolded this]
      show ?thesis
      proof (cases ra)
        case (Inl e)
        with run assms bh snap False rejected show ?thesis by (simp add: sm_simps)
      next
        case ra: (Inr u)
        show ?thesis
        proof (cases rr)
          case (Inl e)
          with run assms bh snap False rejected rr ra show ?thesis by (simp add: sm_simps)
        next
          case (Inr v)
          with run assms ra rr have f: "finalizeCommitState S s c1 = (r, c')" by (simp add: sm_simps)
          have cr: "check_roots C bh s x = (Inr (), x)" for x :: "'st chain"
            using rr Inr by (auto simp: check_roots_def deref_def guard_def return_def panic_def bind_def andthen_def split: option.splits if_splits)
          show ?thesis
            by (rule applied [of bh s]) (use finalizeCommitState_run [OF f] bh snap False a ra cr in auto)
        qed
      qed
    qed
  qed
qed

end

section \<open>The store in memory\<close>

interpretation mem: block_store C "memstore C" "\<lambda>m. map_of (Blocks m)"
  for C :: "('z) crypto_scheme"
proof
  fix b st st' e h h' bh b' ht r
  show "SaveBlock (memstore C) b st = (Inr (), st') \<Longrightarrow>
      \<exists>bh. header b = Some bh \<and> map_of (Blocks st') = (map_of (Blocks st))(Height bh \<mapsto> b)"
    by (auto simp: memstore_def mem_SaveBlock_def sm_simps sm_okE update_conv' split: option.splits)
  show "SaveBlock (memstore C) b st = (Inl e, st') \<Longrightarrow> map_of (Blocks st') = map_of (Blocks st)"
    by (auto simp: memstore_def mem_SaveBlock_def sm_simps bind_def andthen_def guard_def return_def
        panic_def modify_def gets_def split: option.splits if_splits)
  show "\<exists>e st'. SaveBlock (memstore C) b st = (Inl e, st')"
    if "header b = Some bh" "map_of (Blocks st) (Height bh) = Some b'" "block_Hash C b' = Some h'"
      "block_Hash C b = Some h" "h \<noteq> h'"
    using that by (simp add: memstore_def mem_SaveBlock_def sm_simps)
  show "\<exists>st'. SaveBlock (memstore C) b st = (Inr (), st')"
    if "header b = Some bh" "map_of (Blocks st) (Height bh) = Some b" "block_Hash C b = Some h"
    using that by (simp add: memstore_def mem_SaveBlock_def sm_simps)
  show "FinalizeHeight (memstore C) ht st = (r, st') \<Longrightarrow> map_of (Blocks st') = map_of (Blocks st)"
    by (auto simp: memstore_def mem_FinalizeHeight_def sm_simps)
  show "\<exists>st'. FinalizeHeight (memstore C) ht st = (Inr (), st')"
    by (simp add: memstore_def mem_FinalizeHeight_def sm_simps)
  show "GetBlock (memstore C) ht st =
      (case map_of (Blocks st) ht of None \<Rightarrow> (Inl Missing, st) | Some b \<Rightarrow> (Inr b, st))"
    by (simp add: memstore_def mem_GetBlock_def sm_simps split: option.split)
qed

section \<open>Committing\<close>

lemma Copy_id [simp]: "Copy s = s"
  by (simp add: Copy_def)

lemma spec_ApplyBlock_latest:
  assumes "spec_ApplyBlock C b a = Inr a'" and "header b = Some bh"
  shows "latest a' = Some bh"
proof -
  from assms obtain a1 where "spec_header C bh (spec_prune (TimestampMs bh) a) = Inr a1" "spec_txs (Transactions b) a1 = Inr a'"
    by (auto simp: spec_ApplyBlock_def split: sum.splits)
  with spec_txs_flat show ?thesis by (fastforce simp: spec_header_def split: option.splits if_splits)
qed

lemma ApplyBlock_ok:
  assumes "snap_ok C s" and "ApplyBlock C b s = (Inr (), s')" and "header b = Some bh"
  shows "snap_ok C s' \<and> spec_ApplyBlock C b (abs_state s) = Inr (abs_state s') \<and>
    snapshot_Height (Some s') = Height bh"
proof -
  have 1: "snap_ok C s'" "spec_ApplyBlock C b (abs_state s) = Inr (abs_state s')"
    using ApplyBlock_spec [OF assms(1), of b] assms(2) by simp_all
  with spec_ApplyBlock_latest [OF 1(2) assms(3)] show ?thesis
    by (simp add: abs_state_def snapshot_Height_def)
qed

lemma check_roots_ok:
  "check_roots C bh s c = (Inr (), c') \<longleftrightarrow> c' = c \<and>
   (\<exists>cr nr. ContractsRoot bh = Some cr \<and> NoncesRoot bh = Some nr \<and>
     Byte32 cr = fst (RootHash C (ContractsTree s)) \<and> Byte32 nr = fst (RootHash C (NonceTree s)))"
  by (auto simp: check_roots_def deref_def sm_okE split: option.splits)

text \<open>
  C26: Committing a block to a chain over the memory store. If \<^verbatim>\<open>CommitBlock\<close> succeeds, the block is
  in the store and either the chain was already at its height and is left alone, or its snapshot
  is now the one that the protocol's rules derive from the old snapshot and the block, at the
  block's height, with the contracts and nonces roots that the header declares. If it fails, the
  snapshot is unchanged.
\<close>

theorem CommitBlock_correct:
  assumes "snap_ok C (snap c)" and "CommitBlock C (memstore C) b c = (r, c')"
  shows "case r of Inl e \<Rightarrow> snap c' = snap c
    | Inr _ \<Rightarrow> snap_ok C (snap c') \<and> (\<exists>bh. header b = Some bh \<and> map_of (Blocks (store c')) (Height bh) = Some b \<and>
       (if Height bh \<le> snapshot_Height (Some (snap c)) then snap c' = snap c
        else spec_ApplyBlock C b (abs_state (snap c)) = Inr (abs_state (snap c')) \<and>
          snapshot_Height (Some (snap c')) = Height bh \<and>
          map_option Byte32 (ContractsRoot bh) = Some (fst (RootHash C (ContractsTree (snap c')))) \<and>
          map_option Byte32 (NoncesRoot bh) = Some (fst (RootHash C (NonceTree (snap c'))))))"
  using assms(2)
proof (cases rule: mem.CommitBlock_cases)
  case (applied bh s)
  note s = ApplyBlock_ok [OF assms(1) applied(5) [simplified] applied(1)]
  then have "snap c' = s" using applied(4,7) by (simp add: not_le)
  with s applied show ?thesis by (auto simp: check_roots_ok mem.stored_def)
qed (use assms(1) in \<open>auto simp: mem.stored_def\<close>)

lemma genesis_commits:
  "fst (CommitBlock sample_crypto (memstore sample_crypto) genesis sample_chain) = Inr ()"
  by code_simp

lemma sample_chain_ok: "snap_ok sample_crypto (snap sample_chain)"
  by (simp add: sample_chain_def snap_ok_def Empty_def)

theorem CommitBlock_correct_witness:
  "\<exists>c'. CommitBlock sample_crypto (memstore sample_crypto) genesis sample_chain = (Inr (), c') \<and>
     snapshot_Height (Some (snap c')) = 1"
proof -
  obtain c' where c': "CommitBlock sample_crypto (memstore sample_crypto) genesis sample_chain = (Inr (), c')"
    using genesis_commits by (metis prod.collapse)
  have "\<not> (1 :: uint64) \<le> snapshot_Height (Some (snap sample_chain))"
    by (simp add: sample_chain_def snapshot_Height_def Empty_def)
  with CommitBlock_correct [OF sample_chain_ok c'] c' show ?thesis
    by (auto simp: genesis_def NewInitialBlock_def Let_def)
qed

lemma update_stored: "map_of xs k = Some v \<Longrightarrow> AList.update k v xs = xs"
  by (induction xs) auto

text \<open>
  C27: Committing is idempotent and exclusive. After a successful commit of a block, committing the
  same block again succeeds and changes nothing: not the snapshot, the height, the store, the queued snapshots or the waiting
  goroutines. Committing any block with the same height and another ID fails and changes nothing either.
\<close>

theorem CommitBlock_idempotent:
  assumes "snap_ok C (snap c)" and "CommitBlock C (memstore C) b c = (Inr (), c')"
    and "block_Hash C b = Some h"
  shows "CommitBlock C (memstore C) b c' = (Inr (), c') \<and>
    (\<forall>b2 h2. map_option Height (header b2) = map_option Height (header b) \<longrightarrow>
       block_Hash C b2 = Some h2 \<longrightarrow> h2 \<noteq> h \<longrightarrow>
       CommitBlock C (memstore C) b2 c' = (Inl (StoreErr Duplicate), c'))"
proof -
  obtain bh where bh: "header b = Some bh" "map_of (Blocks (store c')) (Height bh) = Some b"
    "Height bh \<le> snap_height c'"
    using assms(2)
  proof (cases rule: mem.CommitBlock_cases)
    case (applied bh s)
    note s = ApplyBlock_ok [OF assms(1) applied(5) [simplified] applied(1)]
    then have "snap c' = s" using applied(4,7) by (simp add: not_le)
    with s applied that show ?thesis by (simp add: mem.stored_def)
  qed (use that in \<open>auto simp: mem.stored_def\<close>)
  have "SaveBlock (memstore C) b (store c') = (Inr (), store c')"
    using bh(1,2) assms(3) update_stored [OF bh(2)] by (simp add: memstore_def mem_SaveBlock_def sm_simps)
  then have "CommitBlock C (memstore C) b c' = (Inr (), c')"
    using bh by (simp add: CommitBlock_def on_store_def sm_simps Chain_State_def deref_def return_def)
  moreover have "CommitBlock C (memstore C) b2 c' = (Inl (StoreErr Duplicate), c')"
    if other: "map_option Height (header b2) = map_option Height (header b)" "block_Hash C b2 = Some h2" "h2 \<noteq> h"
    for b2 h2
  proof -
    obtain bh2 where bh2: "header b2 = Some bh2" "Height bh2 = Height bh" using other(1) bh(1) by auto
    have "SaveBlock (memstore C) b2 (store c') = (Inl Duplicate, store c')"
      using bh(2) bh2 assms(3) other(2,3) by (simp add: memstore_def mem_SaveBlock_def sm_simps)
    then show ?thesis by (simp add: CommitBlock_def on_store_def sm_simps)
  qed
  ultimately show ?thesis by auto
qed

definition bad_genesis :: "unit block" where
  \<comment> \<open>a first block that declares a nonces root it does not have\<close>
  "bad_genesis = genesis\<lparr>header := map_option (\<lambda>h. h\<lparr>NoncesRoot := Some (NewHash (replicate 32 1))\<rparr>) (header genesis)\<rparr>"

lemma bad_genesis_facts:
  "block_Hash sample_crypto bad_genesis \<noteq> block_Hash sample_crypto genesis"
  "fst (CommitBlock sample_crypto (memstore sample_crypto) bad_genesis sample_chain) = Inl ErrBadNoncesRoot"
  "map_option Height (header bad_genesis) = Some 1" "map_option Height (header genesis) = Some 1"
  "block_Hash sample_crypto bad_genesis \<noteq> None"
  by code_simp+

theorem CommitBlock_idempotent_witness:
  "\<exists>c'. CommitBlock sample_crypto (memstore sample_crypto) genesis sample_chain = (Inr (), c') \<and>
     CommitBlock sample_crypto (memstore sample_crypto) genesis c' = (Inr (), c')"
proof -
  obtain c' where c': "CommitBlock sample_crypto (memstore sample_crypto) genesis sample_chain = (Inr (), c')"
    using genesis_commits by (metis prod.collapse)
  obtain h where "block_Hash sample_crypto genesis = Some h" using genesis_Hash by auto
  from CommitBlock_idempotent [OF sample_chain_ok c' this] c' show ?thesis by blast
qed

text \<open>
  A block that \<^verbatim>\<open>CommitBlock\<close> rejects stays in the store. The block is saved before it is
  applied; when it turns out not to apply, or to declare other roots, the error leaves it there,
  and from then on every other block of that height is refused by the store.
\<close>

theorem CommitBlock_rejected_stays:
  assumes "CommitBlock C (memstore C) b c = (Inl e, c')" and "\<forall>se. e \<noteq> StoreErr se"
    and "block_Hash C b = Some h" and "header b2 = Some bh2" and "header b = Some bh"
    and "Height bh2 = Height bh" and "block_Hash C b2 = Some h2" and "h2 \<noteq> h"
  shows "map_of (Blocks (store c')) (Height bh) = Some b \<and>
    (\<exists>se c''. CommitBlock C (memstore C) b2 c' = (Inl (StoreErr se), c''))"
proof -
  have b: "map_of (Blocks (store c')) (Height bh) = Some b"
    using assms(1)
    by (cases rule: mem.CommitBlock_cases) (use assms(2,5) in \<open>auto simp: mem.stored_def\<close>)
  obtain se st' where "SaveBlock (memstore C) b2 (store c') = (Inl se, st')"
    using mem.save_conflict [OF assms(4) _ assms(3,7,8)] b assms(6) by metis
  with b show ?thesis by (simp add: CommitBlock_def on_store_def sm_simps)
qed

theorem CommitBlock_rejected_stays_witness:
  "\<exists>c' se c''. CommitBlock sample_crypto (memstore sample_crypto) bad_genesis sample_chain = (Inl ErrBadNoncesRoot, c') \<and>
     CommitBlock sample_crypto (memstore sample_crypto) genesis c' = (Inl (StoreErr se), c'')"
proof -
  obtain c' where c': "CommitBlock sample_crypto (memstore sample_crypto) bad_genesis sample_chain = (Inl ErrBadNoncesRoot, c')"
    using bad_genesis_facts(2) by (metis prod.collapse)
  obtain h h2 where "block_Hash sample_crypto bad_genesis = Some h" "block_Hash sample_crypto genesis = Some h2"
    using genesis_Hash bad_genesis_facts(5) by auto
  moreover obtain bh bh2 where "header bad_genesis = Some bh" "header genesis = Some bh2" "Height bh2 = Height bh"
    using bad_genesis_facts(3,4) by auto
  ultimately show ?thesis
    using CommitBlock_rejected_stays [OF c', of h genesis bh2 bh h2] bad_genesis_facts(1) c' by auto
qed

end
