(* ===== verification/ChainGenerate.thy ===== *)
theory ChainGenerate
  imports ChainCommit
begin

text \<open>
  Generating blocks and recovering after a crash: a generated block is valid and is accepted, with
  the very snapshot the generator computed, by every node in the same state; and recovery rebuilds
  from the stored blocks the state they lead to, from whichever snapshot was saved last.
\<close>

section \<open>Applying transactions\<close>

lemma ApplyTx_Inr:
  "ApplyTx C t s = (Inr (), s') \<longleftrightarrow> InitialBlockID s \<noteq> zero_Hash \<and>
   (\<exists>nt ct. apply_nonces C s (Nonces t) (NonceTree s) = Inr nt \<and>
      apply_contracts C (Contracts t) (ContractsTree s) = Inr ct \<and>
      s' = s\<lparr>NonceTree := nt, ContractsTree := ct\<rparr>)"
  by (auto simp: ApplyTx_def sm_simps split: sum.splits if_splits)

lemma ApplyTx_Inl: "ApplyTx C t s = (Inl e, s') \<Longrightarrow> s' = s"
  by (auto simp: ApplyTx_def sm_simps split: sum.splits if_splits)

lemma apply_nonces_more:
  "apply_nonces C s ns t = Inr t' \<Longrightarrow> InitialBlockID s2 = InitialBlockID s \<Longrightarrow>
   set (RefIDs s) \<subseteq> set (RefIDs s2) \<Longrightarrow> apply_nonces C s2 ns t = Inr t'"
  by (induction ns arbitrary: t)
    (auto simp: Let_def list_ex_iff split: option.splits bool.splits if_splits prod.splits)

lemma ApplyTx_more:
  assumes "ApplyTx C t s = (Inr (), s')"
  shows "ApplyTx C t (s\<lparr>Header := h, RefIDs := RefIDs s @ r\<rparr>) =
    (Inr (), s'\<lparr>Header := h, RefIDs := RefIDs s' @ r\<rparr>)"
  using assms apply_nonces_more [of C s _ _ _ "s\<lparr>Header := h, RefIDs := RefIDs s @ r\<rparr>"]
  by (auto simp: ApplyTx_Inr)

lemma ApplyTxs_more:
  "each (ApplyTx C) ts s = (Inr (), s') \<Longrightarrow>
   each (ApplyTx C) ts (s\<lparr>Header := h, RefIDs := RefIDs s @ r\<rparr>) =
    (Inr (), s'\<lparr>Header := h, RefIDs := RefIDs s' @ r\<rparr>)"
proof (induction ts arbitrary: s)
  case (Cons t ts)
  then obtain s1 where 1: "ApplyTx C t s = (Inr (), s1)" "each (ApplyTx C) ts s1 = (Inr (), s')"
    by (auto simp: sm_okE)
  with ApplyTx_more [OF 1(1), of r h] Cons.IH [OF 1(2)] show ?case by (simp add: sm_simps)
qed (simp add: sm_simps)

lemma ApplyTxs_same:
  "each (ApplyTx C) ts s = (Inr (), s') \<Longrightarrow>
   InitialBlockID s' = InitialBlockID s \<and> RefIDs s' = RefIDs s \<and> Header s' = Header s \<and>
   (ts \<noteq> [] \<longrightarrow> InitialBlockID s \<noteq> zero_Hash)"
proof (induction ts arbitrary: s)
  case (Cons t ts)
  then obtain s1 where 1: "ApplyTx C t s = (Inr (), s1)" "each (ApplyTx C) ts s1 = (Inr (), s')"
    by (auto simp: sm_okE)
  with Cons.IH [OF 1(2)] show ?case by (auto simp: ApplyTx_Inr)
qed (simp add: sm_simps)

section \<open>Generating\<close>

lemma uint64_less_Suc: "x < - 1 \<Longrightarrow> x < x + 1" for x :: uint64
proof -
  assume "x < - 1"
  moreover have "unat (- 1 :: uint64) = 18446744073709551615"
    by (simp add: unsigned_minus_1_eq_mask mask_eq_exp_minus_1)
  ultimately have "unat x < 18446744073709551615" by (simp add: word_less_nat_alt)
  then show ?thesis by (simp add: word_less_nat_alt unat_word_ariths)
qed

lemma gen_txs_spec:
  assumes "gen_txs C w ts txs runl acc s = Inr (runl', acc', s')"
    and "is_int64 runl" "0 \<le> runl" "len acc \<le> maxBlockTxs"
    and "\<forall>t\<in>set txs. 0 \<le> tx_Runlimit t \<and> is_int64 (tx_Runlimit t)"
  shows "\<exists>new. acc' = acc @ new \<and> each (ApplyTx C) new s = (Inr (), s') \<and>
    (\<forall>t\<in>set new. t \<in> set txs \<and> checkTransactionTime w t ts) \<and>
    runl' = runl + sum_list (map tx_Runlimit new) \<and> is_int64 runl' \<and> 0 \<le> runl' \<and> len acc' \<le> maxBlockTxs"
  using assms
proof (induction txs arbitrary: runl acc s)
  case (Cons t txs)
  show ?case
  proof (cases "len acc \<ge> maxBlockTxs")
    case True
    with Cons.prems show ?thesis by (auto simp: sm_simps)
  next
    case room: False
    obtain r ok where add: "AddInt64 runl (tx_Runlimit t) = (r, ok)" by (cases "AddInt64 runl (tx_Runlimit t)")
    obtain ra s1 where ap: "ApplyTx C t s = (ra, s1)" by (cases "ApplyTx C t s")
    consider (skip) "gen_txs C w ts txs runl acc s = Inr (runl', acc', s')"
      | (take) "checkTransactionTime w t ts" "ok" "ra = Inr ()"
          "gen_txs C w ts txs r (acc @ [t]) s1 = Inr (runl', acc', s')"
      using Cons.prems(1) room add ap ApplyTx_Inl [of C t s _ s1]
      by (auto split: if_splits sum.splits)
    then show ?thesis
    proof cases
      case skip
      with Cons.IH [OF skip] Cons.prems show ?thesis by auto
    next
      case take
      have "r = runl + tx_Runlimit t" "is_int64 r"
        using add take(2) Cons.prems(2,5) AddInt_exact [of 64 runl "tx_Runlimit t"] by (auto simp: AddInt64_def split: if_splits)
      then obtain new where new: "acc' = (acc @ [t]) @ new" "each (ApplyTx C) new s1 = (Inr (), s')"
        "\<forall>t\<in>set new. t \<in> set txs \<and> checkTransactionTime w t ts"
        "runl' = r + sum_list (map tx_Runlimit new)" "is_int64 runl'" "0 \<le> runl'" "len acc' \<le> maxBlockTxs"
        using Cons.IH [OF take(4)] Cons.prems room by (auto simp: maxBlockTxs_def)
      with take ap \<open>r = _\<close> show ?thesis
        by (intro exI [of _ "t # new"]) (auto simp: sm_simps)
    qed
  qed
qed (auto simp: sm_simps)

lemma length_tree_hash:
  "(\<And>x. length (Sum256 C x) = 32) \<Longrightarrow> length (tree_hash C t) = 32"
  by (cases t; cases "the t") (auto simp: tree_hash_def leaf_hash_def)

lemma length_RootHash:
  "(\<And>x. length (Sum256 C x) = 32) \<Longrightarrow> tree_ok C t \<Longrightarrow> length (fst (RootHash C t)) = 32"
  using RootHash_spec [of C t] length_tree_hash [of C t] by simp

lemma PruneNonces_keeps:
  assumes "PruneNonces now s = (Inr (), s')"
  shows "InitialBlockID s' = InitialBlockID s \<and> RefIDs s' = RefIDs s \<and> Header s' = Header s \<and>
    ContractsTree s' = ContractsTree s"
  using assms by (auto simp: PruneNonces_def sm_okE panic_def split: prod.splits option.splits)

lemma ApplyBlockHeader_Inr:
  "ApplyBlockHeader C bh s = (Inr (), s') \<longleftrightarrow>
   (\<exists>h. header_Hash C bh = Some h \<and> (InitialBlockID s = zero_Hash \<longleftrightarrow> Height bh = 1) \<and>
     s' = s\<lparr>InitialBlockID := if InitialBlockID s = zero_Hash then h else InitialBlockID s,
            Header := Some bh, RefIDs := RefIDs s @ [h]\<rparr>)"
  by (auto simp: ApplyBlockHeader_def sm_simps split: option.splits)

lemma header_after_txs:
  assumes "each (ApplyTx C) ts s = (Inr (), s')" and "ApplyBlockHeader C bh s' = (Inr (), s'')"
  shows "\<exists>s1. ApplyBlockHeader C bh s = (Inr (), s1) \<and> each (ApplyTx C) ts s1 = (Inr (), s'')"
proof -
  obtain h where h: "header_Hash C bh = Some h" "InitialBlockID s' = zero_Hash \<longleftrightarrow> Height bh = 1"
    and s'': "s'' = s'\<lparr>InitialBlockID := if InitialBlockID s' = zero_Hash then h else InitialBlockID s',
            Header := Some bh, RefIDs := RefIDs s' @ [h]\<rparr>"
    using assms(2) by (auto simp: ApplyBlockHeader_Inr)
  note same = ApplyTxs_same [OF assms(1)]
  show ?thesis
  proof (cases "InitialBlockID s = zero_Hash")
    case True
    with same assms(1) have "ts = []" "s' = s" by (auto simp: sm_simps)
    with assms(2) show ?thesis by (simp add: sm_simps)
  next
    case False
    have "each (ApplyTx C) ts (s\<lparr>Header := Some bh, RefIDs := RefIDs s @ [h]\<rparr>) = (Inr (), s'')"
      using ApplyTxs_more [OF assms(1), of "[h]" "Some bh"] False same by (simp add: s'')
    with h False same show ?thesis by (auto simp: ApplyBlockHeader_Inr)
  qed
qed

lemma each_ok: "snap_ok C s \<Longrightarrow> each (ApplyTx C) ts s = (Inr (), s') \<Longrightarrow> snap_ok C s'"
  using ApplyTxs_refine [of C s ts] by simp

lemma GenerateBlock_Inr:
  assumes "GenerateBlock C c s now txs = Inr (b, s3, None)"
  obtains prev prevID s1 s2 runl incl bh where
    "Header s = Some prev" "TimestampMs prev < now" "header_Hash C prev = Some prevID"
    "PruneNonces now (snap c) = (Inr (), s1)"
    "gen_txs C (MaxNonceWindow c) now txs 0 [] s1 = Inr (runl, incl, s2)"
    "bh = generated_header C (MaxBlockWindow c) prev prevID now runl incl s2"
    "b = \<lparr>header = Some bh, Transactions = incl, Arguments = []\<rparr>"
    "ApplyBlockHeader C bh s2 = (Inr (), s3)"
  using assms
  by (auto simp: GenerateBlock_def Let_def split: option.splits if_splits prod.splits sum.splits
      intro!: that)

lemma generated_valid:
  assumes bh: "bh_Version bh = 3" "Height bh = Height prev + 1" "PreviousBlockId bh = header_Hash C prev"
      "header_Hash C prev \<noteq> None" "TimestampMs prev < TimestampMs bh"
      "RefsCount bh = (if RefsCount prev < w then wrap64 (RefsCount prev + 1) else w)"
      "TransactionsRoot bh = Some (TxMerkleRoot C txs)" "ExtraFields bh = []"
      "bh_Runlimit bh = sum_list (map tx_Runlimit txs)" "is_int64 (bh_Runlimit bh)" "0 \<le> bh_Runlimit bh"
    and prev: "bh_Version prev \<le> 3" "- (2 ^ 63) \<le> RefsCount prev" "RefsCount prev < 2 ^ 63 - 1"
    and txs: "\<forall>t\<in>set txs. 0 \<le> tx_Runlimit t \<and> is_int64 (tx_Runlimit t)"
  shows "Block C \<lparr>header = Some bh, Transactions = txs, Arguments = as\<rparr> (Some prev) = None \<longleftrightarrow> (\<forall>t\<in>set txs. tx_Version t = 3)"
proof -
  have "wrap64 (RefsCount prev + 1) = RefsCount prev + 1"
    using prev by (intro wrap64_id) (simp add: is_int64_iff)
  then have "RefsCount bh \<le> wrap64 (RefsCount prev + 1)" using bh(6) by auto
  with bh prev have "BlockPrev C bh prev = None" by (simp add: BlockPrev_None)
  moreover have "check_txs (bh_Version bh) txs (bh_Runlimit bh) = None \<longleftrightarrow> (\<forall>t\<in>set txs. tx_Version t = 3)"
    using check_txs_sum [of "bh_Runlimit bh" txs "bh_Version bh"] bh(1,9-11) txs by auto
  ultimately show ?thesis using bh(7,8) by (auto simp: Block_def BlockOnly_def split: option.splits)
qed

text \<open>
  C25: Everybody agrees on generated blocks. If \<^verbatim>\<open>GenerateBlock\<close> on the chain's own snapshot returns a block and a snapshot without
  error, the previous header has at most version 3, and no offered transaction has a negative runlimit, then the block contains only
  offered transactions whose time bounds admit the block time, at most \<open>maxBlockTxs\<close> of them, and every node in the same state that
  has no block at that height yet commits it successfully and reaches exactly the snapshot that the generator returned. The block passes
  \<^verbatim>\<open>validation.Block\<close> against the previous header exactly when the transactions in it all have version 3, which \<^verbatim>\<open>GenerateBlock\<close> does not check.
\<close>

theorem GenerateBlock_commits:
  assumes ok: "snap_ok C (snap c)" and "\<And>x. length (Sum256 C x) = 32"
    and gen: "GenerateBlock C c (snap c) now txs = Inr (b, s', None)"
    and prev: "Header (snap c) = Some prev" "bh_Version prev \<le> 3" "- (2 ^ 63) \<le> RefsCount prev"
      "RefsCount prev < 2 ^ 63 - 1" "Height prev < - 1"
    and txs: "\<forall>t\<in>set txs. 0 \<le> tx_Runlimit t \<and> is_int64 (tx_Runlimit t)"
  shows "(Block C b (Some prev) = None \<longleftrightarrow> (\<forall>t\<in>set (Transactions b). tx_Version t = 3)) \<and> len (Transactions b) \<le> maxBlockTxs \<and>
    (\<forall>t\<in>set (Transactions b). t \<in> set txs \<and> checkTransactionTime (MaxNonceWindow c) t now) \<and>
    (\<forall>n. snap n = snap c \<longrightarrow> map_of (Blocks (store n)) (Height prev + 1) = None \<longrightarrow>
       (\<exists>n'. CommitBlock C (memstore C) b n = (Inr (), n') \<and> snap n' = s'))"
proof -
  obtain prevID s1 s2 runl incl bh where g: "TimestampMs prev < now" "header_Hash C prev = Some prevID"
    "PruneNonces now (snap c) = (Inr (), s1)" "gen_txs C (MaxNonceWindow c) now txs 0 [] s1 = Inr (runl, incl, s2)"
    and bh: "bh = generated_header C (MaxBlockWindow c) prev prevID now runl incl s2"
    and b: "b = \<lparr>header = Some bh, Transactions = incl, Arguments = []\<rparr>"
    and hdr: "ApplyBlockHeader C bh s2 = (Inr (), s')"
    using gen prev(1) by (auto elim!: GenerateBlock_Inr)
  have h: "Height bh = Height prev + 1" "TimestampMs bh = now"
    "ContractsRoot bh = Some (NewHash (fst (RootHash C (ContractsTree s2))))"
    "NoncesRoot bh = Some (NewHash (fst (RootHash C (NonceTree s2))))"
    by (simp_all add: bh generated_header_def Let_def)
  have incl: "each (ApplyTx C) incl s1 = (Inr (), s2)" "runl = sum_list (map tx_Runlimit incl)" "is_int64 runl"
    "0 \<le> runl" "len incl \<le> maxBlockTxs" "\<forall>t\<in>set incl. t \<in> set txs \<and> checkTransactionTime (MaxNonceWindow c) t now"
    using gen_txs_spec [OF g(4)] txs by (auto simp: is_int64_iff maxBlockTxs_def)
  have "Block C b (Some prev) = None \<longleftrightarrow> (\<forall>t\<in>set (Transactions b). tx_Version t = 3)"
    unfolding b block.simps
    by (rule generated_valid [where w = "sint (MaxBlockWindow c)"])
      (use g incl prev txs in \<open>simp_all add: bh generated_header_def Let_def\<close>)
  moreover have app: "ApplyBlock C b (snap c) = (Inr (), s')"
    using header_after_txs [OF incl(1) hdr] g(3) by (auto simp: ApplyBlock_def b h sm_simps)
  moreover have "\<exists>n'. CommitBlock C (memstore C) b n = (Inr (), n') \<and> snap n' = s'"
    if n: "snap n = snap c" "map_of (Blocks (store n)) (Height prev + 1) = None" for n
  proof -
    let ?n = "n\<lparr>store := (store n)\<lparr>Blocks := AList.update (Height bh) b (Blocks (store n))\<rparr>\<rparr>"
    have save: "on_store (SaveBlock (memstore C) b) n = (Inr (), ?n)"
      using n(2) by (simp add: on_store_def memstore_def mem_SaveBlock_def sm_simps b h)
    have cur: "snap_height n = Height prev" using n(1) prev(1) by (simp add: snapshot_Height_def)
    have less: "Height prev < Height prev + 1" using prev(5) by (rule uint64_less_Suc)
    have trees: "ContractsTree s' = ContractsTree s2" "NonceTree s' = NonceTree s2"
      using hdr by (auto simp: ApplyBlockHeader_Inr)
    have s1: "snap_ok C s1" using PruneNonces_refines [OF ok, of now] g(3) by auto
    have "snap_ok C s2" using each_ok [OF s1 incl(1)] .
    then have "Byte32 (NewHash (fst (RootHash C (ContractsTree s2)))) = fst (RootHash C (ContractsTree s2))"
      "Byte32 (NewHash (fst (RootHash C (NonceTree s2)))) = fst (RootHash C (NonceTree s2))"
      using length_RootHash [OF assms(2)] by (simp_all add: snap_ok_def sized_def)
    then have roots: "check_roots C bh s' ?n = (Inr (), ?n)" unfolding check_roots_ok by (simp add: h trees)
    obtain r n' where f: "finalizeCommitState (memstore C) s' ?n = (r, n')"
      by (cases "finalizeCommitState (memstore C) s' ?n")
    have "snapshot_Height (Some s') = Height prev + 1"
      using hdr by (auto simp: ApplyBlockHeader_Inr snapshot_Height_def h)
    with mem.finalizeCommitState_run [OF f] less cur have "r = Inr ()" "snap n' = s'" by auto
    moreover have "header b = Some bh" "Height bh = Height prev + 1" by (simp_all add: b h)
    ultimately have "CommitBlock C (memstore C) b n = (Inr (), n')"
      using save app roots f less cur n(1)
      by (simp add: CommitBlock_def sm_simps Chain_State_def deref_def not_le)
    with \<open>snap n' = s'\<close> show ?thesis by blast
  qed
  ultimately show ?thesis using incl(5,6) by (simp add: b)
qed

definition first_snap :: snapshot where
  "first_snap = sample_snapshot\<lparr>Header := Some sample_header\<rparr>"

definition first_chain :: "MemStore chain" where
  "first_chain = sample_chain\<lparr>snap := first_snap\<rparr>"

lemma first_chain_snap [simp]: "snap first_chain = first_snap"
  by (simp add: first_chain_def)

lemma first_chain_ok: "snap_ok sample_crypto (snap first_chain)"
  using sample_snapshot_ok [of sample_crypto] by (simp add: first_snap_def snap_ok_def)

lemma first_facts:
  "fst (PruneNonces 8 first_snap) = Inr ()"
  "case gen_txs sample_crypto 0 8 [io_tx [sample_out]] 0 [] (snd (PruneNonces 8 first_snap)) of
     Inl _ \<Rightarrow> False | Inr (_, txs, s) \<Rightarrow> length txs = 1 \<and> InitialBlockID s \<noteq> zero_Hash"
  "map_option (\<lambda>h. (bh_Version h, RefsCount h, Height h, TimestampMs h, header_Hash sample_crypto h \<noteq> None,
     map_option predicateTuple (NextPredicate h))) (Header first_snap) =
     Some (3, 0, 1, 7, True, Some (Some [Int64 1, Int64 0]))"
  "(1 :: uint64) < - 1" "\<not> (8 :: uint64) \<le> 7"
  by code_simp+

lemma first_generates:
  "\<exists>b s'. GenerateBlock sample_crypto first_chain (snap first_chain) 8 [io_tx [sample_out]] = Inr (b, s', None) \<and>
     length (Transactions b) = 1"
proof -
  obtain prev prevID np where prev: "Header first_snap = Some prev" "Height prev = 1" "TimestampMs prev = 7"
    "header_Hash sample_crypto prev = Some prevID" "NextPredicate prev = Some np" "predicateTuple np \<noteq> None"
    using first_facts(3) by auto
  obtain s1 where s1: "PruneNonces 8 first_snap = (Inr (), s1)"
    using first_facts(1) by (metis prod.collapse)
  obtain r txs s2 where s2: "gen_txs sample_crypto 0 8 [io_tx [sample_out]] 0 [] s1 = Inr (r, txs, s2)"
    "length txs = 1" "InitialBlockID s2 \<noteq> zero_Hash"
    using first_facts(2) s1 by (auto split: sum.splits prod.splits)
  let ?bh = "generated_header sample_crypto 0 prev prevID 8 r txs s2"
  obtain h where "header_Hash sample_crypto ?bh = Some h"
    using prev by (auto simp: header_Hash_def tupleHeader_def generated_header_def Let_def)
  then have "\<exists>s3. ApplyBlockHeader sample_crypto ?bh s2 = (Inr (), s3)"
    using s2(3) prev(2) by (simp add: ApplyBlockHeader_Inr generated_header_def Let_def)
  moreover have "MaxNonceWindow first_chain = 0" "MaxBlockWindow first_chain = 0"
    by (simp_all add: first_chain_def sample_chain_def)
  ultimately show ?thesis using prev s1 s2 first_facts(5)
    by (auto simp: GenerateBlock_def Let_def simp del: gen_txs.simps)
qed

theorem GenerateBlock_commits_witness:
  "\<exists>b s' n'. GenerateBlock sample_crypto first_chain (snap first_chain) 8 [io_tx [sample_out]] = Inr (b, s', None) \<and>
     length (Transactions b) = 1 \<and> Block sample_crypto b (Header (snap first_chain)) = None \<and>
     CommitBlock sample_crypto (memstore sample_crypto) b first_chain = (Inr (), n') \<and> snap n' = s'"
proof -
  obtain b s' where b: "GenerateBlock sample_crypto first_chain (snap first_chain) 8 [io_tx [sample_out]] = Inr (b, s', None)"
    "length (Transactions b) = 1"
    using first_generates by blast
  obtain prev where prev: "Header first_snap = Some prev" "bh_Version prev = 3" "RefsCount prev = 0" "Height prev = 1"
    using first_facts(3) by auto
  have "map_of (Blocks (store first_chain)) (Height prev + 1) = None"
    by (simp add: first_chain_def sample_chain_def mem_New_def)
  moreover have "length (Sum256 sample_crypto x) = 32" for x by (simp add: sample_crypto_def)
  ultimately show ?thesis
    using GenerateBlock_commits [OF first_chain_ok _ b(1), of prev] first_facts(4) prev b
    by (auto simp: is_int64_iff io_tx_def empty_tx_def)
qed

section \<open>Recovery\<close>

fun apply_blocks :: "('z) crypto_scheme \<Rightarrow> unit block list \<Rightarrow> snapshot \<Rightarrow> snapshot option" where
  \<comment> \<open>apply the blocks in order, checking the contracts root after each\<close>
  "apply_blocks C [] s = Some s"
| "apply_blocks C (b # bs) s =
     (case ApplyBlock C b s of (Inl _, _) \<Rightarrow> None
      | (Inr _, s') \<Rightarrow>
          if Option.bind (header b) ContractsRoot = Some (NewHash (fst (RootHash C (ContractsTree s')))) \<and>
             length (fst (RootHash C (ContractsTree s'))) = 32
          then apply_blocks C bs s' else None)"

definition numbered :: "nat \<Rightarrow> unit block list \<Rightarrow> bool" where
  \<comment> \<open>the blocks have consecutive heights\<close>
  "numbered k bs \<longleftrightarrow> (\<forall>i < length bs. map_option Height (header (bs ! i)) = Some (of_nat (k + i)))"

lemma apply_blocks_append:
  "apply_blocks C (xs @ ys) s = Option.bind (apply_blocks C xs s) (apply_blocks C ys)"
  by (induction xs arbitrary: s) (auto split: prod.splits sum.splits)

lemma ApplyBlock_header:
  assumes "ApplyBlock C b s = (Inr (), s')"
  shows "Header s' = header b \<and> block_Hash C b \<noteq> None"
proof -
  obtain bh s1 s2 where "header b = Some bh" and h: "ApplyBlockHeader C bh s1 = (Inr (), s2)"
    and t: "each (ApplyTx C) (Transactions b) s2 = (Inr (), s')"
    using assms by (auto simp: ApplyBlock_def sm_okE split: option.splits)
  with ApplyTxs_same [OF t] show ?thesis by (auto simp: ApplyBlockHeader_Inr block_Hash_def)
qed

lemma apply_blocks_last:
  assumes "apply_blocks C (xs @ [b]) s0 = Some s"
  shows "\<exists>s1. ApplyBlock C b s1 = (Inr (), s)"
proof -
  from assms obtain s1 where "apply_blocks C [b] s1 = Some s"
    by (auto simp: apply_blocks_append bind_eq_Some_conv)
  then show ?thesis by (auto split: prod.splits sum.splits if_splits)
qed

lemma apply_blocks_height:
  assumes "apply_blocks C bs Empty = Some s" and "numbered 1 bs"
  shows "snapshot_Height (Some s) = of_nat (length bs)"
proof (cases bs rule: rev_cases)
  case Nil
  with assms show ?thesis by (auto simp: snapshot_Height_def Empty_def)
next
  case (snoc xs b)
  with assms(1) obtain s1 where "ApplyBlock C b s1 = (Inr (), s)" using apply_blocks_last by blast
  from ApplyBlock_header [OF this] assms(2) snoc show ?thesis
    by (auto simp: snapshot_Height_def numbered_def dest: spec [of _ "length xs"])
qed

lemma replay_run:
  "(\<And>i. i < length bs \<Longrightarrow> map_of (Blocks (store c)) (of_nat (k + i)) = Some (bs ! i)) \<Longrightarrow>
   apply_blocks C bs s = Some s' \<Longrightarrow>
   replay C (memstore C) (map of_nat [k..<k + length bs]) b s c =
     (Inr (if bs = [] then b else Some (last bs), s'), c)"
proof (induction bs arbitrary: k b s)
  case (Cons a bs)
  from Cons.prems(2) obtain s1 where s1: "ApplyBlock C a s = (Inr (), s1)"
    "Option.bind (header a) ContractsRoot = Some (NewHash (fst (RootHash C (ContractsTree s1))))"
    "length (fst (RootHash C (ContractsTree s1))) = 32" "apply_blocks C bs s1 = Some s'"
    by (auto split: prod.splits sum.splits if_splits)
  have "map_of (Blocks (store c)) (of_nat k) = Some a" using Cons.prems(1) [of 0] by simp
  then have "on_store (GetBlock (memstore C) (of_nat k)) c = (Inr a, c)"
    by (simp add: on_store_def mem.get_block)
  moreover have "replay C (memstore C) (map of_nat [Suc k..<Suc k + length bs]) (Some a) s1 c =
     (Inr (if bs = [] then Some a else Some (last bs), s'), c)"
    using Cons.IH [of "Suc k" s1 "Some a"] Cons.prems(1) [of "Suc _"] s1(4) by simp
  moreover have "[k..<k + length (a # bs)] = k # [Suc k..<Suc k + length bs]"
    by (subst upt_conv_Cons) simp_all
  ultimately show ?case using s1(1-3)
    by (auto simp: sm_simps deref_def bind_eq_Some_conv)
qed (simp add: sm_simps)

lemma heights_eq:
  assumes "k \<le> n" and "n < 2 ^ 64 - 1"
  shows "heights (of_nat k + 1) (of_nat n) = map of_nat [Suc k..<Suc n]"
  using assms by (simp add: heights_def unat_word_ariths unat_of_nat)

text \<open>
  C28: Recovery rebuilds the state of the stored blocks. Suppose the memory store holds blocks
  numbered from 1 that apply one after the other from the empty state with the contracts roots
  they declare, and its saved snapshot (if any) is the state after the first \<open>k\<close> of them. Then
  \<^verbatim>\<open>Recover\<close> succeeds and returns the state after all of them, whichever \<open>k\<close>; and a chain that was
  behind has that state as its current snapshot.
\<close>

theorem Recover_rebuilds:
  assumes "length (Blocks (store c)) = length bs" and "length bs < 2 ^ 64 - 1"
    and "\<And>i. i < length bs \<Longrightarrow> map_of (Blocks (store c)) (of_nat (1 + i)) = Some (bs ! i)"
    and "numbered 1 bs" and "apply_blocks C bs Empty = Some s"
    and "k \<le> length bs" and "apply_blocks C (take k bs) Empty = Some s0"
    and "State (store c) = Some s0 \<or> k = 0 \<and> State (store c) = None"
  shows "\<exists>c'. Recover C (memstore C) c = (Inr s, c') \<and>
    (snapshot_Height (Some (snap c)) < of_nat (length bs) \<longrightarrow> snap c' = s)"
proof -
  let ?n = "length bs"
  have num: "numbered 1 (take k bs)" using assms(4,6) by (simp add: numbered_def)
  have h0: "snapshot_Height (Some s0) = of_nat k"
    using apply_blocks_height [OF assms(7) num] assms(6) by (simp add: min_absorb2)
  have h: "snapshot_Height (Some s) = of_nat ?n" using apply_blocks_height [OF assms(5,4)] .
  define c1 where "c1 = c\<lparr>store := (store c)\<lparr>State := Some s0\<rparr>\<rparr>"
  have latest: "on_store (LatestSnapshot (memstore C)) c = (Inr (Some s0), c1)"
    using assms(7,8) by (auto simp: on_store_def memstore_def mem_LatestSnapshot_def sm_simps c1_def)
  have rest: "apply_blocks C (drop k bs) s0 = Some s"
    using apply_blocks_append [of C "take k bs" "drop k bs" Empty] assms(5,7) by simp
  have kpos: "(of_nat k :: uint64) > 0 \<longleftrightarrow> k > 0"
    using assms(2,6) by (simp add: word_less_nat_alt unat_of_nat)
  obtain b0 c2 where b0: "(if (of_nat k :: uint64) > 0 then
         bind (on_store (GetBlock (memstore C) (of_nat k))) (\<lambda>b.
         andthen (modify (\<lambda>c. c\<lparr>lastQueuedSnapshotMS := snapshot_TimestampMS (Some s0)\<rparr>)) (return (Some b)))
       else return None) c1 = (Inr b0, c2)" "b0 = (if k = 0 then None else Some (bs ! (k - 1)))"
    "store c2 = store c1" "snap c2 = snap c"
  proof (cases "k = 0")
    case False
    then have "map_of (Blocks (store c1)) (of_nat k) = Some (bs ! (k - 1))"
      using assms(3) [of "k - 1"] assms(6) by (simp add: c1_def)
    with False kpos that show ?thesis
      by (simp add: mem.get_block on_store_def sm_simps c1_def)
  qed (use kpos that in \<open>simp add: sm_simps c1_def\<close>)
  have blocks: "Blocks (store c2) = Blocks (store c)" by (simp add: b0(3) c1_def)
  have ht: "on_store (Store_Height (memstore C)) c2 = (Inr (of_nat ?n), c2)"
    using assms(1) by (simp add: on_store_def memstore_def mem_Height_def sm_simps blocks)
  have "replay C (memstore C) (map of_nat [Suc k..<Suc k + length (drop k bs)]) b0 s0 c2 =
      (Inr (if drop k bs = [] then b0 else Some (last (drop k bs)), s), c2)"
  proof (rule replay_run [OF _ rest])
    fix i assume "i < length (drop k bs)"
    then show "map_of (Blocks (store c2)) (of_nat (Suc k + i)) = Some (drop k bs ! i)"
      using assms(3) [of "k + i"] by (simp add: blocks add_ac)
  qed
  moreover have "(if drop k bs = [] then b0 else Some (last (drop k bs))) = (if bs = [] then None else Some (last bs))"
    using assms(6) b0(2) by (auto simp: last_conv_nth)
  ultimately have rep: "replay C (memstore C) (heights (snapshot_Height (Some s0) + 1) (of_nat ?n)) b0 s0 c2 =
      (Inr (if bs = [] then None else Some (last bs), s), c2)"
    using heights_eq [OF assms(6,2)] assms(6) by (simp add: h0)
  show ?thesis
  proof (cases "bs = []")
    case True
    with latest b0 ht rep show ?thesis
      by (auto simp: Recover_def h0 sm_simps Let_def)
  next
    case False
    have "apply_blocks C (butlast bs @ [last bs]) Empty = Some s" using assms(5) False by simp
    then obtain s1 where "ApplyBlock C (last bs) s1 = (Inr (), s)"
      using apply_blocks_last by blast
    note hd = ApplyBlock_header [OF this]
    have n: "1 + (?n - 1) = ?n" "?n - 1 < ?n" using False by (cases bs; simp)+
    then have "map_option Height (header (bs ! (?n - 1))) = Some (of_nat ?n)"
      using assms(4) unfolding numbered_def by metis
    then obtain bh where bh: "header (last bs) = Some bh" "Height bh = of_nat ?n"
      using False by (auto simp: last_conv_nth)
    have "map_of (Blocks (store c2)) (Height bh) = Some (last bs)"
      using assms(3) [of "?n - 1", unfolded n(1), OF n(2)] False bh(2) by (simp add: blocks last_conv_nth)
    then obtain st where "SaveBlock (memstore C) (last bs) (store c2) = (Inr (), st)"
      using mem.save_again [OF bh(1)] hd by blast
    then have save: "on_store (SaveBlock (memstore C) (last bs)) c2 = (Inr (), c2\<lparr>store := st\<rparr>)"
      by (simp add: on_store_def)
    obtain c' where c': "CommitAppliedBlock (memstore C) (last bs) s c2 = (Inr (), c')"
      "snap_height c < of_nat ?n \<longrightarrow> snap c' = s"
    proof (cases "Height bh \<le> snap_height c")
      case True
      then show ?thesis using save bh that b0(4)
        by (simp add: CommitAppliedBlock_def sm_simps Chain_State_def deref_def not_less)
    next
      case ahead: False
      obtain r c' where f: "finalizeCommitState (memstore C) s (c2\<lparr>store := st\<rparr>) = (r, c')"
        by (cases "finalizeCommitState (memstore C) s (c2\<lparr>store := st\<rparr>)")
      with mem.finalizeCommitState_run [OF f] save bh that b0(4) ahead h show ?thesis
        by (simp add: CommitAppliedBlock_def sm_simps Chain_State_def deref_def)
    qed
    with latest b0 ht rep False show ?thesis
      by (auto simp: Recover_def h0 sm_simps Let_def)
  qed
qed

lemma genesis_applies: "map_option snapshot_Height (map_option Some (apply_blocks sample_crypto [genesis] Empty)) = Some 1"
  by code_simp

theorem Recover_rebuilds_witness:
  "\<exists>s c'. Recover sample_crypto (memstore sample_crypto)
       (sample_chain\<lparr>store := \<lparr>Blocks = [(1, genesis)], State = None\<rparr>\<rparr>) = (Inr s, c') \<and>
     apply_blocks sample_crypto [genesis] Empty = Some s \<and> snap c' = s"
proof -
  let ?c = "sample_chain\<lparr>store := \<lparr>Blocks = [(1, genesis)], State = None\<rparr>\<rparr>"
  obtain s where s: "apply_blocks sample_crypto [genesis] Empty = Some s" using genesis_applies by auto
  moreover have "numbered 1 [genesis]" by (simp add: numbered_def genesis_def NewInitialBlock_def Let_def)
  moreover have "snapshot_Height (Some (snap ?c)) < 1"
    by (simp add: sample_chain_def snapshot_Height_def Empty_def)
  ultimately show ?thesis
    using Recover_rebuilds [of ?c "[genesis]" sample_crypto s 0 Empty] by auto
qed

end
