(* ===== verification/Keccak.thy ===== *)
theory Keccak
  imports Varint
begin

text \<open>
  The permutation of SHA-3: \<^verbatim>\<open>crypto/sha3/keccakf.go\<close>. \<open>keccakF1600\<close> is the unrolled code, which keeps the
  lanes of the state in place and lets their layout rotate through four positions; the reference is the round of
  FIPS 202 with its five steps, rotation offsets and round constants computed as the standard defines them.
\<close>

section \<open>The code\<close>

definition rc :: "uint64 list" where
  "rc =
    [0x0000000000000001,
     0x0000000000008082,
     0x800000000000808A,
     0x8000000080008000,
     0x000000000000808B,
     0x0000000080000001,
     0x8000000080008081,
     0x8000000000008009,
     0x000000000000008A,
     0x0000000000000088,
     0x0000000080008009,
     0x000000008000000A,
     0x000000008000808B,
     0x800000000000008B,
     0x8000000000008089,
     0x8000000000008003,
     0x8000000000008002,
     0x8000000000000080,
     0x000000000000800A,
     0x800000008000000A,
     0x8000000080008081,
     0x8000000000008080,
     0x0000000080000001,
     0x8000000080008008]"

definition keccak_round1 :: "uint64 \<Rightarrow> uint64 list \<Rightarrow> uint64 list" where
  "keccak_round1 c a =
    (let bc0 = a ! 0 XOR a ! 5 XOR a ! 10 XOR a ! 15 XOR a ! 20;
         bc1 = a ! 1 XOR a ! 6 XOR a ! 11 XOR a ! 16 XOR a ! 21;
         bc2 = a ! 2 XOR a ! 7 XOR a ! 12 XOR a ! 17 XOR a ! 22;
         bc3 = a ! 3 XOR a ! 8 XOR a ! 13 XOR a ! 18 XOR a ! 23;
         bc4 = a ! 4 XOR a ! 9 XOR a ! 14 XOR a ! 19 XOR a ! 24;
         d0 = bc4 XOR (push_bit 1 bc1 OR drop_bit 63 bc1);
         d1 = bc0 XOR (push_bit 1 bc2 OR drop_bit 63 bc2);
         d2 = bc1 XOR (push_bit 1 bc3 OR drop_bit 63 bc3);
         d3 = bc2 XOR (push_bit 1 bc4 OR drop_bit 63 bc4);
         d4 = bc3 XOR (push_bit 1 bc0 OR drop_bit 63 bc0);
         bc0 = a ! 0 XOR d0;
         t = a ! 6 XOR d1;
         bc1 = push_bit 44 t OR drop_bit (64 - 44) t;
         t = a ! 12 XOR d2;
         bc2 = push_bit 43 t OR drop_bit (64 - 43) t;
         t = a ! 18 XOR d3;
         bc3 = push_bit 21 t OR drop_bit (64 - 21) t;
         t = a ! 24 XOR d4;
         bc4 = push_bit 14 t OR drop_bit (64 - 14) t;
         a = a[0 := bc0 XOR (bc2 AND NOT bc1) XOR c];
         a = a[6 := bc1 XOR (bc3 AND NOT bc2)];
         a = a[12 := bc2 XOR (bc4 AND NOT bc3)];
         a = a[18 := bc3 XOR (bc0 AND NOT bc4)];
         a = a[24 := bc4 XOR (bc1 AND NOT bc0)];
         t = a ! 10 XOR d0;
         bc2 = push_bit 3 t OR drop_bit (64 - 3) t;
         t = a ! 16 XOR d1;
         bc3 = push_bit 45 t OR drop_bit (64 - 45) t;
         t = a ! 22 XOR d2;
         bc4 = push_bit 61 t OR drop_bit (64 - 61) t;
         t = a ! 3 XOR d3;
         bc0 = push_bit 28 t OR drop_bit (64 - 28) t;
         t = a ! 9 XOR d4;
         bc1 = push_bit 20 t OR drop_bit (64 - 20) t;
         a = a[10 := bc0 XOR (bc2 AND NOT bc1)];
         a = a[16 := bc1 XOR (bc3 AND NOT bc2)];
         a = a[22 := bc2 XOR (bc4 AND NOT bc3)];
         a = a[3 := bc3 XOR (bc0 AND NOT bc4)];
         a = a[9 := bc4 XOR (bc1 AND NOT bc0)];
         t = a ! 20 XOR d0;
         bc4 = push_bit 18 t OR drop_bit (64 - 18) t;
         t = a ! 1 XOR d1;
         bc0 = push_bit 1 t OR drop_bit (64 - 1) t;
         t = a ! 7 XOR d2;
         bc1 = push_bit 6 t OR drop_bit (64 - 6) t;
         t = a ! 13 XOR d3;
         bc2 = push_bit 25 t OR drop_bit (64 - 25) t;
         t = a ! 19 XOR d4;
         bc3 = push_bit 8 t OR drop_bit (64 - 8) t;
         a = a[20 := bc0 XOR (bc2 AND NOT bc1)];
         a = a[1 := bc1 XOR (bc3 AND NOT bc2)];
         a = a[7 := bc2 XOR (bc4 AND NOT bc3)];
         a = a[13 := bc3 XOR (bc0 AND NOT bc4)];
         a = a[19 := bc4 XOR (bc1 AND NOT bc0)];
         t = a ! 5 XOR d0;
         bc1 = push_bit 36 t OR drop_bit (64 - 36) t;
         t = a ! 11 XOR d1;
         bc2 = push_bit 10 t OR drop_bit (64 - 10) t;
         t = a ! 17 XOR d2;
         bc3 = push_bit 15 t OR drop_bit (64 - 15) t;
         t = a ! 23 XOR d3;
         bc4 = push_bit 56 t OR drop_bit (64 - 56) t;
         t = a ! 4 XOR d4;
         bc0 = push_bit 27 t OR drop_bit (64 - 27) t;
         a = a[5 := bc0 XOR (bc2 AND NOT bc1)];
         a = a[11 := bc1 XOR (bc3 AND NOT bc2)];
         a = a[17 := bc2 XOR (bc4 AND NOT bc3)];
         a = a[23 := bc3 XOR (bc0 AND NOT bc4)];
         a = a[4 := bc4 XOR (bc1 AND NOT bc0)];
         t = a ! 15 XOR d0;
         bc3 = push_bit 41 t OR drop_bit (64 - 41) t;
         t = a ! 21 XOR d1;
         bc4 = push_bit 2 t OR drop_bit (64 - 2) t;
         t = a ! 2 XOR d2;
         bc0 = push_bit 62 t OR drop_bit (64 - 62) t;
         t = a ! 8 XOR d3;
         bc1 = push_bit 55 t OR drop_bit (64 - 55) t;
         t = a ! 14 XOR d4;
         bc2 = push_bit 39 t OR drop_bit (64 - 39) t;
         a = a[15 := bc0 XOR (bc2 AND NOT bc1)];
         a = a[21 := bc1 XOR (bc3 AND NOT bc2)];
         a = a[2 := bc2 XOR (bc4 AND NOT bc3)];
         a = a[8 := bc3 XOR (bc0 AND NOT bc4)];
         a = a[14 := bc4 XOR (bc1 AND NOT bc0)]
     in a)"

definition keccak_round2 :: "uint64 \<Rightarrow> uint64 list \<Rightarrow> uint64 list" where
  "keccak_round2 c a =
    (let bc0 = a ! 0 XOR a ! 5 XOR a ! 10 XOR a ! 15 XOR a ! 20;
         bc1 = a ! 1 XOR a ! 6 XOR a ! 11 XOR a ! 16 XOR a ! 21;
         bc2 = a ! 2 XOR a ! 7 XOR a ! 12 XOR a ! 17 XOR a ! 22;
         bc3 = a ! 3 XOR a ! 8 XOR a ! 13 XOR a ! 18 XOR a ! 23;
         bc4 = a ! 4 XOR a ! 9 XOR a ! 14 XOR a ! 19 XOR a ! 24;
         d0 = bc4 XOR (push_bit 1 bc1 OR drop_bit 63 bc1);
         d1 = bc0 XOR (push_bit 1 bc2 OR drop_bit 63 bc2);
         d2 = bc1 XOR (push_bit 1 bc3 OR drop_bit 63 bc3);
         d3 = bc2 XOR (push_bit 1 bc4 OR drop_bit 63 bc4);
         d4 = bc3 XOR (push_bit 1 bc0 OR drop_bit 63 bc0);
         bc0 = a ! 0 XOR d0;
         t = a ! 16 XOR d1;
         bc1 = push_bit 44 t OR drop_bit (64 - 44) t;
         t = a ! 7 XOR d2;
         bc2 = push_bit 43 t OR drop_bit (64 - 43) t;
         t = a ! 23 XOR d3;
         bc3 = push_bit 21 t OR drop_bit (64 - 21) t;
         t = a ! 14 XOR d4;
         bc4 = push_bit 14 t OR drop_bit (64 - 14) t;
         a = a[0 := bc0 XOR (bc2 AND NOT bc1) XOR c];
         a = a[16 := bc1 XOR (bc3 AND NOT bc2)];
         a = a[7 := bc2 XOR (bc4 AND NOT bc3)];
         a = a[23 := bc3 XOR (bc0 AND NOT bc4)];
         a = a[14 := bc4 XOR (bc1 AND NOT bc0)];
         t = a ! 20 XOR d0;
         bc2 = push_bit 3 t OR drop_bit (64 - 3) t;
         t = a ! 11 XOR d1;
         bc3 = push_bit 45 t OR drop_bit (64 - 45) t;
         t = a ! 2 XOR d2;
         bc4 = push_bit 61 t OR drop_bit (64 - 61) t;
         t = a ! 18 XOR d3;
         bc0 = push_bit 28 t OR drop_bit (64 - 28) t;
         t = a ! 9 XOR d4;
         bc1 = push_bit 20 t OR drop_bit (64 - 20) t;
         a = a[20 := bc0 XOR (bc2 AND NOT bc1)];
         a = a[11 := bc1 XOR (bc3 AND NOT bc2)];
         a = a[2 := bc2 XOR (bc4 AND NOT bc3)];
         a = a[18 := bc3 XOR (bc0 AND NOT bc4)];
         a = a[9 := bc4 XOR (bc1 AND NOT bc0)];
         t = a ! 15 XOR d0;
         bc4 = push_bit 18 t OR drop_bit (64 - 18) t;
         t = a ! 6 XOR d1;
         bc0 = push_bit 1 t OR drop_bit (64 - 1) t;
         t = a ! 22 XOR d2;
         bc1 = push_bit 6 t OR drop_bit (64 - 6) t;
         t = a ! 13 XOR d3;
         bc2 = push_bit 25 t OR drop_bit (64 - 25) t;
         t = a ! 4 XOR d4;
         bc3 = push_bit 8 t OR drop_bit (64 - 8) t;
         a = a[15 := bc0 XOR (bc2 AND NOT bc1)];
         a = a[6 := bc1 XOR (bc3 AND NOT bc2)];
         a = a[22 := bc2 XOR (bc4 AND NOT bc3)];
         a = a[13 := bc3 XOR (bc0 AND NOT bc4)];
         a = a[4 := bc4 XOR (bc1 AND NOT bc0)];
         t = a ! 10 XOR d0;
         bc1 = push_bit 36 t OR drop_bit (64 - 36) t;
         t = a ! 1 XOR d1;
         bc2 = push_bit 10 t OR drop_bit (64 - 10) t;
         t = a ! 17 XOR d2;
         bc3 = push_bit 15 t OR drop_bit (64 - 15) t;
         t = a ! 8 XOR d3;
         bc4 = push_bit 56 t OR drop_bit (64 - 56) t;
         t = a ! 24 XOR d4;
         bc0 = push_bit 27 t OR drop_bit (64 - 27) t;
         a = a[10 := bc0 XOR (bc2 AND NOT bc1)];
         a = a[1 := bc1 XOR (bc3 AND NOT bc2)];
         a = a[17 := bc2 XOR (bc4 AND NOT bc3)];
         a = a[8 := bc3 XOR (bc0 AND NOT bc4)];
         a = a[24 := bc4 XOR (bc1 AND NOT bc0)];
         t = a ! 5 XOR d0;
         bc3 = push_bit 41 t OR drop_bit (64 - 41) t;
         t = a ! 21 XOR d1;
         bc4 = push_bit 2 t OR drop_bit (64 - 2) t;
         t = a ! 12 XOR d2;
         bc0 = push_bit 62 t OR drop_bit (64 - 62) t;
         t = a ! 3 XOR d3;
         bc1 = push_bit 55 t OR drop_bit (64 - 55) t;
         t = a ! 19 XOR d4;
         bc2 = push_bit 39 t OR drop_bit (64 - 39) t;
         a = a[5 := bc0 XOR (bc2 AND NOT bc1)];
         a = a[21 := bc1 XOR (bc3 AND NOT bc2)];
         a = a[12 := bc2 XOR (bc4 AND NOT bc3)];
         a = a[3 := bc3 XOR (bc0 AND NOT bc4)];
         a = a[19 := bc4 XOR (bc1 AND NOT bc0)]
     in a)"

definition keccak_round3 :: "uint64 \<Rightarrow> uint64 list \<Rightarrow> uint64 list" where
  "keccak_round3 c a =
    (let bc0 = a ! 0 XOR a ! 5 XOR a ! 10 XOR a ! 15 XOR a ! 20;
         bc1 = a ! 1 XOR a ! 6 XOR a ! 11 XOR a ! 16 XOR a ! 21;
         bc2 = a ! 2 XOR a ! 7 XOR a ! 12 XOR a ! 17 XOR a ! 22;
         bc3 = a ! 3 XOR a ! 8 XOR a ! 13 XOR a ! 18 XOR a ! 23;
         bc4 = a ! 4 XOR a ! 9 XOR a ! 14 XOR a ! 19 XOR a ! 24;
         d0 = bc4 XOR (push_bit 1 bc1 OR drop_bit 63 bc1);
         d1 = bc0 XOR (push_bit 1 bc2 OR drop_bit 63 bc2);
         d2 = bc1 XOR (push_bit 1 bc3 OR drop_bit 63 bc3);
         d3 = bc2 XOR (push_bit 1 bc4 OR drop_bit 63 bc4);
         d4 = bc3 XOR (push_bit 1 bc0 OR drop_bit 63 bc0);
         bc0 = a ! 0 XOR d0;
         t = a ! 11 XOR d1;
         bc1 = push_bit 44 t OR drop_bit (64 - 44) t;
         t = a ! 22 XOR d2;
         bc2 = push_bit 43 t OR drop_bit (64 - 43) t;
         t = a ! 8 XOR d3;
         bc3 = push_bit 21 t OR drop_bit (64 - 21) t;
         t = a ! 19 XOR d4;
         bc4 = push_bit 14 t OR drop_bit (64 - 14) t;
         a = a[0 := bc0 XOR (bc2 AND NOT bc1) XOR c];
         a = a[11 := bc1 XOR (bc3 AND NOT bc2)];
         a = a[22 := bc2 XOR (bc4 AND NOT bc3)];
         a = a[8 := bc3 XOR (bc0 AND NOT bc4)];
         a = a[19 := bc4 XOR (bc1 AND NOT bc0)];
         t = a ! 15 XOR d0;
         bc2 = push_bit 3 t OR drop_bit (64 - 3) t;
         t = a ! 1 XOR d1;
         bc3 = push_bit 45 t OR drop_bit (64 - 45) t;
         t = a ! 12 XOR d2;
         bc4 = push_bit 61 t OR drop_bit (64 - 61) t;
         t = a ! 23 XOR d3;
         bc0 = push_bit 28 t OR drop_bit (64 - 28) t;
         t = a ! 9 XOR d4;
         bc1 = push_bit 20 t OR drop_bit (64 - 20) t;
         a = a[15 := bc0 XOR (bc2 AND NOT bc1)];
         a = a[1 := bc1 XOR (bc3 AND NOT bc2)];
         a = a[12 := bc2 XOR (bc4 AND NOT bc3)];
         a = a[23 := bc3 XOR (bc0 AND NOT bc4)];
         a = a[9 := bc4 XOR (bc1 AND NOT bc0)];
         t = a ! 5 XOR d0;
         bc4 = push_bit 18 t OR drop_bit (64 - 18) t;
         t = a ! 16 XOR d1;
         bc0 = push_bit 1 t OR drop_bit (64 - 1) t;
         t = a ! 2 XOR d2;
         bc1 = push_bit 6 t OR drop_bit (64 - 6) t;
         t = a ! 13 XOR d3;
         bc2 = push_bit 25 t OR drop_bit (64 - 25) t;
         t = a ! 24 XOR d4;
         bc3 = push_bit 8 t OR drop_bit (64 - 8) t;
         a = a[5 := bc0 XOR (bc2 AND NOT bc1)];
         a = a[16 := bc1 XOR (bc3 AND NOT bc2)];
         a = a[2 := bc2 XOR (bc4 AND NOT bc3)];
         a = a[13 := bc3 XOR (bc0 AND NOT bc4)];
         a = a[24 := bc4 XOR (bc1 AND NOT bc0)];
         t = a ! 20 XOR d0;
         bc1 = push_bit 36 t OR drop_bit (64 - 36) t;
         t = a ! 6 XOR d1;
         bc2 = push_bit 10 t OR drop_bit (64 - 10) t;
         t = a ! 17 XOR d2;
         bc3 = push_bit 15 t OR drop_bit (64 - 15) t;
         t = a ! 3 XOR d3;
         bc4 = push_bit 56 t OR drop_bit (64 - 56) t;
         t = a ! 14 XOR d4;
         bc0 = push_bit 27 t OR drop_bit (64 - 27) t;
         a = a[20 := bc0 XOR (bc2 AND NOT bc1)];
         a = a[6 := bc1 XOR (bc3 AND NOT bc2)];
         a = a[17 := bc2 XOR (bc4 AND NOT bc3)];
         a = a[3 := bc3 XOR (bc0 AND NOT bc4)];
         a = a[14 := bc4 XOR (bc1 AND NOT bc0)];
         t = a ! 10 XOR d0;
         bc3 = push_bit 41 t OR drop_bit (64 - 41) t;
         t = a ! 21 XOR d1;
         bc4 = push_bit 2 t OR drop_bit (64 - 2) t;
         t = a ! 7 XOR d2;
         bc0 = push_bit 62 t OR drop_bit (64 - 62) t;
         t = a ! 18 XOR d3;
         bc1 = push_bit 55 t OR drop_bit (64 - 55) t;
         t = a ! 4 XOR d4;
         bc2 = push_bit 39 t OR drop_bit (64 - 39) t;
         a = a[10 := bc0 XOR (bc2 AND NOT bc1)];
         a = a[21 := bc1 XOR (bc3 AND NOT bc2)];
         a = a[7 := bc2 XOR (bc4 AND NOT bc3)];
         a = a[18 := bc3 XOR (bc0 AND NOT bc4)];
         a = a[4 := bc4 XOR (bc1 AND NOT bc0)]
     in a)"

definition keccak_round4 :: "uint64 \<Rightarrow> uint64 list \<Rightarrow> uint64 list" where
  "keccak_round4 c a =
    (let bc0 = a ! 0 XOR a ! 5 XOR a ! 10 XOR a ! 15 XOR a ! 20;
         bc1 = a ! 1 XOR a ! 6 XOR a ! 11 XOR a ! 16 XOR a ! 21;
         bc2 = a ! 2 XOR a ! 7 XOR a ! 12 XOR a ! 17 XOR a ! 22;
         bc3 = a ! 3 XOR a ! 8 XOR a ! 13 XOR a ! 18 XOR a ! 23;
         bc4 = a ! 4 XOR a ! 9 XOR a ! 14 XOR a ! 19 XOR a ! 24;
         d0 = bc4 XOR (push_bit 1 bc1 OR drop_bit 63 bc1);
         d1 = bc0 XOR (push_bit 1 bc2 OR drop_bit 63 bc2);
         d2 = bc1 XOR (push_bit 1 bc3 OR drop_bit 63 bc3);
         d3 = bc2 XOR (push_bit 1 bc4 OR drop_bit 63 bc4);
         d4 = bc3 XOR (push_bit 1 bc0 OR drop_bit 63 bc0);
         bc0 = a ! 0 XOR d0;
         t = a ! 1 XOR d1;
         bc1 = push_bit 44 t OR drop_bit (64 - 44) t;
         t = a ! 2 XOR d2;
         bc2 = push_bit 43 t OR drop_bit (64 - 43) t;
         t = a ! 3 XOR d3;
         bc3 = push_bit 21 t OR drop_bit (64 - 21) t;
         t = a ! 4 XOR d4;
         bc4 = push_bit 14 t OR drop_bit (64 - 14) t;
         a = a[0 := bc0 XOR (bc2 AND NOT bc1) XOR c];
         a = a[1 := bc1 XOR (bc3 AND NOT bc2)];
         a = a[2 := bc2 XOR (bc4 AND NOT bc3)];
         a = a[3 := bc3 XOR (bc0 AND NOT bc4)];
         a = a[4 := bc4 XOR (bc1 AND NOT bc0)];
         t = a ! 5 XOR d0;
         bc2 = push_bit 3 t OR drop_bit (64 - 3) t;
         t = a ! 6 XOR d1;
         bc3 = push_bit 45 t OR drop_bit (64 - 45) t;
         t = a ! 7 XOR d2;
         bc4 = push_bit 61 t OR drop_bit (64 - 61) t;
         t = a ! 8 XOR d3;
         bc0 = push_bit 28 t OR drop_bit (64 - 28) t;
         t = a ! 9 XOR d4;
         bc1 = push_bit 20 t OR drop_bit (64 - 20) t;
         a = a[5 := bc0 XOR (bc2 AND NOT bc1)];
         a = a[6 := bc1 XOR (bc3 AND NOT bc2)];
         a = a[7 := bc2 XOR (bc4 AND NOT bc3)];
         a = a[8 := bc3 XOR (bc0 AND NOT bc4)];
         a = a[9 := bc4 XOR (bc1 AND NOT bc0)];
         t = a ! 10 XOR d0;
         bc4 = push_bit 18 t OR drop_bit (64 - 18) t;
         t = a ! 11 XOR d1;
         bc0 = push_bit 1 t OR drop_bit (64 - 1) t;
         t = a ! 12 XOR d2;
         bc1 = push_bit 6 t OR drop_bit (64 - 6) t;
         t = a ! 13 XOR d3;
         bc2 = push_bit 25 t OR drop_bit (64 - 25) t;
         t = a ! 14 XOR d4;
         bc3 = push_bit 8 t OR drop_bit (64 - 8) t;
         a = a[10 := bc0 XOR (bc2 AND NOT bc1)];
         a = a[11 := bc1 XOR (bc3 AND NOT bc2)];
         a = a[12 := bc2 XOR (bc4 AND NOT bc3)];
         a = a[13 := bc3 XOR (bc0 AND NOT bc4)];
         a = a[14 := bc4 XOR (bc1 AND NOT bc0)];
         t = a ! 15 XOR d0;
         bc1 = push_bit 36 t OR drop_bit (64 - 36) t;
         t = a ! 16 XOR d1;
         bc2 = push_bit 10 t OR drop_bit (64 - 10) t;
         t = a ! 17 XOR d2;
         bc3 = push_bit 15 t OR drop_bit (64 - 15) t;
         t = a ! 18 XOR d3;
         bc4 = push_bit 56 t OR drop_bit (64 - 56) t;
         t = a ! 19 XOR d4;
         bc0 = push_bit 27 t OR drop_bit (64 - 27) t;
         a = a[15 := bc0 XOR (bc2 AND NOT bc1)];
         a = a[16 := bc1 XOR (bc3 AND NOT bc2)];
         a = a[17 := bc2 XOR (bc4 AND NOT bc3)];
         a = a[18 := bc3 XOR (bc0 AND NOT bc4)];
         a = a[19 := bc4 XOR (bc1 AND NOT bc0)];
         t = a ! 20 XOR d0;
         bc3 = push_bit 41 t OR drop_bit (64 - 41) t;
         t = a ! 21 XOR d1;
         bc4 = push_bit 2 t OR drop_bit (64 - 2) t;
         t = a ! 22 XOR d2;
         bc0 = push_bit 62 t OR drop_bit (64 - 62) t;
         t = a ! 23 XOR d3;
         bc1 = push_bit 55 t OR drop_bit (64 - 55) t;
         t = a ! 24 XOR d4;
         bc2 = push_bit 39 t OR drop_bit (64 - 39) t;
         a = a[20 := bc0 XOR (bc2 AND NOT bc1)];
         a = a[21 := bc1 XOR (bc3 AND NOT bc2)];
         a = a[22 := bc2 XOR (bc4 AND NOT bc3)];
         a = a[23 := bc3 XOR (bc0 AND NOT bc4)];
         a = a[24 := bc4 XOR (bc1 AND NOT bc0)]
     in a)"

definition keccak_rounds4 :: "nat \<Rightarrow> uint64 list \<Rightarrow> uint64 list" where
  \<comment> \<open>the body of the loop\<close>
  "keccak_rounds4 i a =
    keccak_round4 (rc ! (i + 3)) (keccak_round3 (rc ! (i + 2)) (keccak_round2 (rc ! (i + 1)) (keccak_round1 (rc ! i) a)))"

definition keccakF1600 :: "uint64 list \<Rightarrow> uint64 list" where
  "keccakF1600 a = foldl (\<lambda>a i. keccak_rounds4 i a) a [0, 4, 8, 12, 16, 20]"

section \<open>The standard\<close>

definition lane :: "uint64 list \<Rightarrow> nat \<Rightarrow> nat \<Rightarrow> uint64" where
  "lane A x y = A ! (x mod 5 + 5 * (y mod 5))"

definition lanes :: "(nat \<Rightarrow> nat \<Rightarrow> uint64) \<Rightarrow> uint64 list" where
  "lanes f = map (\<lambda>i. f (i mod 5) (i div 5)) [0..<25]"

definition theta_C :: "uint64 list \<Rightarrow> nat \<Rightarrow> uint64" where
  "theta_C A x = lane A x 0 XOR lane A x 1 XOR lane A x 2 XOR lane A x 3 XOR lane A x 4"

definition theta_step :: "uint64 list \<Rightarrow> uint64 list" where
  "theta_step A = lanes (\<lambda>x y. lane A x y XOR (theta_C A (x + 4) XOR word_rotl 1 (theta_C A (x + 1))))"

primrec rho_walk :: "nat \<Rightarrow> nat \<Rightarrow> nat \<Rightarrow> nat \<Rightarrow> (nat \<times> nat) list" where
  \<comment> \<open>the walk through the lanes that assigns their rotation offsets: from \<open>t\<close> on, at \<open>(x, y)\<close>\<close>
  "rho_walk 0 t x y = []"
| "rho_walk (Suc n) t x y = (x + 5 * y, (t + 1) * (t + 2) div 2 mod 64) # rho_walk n (t + 1) y ((2 * x + 3 * y) mod 5)"

definition rho_offset :: "nat \<Rightarrow> nat \<Rightarrow> nat" where
  "rho_offset x y = (case map_of (rho_walk 24 0 1 0) (x + 5 * y) of Some r \<Rightarrow> r | None \<Rightarrow> 0)"

definition rho_step :: "uint64 list \<Rightarrow> uint64 list" where
  "rho_step A = lanes (\<lambda>x y. word_rotl (rho_offset x y) (lane A x y))"

definition pi_step :: "uint64 list \<Rightarrow> uint64 list" where
  "pi_step A = lanes (\<lambda>x y. lane A (x + 3 * y) x)"

definition chi_step :: "uint64 list \<Rightarrow> uint64 list" where
  "chi_step A = lanes (\<lambda>x y. lane A x y XOR (lane A (x + 2) y AND NOT (lane A (x + 1) y)))"

definition iota_step :: "uint64 \<Rightarrow> uint64 list \<Rightarrow> uint64 list" where
  "iota_step c A = A[0 := A ! 0 XOR c]"

definition Round :: "uint64 \<Rightarrow> uint64 list \<Rightarrow> uint64 list" where
  "Round c A = iota_step c (chi_step (pi_step (rho_step (theta_step A))))"

definition lfsr_step :: "bool list \<Rightarrow> bool list" where
  "lfsr_step R = (let R = False # R; b = R ! 8 in
     take 8 (R[0 := R ! 0 \<noteq> b, 4 := R ! 4 \<noteq> b, 5 := R ! 5 \<noteq> b, 6 := R ! 6 \<noteq> b]))"

definition rc_bit :: "nat \<Rightarrow> bool" where
  "rc_bit t = hd ((lfsr_step ^^ (t mod 255)) (True # replicate 7 False))"

definition RC :: "nat \<Rightarrow> uint64" where
  "RC i = foldl (OR) 0 (map (\<lambda>j. if rc_bit (j + 7 * i) then push_bit (2 ^ j - 1) 1 else 0) [0..<7])"

definition keccak_f :: "uint64 list \<Rightarrow> uint64 list" where
  "keccak_f A = foldl (\<lambda>A i. Round (RC i) A) A [0..<24]"

section \<open>Equivalence\<close>

lemma rotl_shifts: "0 < n \<Longrightarrow> n < 64 \<Longrightarrow> push_bit n t OR drop_bit (64 - n) t = word_rotl n t" for t :: uint64
proof (rule bit_word_eqI)
  fix k
  assume n: "0 < n" "n < 64" and k: "k < LENGTH(64)"
  have r: "bit (word_rotl n t) k \<longleftrightarrow> bit t ((k + (64 - n)) mod 64)"
    using n k by (simp add: bit_word_rotl_iff)
  show "bit (push_bit n t OR drop_bit (64 - n) t) k \<longleftrightarrow> bit (word_rotl n t) k"
  proof (cases "k < n")
    case True
    with n have "(k + (64 - n)) mod 64 = 64 - n + k" by simp
    with True show ?thesis unfolding r by (simp add: bit_or_iff bit_push_bit_iff bit_drop_bit_eq)
  next
    case False
    obtain m where m: "k = n + m" using False by (metis le_add_diff_inverse not_less)
    have "\<not> bit t (64 - n + k)" using n False bit_imp_le_length [of t "64 - n + k"] by auto
    moreover have "(k + (64 - n)) mod 64 = m"
    proof -
      have "k + (64 - n) = m + 64" using n m by simp
      then show ?thesis using k m by simp
    qed
    ultimately show ?thesis using k unfolding r by (simp add: bit_or_iff bit_push_bit_iff bit_drop_bit_eq m)
  qed
qed

lemma rho_offsets:
  "map (\<lambda>i. rho_offset (i mod 5) (i div 5)) [0..<25] =
    [0, 1, 62, 28, 27, 36, 44, 6, 55, 20, 3, 10, 43, 25, 39, 41, 45, 15, 21, 8, 18, 2, 61, 56, 14]"
  by code_simp

primrec lfsr_bits :: "nat \<Rightarrow> bool list \<Rightarrow> bool list" where
  "lfsr_bits 0 R = []"
| "lfsr_bits (Suc n) R = hd R # lfsr_bits n (lfsr_step R)"

lemma lfsr_bits_eq: "lfsr_bits n R = map (\<lambda>t. hd ((lfsr_step ^^ t) R)) [0..<n]"
proof (induction n arbitrary: R)
  case (Suc n)
  have "[0..<Suc n] = 0 # map Suc [0..<n]" by (simp add: map_Suc_upt upt_conv_Cons)
  with Suc show ?case by (simp add: funpow_swap1 del: upt_Suc)
qed simp

definition rc_table :: "bool list list" where
  "rc_table =
    [[True, False, False, False, False, False, False],
     [False, True, False, True, True, False, False],
     [False, True, True, True, True, False, True],
     [False, False, False, False, True, True, True],
     [True, True, True, True, True, False, False],
     [True, False, False, False, False, True, False],
     [True, False, False, True, True, True, True],
     [True, False, True, False, True, False, True],
     [False, True, True, True, False, False, False],
     [False, False, True, True, False, False, False],
     [True, False, True, False, True, True, False],
     [False, True, True, False, False, True, False],
     [True, True, True, True, True, True, False],
     [True, True, True, True, False, False, True],
     [True, False, True, True, True, False, True],
     [True, True, False, False, True, False, True],
     [False, True, False, False, True, False, True],
     [False, False, False, True, False, False, True],
     [False, True, True, False, True, False, False],
     [False, True, True, False, False, True, True],
     [True, False, False, True, True, True, True],
     [False, False, False, True, True, False, True],
     [True, False, False, False, False, True, False],
     [False, False, True, False, True, True, True]]"

lemma lfsr_table: "lfsr_bits 168 (True # replicate 7 False) = concat rc_table"
  by code_simp

lemma rc_bit_table: "t < 168 \<Longrightarrow> rc_bit t = concat rc_table ! t"
  by (simp add: rc_bit_def lfsr_bits_eq flip: lfsr_table)

definition RC_of :: "bool list \<Rightarrow> uint64" where
  "RC_of bs = foldl (OR) 0 (map (\<lambda>j. if bs ! j then push_bit (2 ^ j - 1) 1 else 0) [0..<7])"

lemma rc_table_rows: "map (\<lambda>i. map (\<lambda>j. concat rc_table ! (j + 7 * i)) [0..<7]) [0..<24] = rc_table"
  by code_simp

lemma rc_of_table: "map RC_of rc_table = rc"
  by code_simp

lemma RC_table: "i < 24 \<Longrightarrow> RC i = RC_of (map (\<lambda>j. concat rc_table ! (j + 7 * i)) [0..<7])"
  unfolding RC_def RC_of_def by (intro arg_cong [where f = "foldl (OR) 0"] map_cong) (simp_all add: rc_bit_table)

lemma rc_RC: "rc = map RC [0..<24]"
proof -
  have "map RC [0..<24] = map RC_of (map (\<lambda>i. map (\<lambda>j. concat rc_table ! (j + 7 * i)) [0..<7]) [0..<24])"
    unfolding map_map comp_def by (rule map_cong) (simp_all add: RC_table)
  then show ?thesis unfolding rc_table_rows rc_of_table ..
qed

definition moved :: "nat \<Rightarrow> nat" where
  "moved i = i mod 5 + 5 * ((i mod 5 + 2 * (i div 5)) mod 5)"

primrec layout :: "nat \<Rightarrow> nat \<Rightarrow> nat" where
  \<comment> \<open>where the code keeps lane \<open>i\<close> after \<open>k\<close> rounds\<close>
  "layout 0 i = i"
| "layout (Suc k) i = moved (layout k i)"

definition view :: "nat \<Rightarrow> uint64 list \<Rightarrow> uint64 list" where
  "view k a = map (\<lambda>i. a ! layout k i) [0..<25]"

lemma upt_25: "[0..<25] = [0, 1, 2, 3, 4, 5, 6, 7, 8, 9, 10, 11, 12, 13, 14, 15, 16, 17, 18, 19, 20, 21, 22, 23, 24]"
  by (simp add: upt_rec)

lemma list25E:
  assumes "length a = 25"
  obtains a0 a1 a2 a3 a4 a5 a6 a7 a8 a9 a10 a11 a12 a13 a14 a15 a16 a17 a18 a19 a20 a21 a22 a23 a24
  where "a = [a0, a1, a2, a3, a4, a5, a6, a7, a8, a9, a10, a11, a12, a13, a14, a15, a16, a17, a18, a19, a20, a21, a22, a23, a24]"
proof -
  have "a = map (\<lambda>i. a ! i) [0..<25]" using map_nth [of a] assms by simp
  then have "a = [a ! 0, a ! 1, a ! 2, a ! 3, a ! 4, a ! 5, a ! 6, a ! 7, a ! 8, a ! 9, a ! 10, a ! 11, a ! 12,
    a ! 13, a ! 14, a ! 15, a ! 16, a ! 17, a ! 18, a ! 19, a ! 20, a ! 21, a ! 22, a ! 23, a ! 24]"
    unfolding upt_25 list.map .
  then show ?thesis by (rule that)
qed

definition theta_D :: "uint64 list \<Rightarrow> nat \<Rightarrow> uint64" where
  "theta_D A x = theta_C A (x + 4) XOR word_rotl 1 (theta_C A (x + 1))" 

definition Round_D :: "(nat \<Rightarrow> uint64) \<Rightarrow> uint64 \<Rightarrow> uint64 list \<Rightarrow> uint64 list" where
  "Round_D d c A = iota_step c (chi_step (pi_step (rho_step (lanes (\<lambda>x y. lane A x y XOR d x)))))"

lemma Round_D: "Round c A = Round_D (theta_D A) c A"
  by (simp add: Round_def Round_D_def theta_step_def theta_D_def)

lemma upd_num: "(x # xs)[numeral k := v] = x # xs[pred_numeral k := v]"
  by (simp add: numeral_eq_Suc)

lemma layout_Suc: "map (layout k) [0..<25] = js \<Longrightarrow> map (layout (Suc k)) [0..<25] = map moved js"
  by auto

lemma layout_0: "map (layout 0) [0..<25] = [0, 1, 2, 3, 4, 5, 6, 7, 8, 9, 10, 11, 12, 13, 14, 15, 16, 17, 18, 19, 20, 21, 22, 23, 24]"
  by (simp add: upt_25)

lemma layout_1: "map (layout 1) [0..<25] = [0, 6, 12, 18, 24, 10, 16, 22, 3, 9, 20, 1, 7, 13, 19, 5, 11, 17, 23, 4, 15, 21, 2, 8, 14]"
  unfolding layout_Suc [OF layout_0, folded One_nat_def] list.map by (simp add: moved_def)

lemma layout_2: "map (layout 2) [0..<25] = [0, 16, 7, 23, 14, 20, 11, 2, 18, 9, 15, 6, 22, 13, 4, 10, 1, 17, 8, 24, 5, 21, 12, 3, 19]"
  unfolding layout_Suc [OF layout_1, unfolded Suc_1] list.map by (simp add: moved_def)

lemma layout_3: "map (layout 3) [0..<25] = [0, 11, 22, 8, 19, 15, 1, 12, 23, 9, 5, 16, 2, 13, 24, 20, 6, 17, 3, 14, 10, 21, 7, 18, 4]"
  unfolding layout_Suc [OF layout_2, unfolded Suc_numeral semiring_norm] list.map by (simp add: moved_def)

lemma layout_4: "map (layout 4) [0..<25] = [0, 1, 2, 3, 4, 5, 6, 7, 8, 9, 10, 11, 12, 13, 14, 15, 16, 17, 18, 19, 20, 21, 22, 23, 24]"
  unfolding layout_Suc [OF layout_3, unfolded Suc_numeral semiring_norm] list.map by (simp add: moved_def)

lemmas layouts = layout_0 layout_1 layout_2 layout_3 layout_4

lemma view_list: "map (layout k) [0..<25] = js \<Longrightarrow> view k a = map ((!) a) js"
  by (auto simp: view_def comp_def)

lemmas views = layouts [THEN view_list, unfolded list.map]

lemma lanes_list: "lanes f = [f 0 0, f 1 0, f 2 0, f 3 0, f 4 0, f 0 1, f 1 1, f 2 1, f 3 1, f 4 1, f 0 2, f 1 2, f 2 2, f 3 2, f 4 2,
  f 0 3, f 1 3, f 2 3, f 3 3, f 4 3, f 0 4, f 1 4, f 2 4, f 3 4, f 4 4]"
  by (simp add: lanes_def upt_25)

lemma rotl_0: "word_rotl 0 x = x" for x :: uint64
  by (rule bit_word_eqI) (simp add: bit_word_rotl_iff)

lemma rho_step_list:
  "rho_step [a0, a1, a2, a3, a4, a5, a6, a7, a8, a9, a10, a11, a12, a13, a14, a15, a16, a17, a18, a19, a20, a21, a22, a23, a24] =
    [a0, word_rotl 1 a1, word_rotl 62 a2, word_rotl 28 a3, word_rotl 27 a4, word_rotl 36 a5, word_rotl 44 a6, word_rotl 6 a7,
     word_rotl 55 a8, word_rotl 20 a9, word_rotl 3 a10, word_rotl 10 a11, word_rotl 43 a12, word_rotl 25 a13, word_rotl 39 a14,
     word_rotl 41 a15, word_rotl 45 a16, word_rotl 15 a17, word_rotl 21 a18, word_rotl 8 a19, word_rotl 18 a20, word_rotl 2 a21,
     word_rotl 61 a22, word_rotl 56 a23, word_rotl 14 a24]"
proof -
  have "rho_step A = map2 word_rotl (map (\<lambda>i. rho_offset (i mod 5) (i div 5)) [0..<25]) (map (\<lambda>i. lane A (i mod 5) (i div 5)) [0..<25])" for A
    by (simp add: rho_step_def lanes_def zip_map_map zip_same_conv_map comp_def)
  then show ?thesis unfolding rho_offsets by (simp add: upt_25 lane_def rotl_0)
qed

lemma Round_D_list:
  "Round_D d c [a0, a1, a2, a3, a4, a5, a6, a7, a8, a9, a10, a11, a12, a13, a14, a15, a16, a17, a18, a19, a20, a21, a22, a23, a24] =
    (let b0 = a0 XOR d 0; b1 = word_rotl 44 (a6 XOR d 1); b2 = word_rotl 43 (a12 XOR d 2); b3 = word_rotl 21 (a18 XOR d 3); b4 = word_rotl 14 (a24 XOR d 4) in
      [b0 XOR (b2 AND NOT b1) XOR c, b1 XOR (b3 AND NOT b2), b2 XOR (b4 AND NOT b3), b3 XOR (b0 AND NOT b4), b4 XOR (b1 AND NOT b0)]) @
    (let b0 = word_rotl 28 (a3 XOR d 3); b1 = word_rotl 20 (a9 XOR d 4); b2 = word_rotl 3 (a10 XOR d 0); b3 = word_rotl 45 (a16 XOR d 1); b4 = word_rotl 61 (a22 XOR d 2) in
      [b0 XOR (b2 AND NOT b1), b1 XOR (b3 AND NOT b2), b2 XOR (b4 AND NOT b3), b3 XOR (b0 AND NOT b4), b4 XOR (b1 AND NOT b0)]) @
    (let b0 = word_rotl 1 (a1 XOR d 1); b1 = word_rotl 6 (a7 XOR d 2); b2 = word_rotl 25 (a13 XOR d 3); b3 = word_rotl 8 (a19 XOR d 4); b4 = word_rotl 18 (a20 XOR d 0) in
      [b0 XOR (b2 AND NOT b1), b1 XOR (b3 AND NOT b2), b2 XOR (b4 AND NOT b3), b3 XOR (b0 AND NOT b4), b4 XOR (b1 AND NOT b0)]) @
    (let b0 = word_rotl 27 (a4 XOR d 4); b1 = word_rotl 36 (a5 XOR d 0); b2 = word_rotl 10 (a11 XOR d 1); b3 = word_rotl 15 (a17 XOR d 2); b4 = word_rotl 56 (a23 XOR d 3) in
      [b0 XOR (b2 AND NOT b1), b1 XOR (b3 AND NOT b2), b2 XOR (b4 AND NOT b3), b3 XOR (b0 AND NOT b4), b4 XOR (b1 AND NOT b0)]) @
    (let b0 = word_rotl 62 (a2 XOR d 2); b1 = word_rotl 55 (a8 XOR d 3); b2 = word_rotl 39 (a14 XOR d 4); b3 = word_rotl 41 (a15 XOR d 0); b4 = word_rotl 2 (a21 XOR d 1) in
      [b0 XOR (b2 AND NOT b1), b1 XOR (b3 AND NOT b2), b2 XOR (b4 AND NOT b3), b3 XOR (b0 AND NOT b4), b4 XOR (b1 AND NOT b0)])"
  by (simp add: Round_D_def lanes_list lane_def rho_step_list pi_step_def chi_step_def iota_step_def Let_def xor.assoc)

lemma rotls:
  fixes t :: uint64
  shows "push_bit 1 t OR drop_bit (64 - 1) t = word_rotl 1 t"
    and "push_bit 2 t OR drop_bit (64 - 2) t = word_rotl 2 t"
    and "push_bit 3 t OR drop_bit (64 - 3) t = word_rotl 3 t"
    and "push_bit 6 t OR drop_bit (64 - 6) t = word_rotl 6 t"
    and "push_bit 8 t OR drop_bit (64 - 8) t = word_rotl 8 t"
    and "push_bit 10 t OR drop_bit (64 - 10) t = word_rotl 10 t"
    and "push_bit 14 t OR drop_bit (64 - 14) t = word_rotl 14 t"
    and "push_bit 15 t OR drop_bit (64 - 15) t = word_rotl 15 t"
    and "push_bit 18 t OR drop_bit (64 - 18) t = word_rotl 18 t"
    and "push_bit 20 t OR drop_bit (64 - 20) t = word_rotl 20 t"
    and "push_bit 21 t OR drop_bit (64 - 21) t = word_rotl 21 t"
    and "push_bit 25 t OR drop_bit (64 - 25) t = word_rotl 25 t"
    and "push_bit 27 t OR drop_bit (64 - 27) t = word_rotl 27 t"
    and "push_bit 28 t OR drop_bit (64 - 28) t = word_rotl 28 t"
    and "push_bit 36 t OR drop_bit (64 - 36) t = word_rotl 36 t"
    and "push_bit 39 t OR drop_bit (64 - 39) t = word_rotl 39 t"
    and "push_bit 41 t OR drop_bit (64 - 41) t = word_rotl 41 t"
    and "push_bit 43 t OR drop_bit (64 - 43) t = word_rotl 43 t"
    and "push_bit 44 t OR drop_bit (64 - 44) t = word_rotl 44 t"
    and "push_bit 45 t OR drop_bit (64 - 45) t = word_rotl 45 t"
    and "push_bit 55 t OR drop_bit (64 - 55) t = word_rotl 55 t"
    and "push_bit 56 t OR drop_bit (64 - 56) t = word_rotl 56 t"
    and "push_bit 61 t OR drop_bit (64 - 61) t = word_rotl 61 t"
    and "push_bit 62 t OR drop_bit (64 - 62) t = word_rotl 62 t"
  by (rule rotl_shifts; simp)+

lemma rotl_1: "push_bit 1 t OR drop_bit 63 t = word_rotl 1 t" for t :: uint64
  using rotl_shifts [of 1 t] by simp

lemma theta_C_list:
  fixes a0 a1 a2 a3 a4 a5 a6 a7 a8 a9 a10 a11 a12 a13 a14 a15 a16 a17 a18 a19 a20 a21 a22 a23 a24 :: uint64
  defines "A \<equiv> [a0, a1, a2, a3, a4, a5, a6, a7, a8, a9, a10, a11, a12, a13, a14, a15, a16, a17, a18, a19, a20, a21, a22, a23, a24]"
  shows "theta_C A 0 = a0 XOR a5 XOR a10 XOR a15 XOR a20"
    and "theta_C A 1 = a1 XOR a6 XOR a11 XOR a16 XOR a21"
    and "theta_C A 2 = a2 XOR a7 XOR a12 XOR a17 XOR a22"
    and "theta_C A 3 = a3 XOR a8 XOR a13 XOR a18 XOR a23"
    and "theta_C A 4 = a4 XOR a9 XOR a14 XOR a19 XOR a24"
  by (simp_all add: theta_C_def lane_def A_def)

lemma theta_D_at:
  "theta_D A 0 = theta_C A 4 XOR word_rotl 1 (theta_C A 1)"
  "theta_D A 1 = theta_C A 0 XOR word_rotl 1 (theta_C A 2)"
  "theta_D A 2 = theta_C A 1 XOR word_rotl 1 (theta_C A 3)"
  "theta_D A 3 = theta_C A 2 XOR word_rotl 1 (theta_C A 4)"
  "theta_D A 4 = theta_C A 3 XOR word_rotl 1 (theta_C A 0)"
  by (simp_all add: theta_D_def theta_C_def lane_def flip: numeral_2_eq_2)

lemma theta_C_view_less: "k < 4 \<Longrightarrow> x < 5 \<Longrightarrow> theta_C (view k a) x = theta_C a x"
proof -
  assume "k < 4" "x < 5"
  then have "k = 0 \<or> k = 1 \<or> k = 2 \<or> k = 3" "x = 0 \<or> x = 1 \<or> x = 2 \<or> x = 3 \<or> x = 4" by linarith+
  then show ?thesis by (elim disjE) (simp_all add: views views [unfolded One_nat_def] theta_C_def lane_def ac_simps flip: numeral_2_eq_2)
qed

lemma theta_C_mod: "theta_C A (x mod 5) = theta_C A x"
  by (simp add: theta_C_def lane_def)

lemma theta_D_view: "k < 4 \<Longrightarrow> theta_D (view k a) = theta_D a"
proof -
  assume k: "k < 4"
  have "theta_C (view k a) x = theta_C a x" for x
    using theta_C_view_less [OF k, of "x mod 5"] by (simp add: theta_C_mod)
  then show ?thesis by (simp add: theta_D_def fun_eq_iff)
qed

lemma Round_view: "k < 4 \<Longrightarrow> Round c (view k a) = Round_D (theta_D a) c (view k a)"
  by (simp add: Round_D theta_D_view)

lemma Round_views:
  "Round c (view 0 a) = Round_D (theta_D a) c (view 0 a)" "Round c (view 1 a) = Round_D (theta_D a) c (view 1 a)"
  "Round c (view 2 a) = Round_D (theta_D a) c (view 2 a)" "Round c (view 3 a) = Round_D (theta_D a) c (view 3 a)"
  by (rule Round_view, simp)+

lemma upd_0: "(x # xs)[0 := v] = v # xs"
  and upd_1: "(x # xs)[1 := v] = x # xs[0 := v]"
  by simp_all

lemma nth_1: "(x # xs) ! 1 = xs ! 0"
  by simp

lemmas round_simps = Let_def upd_0 upd_1 upd_num nth_1 theta_D_at theta_C_list

lemma view_list25:
  fixes a0 a1 a2 a3 a4 a5 a6 a7 a8 a9 a10 a11 a12 a13 a14 a15 a16 a17 a18 a19 a20 a21 a22 a23 a24 :: uint64
  defines "A \<equiv> [a0, a1, a2, a3, a4, a5, a6, a7, a8, a9, a10, a11, a12, a13, a14, a15, a16, a17, a18, a19, a20, a21, a22, a23, a24]"
  shows "view 0 A = [a0, a1, a2, a3, a4, a5, a6, a7, a8, a9, a10, a11, a12, a13, a14, a15, a16, a17, a18, a19, a20, a21, a22, a23, a24]"
    and "view 1 A = [a0, a6, a12, a18, a24, a10, a16, a22, a3, a9, a20, a1, a7, a13, a19, a5, a11, a17, a23, a4, a15, a21, a2, a8, a14]"
    and "view 2 A = [a0, a16, a7, a23, a14, a20, a11, a2, a18, a9, a15, a6, a22, a13, a4, a10, a1, a17, a8, a24, a5, a21, a12, a3, a19]"
    and "view 3 A = [a0, a11, a22, a8, a19, a15, a1, a12, a23, a9, a5, a16, a2, a13, a24, a20, a6, a17, a3, a14, a10, a21, a7, a18, a4]"
    and "view 4 A = [a0, a1, a2, a3, a4, a5, a6, a7, a8, a9, a10, a11, a12, a13, a14, a15, a16, a17, a18, a19, a20, a21, a22, a23, a24]"
  unfolding views by (simp_all add: A_def)

lemma round1_view: "length a = 25 \<Longrightarrow> view 1 (keccak_round1 c a) = Round c (view 0 a)"
  unfolding Round_views keccak_round1_def rotl_1 rotls
  by (erule list25E) (simp add: round_simps view_list25 Round_D_list del: One_nat_def list_update.simps)

lemma round2_view: "length a = 25 \<Longrightarrow> view 2 (keccak_round2 c a) = Round c (view 1 a)"
  unfolding Round_views keccak_round2_def rotl_1 rotls
  by (erule list25E) (simp add: round_simps view_list25 Round_D_list del: One_nat_def list_update.simps)

lemma round3_view: "length a = 25 \<Longrightarrow> view 3 (keccak_round3 c a) = Round c (view 2 a)"
  unfolding Round_views keccak_round3_def rotl_1 rotls
  by (erule list25E) (simp add: round_simps view_list25 Round_D_list del: One_nat_def list_update.simps)

lemma round4_view: "length a = 25 \<Longrightarrow> view 4 (keccak_round4 c a) = Round c (view 3 a)"
  unfolding Round_views keccak_round4_def rotl_1 rotls
  by (erule list25E) (simp add: round_simps view_list25 Round_D_list del: One_nat_def list_update.simps)

lemma length_rounds:
  "length (keccak_round1 c a) = length a" "length (keccak_round2 c a) = length a"
  "length (keccak_round3 c a) = length a" "length (keccak_round4 c a) = length a"
  by (simp_all add: keccak_round1_def keccak_round2_def keccak_round3_def keccak_round4_def Let_def)

lemma view_same: "length a = 25 \<Longrightarrow> view 0 a = a" "length a = 25 \<Longrightarrow> view 4 a = a"
  by (erule list25E, simp add: view_list25)+

lemma keccak_rounds4_eq:
  assumes "length a = 25"
  shows "keccak_rounds4 i a = Round (rc ! (i + 3)) (Round (rc ! (i + 2)) (Round (rc ! (i + 1)) (Round (rc ! i) a)))"
proof -
  define b1 where "b1 = keccak_round1 (rc ! i) a"
  define b2 where "b2 = keccak_round2 (rc ! (i + 1)) b1"
  define b3 where "b3 = keccak_round3 (rc ! (i + 2)) b2"
  define b4 where "b4 = keccak_round4 (rc ! (i + 3)) b3"
  have l: "length b1 = 25" "length b2 = 25" "length b3 = 25" "length b4 = 25"
    using assms by (simp_all add: b1_def b2_def b3_def b4_def length_rounds)
  have "b4 = view 4 b4" by (rule view_same(2) [OF l(4), symmetric])
  also have "\<dots> = Round (rc ! (i + 3)) (view 3 b3)" unfolding b4_def by (rule round4_view [OF l(3)])
  also have "view 3 b3 = Round (rc ! (i + 2)) (view 2 b2)" unfolding b3_def by (rule round3_view [OF l(2)])
  also have "view 2 b2 = Round (rc ! (i + 1)) (view 1 b1)" unfolding b2_def by (rule round2_view [OF l(1)])
  also have "view 1 b1 = Round (rc ! i) (view 0 a)" unfolding b1_def by (rule round1_view [OF assms])
  also have "view 0 a = a" by (rule view_same(1) [OF assms])
  finally show ?thesis by (simp add: keccak_rounds4_def b1_def b2_def b3_def b4_def)
qed

lemma length_Round [simp]: "length (Round c A) = 25"
  by (simp add: Round_def iota_step_def chi_step_def lanes_def)

lemma upt_24: "[0..<24] = [0, 1, 2, 3, 4, 5, 6, 7, 8, 9, 10, 11, 12, 13, 14, 15, 16, 17, 18, 19, 20, 21, 22, 23]"
  by (simp add: upt_rec)

lemma keccakF1600_eq: "length a = 25 \<Longrightarrow> keccakF1600 a = keccak_f a"
proof -
  assume "length a = 25"
  then have "keccakF1600 a = foldl (\<lambda>A i. Round (rc ! i) A) a [0..<24]"
    unfolding keccakF1600_def upt_24 by (simp add: keccak_rounds4_eq flip: numeral_2_eq_2)
  also have "\<dots> = keccak_f a"
    unfolding keccak_f_def rc_RC by (rule foldl_cong) simp_all
  finally show ?thesis .
qed

lemma length_keccakF1600 [simp]: "length (keccakF1600 a) = length a"
  by (simp add: keccakF1600_def keccak_rounds4_def length_rounds)

lemma length_keccak_f [simp]: "length (keccak_f a) = 25"
  by (simp add: keccak_f_def upt_24)

text \<open>
  C14: The unrolled permutation is the permutation of the standard: on every state of 25 lanes \<^verbatim>\<open>keccakF1600\<close>
  computes the 24 rounds of FIPS 202, with the rotation offsets and round constants that the standard derives.
\<close>

theorem keccakF1600_correct:
  assumes "length a = 25"
  shows "keccakF1600 a = keccak_f a"
  using assms by (rule keccakF1600_eq)

theorem keccakF1600_correct_witness: "keccakF1600 (replicate 25 0) = keccak_f (replicate 25 0)"
  by (rule keccakF1600_correct) simp

end
