(* ===== verification/Sponge.thy ===== *)
theory Sponge
  imports Keccak
begin

text \<open>
  The sponge of SHA-3: \<^verbatim>\<open>crypto/sha3/sha3.go\<close> and the functions that move bytes into and out of its state
  (\<^verbatim>\<open>xor_generic.go\<close>, \<^verbatim>\<open>xor_unaligned.go\<close>). The sponge buffers partial blocks in \<^verbatim>\<open>storage\<close>; \<^verbatim>\<open>buf\<close> is a slice of it,
  modelled by its offset and length, since \<^verbatim>\<open>clone\<close> looks at its capacity. \<open>None\<close> stands for a panic or a loop that
  does not end.
\<close>

section \<open>The code\<close>

datatype spongeDirection = spongeAbsorbing | spongeSqueezing

definition maxRate :: nat where "maxRate = 168"

record sponge =
  lanes_of :: "uint64 list" \<comment> \<open>\<^verbatim>\<open>a\<close>\<close>
  buf :: "(nat \<times> nat) option" \<comment> \<open>offset in \<^verbatim>\<open>storage\<close> and length; \<^verbatim>\<open>nil\<close> is \<open>None\<close>\<close>
  rate :: nat
  dsbyte :: byte
  storage :: bytes
  outputLen :: int
  direction :: spongeDirection \<comment> \<open>\<^verbatim>\<open>state\<close>\<close>
  varintbuf :: bytes

definition BlockSize :: "sponge \<Rightarrow> nat" where "BlockSize d = rate d"
definition Size :: "sponge \<Rightarrow> int" where "Size d = outputLen d"

definition buf_len :: "sponge \<Rightarrow> nat" where
  "buf_len d = (case buf d of None \<Rightarrow> 0 | Some (i, n) \<Rightarrow> n)"

definition buf_cap :: "sponge \<Rightarrow> nat" where
  "buf_cap d = (case buf d of None \<Rightarrow> 0 | Some (i, n) \<Rightarrow> maxRate - i)"

definition buf_bytes :: "sponge \<Rightarrow> bytes" where
  "buf_bytes d = (case buf d of None \<Rightarrow> [] | Some (i, n) \<Rightarrow> take n (drop i (storage d)))"

definition buf_append :: "bytes \<Rightarrow> sponge \<Rightarrow> sponge option" where
  \<comment> \<open>\<^verbatim>\<open>d.buf = append(d.buf, q...)\<close> within the capacity of \<^verbatim>\<open>storage\<close>; a larger slice would move out of it\<close>
  "buf_append q d =
    (case buf d of None \<Rightarrow> None
     | Some (i, n) \<Rightarrow>
        if maxRate < i + n + length q then None
        else Some (d\<lparr>storage := take (i + n) (storage d) @ q @ drop (i + n + length q) (storage d),
                    buf := Some (i, n + length q)\<rparr>))"

primrec xorInGeneric_loop :: "nat \<Rightarrow> nat \<Rightarrow> bytes \<Rightarrow> uint64 list \<Rightarrow> uint64 list" where
  "xorInGeneric_loop 0 i b a = a"
| "xorInGeneric_loop (Suc n) i b a = xorInGeneric_loop n (Suc i) (drop 8 b) (a[i := a ! i XOR Uint64_le b])"

definition xorInGeneric :: "bytes \<Rightarrow> uint64 list \<Rightarrow> uint64 list" where
  "xorInGeneric b a = xorInGeneric_loop (length b div 8) 0 b a"

function copyOutGeneric_loop :: "nat \<Rightarrow> uint64 list \<Rightarrow> bytes \<Rightarrow> bytes" where
  "copyOutGeneric_loop i a b =
    (if 8 \<le> length b then PutUint64_le (a ! i) @ copyOutGeneric_loop (Suc i) a (drop 8 b) else b)"
  by pat_completeness auto
termination by (relation "measure (\<lambda>(i, a, b). length b)") auto

declare copyOutGeneric_loop.simps [simp del]

definition copyOutGeneric :: "uint64 list \<Rightarrow> bytes \<Rightarrow> bytes" where
  \<comment> \<open>the new contents of the slice \<^verbatim>\<open>b\<close>\<close>
  "copyOutGeneric a b = copyOutGeneric_loop 0 a b"

definition bw :: "bytes \<Rightarrow> nat \<Rightarrow> uint64" where
  \<comment> \<open>the slice read as an array of little-endian words\<close>
  "bw b i = Uint64_le (drop (8 * i) b)"

definition xorInUnaligned :: "bytes \<Rightarrow> uint64 list \<Rightarrow> uint64 list" where
  "xorInUnaligned b a =
    (let n = length b;
         a = (if n \<ge> 72 then
                a[0 := a ! 0 XOR bw b 0, 1 := a ! 1 XOR bw b 1, 2 := a ! 2 XOR bw b 2, 3 := a ! 3 XOR bw b 3,
                  4 := a ! 4 XOR bw b 4, 5 := a ! 5 XOR bw b 5, 6 := a ! 6 XOR bw b 6, 7 := a ! 7 XOR bw b 7,
                  8 := a ! 8 XOR bw b 8]
              else a);
         a = (if n \<ge> 104 then
                a[9 := a ! 9 XOR bw b 9, 10 := a ! 10 XOR bw b 10, 11 := a ! 11 XOR bw b 11, 12 := a ! 12 XOR bw b 12]
              else a);
         a = (if n \<ge> 136 then
                a[13 := a ! 13 XOR bw b 13, 14 := a ! 14 XOR bw b 14, 15 := a ! 15 XOR bw b 15, 16 := a ! 16 XOR bw b 16]
              else a);
         a = (if n \<ge> 144 then a[17 := a ! 17 XOR bw b 17] else a);
         a = (if n \<ge> 168 then
                a[18 := a ! 18 XOR bw b 18, 19 := a ! 19 XOR bw b 19, 20 := a ! 20 XOR bw b 20]
              else a)
     in a)"

definition copyOutUnaligned :: "uint64 list \<Rightarrow> bytes \<Rightarrow> bytes" where
  "copyOutUnaligned a b =
    (let ab = take maxRate (concat (map PutUint64_le a)) in take (length b) ab @ drop (length ab) b)"

definition copyOut :: "sponge \<Rightarrow> sponge" where
  \<comment> \<open>\<^verbatim>\<open>d.buf = d.storage[:d.rate]; copyOut(d, d.buf)\<close>\<close>
  "copyOut d = d\<lparr>buf := Some (0, rate d),
     storage := copyOutGeneric (lanes_of d) (take (rate d) (storage d)) @ drop (rate d) (storage d)\<rparr>"

definition Reset :: "sponge \<Rightarrow> sponge" where
  "Reset d = d\<lparr>lanes_of := map (\<lambda>_. 0) (lanes_of d), direction := spongeAbsorbing, buf := Some (0, 0)\<rparr>"

definition clone :: "sponge \<Rightarrow> sponge option" where
  "clone d =
    (case direction d of
       spongeAbsorbing \<Rightarrow> Some (d\<lparr>buf := Some (0, buf_len d)\<rparr>)
     | spongeSqueezing \<Rightarrow>
        if rate d < buf_cap d then None \<comment> \<open>slice bounds out of range\<close>
        else Some (d\<lparr>buf := Some (rate d - buf_cap d, buf_cap d)\<rparr>))"

definition permute :: "sponge \<Rightarrow> sponge" where
  "permute d =
    (case direction d of
       spongeAbsorbing \<Rightarrow>
        d\<lparr>lanes_of := keccakF1600 (xorInGeneric (buf_bytes d) (lanes_of d)), buf := Some (0, 0)\<rparr>
     | spongeSqueezing \<Rightarrow> copyOut (d\<lparr>lanes_of := keccakF1600 (lanes_of d)\<rparr>))"

definition init_buf :: "sponge \<Rightarrow> sponge" where
  \<comment> \<open>\<^verbatim>\<open>if d.buf == nil { d.buf = d.storage[:0] }\<close>\<close>
  "init_buf d = (if buf d = None then d\<lparr>buf := Some (0, 0)\<rparr> else d)"

definition padAndPermute :: "byte \<Rightarrow> sponge \<Rightarrow> sponge option" where
  "padAndPermute ds d =
    (case buf_append [ds] (init_buf d) of
       None \<Rightarrow> None
     | Some d \<Rightarrow>
        if rate d = 0 \<or> maxRate < rate d then None
        else
          (let zerosStart = buf_len d;
               st = take zerosStart (storage d) @ replicate (rate d - zerosStart) 0 @ drop (max zerosStart (rate d)) (storage d);
               st = st[rate d - 1 := st ! (rate d - 1) XOR 0x80];
               d = permute (d\<lparr>buf := Some (0, rate d), storage := st\<rparr>)
           in Some (copyOut (d\<lparr>direction := spongeSqueezing\<rparr>))))"

partial_function (option) Write_loop :: "bytes \<Rightarrow> sponge \<Rightarrow> sponge option" where
  "Write_loop p d =
    (if p = [] then Some d
     else if buf_len d = 0 \<and> rate d \<le> length p then
       Write_loop (drop (rate d) p) (d\<lparr>lanes_of := keccakF1600 (xorInGeneric (take (rate d) p) (lanes_of d))\<rparr>)
     else if rate d < buf_len d then None
     else
       (let todo = min (rate d - buf_len d) (length p) in
        case buf_append (take todo p) d of
          None \<Rightarrow> None
        | Some d \<Rightarrow> Write_loop (drop todo p) (if buf_len d = rate d then permute d else d)))"

definition Write :: "bytes \<Rightarrow> sponge \<Rightarrow> sponge option" where
  "Write p d = (if direction d \<noteq> spongeAbsorbing then None else Write_loop p (init_buf d))"

partial_function (option) Read_loop :: "bytes \<Rightarrow> nat \<Rightarrow> sponge \<Rightarrow> (bytes \<times> sponge) option" where
  \<comment> \<open>\<open>out\<close>: the bytes written so far, \<open>n\<close>: how many are left\<close>
  "Read_loop out n d =
    (if n = 0 then Some (out, d)
     else
       (let k = min n (buf_len d);
            out = out @ take k (buf_bytes d);
            d = d\<lparr>buf := map_option (\<lambda>(i, m). (i + k, m - k)) (buf d)\<rparr>
        in Read_loop out (n - k) (if buf_len d = 0 then permute d else d)))"

definition Read :: "nat \<Rightarrow> sponge \<Rightarrow> (bytes \<times> sponge) option" where
  "Read n d =
    (case (if direction d = spongeAbsorbing then padAndPermute (dsbyte d) d else Some d) of
       None \<Rightarrow> None
     | Some d \<Rightarrow> Read_loop [] n d)"

definition Sum :: "bytes \<Rightarrow> sponge \<Rightarrow> bytes option" where
  "Sum inp d =
    (case clone d of
       None \<Rightarrow> None
     | Some dup \<Rightarrow>
        if outputLen dup < 0 then None
        else (case Read (nat (outputLen dup)) dup of None \<Rightarrow> None | Some (h, _) \<Rightarrow> Some (inp @ h)))"

section \<open>The standard\<close>

definition absorb_block :: "bytes \<Rightarrow> uint64 list \<Rightarrow> uint64 list" where
  "absorb_block b A =
    keccak_f (map (\<lambda>i. A ! i XOR (if i < length b div 8 then Uint64_le (drop (8 * i) b) else 0)) [0..<25])"

function absorb :: "nat \<Rightarrow> bytes \<Rightarrow> uint64 list \<Rightarrow> uint64 list" where
  \<comment> \<open>the state after all full blocks of \<open>r\<close> bytes\<close>
  "absorb r M A = (if r = 0 \<or> length M < r then A else absorb r (drop r M) (absorb_block (take r M) A))"
  by pat_completeness auto
termination by (relation "measure (\<lambda>(r, M, A). length M)") auto

declare absorb.simps [simp del]

definition pad101 :: "nat \<Rightarrow> byte \<Rightarrow> nat \<Rightarrow> bytes" where
  \<comment> \<open>domain bits and padding for a message of \<open>n\<close> bytes: \<open>ds\<close>, zeros, and a final bit in the last byte of a block\<close>
  "pad101 r ds n = (if n mod r = r - 1 then [ds XOR 0x80] else ds # replicate (r - n mod r - 2) 0 @ [0x80])"

definition squeeze_start :: "nat \<Rightarrow> byte \<Rightarrow> bytes \<Rightarrow> uint64 list" where
  "squeeze_start r ds M = absorb r (M @ pad101 r ds (length M)) (replicate 25 0)"

definition squeeze_byte :: "nat \<Rightarrow> uint64 list \<Rightarrow> nat \<Rightarrow> byte" where
  \<comment> \<open>byte \<open>k\<close> of the endless output\<close>
  "squeeze_byte r A k = concat (map PutUint64_le ((keccak_f ^^ (k div r)) A)) ! (k mod r)"

definition sponge_hash :: "nat \<Rightarrow> byte \<Rightarrow> bytes \<Rightarrow> nat \<Rightarrow> bytes" where
  "sponge_hash r ds M n = map (squeeze_byte r (squeeze_start r ds M)) [0..<n]"

section \<open>Moving bytes\<close>

abbreviation state_bytes :: "uint64 list \<Rightarrow> bytes" where
  "state_bytes A \<equiv> concat (map PutUint64_le A)"

lemma xorInGeneric_loop_eq:
  "i + n \<le> length a \<Longrightarrow> xorInGeneric_loop n i b a =
    map (\<lambda>j. a ! j XOR (if i \<le> j \<and> j < i + n then Uint64_le (drop (8 * (j - i)) b) else 0)) [0..<length a]"
proof (induction n arbitrary: i b a)
  case 0
  show ?case by (rule nth_equalityI) auto
next
  case (Suc n)
  show ?case
    unfolding xorInGeneric_loop.simps
  proof (subst Suc.IH)
    show "Suc i + n \<le> length (a[i := a ! i XOR Uint64_le b])" using Suc.prems by simp
    have "8 + 8 * (j - Suc i) = 8 * (j - i)" if "Suc i \<le> j" for j using that by (simp add: diff_mult_distrib2)
    then show "map (\<lambda>j. a[i := a ! i XOR Uint64_le b] ! j XOR
          (if Suc i \<le> j \<and> j < Suc i + n then Uint64_le (drop (8 * (j - Suc i)) (drop 8 b)) else 0))
        [0..<length (a[i := a ! i XOR Uint64_le b])] =
      map (\<lambda>j. a ! j XOR (if i \<le> j \<and> j < i + Suc n then Uint64_le (drop (8 * (j - i)) b) else 0)) [0..<length a]"
      using Suc.prems by (auto simp: nth_list_update add.commute)
  qed
qed

lemma xorInGeneric_eq:
  "length a = 25 \<Longrightarrow> length b \<le> maxRate \<Longrightarrow> xorInGeneric b a =
    map (\<lambda>i. a ! i XOR (if i < length b div 8 then Uint64_le (drop (8 * i) b) else 0)) [0..<25]"
proof -
  assume "length a = 25" "length b \<le> maxRate"
  moreover from this have "0 + length b div 8 \<le> length a" by (simp add: maxRate_def)
  ultimately show ?thesis using xorInGeneric_loop_eq [of 0 "length b div 8" a b] by (simp add: xorInGeneric_def)
qed

lemma xor_keccak_block:
  "length a = 25 \<Longrightarrow> length b \<le> maxRate \<Longrightarrow> keccakF1600 (xorInGeneric b a) = absorb_block b a"
  by (simp add: xorInGeneric_eq absorb_block_def keccakF1600_eq)

lemma length_state_bytes: "length (state_bytes A) = 8 * length A"
  by (induction A) simp_all

lemma copyOutGeneric_loop_eq:
  "8 dvd length b \<Longrightarrow> i + length b div 8 \<le> length a \<Longrightarrow>
    copyOutGeneric_loop i a b = take (length b) (state_bytes (drop i a))"
proof (induction i a b rule: copyOutGeneric_loop.induct)
  case (1 i a b)
  show ?case
  proof (cases "8 \<le> length b")
    case True
    with "1.prems" have "i < length a" by (auto dest: div_le_mono [of 8 _ 8])
    then have d: "drop i a = a ! i # drop (Suc i) a" by (simp add: Cons_nth_drop_Suc)
    have "copyOutGeneric_loop (Suc i) a (drop 8 b) = take (length (drop 8 b)) (state_bytes (drop (Suc i) a))"
      using "1.prems" True by (intro "1.IH") (auto simp: le_div_geq)
    with True show ?thesis by (simp add: d copyOutGeneric_loop.simps [of i])
  next
    case False
    with "1.prems"(1) have "b = []" by (auto dest: dvd_imp_le)
    then show ?thesis by (simp add: copyOutGeneric_loop.simps)
  qed
qed

lemma copyOutGeneric_eq:
  "8 dvd length b \<Longrightarrow> length b \<le> maxRate \<Longrightarrow> length a = 25 \<Longrightarrow> copyOutGeneric a b = take (length b) (state_bytes a)"
  using copyOutGeneric_loop_eq [of b 0 a] by (simp add: copyOutGeneric_def maxRate_def)

text \<open>The routines for machines with unaligned access agree with the portable ones on every block that the sponge passes.\<close>

lemma copyOutUnaligned_eq:
  "8 dvd length b \<Longrightarrow> length b \<le> maxRate \<Longrightarrow> length a = 25 \<Longrightarrow> copyOutUnaligned a b = copyOutGeneric a b"
  by (simp add: copyOutUnaligned_def copyOutGeneric_eq length_state_bytes maxRate_def min_absorb2)

lemma xorInUnaligned_eq:
  assumes "length a = 25" and "length b \<in> {72, 104, 136, 144, 168}"
  shows "xorInUnaligned b a = xorInGeneric b a"
proof -
  have "xorInGeneric b a = map (\<lambda>i. a ! i XOR (if i < length b div 8 then bw b i else 0)) [0..<25]"
    using assms by (subst xorInGeneric_eq) (auto simp: maxRate_def bw_def)
  moreover have "xorInUnaligned b a = \<dots>"
    unfolding upt_25 using assms
    by (elim list25E insertE emptyE)
      (simp_all add: xorInUnaligned_def Let_def upd_0 upd_1 upd_num nth_1 del: list_update.simps One_nat_def)
  ultimately show ?thesis by simp
qed

section \<open>Absorbing\<close>

definition rate_ok :: "nat \<Rightarrow> bool" where
  "rate_ok r \<longleftrightarrow> 0 < r \<and> r \<le> maxRate \<and> 8 dvd r"

definition same_kind :: "sponge \<Rightarrow> sponge \<Rightarrow> bool" where
  "same_kind d d' \<longleftrightarrow> rate d' = rate d \<and> dsbyte d' = dsbyte d \<and> outputLen d' = outputLen d"

lemma same_kind_refl [simp]: "same_kind d d"
  and same_kind_trans [trans]: "same_kind d d' \<Longrightarrow> same_kind d' d'' \<Longrightarrow> same_kind d d''"
  by (simp_all add: same_kind_def)

lemma same_kindD: "same_kind d d' \<Longrightarrow> rate d' = rate d" "same_kind d d' \<Longrightarrow> dsbyte d' = dsbyte d"
    "same_kind d d' \<Longrightarrow> outputLen d' = outputLen d"
  by (simp_all add: same_kind_def)

text \<open>
  \<open>absorbing d full rest\<close>: the state \<open>d\<close> has absorbed the full blocks \<open>full\<close> and holds \<open>rest\<close> in its buffer.
\<close>

definition absorbing :: "sponge \<Rightarrow> bytes \<Rightarrow> bytes \<Rightarrow> bool" where
  "absorbing d full rest \<longleftrightarrow>
    rate_ok (rate d) \<and> direction d = spongeAbsorbing \<and> length (storage d) = maxRate \<and> rate d dvd length full \<and>
    length rest \<le> rate d \<and> lanes_of d = absorb (rate d) full (replicate 25 0) \<and>
    buf d = Some (0, length rest) \<and> take (length rest) (storage d) = rest"

definition absorbs :: "sponge \<Rightarrow> bytes \<Rightarrow> bool" where
  "absorbs d M \<longleftrightarrow> (\<exists>full rest. M = full @ rest \<and> length rest < rate d \<and> absorbing (init_buf d) full rest)"

lemma absorb_append: "0 < r \<Longrightarrow> r dvd length X \<Longrightarrow> absorb r (X @ Y) A = absorb r Y (absorb r X A)"
proof (induction r X A rule: absorb.induct)
  case (1 r X A)
  show ?case
  proof (cases "length X < r")
    case True
    with "1.prems" have "X = []" by (auto dest: nat_dvd_not_less)
    with True show ?thesis by (simp add: absorb.simps [of r "[]"])
  next
    case False
    moreover from this "1.prems" have "r dvd length (drop r X)" by (simp add: dvd_diff_nat)
    moreover have "take r (X @ Y) = take r X" "drop r (X @ Y) = drop r X @ Y" using False by simp_all
    ultimately show ?thesis using "1.IH" "1.prems" by (simp add: absorb.simps [of r "X @ Y"] absorb.simps [of r X])
  qed
qed

lemma absorb_one: "0 < r \<Longrightarrow> length b = r \<Longrightarrow> absorb r b A = absorb_block b A"
  by (simp add: absorb.simps [of r b] absorb.simps [of r "[]"])

lemma length_absorb_block [simp]: "length (absorb_block b A) = 25"
  by (simp add: absorb_block_def)

lemma length_absorb: "length A = 25 \<Longrightarrow> length (absorb r M A) = 25"
proof (induction r M A rule: absorb.induct)
  case (1 r M A)
  then show ?case by (subst absorb.simps) simp
qed

lemma absorbing_lanes: "absorbing d full rest \<Longrightarrow> length (lanes_of d) = 25"
  by (simp add: absorbing_def length_absorb)

lemma absorbing_block:
  assumes "absorbing d full rest" and "length q = rate d"
  shows "keccakF1600 (xorInGeneric q (lanes_of d)) = absorb (rate d) (full @ q) (replicate 25 0)"
proof -
  have "0 < rate d" "rate d dvd length full" "length q \<le> maxRate" using assms by (auto simp: absorbing_def rate_ok_def)
  then show ?thesis
    using assms absorbing_lanes [OF assms(1)]
    by (simp add: xor_keccak_block absorb_append absorb_one) (simp add: absorbing_def)
qed

lemma absorbing_append:
  assumes "absorbing d full rest" and "length rest + length q \<le> rate d"
  obtains d' where "buf_append q d = Some d'" "absorbing d' full (rest @ q)" "same_kind d d'"
proof -
  let ?d = "d\<lparr>storage := rest @ q @ drop (length rest + length q) (storage d), buf := Some (0, length rest + length q)\<rparr>"
  have "buf d = Some (0, length rest)" "length rest + length q \<le> maxRate" "length (storage d) = maxRate"
      "take (length rest) (storage d) = rest"
    using assms by (auto simp: absorbing_def rate_ok_def)
  then have "buf_append q d = Some ?d" by (simp add: buf_append_def)
  moreover have "absorbing ?d full (rest @ q)" using assms by (simp add: absorbing_def rate_ok_def)
  ultimately show ?thesis by (rule that) (simp add: same_kind_def)
qed

lemma absorbing_permute:
  assumes "absorbing d full rest" and "length rest = rate d"
  shows "absorbing (permute d) (full @ rest) []" and "same_kind d (permute d)"
proof -
  have b: "buf_bytes d = rest" "direction d = spongeAbsorbing" using assms by (simp_all add: absorbing_def buf_bytes_def)
  then have p: "permute d = d\<lparr>lanes_of := keccakF1600 (xorInGeneric rest (lanes_of d)), buf := Some (0, 0)\<rparr>"
    by (simp add: permute_def)
  show "absorbing (permute d) (full @ rest) []"
    using assms absorbing_block [OF assms] by (simp add: absorbing_def p)
  show "same_kind d (permute d)" by (simp add: same_kind_def p)
qed

lemma absorbing_fast:
  assumes "absorbing d full []" and "length q = rate d"
  shows "absorbing (d\<lparr>lanes_of := keccakF1600 (xorInGeneric q (lanes_of d))\<rparr>) (full @ q) []"
  using assms absorbing_block [OF assms] by (simp add: absorbing_def)

lemma absorbing_buf_len: "absorbing d full rest \<Longrightarrow> buf_len d = length rest"
  by (simp add: absorbing_def buf_len_def)

lemma absorbing_rate: "absorbing d full rest \<Longrightarrow> 0 < rate d"
  by (simp add: absorbing_def rate_ok_def)

definition written :: "sponge \<Rightarrow> bytes \<Rightarrow> sponge option \<Rightarrow> bool" where
  "written d M r \<longleftrightarrow> (\<exists>d' full rest. r = Some d' \<and> absorbing d' full rest \<and> length rest < rate d' \<and> full @ rest = M \<and> same_kind d d')"

lemma written_trans: "same_kind d d' \<Longrightarrow> written d' M r \<Longrightarrow> written d M r"
  unfolding written_def by (blast intro: same_kind_trans)

lemma Write_loop_written:
  "absorbing d full rest \<Longrightarrow> length rest < rate d \<Longrightarrow> written d (full @ rest @ p) (Write_loop p d)"
proof (induction "length p" arbitrary: p d full rest rule: less_induct)
  case less
  note d = less.prems(1)
  have r: "0 < rate d" "buf_len d = length rest" using d by (auto simp: absorbing_buf_len dest: absorbing_rate)
  consider "p = []" | "p \<noteq> []" "rest = []" "rate d \<le> length p" | "p \<noteq> []" "\<not> (rest = [] \<and> rate d \<le> length p)" by blast
  then show ?case
  proof cases
    case 1
    with less.prems show ?thesis by (auto simp: written_def Write_loop.simps)
  next
    case 2
    let ?d = "d\<lparr>lanes_of := keccakF1600 (xorInGeneric (take (rate d) p) (lanes_of d))\<rparr>"
    have "absorbing ?d (full @ take (rate d) p) []" using 2 d by (intro absorbing_fast) simp_all
    then have "written ?d ((full @ take (rate d) p) @ [] @ drop (rate d) p) (Write_loop (drop (rate d) p) ?d)"
      using 2 r by (intro less.hyps) auto
    moreover have "Write_loop p d = Write_loop (drop (rate d) p) ?d"
      using 2 r by (subst Write_loop.simps) simp
    ultimately show ?thesis using 2 written_trans [of d ?d] by (simp add: same_kind_def)
  next
    case 3
    let ?n = "min (rate d - length rest) (length p)"
    have n: "0 < ?n" "length (take ?n p) = ?n" "length rest + length (take ?n p) \<le> rate d" using 3 less.prems(2) by auto
    obtain d1 where d1: "buf_append (take ?n p) d = Some d1" "absorbing d1 full (rest @ take ?n p)" "same_kind d d1"
      by (rule absorbing_append [OF d n(3)])
    let ?d = "if buf_len d1 = rate d1 then permute d1 else d1"
    have w: "Write_loop p d = Write_loop (drop ?n p) ?d"
      using 3 r less.prems(2) d1(1) by (subst Write_loop.simps) (auto simp: Let_def)
    obtain full' rest' where f: "absorbing ?d full' rest'" "full' @ rest' = full @ rest @ take ?n p" "length rest' < rate ?d" "same_kind d1 ?d"
    proof (cases "buf_len d1 = rate d1")
      case True
      then have l: "length (rest @ take ?n p) = rate d1" using d1(2) by (simp add: absorbing_buf_len)
      show ?thesis using True absorbing_permute [OF d1(2) l] absorbing_rate [OF absorbing_permute(1) [OF d1(2) l]]
        by (intro that [of "full @ rest @ take ?n p" "[]"]) auto
    next
      case False
      then have "length (rest @ take ?n p) < rate d1"
        using d1(2,3) n(3) by (simp add: absorbing_buf_len same_kindD)
      then show ?thesis using False d1(2) by (intro that [of full "rest @ take ?n p"]) auto
    qed
    have "written ?d (full' @ rest' @ drop ?n p) (Write_loop (drop ?n p) ?d)"
      using n(1) 3 by (intro less.hyps f(1,3)) (auto simp: min_def split: if_splits)
    moreover have "full' @ rest' @ drop ?n p = full @ rest @ p"
      using f(2) by (metis append.assoc append_take_drop_id)
    moreover have "same_kind d ?d" using d1(3) f(4) by (rule same_kind_trans)
    ultimately show ?thesis unfolding w using written_trans [of d ?d] by simp
  qed
qed

lemma init_buf_simps [simp]:
  "rate (init_buf d) = rate d" "direction (init_buf d) = direction d" "dsbyte (init_buf d) = dsbyte d"
  "outputLen (init_buf d) = outputLen d" "same_kind d (init_buf d)" "init_buf (init_buf d) = init_buf d"
  by (simp_all add: init_buf_def same_kind_def)

lemma absorbing_init_buf: "absorbing d full rest \<Longrightarrow> init_buf d = d"
  by (simp add: absorbing_def init_buf_def)

lemma Write_absorbs:
  assumes "absorbs d M"
  obtains d' where "Write p d = Some d'" "absorbs d' (M @ p)" "same_kind d d'"
proof -
  from assms obtain full rest where M: "M = full @ rest" "length rest < rate d" "absorbing (init_buf d) full rest"
    by (auto simp: absorbs_def)
  have "written (init_buf d) (full @ rest @ p) (Write_loop p (init_buf d))"
    using M by (intro Write_loop_written) simp_all
  then obtain d' f r where d': "Write_loop p (init_buf d) = Some d'" "absorbing d' f r" "length r < rate d'"
      "f @ r = M @ p" "same_kind (init_buf d) d'"
    by (auto simp: written_def M(1))
  moreover have "direction d = spongeAbsorbing" using M(3) by (simp add: absorbing_def)
  moreover have "same_kind d d'" using d'(5) by (simp add: same_kind_def init_buf_def split: if_splits)
  moreover have "absorbs d' (M @ p)"
    unfolding absorbs_def using d'(2-4) by (metis absorbing_init_buf)
  ultimately show ?thesis by (intro that) (auto simp: Write_def)
qed

section \<open>Squeezing\<close>

text \<open>\<open>squeezing d A k\<close>: the output starts with the state \<open>A\<close>, and \<open>k\<close> bytes of it have been read.\<close>

definition squeezing :: "sponge \<Rightarrow> uint64 list \<Rightarrow> nat \<Rightarrow> bool" where
  "squeezing d A k \<longleftrightarrow>
    rate_ok (rate d) \<and> direction d = spongeSqueezing \<and> length (storage d) = maxRate \<and> length A = 25 \<and>
    lanes_of d = (keccak_f ^^ (k div rate d)) A \<and> buf d = Some (k mod rate d, rate d - k mod rate d) \<and>
    take (rate d) (storage d) = take (rate d) (state_bytes (lanes_of d))"

lemma length_keccak_pow: "length A = 25 \<Longrightarrow> length ((keccak_f ^^ n) A) = 25"
  by (induction n) simp_all

lemma copyOut_start:
  assumes "rate_ok (rate d)" and "length (storage d) = maxRate" and "length (lanes_of d) = 25"
  shows "take (rate d) (storage (copyOut d)) = take (rate d) (state_bytes (lanes_of d))"
    and "length (storage (copyOut d)) = maxRate"
    and "buf (copyOut d) = Some (0, rate d)" "rate (copyOut d) = rate d" "direction (copyOut d) = direction d"
      "lanes_of (copyOut d) = lanes_of d" "same_kind d (copyOut d)"
  using assms by (simp_all add: copyOut_def copyOutGeneric_eq rate_ok_def length_state_bytes maxRate_def same_kind_def)

lemma squeezing_permute:
  assumes "rate_ok (rate d)" and "direction d = spongeSqueezing" and "length (storage d) = maxRate" and "length A = 25"
    and "lanes_of d = (keccak_f ^^ j) A"
  shows "squeezing (permute d) A (rate d * Suc j)" and "same_kind d (permute d)"
proof -
  let ?d = "d\<lparr>lanes_of := keccakF1600 (lanes_of d)\<rparr>"
  have p: "permute d = copyOut ?d" using assms(2) by (simp add: permute_def)
  have l: "lanes_of ?d = (keccak_f ^^ Suc j) A" using assms(4,5) by (simp add: keccakF1600_eq length_keccak_pow)
  have "0 < rate d" using assms(1) by (simp add: rate_ok_def)
  then show "squeezing (permute d) A (rate d * Suc j)"
    unfolding squeezing_def p using assms l copyOut_start [of ?d] length_keccak_pow [OF assms(4), of "Suc j"]
    by (simp del: funpow.simps)
  show "same_kind d (permute d)" unfolding p by (simp add: copyOut_def same_kind_def)
qed

lemma squeezing_chunk:
  assumes "squeezing d A k" and "m \<le> rate d - k mod rate d"
  shows "take m (buf_bytes d) = map (squeeze_byte (rate d) A) [k..<k + m]"
proof (rule nth_equalityI)
  let ?i = "k mod rate d"
  have s: "0 < rate d" "buf d = Some (?i, rate d - ?i)" "length (storage d) = maxRate" "rate d \<le> maxRate"
      "take (rate d) (storage d) = take (rate d) (state_bytes ((keccak_f ^^ (k div rate d)) A))"
    using assms(1) by (auto simp: squeezing_def rate_ok_def)
  then show "length (take m (buf_bytes d)) = length (map (squeeze_byte (rate d) A) [k..<k + m])"
    using assms(2) by (simp add: buf_bytes_def)
  fix t
  assume "t < length (take m (buf_bytes d))"
  then have t: "t < m" "?i + t < rate d" using assms(2) by auto
  have "(k + t) div rate d = k div rate d \<and> (k + t) mod rate d = ?i + t"
    using t(2) by (metis add.assoc div_mult_mod_eq div_mult_self3 div_less add_cancel_right_right mod_less mod_mult_self3 s(1) less_not_refl2)
  moreover have "take m (buf_bytes d) ! t = take (rate d) (storage d) ! (?i + t)"
    using t s(2,3,4) by (simp add: buf_bytes_def)
  ultimately show "take m (buf_bytes d) ! t = map (squeeze_byte (rate d) A) [k..<k + m] ! t"
    using t s(5) by (simp add: squeeze_byte_def)
qed

definition reads :: "sponge \<Rightarrow> uint64 list \<Rightarrow> nat \<Rightarrow> nat \<Rightarrow> bytes \<Rightarrow> (bytes \<times> sponge) option \<Rightarrow> bool" where
  "reads d A k n out r \<longleftrightarrow> (\<exists>d'. r = Some (out @ map (squeeze_byte (rate d) A) [k..<k + n], d') \<and> squeezing d' A (k + n) \<and> same_kind d d')"

lemma squeezing_advance:
  assumes "squeezing d A k" and "m \<le> rate d - k mod rate d"
  defines "d' \<equiv> d\<lparr>buf := map_option (\<lambda>(i, l). (i + m, l - m)) (buf d)\<rparr>"
  shows "squeezing (if buf_len d' = 0 then permute d' else d') A (k + m)"
    and "same_kind d (if buf_len d' = 0 then permute d' else d')"
proof -
  let ?i = "k mod rate d"
  have s: "0 < rate d" "buf d = Some (?i, rate d - ?i)" using assms(1) by (auto simp: squeezing_def rate_ok_def)
  have i: "?i < rate d" using s(1) by simp
  have b: "buf d' = Some (?i + m, rate d - ?i - m)" "buf_len d' = rate d - ?i - m" using s(2) by (simp_all add: d'_def buf_len_def)
  have "squeezing (if buf_len d' = 0 then permute d' else d') A (k + m) \<and> same_kind d (if buf_len d' = 0 then permute d' else d')"
  proof (cases "m = rate d - ?i")
    case True
    have k: "k + m = rate d * Suc (k div rate d)"
      using True i mult_div_mod_eq [of "rate d" k] by (simp only: mult_Suc_right)
    have "squeezing (permute d') A (rate d' * Suc (k div rate d)) \<and> same_kind d' (permute d')"
      using assms(1) by (intro conjI squeezing_permute) (auto simp: squeezing_def d'_def)
    then show ?thesis using True b(2) unfolding k by (simp add: d'_def same_kind_def)
  next
    case False
    with assms(2) have lt: "?i + m < rate d" by simp
    then have "(k + m) div rate d = k div rate d" "(k + m) mod rate d = ?i + m"
      by (metis add.assoc div_mult_mod_eq div_mult_self3 div_less add_cancel_right_right s(1) less_not_refl2)
        (metis lt mod_add_left_eq mod_less)
    then have "squeezing d' A (k + m)" using assms(1) b(1) by (simp add: squeezing_def d'_def)
    moreover have "buf_len d' \<noteq> 0" "same_kind d d'" using lt b(2) by (simp_all add: d'_def same_kind_def)
    ultimately show ?thesis by simp
  qed
  then show "squeezing (if buf_len d' = 0 then permute d' else d') A (k + m)"
    and "same_kind d (if buf_len d' = 0 then permute d' else d')" by blast+
qed

lemma Read_loop_reads: "squeezing d A k \<Longrightarrow> reads d A k n out (Read_loop out n d)"
proof (induction n arbitrary: out d k rule: less_induct)
  case (less n)
  show ?case
  proof (cases "n = 0")
    case True
    with less.prems show ?thesis by (simp add: reads_def Read_loop.simps)
  next
    case False
    let ?m = "min n (buf_len d)"
    let ?d = "d\<lparr>buf := map_option (\<lambda>(i, l). (i + ?m, l - ?m)) (buf d)\<rparr>"
    let ?e = "if buf_len ?d = 0 then permute ?d else ?d"
    have m: "0 < ?m" "?m \<le> rate d - k mod rate d"
      using False less.prems by (auto simp: squeezing_def buf_len_def rate_ok_def)
    have e: "squeezing ?e A (k + ?m)" "same_kind d ?e" by (rule squeezing_advance [OF less.prems m(2)])+
    have "Read_loop out n d = Read_loop (out @ map (squeeze_byte (rate d) A) [k..<k + ?m]) (n - ?m) ?e"
      using False by (subst Read_loop.simps) (simp add: Let_def squeezing_chunk [OF less.prems m(2)])
    moreover have "reads ?e A (k + ?m) (n - ?m) (out @ map (squeeze_byte (rate d) A) [k..<k + ?m])
        (Read_loop (out @ map (squeeze_byte (rate d) A) [k..<k + ?m]) (n - ?m) ?e)"
      using m(1) False by (intro less.IH e(1)) simp
    moreover have "[k..<k + n] = [k..<k + ?m] @ [k + ?m..<k + n]"
      using upt_add_eq_append [of k "k + ?m" "n - ?m"] by simp
    ultimately show ?thesis
      using e(2) same_kindD(1) [OF e(2)] unfolding reads_def by (auto intro: same_kind_trans)
  qed
qed

section \<open>Padding\<close>

lemma update_append: "i < length xs \<Longrightarrow> (xs @ ys)[i := (xs @ ys) ! i XOR v] = xs[i := xs ! i XOR v] @ ys"
  by (simp add: list_update_append1 nth_append)

lemma pad_block:
  fixes ds :: byte
  assumes "length rest < r"
  defines "st \<equiv> rest @ [ds] @ replicate (r - Suc (length rest)) 0"
  shows "st[r - 1 := st ! (r - 1) XOR 0x80] = rest @ pad101 r ds (length rest)"
proof (cases "length rest = r - 1")
  case True
  with assms(1) show ?thesis by (simp add: st_def pad101_def list_update_append nth_append)
next
  case False
  with assms(1) obtain m where m: "r = Suc (Suc (length rest + m))"
    by (metis Suc_leI le_add_diff_inverse le_neq_implies_less diff_Suc_1 Suc_diff_1 add_Suc less_nat_zero_code neq0_conv)
  have "st = (rest @ [ds] @ replicate m 0) @ [0]" by (simp add: st_def m replicate_append_same)
  moreover have "length (rest @ [ds] @ replicate m (0 :: byte)) = r - 1" by (simp add: m)
  ultimately have "st[r - 1 := st ! (r - 1) XOR 0x80] = (rest @ [ds] @ replicate m 0) @ [0x80]"
    by (metis list_update_length nth_append_length xor.left_neutral)
  then show ?thesis by (simp add: pad101_def m)
qed

lemma length_pad101: "length rest < r \<Longrightarrow> length (rest @ pad101 r ds (length rest)) = r"
  by (auto simp: pad101_def)

lemma pad101_mod: "r dvd length full \<Longrightarrow> pad101 r ds (length (full @ rest)) = pad101 r ds (length rest)"
  by (auto simp: pad101_def mod_add_eq)

lemma padAndPermute_squeezing:
  assumes "absorbing (init_buf d) full rest" and "length rest < rate d"
  obtains d' where "padAndPermute ds d = Some d'" "squeezing d' (squeeze_start (rate d) ds (full @ rest)) 0" "same_kind d d'"
proof -
  have "length rest + length [ds] \<le> rate (init_buf d)" using assms(2) by simp
  then obtain d1 where d1: "buf_append [ds] (init_buf d) = Some d1" "absorbing d1 full (rest @ [ds])" "same_kind (init_buf d) d1"
    by (rule absorbing_append [OF assms(1)])
  have r: "rate d1 = rate d" "rate_ok (rate d)" "length (storage d1) = maxRate" "rate d dvd length full" "direction d1 = spongeAbsorbing"
    using d1(2,3) by (auto simp: same_kindD absorbing_def)
  let ?st = "rest @ [ds] @ replicate (rate d - Suc (length rest)) 0"
  let ?pad = "rest @ pad101 (rate d) ds (length rest)"
  let ?store = "take (Suc (length rest)) (storage d1) @ replicate (rate d - Suc (length rest)) 0 @ drop (rate d) (storage d1)"
  have ts: "take (Suc (length rest)) (storage d1) = rest @ [ds]" using d1(2) by (simp add: absorbing_def)
  have upd: "?store[rate d - 1 := ?store ! (rate d - 1) XOR 0x80] = ?pad @ drop (rate d) (storage d1)"
  proof -
    have e: "?store = ?st @ drop (rate d) (storage d1)" and i: "rate d - 1 < length ?st" using assms(2) by (simp_all add: ts)
    show ?thesis unfolding e update_append [OF i] pad_block [OF assms(2)] ..
  qed
  let ?d2 = "d1\<lparr>buf := Some (0, rate d), storage := ?pad @ drop (rate d) (storage d1)\<rparr>"
  have l: "length ?pad = rate d" by (rule length_pad101 [OF assms(2)])
  have d2: "absorbing ?d2 full ?pad" using d1(2) r l by (simp add: absorbing_def rate_ok_def)
  then have d3: "absorbing (permute ?d2) (full @ ?pad) []" "same_kind ?d2 (permute ?d2)"
    using l r(1) by (auto intro!: absorbing_permute)
  let ?d3 = "(permute ?d2)\<lparr>direction := spongeSqueezing\<rparr>"
  have p: "padAndPermute ds d = Some (copyOut ?d3)"
    using d1(1) r(1,2) assms(2) absorbing_buf_len [OF d1(2)] upd
    by (simp add: padAndPermute_def Let_def rate_ok_def max_absorb2)
  have k: "same_kind d ?d3" using d1(3) d3(2) by (auto simp: same_kind_def init_buf_def split: if_splits)
  have a: "lanes_of ?d3 = squeeze_start (rate d) ds (full @ rest)" "length (lanes_of ?d3) = 25"
    using d3(1) same_kindD(1) [OF k] absorbing_lanes [OF d3(1)]
    by (simp_all add: squeeze_start_def absorbing_def pad101_mod [OF r(4)] del: length_append)
  have "rate ?d3 = rate d" "length (storage ?d3) = maxRate" "direction ?d3 = spongeSqueezing"
    using d3(1) same_kindD(1) [OF k] by (simp_all add: absorbing_def)
  then have sq: "squeezing (copyOut ?d3) (squeeze_start (rate d) ds (full @ rest)) 0"
    using r(2) a copyOut_start [of ?d3] by (simp add: squeezing_def rate_ok_def)
  from k show ?thesis by (intro that [OF p sq]) (auto simp: same_kind_def copyOut_def)
qed

lemma Read_absorbs:
  assumes "absorbs d M"
  obtains d' where "Read n d = Some (sponge_hash (rate d) (dsbyte d) M n, d')"
    "squeezing d' (squeeze_start (rate d) (dsbyte d) M) n" "same_kind d d'"
proof -
  from assms obtain full rest where M: "M = full @ rest" "length rest < rate d" "absorbing (init_buf d) full rest"
    by (auto simp: absorbs_def)
  obtain d1 where d1: "padAndPermute (dsbyte d) d = Some d1" "squeezing d1 (squeeze_start (rate d) (dsbyte d) M) 0" "same_kind d d1"
    unfolding M(1) by (rule padAndPermute_squeezing [OF M(3,2)])
  have "direction d = spongeAbsorbing" using M(3) by (simp add: absorbing_def)
  with d1(1) have "Read n d = Read_loop [] n d1" by (simp add: Read_def)
  with Read_loop_reads [OF d1(2), of n "[]"] same_kindD(1) [OF d1(3)] obtain d' where
    "Read n d = Some (sponge_hash (rate d) (dsbyte d) M n, d')" "squeezing d' (squeeze_start (rate d) (dsbyte d) M) n" "same_kind d1 d'"
    by (auto simp: reads_def sponge_hash_def)
  with same_kind_trans [OF d1(3)] show ?thesis by (intro that) auto
qed

lemma Read_squeezing:
  assumes "squeezing d A k"
  obtains d' where "Read n d = Some (map (squeeze_byte (rate d) A) [k..<k + n], d')" "squeezing d' A (k + n)" "same_kind d d'"
  using Read_loop_reads [OF assms, of n "[]"] assms by (auto simp: reads_def Read_def squeezing_def)

lemma clone_absorbs:
  assumes "absorbs d M"
  obtains d' where "clone d = Some d'" "absorbs d' M" "same_kind d d'"
proof -
  let ?d = "d\<lparr>buf := Some (0, buf_len d)\<rparr>"
  have "direction d = spongeAbsorbing" "init_buf ?d = init_buf d"
    using assms by (auto simp: absorbs_def absorbing_def init_buf_def buf_len_def split: if_splits)
  with assms show ?thesis
    by (intro that [of ?d]) (auto simp: clone_def absorbs_def same_kind_def)
qed

lemma Sum_absorbs:
  assumes "absorbs d M" and "0 \<le> outputLen d"
  shows "Sum inp d = Some (inp @ sponge_hash (rate d) (dsbyte d) M (nat (outputLen d)))"
proof -
  obtain e where e: "clone d = Some e" "absorbs e M" "same_kind d e" by (rule clone_absorbs [OF assms(1)])
  obtain f where "Read (nat (outputLen e)) e = Some (sponge_hash (rate e) (dsbyte e) M (nat (outputLen e)), f)"
    by (rule Read_absorbs [OF e(2)])
  with e assms(2) show ?thesis by (simp add: Sum_def same_kindD)
qed

end
