(* ===== verification/Sha3.thy ===== *)
theory Sha3
  imports Sponge
begin

text \<open>
  The hash functions built on the sponge: \<^verbatim>\<open>crypto/sha3/hashes.go\<close>, \<^verbatim>\<open>shake.go\<close>, \<^verbatim>\<open>cshake.go\<close>, \<^verbatim>\<open>kmac.go\<close>,
  \<^verbatim>\<open>tuple_hash.go\<close>, and the free list of \<^verbatim>\<open>crypto/sha3pool\<close>. \<open>hash_object\<close> is what a user of \<^verbatim>\<open>hash.Hash\<close> and
  \<^verbatim>\<open>ShakeHash\<close> relies on; it is interpreted on sponges, KMAC and TupleHash objects.
\<close>

section \<open>The code\<close>

subsection \<open>SHA-3 and SHAKE\<close>

definition sponge_new :: "nat \<Rightarrow> int \<Rightarrow> byte \<Rightarrow> sponge" where
  \<comment> \<open>\<^verbatim>\<open>&state{rate: r, outputLen: n, dsbyte: ds}\<close>\<close>
  "sponge_new r n ds =
    \<lparr>lanes_of = replicate 25 0, buf = None, rate = r, dsbyte = ds, storage = replicate maxRate 0, outputLen = n,
     direction = spongeAbsorbing, varintbuf = replicate 9 0\<rparr>"

definition New224 :: sponge where "New224 = sponge_new 144 28 0x06"
definition New256 :: sponge where "New256 = sponge_new 136 32 0x06"
definition New384 :: sponge where "New384 = sponge_new 104 48 0x06"
definition New512 :: sponge where "New512 = sponge_new 72 64 0x06"
definition NewShake128 :: sponge where "NewShake128 = sponge_new 168 0 0x1f"
definition NewShake256 :: sponge where "NewShake256 = sponge_new 136 0 0x1f"

definition write_sum :: "bytes \<Rightarrow> sponge \<Rightarrow> bytes option" where
  \<comment> \<open>\<^verbatim>\<open>h.Write(data); h.Sum(digest[:0])\<close>\<close>
  "write_sum data h = (case Write data h of None \<Rightarrow> None | Some h \<Rightarrow> Sum [] h)"

definition write_read :: "nat \<Rightarrow> bytes \<Rightarrow> sponge \<Rightarrow> bytes option" where
  \<comment> \<open>\<^verbatim>\<open>h.Write(data); h.Read(hash)\<close>, with \<open>n\<close> the length of \<^verbatim>\<open>hash\<close>\<close>
  "write_read n data h = (case Write data h of None \<Rightarrow> None | Some h \<Rightarrow> map_option fst (Read n h))"

definition sha3_Sum224 :: "bytes \<Rightarrow> bytes option" where "sha3_Sum224 data = write_sum data New224"
definition sha3_Sum256 :: "bytes \<Rightarrow> bytes option" where "sha3_Sum256 data = write_sum data New256"
definition sha3_Sum384 :: "bytes \<Rightarrow> bytes option" where "sha3_Sum384 data = write_sum data New384"
definition sha3_Sum512 :: "bytes \<Rightarrow> bytes option" where "sha3_Sum512 data = write_sum data New512"
definition ShakeSum128 :: "nat \<Rightarrow> bytes \<Rightarrow> bytes option" where "ShakeSum128 n data = write_read n data NewShake128"
definition ShakeSum256 :: "nat \<Rightarrow> bytes \<Rightarrow> bytes option" where "ShakeSum256 n data = write_read n data NewShake256"

subsection \<open>cSHAKE\<close>

definition leftEncode :: "uint64 \<Rightarrow> sponge \<Rightarrow> (nat \<times> sponge) option" where
  "leftEncode v d =
    (let input = replicate 9 0;
         input = (if v = 0 then input else take 1 input @ PutUint64_be v);
         offset = (if v = 0 then 8 else length (takeWhile (\<lambda>x. x = 0) input));
         input = input[offset - 1 := of_nat (9 - offset)];
         b = drop (offset - 1) input
     in map_option (Pair (length b)) (Write b (d\<lparr>varintbuf := input\<rparr>)))"

definition rightEncode :: "uint64 \<Rightarrow> sponge \<Rightarrow> (nat \<times> sponge) option" where
  "rightEncode v d =
    (let input = replicate 9 0;
         input = (if v = 0 then input else PutUint64_be v @ drop 8 input);
         offset = (if v = 0 then 7 else length (takeWhile (\<lambda>x. x = 0) (take 8 input)));
         input = input[8 := of_nat (8 - offset)];
         b = drop offset input
     in map_option (Pair (length b)) (Write b (d\<lparr>varintbuf := input\<rparr>)))"

definition encodeString :: "bytes \<Rightarrow> sponge \<Rightarrow> (nat \<times> sponge) option" where
  "encodeString s d =
    (case leftEncode (of_nat (length s * 8)) d of
       None \<Rightarrow> None
     | Some (n, d) \<Rightarrow> map_option (Pair (n + length s)) (Write s d))"

definition write_zeros :: "nat \<Rightarrow> sponge \<Rightarrow> sponge option" where
  \<comment> \<open>\<^verbatim>\<open>d.Write(zero[:d.rate-(c%d.rate)])\<close>\<close>
  "write_zeros c d = Write (replicate (rate d - c mod rate d) 0) d"

definition initCShake :: "bytes \<Rightarrow> bytes \<Rightarrow> sponge \<Rightarrow> sponge option" where
  "initCShake n s d =
    (case leftEncode (of_nat (rate d)) d of None \<Rightarrow> None
     | Some (c1, d) \<Rightarrow>
      (case encodeString n d of None \<Rightarrow> None
       | Some (c2, d) \<Rightarrow>
        (case encodeString s d of None \<Rightarrow> None
         | Some (c3, d) \<Rightarrow> write_zeros (c1 + c2 + c3) d)))"

definition newCShake :: "nat \<Rightarrow> bytes \<Rightarrow> bytes \<Rightarrow> sponge option" where
  "newCShake securitybits n s =
    (if n = [] \<and> s = [] then
       (if securitybits = 128 then Some (sponge_new 168 0 0x1f)
        else if securitybits = 256 then Some (sponge_new 136 0 0x1f)
        else None)
     else if securitybits = 128 then initCShake n s (sponge_new 168 0 0x04)
     else if securitybits = 256 then initCShake n s (sponge_new 136 0 0x04)
     else None)"

definition NewCShake128 :: "bytes \<Rightarrow> bytes \<Rightarrow> sponge option" where "NewCShake128 n s = newCShake 128 n s"
definition NewCShake256 :: "bytes \<Rightarrow> bytes \<Rightarrow> sponge option" where "NewCShake256 n s = newCShake 256 n s"

definition cshake_Sum128 :: "nat \<Rightarrow> bytes \<Rightarrow> bytes \<Rightarrow> bytes \<Rightarrow> bytes option" where
  \<comment> \<open>\<^verbatim>\<open>CShakeSum128\<close>\<close>
  "cshake_Sum128 l data n s = (case NewCShake128 n s of None \<Rightarrow> None | Some h \<Rightarrow> write_read l data h)"

definition cshake_Sum256 :: "nat \<Rightarrow> bytes \<Rightarrow> bytes \<Rightarrow> bytes \<Rightarrow> bytes option" where
  \<comment> \<open>\<^verbatim>\<open>CShakeSum256\<close>\<close>
  "cshake_Sum256 l data n s = (case NewCShake256 n s of None \<Rightarrow> None | Some h \<Rightarrow> write_read l data h)"

subsection \<open>KMAC and TupleHash\<close>

text \<open>
  \<^verbatim>\<open>kmac\<close> and \<^verbatim>\<open>thash\<close> are the same structure, with the same methods \<^verbatim>\<open>Reset\<close>, \<^verbatim>\<open>Write\<close>, \<^verbatim>\<open>Read\<close>, \<^verbatim>\<open>Sum\<close>, \<^verbatim>\<open>clone\<close> and
  \<^verbatim>\<open>encodeOutputLength\<close>; the record \<open>keyed\<close> stands for both.
\<close>

record keyed =
  inner :: sponge \<comment> \<open>\<^verbatim>\<open>d\<close>\<close>
  lengthEmitted :: bool

definition keyed_Reset :: "keyed \<Rightarrow> keyed" where
  "keyed_Reset k = k\<lparr>lengthEmitted := False, inner := Reset (inner k)\<rparr>"

definition keyed_clone :: "keyed \<Rightarrow> keyed option" where
  "keyed_clone k = map_option (\<lambda>d. k\<lparr>inner := d\<rparr>) (clone (inner k))"

definition keyed_Write :: "bytes \<Rightarrow> keyed \<Rightarrow> keyed option" where
  "keyed_Write p k = map_option (\<lambda>d. k\<lparr>inner := d\<rparr>) (Write p (inner k))"

definition encodeOutputLength :: "keyed \<Rightarrow> keyed option" where
  "encodeOutputLength k =
    map_option (\<lambda>(_, d). k\<lparr>inner := d\<rparr>) (rightEncode (word_of_int (8 * outputLen (inner k))) (inner k))"

definition keyed_Read :: "nat \<Rightarrow> keyed \<Rightarrow> (bytes \<times> keyed) option" where
  "keyed_Read n k =
    (case (if lengthEmitted k then Some k else map_option (\<lambda>k. k\<lparr>lengthEmitted := True\<rparr>) (encodeOutputLength k)) of
       None \<Rightarrow> None
     | Some k \<Rightarrow> map_option (\<lambda>(out, d). (out, k\<lparr>inner := d\<rparr>)) (Read n (inner k)))"

definition keyed_Sum :: "bytes \<Rightarrow> keyed \<Rightarrow> bytes option" where
  "keyed_Sum inp k =
    (case keyed_clone k of
       None \<Rightarrow> None
     | Some dup \<Rightarrow>
        if outputLen (inner dup) < 0 then None
        else (case keyed_Read (nat (outputLen (inner dup))) dup of None \<Rightarrow> None | Some (h, _) \<Rightarrow> Some (inp @ h)))"

definition newKMAC :: "nat \<Rightarrow> bytes \<Rightarrow> int \<Rightarrow> bytes \<Rightarrow> keyed option" where
  "newKMAC securitybits key l s =
    (case newCShake securitybits (str ''KMAC'') s of
       None \<Rightarrow> None
     | Some d \<Rightarrow>
        let d = d\<lparr>outputLen := l\<rparr> in
        (case leftEncode (of_nat (rate d)) d of None \<Rightarrow> None
         | Some (n1, d) \<Rightarrow>
          (case encodeString key d of None \<Rightarrow> None
           | Some (n2, d) \<Rightarrow> map_option (\<lambda>d. \<lparr>inner = d, lengthEmitted = False\<rparr>) (write_zeros (n1 + n2) d))))"

definition NewKMAC128 :: "bytes \<Rightarrow> int \<Rightarrow> bytes \<Rightarrow> keyed option" where "NewKMAC128 key l s = newKMAC 128 key l s"
definition NewKMAC256 :: "bytes \<Rightarrow> int \<Rightarrow> bytes \<Rightarrow> keyed option" where "NewKMAC256 key l s = newKMAC 256 key l s"
definition NewKMACXOF128 :: "bytes \<Rightarrow> bytes \<Rightarrow> keyed option" where "NewKMACXOF128 key s = newKMAC 128 key 0 s"
definition NewKMACXOF256 :: "bytes \<Rightarrow> bytes \<Rightarrow> keyed option" where "NewKMACXOF256 key s = newKMAC 256 key 0 s"

primrec encode_items :: "bytes list \<Rightarrow> sponge \<Rightarrow> sponge option" where
  "encode_items [] d = Some d"
| "encode_items (x # xs) d = (case encodeString x d of None \<Rightarrow> None | Some (_, d) \<Rightarrow> encode_items xs d)"

definition newTupleHash :: "nat \<Rightarrow> bytes list \<Rightarrow> bytes \<Rightarrow> sponge option" where
  "newTupleHash securitybits tuple s =
    (case newCShake securitybits (str ''TupleHash'') s of None \<Rightarrow> None | Some d \<Rightarrow> encode_items tuple d)"

definition tuple_sum :: "nat \<Rightarrow> bytes list \<Rightarrow> bytes \<Rightarrow> nat \<Rightarrow> bytes option" where
  \<comment> \<open>the body of \<^verbatim>\<open>TupleHash128\<close> and \<^verbatim>\<open>TupleHash256\<close>, with \<open>l\<close> the length of \<^verbatim>\<open>out\<close>\<close>
  "tuple_sum securitybits tuple s l =
    (case newTupleHash securitybits tuple s of None \<Rightarrow> None
     | Some d \<Rightarrow>
      (case rightEncode (of_nat (l * 8)) d of None \<Rightarrow> None | Some (_, d) \<Rightarrow> map_option fst (Read l d)))"

definition TupleHash128 :: "bytes list \<Rightarrow> bytes \<Rightarrow> nat \<Rightarrow> bytes option" where "TupleHash128 tuple s l = tuple_sum 128 tuple s l"
definition TupleHash256 :: "bytes list \<Rightarrow> bytes \<Rightarrow> nat \<Rightarrow> bytes option" where "TupleHash256 tuple s l = tuple_sum 256 tuple s l"

definition tuple_xof :: "nat \<Rightarrow> bytes list \<Rightarrow> bytes \<Rightarrow> sponge option" where
  "tuple_xof securitybits tuple s =
    (case newTupleHash securitybits tuple s of None \<Rightarrow> None | Some d \<Rightarrow> map_option snd (rightEncode 0 d))"

definition TupleHashXOF128 :: "bytes list \<Rightarrow> bytes \<Rightarrow> sponge option" where "TupleHashXOF128 tuple s = tuple_xof 128 tuple s"
definition TupleHashXOF256 :: "bytes list \<Rightarrow> bytes \<Rightarrow> sponge option" where "TupleHashXOF256 tuple s = tuple_xof 256 tuple s"

definition newTupleHasher :: "nat \<Rightarrow> int \<Rightarrow> bytes \<Rightarrow> keyed option" where
  "newTupleHasher securitybits l s =
    map_option (\<lambda>d. \<lparr>inner = d\<lparr>outputLen := l\<rparr>, lengthEmitted = False\<rparr>) (newCShake securitybits (str ''TupleHash'') s)"

definition WriteItem :: "bytes \<Rightarrow> keyed \<Rightarrow> (nat \<times> keyed) option" where
  "WriteItem p t = map_option (\<lambda>(n, d). (n, t\<lparr>inner := d\<rparr>)) (encodeString p (inner t))"

definition WriteItemPrefix :: "int \<Rightarrow> keyed \<Rightarrow> (nat \<times> keyed) option" where
  "WriteItemPrefix l t = map_option (\<lambda>(n, d). (n, t\<lparr>inner := d\<rparr>)) (leftEncode (word_of_int (l * 8)) (inner t))"

subsection \<open>The free list\<close>

text \<open>\<^verbatim>\<open>sync.Pool\<close> hands out any of its elements or a new one: \<open>i\<close> is the choice of the run-time system.\<close>

type_synonym pool = "sponge list"

definition Get256 :: "nat \<Rightarrow> pool \<Rightarrow> sponge \<times> pool" where
  "Get256 i pl = (if i < length pl then (pl ! i, take i pl @ drop (Suc i) pl) else (New256, pl))"

definition Put256 :: "sponge \<Rightarrow> pool \<Rightarrow> pool" where
  "Put256 h pl = Reset h # pl"

definition pool_Sum256 :: "nat \<Rightarrow> nat \<Rightarrow> bytes \<Rightarrow> pool \<Rightarrow> (bytes \<times> pool) option" where
  "pool_Sum256 i n data pl =
    (let (h, pl) = Get256 i pl in
     case Write data h of None \<Rightarrow> None
     | Some h \<Rightarrow> (case Read n h of None \<Rightarrow> None | Some (hash, h) \<Rightarrow> Some (hash, Put256 h pl)))"

section \<open>The interface of hash objects\<close>

primrec write_all :: "(bytes \<Rightarrow> 's \<Rightarrow> 's option) \<Rightarrow> bytes list \<Rightarrow> 's \<Rightarrow> 's option" where
  "write_all w [] s = Some s"
| "write_all w (p # ps) s = (case w p s of None \<Rightarrow> None | Some s \<Rightarrow> write_all w ps s)"

primrec read_all :: "(nat \<Rightarrow> 's \<Rightarrow> (bytes \<times> 's) option) \<Rightarrow> nat list \<Rightarrow> 's \<Rightarrow> (bytes \<times> 's) option" where
  "read_all r [] s = Some ([], s)"
| "read_all r (n # ns) s =
    (case r n s of None \<Rightarrow> None
     | Some (out, s) \<Rightarrow> map_option (\<lambda>(out', s). (out @ out', s)) (read_all r ns s))"

text \<open>
  An object absorbs a message piece by piece, then gives out its endless output piece by piece. \<open>absorbed s M\<close>: it has taken
  the message \<open>M\<close>; \<open>out s M\<close>: the output it will give for \<open>M\<close>; \<open>squeezed s f k\<close>: it has given \<open>k\<close> bytes of the output \<open>f\<close>.
\<close>

locale hash_object =
  fixes write_op :: "bytes \<Rightarrow> 's \<Rightarrow> 's option" and read_op :: "nat \<Rightarrow> 's \<Rightarrow> (bytes \<times> 's) option"
    and sum_op :: "bytes \<Rightarrow> 's \<Rightarrow> bytes option"
    and absorbed :: "'s \<Rightarrow> bytes \<Rightarrow> bool" and squeezed :: "'s \<Rightarrow> (nat \<Rightarrow> byte) \<Rightarrow> nat \<Rightarrow> bool"
    and outp :: "'s \<Rightarrow> bytes \<Rightarrow> nat \<Rightarrow> byte" and size_of :: "'s \<Rightarrow> nat"
  assumes write_ok: "absorbed s M \<Longrightarrow>
      \<exists>s'. write_op p s = Some s' \<and> absorbed s' (M @ p) \<and> outp s' = outp s \<and> size_of s' = size_of s"
    and read_first: "absorbed s M \<Longrightarrow> \<exists>s'. read_op n s = Some (map (outp s M) [0..<n], s') \<and> squeezed s' (outp s M) n"
    and read_more: "squeezed s f k \<Longrightarrow> \<exists>s'. read_op n s = Some (map f [k..<k + n], s') \<and> squeezed s' f (k + n)"
    and sum_ok: "absorbed s M \<Longrightarrow> sum_op inp s = Some (inp @ map (outp s M) [0..<size_of s])"
begin

lemma write_all_ok:
  "absorbed s M \<Longrightarrow>
    \<exists>s'. write_all write_op ps s = Some s' \<and> absorbed s' (M @ concat ps) \<and> outp s' = outp s \<and> size_of s' = size_of s"
proof (induction ps arbitrary: s M)
  case (Cons p ps)
  from write_ok [OF Cons.prems, of p] obtain s1 where
    s1: "write_op p s = Some s1" "absorbed s1 (M @ p)" "outp s1 = outp s" "size_of s1 = size_of s" by blast
  from Cons.IH [OF s1(2)] s1 show ?case by auto
qed simp

lemma read_all_ok:
  "squeezed s f k \<Longrightarrow>
    \<exists>s'. read_all read_op ns s = Some (map f [k..<k + sum_list ns], s') \<and> squeezed s' f (k + sum_list ns)"
proof (induction ns arbitrary: s k)
  case (Cons n ns)
  from read_more [OF Cons.prems, of n] obtain s1 where
    s1: "read_op n s = Some (map f [k..<k + n], s1)" "squeezed s1 f (k + n)" by blast
  from Cons.IH [OF s1(2)] obtain s2 where
    s2: "read_all read_op ns s1 = Some (map f [k + n..<k + n + sum_list ns], s2)" "squeezed s2 f (k + n + sum_list ns)" by blast
  have "[k..<k + sum_list (n # ns)] = [k..<k + n] @ [k + n..<k + n + sum_list ns]"
    using upt_add_eq_append [of k "k + n" "sum_list ns"] by (simp add: add.assoc)
  with s1 s2 show ?case by (auto simp: add.assoc)
qed simp

lemma streaming:
  assumes "absorbed s M"
  obtains s1 s2 where "write_all write_op ps s = Some s1" "absorbed s1 (M @ concat ps)"
    "sum_op inp s1 = Some (inp @ map (outp s (M @ concat ps)) [0..<size_of s])"
    "read_all read_op (n # ns) s1 = Some (map (outp s (M @ concat ps)) [0..<n + sum_list ns], s2)"
proof -
  from write_all_ok [OF assms, of ps] obtain s1 where
    s1: "write_all write_op ps s = Some s1" "absorbed s1 (M @ concat ps)" "outp s1 = outp s" "size_of s1 = size_of s" by blast
  from read_first [OF s1(2), of n] obtain s2 where
    s2: "read_op n s1 = Some (map (outp s1 (M @ concat ps)) [0..<n], s2)" "squeezed s2 (outp s1 (M @ concat ps)) n" by blast
  from read_all_ok [OF s2(2), of ns] obtain s3 where
    s3: "read_all read_op ns s2 = Some (map (outp s1 (M @ concat ps)) [n..<n + sum_list ns], s3)" by blast
  have "[0..<n + sum_list ns] = [0..<n] @ [n..<n + sum_list ns]" using upt_add_eq_append [of 0 n "sum_list ns"] by simp
  with s1 s2 s3 sum_ok [OF s1(2), of inp] show ?thesis by (intro that) auto
qed

end

section \<open>Sponges\<close>

abbreviation sponge_out :: "sponge \<Rightarrow> bytes \<Rightarrow> nat \<Rightarrow> byte" where
  "sponge_out d M \<equiv> squeeze_byte (rate d) (squeeze_start (rate d) (dsbyte d) M)"

abbreviation ready :: "sponge \<Rightarrow> bytes \<Rightarrow> bool" where
  "ready d M \<equiv> absorbs d M \<and> 0 \<le> outputLen d"

abbreviation drained :: "sponge \<Rightarrow> (nat \<Rightarrow> byte) \<Rightarrow> nat \<Rightarrow> bool" where
  "drained d f k \<equiv> \<exists>A. squeezing d A k \<and> f = squeeze_byte (rate d) A"

interpretation sponges: hash_object Write Read Sum ready drained sponge_out "\<lambda>d. nat (outputLen d)"
proof unfold_locales
  fix d M p
  assume "ready d M"
  moreover from this obtain d' where "Write p d = Some d'" "absorbs d' (M @ p)" "same_kind d d'" using Write_absorbs by blast
  ultimately show "\<exists>d'. Write p d = Some d' \<and> ready d' (M @ p) \<and> sponge_out d' = sponge_out d \<and> nat (outputLen d') = nat (outputLen d)"
    by (auto simp: same_kindD)
next
  fix d M n
  assume "ready d M"
  then obtain d' where d': "Read n d = Some (sponge_hash (rate d) (dsbyte d) M n, d')"
    "squeezing d' (squeeze_start (rate d) (dsbyte d) M) n" "same_kind d d'" using Read_absorbs by blast
  then show "\<exists>d'. Read n d = Some (map (sponge_out d M) [0..<n], d') \<and> drained d' (sponge_out d M) n"
    by (auto simp: sponge_hash_def same_kindD)
next
  fix d f k n
  assume "drained d f k"
  then obtain A where A: "squeezing d A k" "f = squeeze_byte (rate d) A" by blast
  then obtain d' where d': "Read n d = Some (map f [k..<k + n], d')" "squeezing d' A (k + n)" "same_kind d d'"
    using Read_squeezing [OF A(1), of n] by blast
  then show "\<exists>d'. Read n d = Some (map f [k..<k + n], d') \<and> drained d' f (k + n)"
    by (auto simp: A(2) same_kindD)
next
  fix d M inp
  assume "ready d M"
  then show "Sum inp d = Some (inp @ map (sponge_out d M) [0..<nat (outputLen d)])"
    using Sum_absorbs [of d M inp] by (simp add: sponge_hash_def)
qed

lemma sponge_new_absorbs: "rate_ok r \<Longrightarrow> absorbs (sponge_new r n ds) []"
  by (auto simp: absorbs_def absorbing_def sponge_new_def init_buf_def rate_ok_def absorb.simps)

lemma rates_ok [simp]: "rate_ok 168" "rate_ok 144" "rate_ok 136" "rate_ok 104" "rate_ok 72"
  by (simp_all add: rate_ok_def maxRate_def)

lemma sponge_new_simps [simp]:
  "rate (sponge_new r n ds) = r" "dsbyte (sponge_new r n ds) = ds" "outputLen (sponge_new r n ds) = n"
  by (simp_all add: sponge_new_def)

lemma write_sum_new:
  assumes "rate_ok r" and "0 \<le> n"
  shows "write_sum x (sponge_new r n ds) = Some (sponge_hash r ds x (nat n))"
proof -
  have "ready (sponge_new r n ds) []" using assms sponge_new_absorbs by simp
  from sponges.write_ok [OF this, of x] obtain d' where
    d': "Write x (sponge_new r n ds) = Some d'" "ready d' x" "sponge_out d' = sponge_out (sponge_new r n ds)" "nat (outputLen d') = nat n"
    by auto
  with sponges.sum_ok [OF d'(2), of "[]"] show ?thesis unfolding fun_cong [OF d'(3)] by (simp add: write_sum_def sponge_hash_def)
qed

lemma write_read_ready:
  assumes "ready d M"
  shows "write_read n x d = Some (sponge_hash (rate d) (dsbyte d) (M @ x) n)"
proof -
  from sponges.write_ok [OF assms, of x] obtain d' where
    d': "Write x d = Some d'" "ready d' (M @ x)" "sponge_out d' = sponge_out d" by blast
  from sponges.read_first [OF d'(2), of n] obtain d2 where "Read n d' = Some (map (sponge_out d (M @ x)) [0..<n], d2)"
    unfolding fun_cong [OF d'(3)] by blast
  with d'(1) show ?thesis by (simp add: write_read_def sponge_hash_def)
qed

lemma Sum256_eq: "sha3_Sum256 x = Some (sponge_hash 136 0x06 x 32)"
  and Sum224_eq: "sha3_Sum224 x = Some (sponge_hash 144 0x06 x 28)"
  and Sum384_eq: "sha3_Sum384 x = Some (sponge_hash 104 0x06 x 48)"
  and Sum512_eq: "sha3_Sum512 x = Some (sponge_hash 72 0x06 x 64)"
  by (simp_all add: sha3_Sum256_def New256_def sha3_Sum224_def New224_def sha3_Sum384_def New384_def
      sha3_Sum512_def New512_def write_sum_new)

lemma ShakeSum_eq: "ShakeSum128 n x = Some (sponge_hash 168 0x1f x n)" "ShakeSum256 n x = Some (sponge_hash 136 0x1f x n)"
  using write_read_ready [of NewShake128 "[]" n x] write_read_ready [of NewShake256 "[]" n x]
  by (simp_all add: ShakeSum128_def NewShake128_def ShakeSum256_def NewShake256_def sponge_new_absorbs)

lemma Reset_absorbs:
  assumes "absorbs d M \<or> squeezing d A k"
  shows "absorbs (Reset d) []" and "same_kind d (Reset d)"
proof -
  have "rate_ok (rate d)" "length (storage d) = maxRate" "length (lanes_of d) = 25"
    using assms
    by (auto simp: length_absorb length_keccak_pow absorbs_def absorbing_def squeezing_def init_buf_def split: if_splits)
  then show "absorbs (Reset d) []"
    by (auto simp: absorbs_def absorbing_def Reset_def init_buf_def rate_ok_def absorb.simps map_replicate_const)
  show "same_kind d (Reset d)" by (simp add: same_kind_def Reset_def)
qed

section \<open>Encodings\<close>

definition significant :: "uint64 \<Rightarrow> bytes" where
  \<comment> \<open>the shortest big-endian form, of at least one byte\<close>
  "significant v = (if v = 0 then [0] else dropWhile (\<lambda>x. x = 0) (PutUint64_be v))"

definition left_encode :: "uint64 \<Rightarrow> bytes" where
  "left_encode v = of_nat (length (significant v)) # significant v"

definition right_encode :: "uint64 \<Rightarrow> bytes" where
  "right_encode v = significant v @ [of_nat (length (significant v))]"

definition encode_string :: "bytes \<Rightarrow> bytes" where
  "encode_string s = left_encode (of_nat (length s * 8)) @ s"

definition padded :: "nat \<Rightarrow> bytes \<Rightarrow> bytes" where
  \<comment> \<open>the padding of the code: at least one zero\<close>
  "padded r b = b @ replicate (r - length b mod r) 0"

lemma PutUint64_be_0: "PutUint64_be 0 = replicate 8 0"
  by code_simp

lemma PutUint64_be_inject: "PutUint64_be v = PutUint64_be w \<Longrightarrow> v = w"
  by (metis Uint64_be_PutUint64_be append_Nil2)

lemma takeWhile_zeros: "takeWhile (\<lambda>x. x = 0) xs = replicate (length (takeWhile (\<lambda>x. x = 0) xs)) (0 :: byte)"
  by (induction xs) auto

lemma PutUint64_be_significant: "PutUint64_be v = replicate (8 - length (significant v)) 0 @ significant v"
proof (cases "v = 0")
  case True
  then show ?thesis by (simp add: significant_def PutUint64_be_0 replicate_append_same [symmetric] eval_nat_numeral)
next
  case False
  let ?t = "takeWhile (\<lambda>x. x = 0) (PutUint64_be v)"
  have "length ?t + length (significant v) = 8"
    using False by (simp add: significant_def) (metis length_PutUint64(2) length_append takeWhile_dropWhile_id)
  then show ?thesis using False takeWhile_zeros [of "PutUint64_be v"] takeWhile_dropWhile_id [of "\<lambda>x. x = 0" "PutUint64_be v"]
    by (metis add_diff_cancel_right' significant_def)
qed

lemma significant_inject: "significant v = significant w \<Longrightarrow> v = w"
  using PutUint64_be_significant [of v] PutUint64_be_significant [of w] by (auto intro: PutUint64_be_inject)

lemma length_significant: "length (significant v) \<le> 8" "significant v \<noteq> []"
proof -
  have "length (dropWhile P xs) \<le> length xs" for P and xs :: bytes by (rule length_dropWhile_le)
  from this [of _ "PutUint64_be v"] show "length (significant v) \<le> 8" by (auto simp: significant_def)
  show "significant v \<noteq> []"
  proof
    assume e: "significant v = []"
    then have "PutUint64_be v = replicate 8 0" using PutUint64_be_significant [of v] by simp
    then have "v = 0" by (metis PutUint64_be_0 PutUint64_be_inject)
    with e show False by (simp add: significant_def)
  qed
qed

lemma length_byte_inject: "m \<le> 8 \<Longrightarrow> n \<le> 8 \<Longrightarrow> (of_nat m :: byte) = of_nat n \<Longrightarrow> m = n"
  by (simp add: word_of_nat_eq_iff take_bit_nat_eq_self)

lemma left_encode_prefix: "left_encode v @ X = left_encode w @ Y \<Longrightarrow> v = w \<and> X = Y"
proof -
  assume e: "left_encode v @ X = left_encode w @ Y"
  then have "length (significant v) = length (significant w)"
    by (intro length_byte_inject length_significant) (simp add: left_encode_def)
  with e have "significant v = significant w \<and> X = Y" by (simp add: left_encode_def)
  then show ?thesis by (auto intro: significant_inject)
qed

lemma right_encode_suffix: "X @ right_encode v = Y @ right_encode w \<Longrightarrow> v = w \<and> X = Y"
proof -
  assume e: "X @ right_encode v = Y @ right_encode w"
  then have "length (significant v) = length (significant w)"
    by (intro length_byte_inject length_significant) (simp add: right_encode_def)
  with e have "significant v = significant w \<and> X = Y" by (simp add: right_encode_def)
  then show ?thesis by (auto intro: significant_inject)
qed

lemma encode_string_prefix:
  assumes "length s < 2 ^ 61" and "length t < 2 ^ 61" and "encode_string s @ X = encode_string t @ Y"
  shows "s = t \<and> X = Y"
proof -
  have "(of_nat (length s * 8) :: uint64) = of_nat (length t * 8)" "s @ X = t @ Y"
    using left_encode_prefix [of "of_nat (length s * 8)" "s @ X" "of_nat (length t * 8)" "t @ Y"] assms(3)
    by (simp_all add: encode_string_def)
  moreover from this(1) have "length s * 8 = length t * 8"
    using assms(1,2) unfolding word_of_nat_eq_iff by (simp add: take_bit_nat_eq_self)
  ultimately show ?thesis by simp
qed

lemma encode_strings_inject:
  assumes "\<forall>x\<in>set xs \<union> set ys. length x < 2 ^ 61" and "concat (map encode_string xs) = concat (map encode_string ys)"
  shows "xs = ys"
  using assms
proof (induction xs arbitrary: ys)
  case Nil
  then show ?case by (cases ys) (auto simp: encode_string_def left_encode_def)
next
  case (Cons x xs)
  then obtain y ys' where ys: "ys = y # ys'" by (cases ys) (auto simp: encode_string_def left_encode_def)
  with Cons.prems have "x = y \<and> concat (map encode_string xs) = concat (map encode_string ys')"
    by (intro encode_string_prefix) auto
  with Cons.IH [of ys'] Cons.prems(1) show ?case by (simp add: ys)
qed

lemma drop_update: "n < length xs \<Longrightarrow> drop n (xs[n := y]) = y # drop (Suc n) xs"
  using Cons_nth_drop_Suc [of n "xs[n := y]"] by simp

lemma leftEncode_Write:
  obtains b where "leftEncode v d = map_option (Pair (length (left_encode v))) (Write (left_encode v) (d\<lparr>varintbuf := b\<rparr>))"
proof (cases "v = 0")
  case True
  have "leftEncode v d = map_option (Pair (length (left_encode v))) (Write (left_encode v) (d\<lparr>varintbuf := (replicate 9 0)[7 := 1]\<rparr>))"
    by (simp add: True leftEncode_def Let_def left_encode_def significant_def eval_nat_numeral)
  then show ?thesis by (rule that)
next
  case False
  let ?z = "length (takeWhile (\<lambda>x. x = 0) (PutUint64_be v))"
  let ?in = "(0 # PutUint64_be v)[?z := of_nat (8 - ?z)]"
  have s: "significant v = drop ?z (PutUint64_be v)" using False by (simp add: significant_def dropWhile_eq_drop)
  have "?z \<le> 8" using length_takeWhile_le [of "\<lambda>x. x = 0" "PutUint64_be v"] by simp
  then have e: "drop ?z ?in = left_encode v"
    by (subst drop_update) (simp_all add: left_encode_def s)
  have "leftEncode v d = map_option (Pair (length (drop ?z ?in))) (Write (drop ?z ?in) (d\<lparr>varintbuf := ?in\<rparr>))"
    using False by (simp add: leftEncode_def Let_def del: list_update.simps length_drop)
  then show ?thesis unfolding e by (rule that)
qed

lemma rightEncode_Write:
  obtains b where "rightEncode v d = map_option (Pair (length (right_encode v))) (Write (right_encode v) (d\<lparr>varintbuf := b\<rparr>))"
proof (cases "v = 0")
  case True
  have "rightEncode v d = map_option (Pair (length (right_encode v))) (Write (right_encode v) (d\<lparr>varintbuf := (replicate 9 0)[8 := 1]\<rparr>))"
    by (simp add: True rightEncode_def Let_def right_encode_def significant_def eval_nat_numeral)
  then show ?thesis by (rule that)
next
  case False
  let ?z = "length (takeWhile (\<lambda>x. x = 0) (PutUint64_be v))"
  let ?in = "PutUint64_be v @ [of_nat (8 - ?z)]"
  have s: "significant v = drop ?z (PutUint64_be v)" using False by (simp add: significant_def dropWhile_eq_drop)
  have "?z \<le> 8" using length_takeWhile_le [of "\<lambda>x. x = 0" "PutUint64_be v"] by simp
  then have e: "drop ?z ?in = right_encode v" by (simp add: right_encode_def s)
  have "(PutUint64_be v @ [0])[8 := x] = PutUint64_be v @ [x]" for x
    by (metis length_PutUint64(2) list_update_length)
  then have "rightEncode v d = map_option (Pair (length (drop ?z ?in))) (Write (drop ?z ?in) (d\<lparr>varintbuf := ?in\<rparr>))"
    using False by (simp add: rightEncode_def Let_def del: length_drop drop_append)
  then show ?thesis unfolding e by (rule that)
qed

section \<open>cSHAKE, KMAC, TupleHash\<close>

definition cshake_prefix :: "nat \<Rightarrow> bytes \<Rightarrow> bytes \<Rightarrow> bytes" where
  "cshake_prefix r n s = padded r (left_encode (of_nat r) @ encode_string n @ encode_string s)"

definition kmac_prefix :: "nat \<Rightarrow> bytes \<Rightarrow> bytes" where
  "kmac_prefix r key = padded r (left_encode (of_nat r) @ encode_string key)"

lemma absorbs_varintbuf: "absorbs (d\<lparr>varintbuf := b\<rparr>) M = absorbs d M" "same_kind (d\<lparr>varintbuf := b\<rparr>) d' = same_kind d d'"
  by (simp_all add: absorbs_def absorbing_def init_buf_def same_kind_def)

lemma absorbs_outputLen: "absorbs (d\<lparr>outputLen := b\<rparr>) M = absorbs d M"
  by (simp add: absorbs_def absorbing_def init_buf_def)

lemma leftEncode_absorbs:
  assumes "absorbs d M"
  obtains d' where "leftEncode v d = Some (length (left_encode v), d')" "absorbs d' (M @ left_encode v)" "same_kind d d'"
proof -
  obtain b where b: "leftEncode v d = map_option (Pair (length (left_encode v))) (Write (left_encode v) (d\<lparr>varintbuf := b\<rparr>))"
    by (rule leftEncode_Write)
  have "absorbs (d\<lparr>varintbuf := b\<rparr>) M" using assms by (simp add: absorbs_varintbuf)
  then obtain d' where "Write (left_encode v) (d\<lparr>varintbuf := b\<rparr>) = Some d'" "absorbs d' (M @ left_encode v)"
      "same_kind (d\<lparr>varintbuf := b\<rparr>) d'" by (rule Write_absorbs)
  with b show ?thesis by (intro that) (simp_all add: absorbs_varintbuf)
qed

lemma rightEncode_absorbs:
  assumes "absorbs d M"
  obtains d' where "rightEncode v d = Some (length (right_encode v), d')" "absorbs d' (M @ right_encode v)" "same_kind d d'"
proof -
  obtain b where b: "rightEncode v d = map_option (Pair (length (right_encode v))) (Write (right_encode v) (d\<lparr>varintbuf := b\<rparr>))"
    by (rule rightEncode_Write)
  have "absorbs (d\<lparr>varintbuf := b\<rparr>) M" using assms by (simp add: absorbs_varintbuf)
  then obtain d' where "Write (right_encode v) (d\<lparr>varintbuf := b\<rparr>) = Some d'" "absorbs d' (M @ right_encode v)"
      "same_kind (d\<lparr>varintbuf := b\<rparr>) d'" by (rule Write_absorbs)
  with b show ?thesis by (intro that) (simp_all add: absorbs_varintbuf)
qed

lemma encodeString_absorbs:
  assumes "absorbs d M"
  obtains d' where "encodeString s d = Some (length (encode_string s), d')" "absorbs d' (M @ encode_string s)" "same_kind d d'"
proof -
  obtain d1 where d1: "leftEncode (of_nat (length s * 8)) d = Some (length (left_encode (of_nat (length s * 8))), d1)"
    "absorbs d1 (M @ left_encode (of_nat (length s * 8)))" "same_kind d d1" by (rule leftEncode_absorbs [OF assms])
  obtain d2 where "Write s d1 = Some d2" "absorbs d2 ((M @ left_encode (of_nat (length s * 8))) @ s)" "same_kind d1 d2"
    by (rule Write_absorbs [OF d1(2)])
  with d1 show ?thesis by (intro that [of d2]) (auto simp: encodeString_def encode_string_def intro: same_kind_trans)
qed

lemma write_zeros_absorbs:
  assumes "absorbs d (M @ b)" and "c = length b"
  obtains d' where "write_zeros c d = Some d'" "absorbs d' (M @ padded (rate d) b)" "same_kind d d'"
  using Write_absorbs [OF assms(1), of "replicate (rate d - c mod rate d) 0"] assms(2)
  by (auto simp: write_zeros_def padded_def)

lemma initCShake_absorbs:
  assumes "absorbs d []"
  obtains d' where "initCShake n s d = Some d'" "absorbs d' (cshake_prefix (rate d) n s)" "same_kind d d'"
proof -
  let ?l = "left_encode (of_nat (rate d))"
  obtain d1 where d1: "leftEncode (of_nat (rate d)) d = Some (length ?l, d1)" "absorbs d1 ([] @ ?l)" "same_kind d d1"
    by (rule leftEncode_absorbs [OF assms])
  obtain d2 where d2: "encodeString n d1 = Some (length (encode_string n), d2)"
    "absorbs d2 (([] @ ?l) @ encode_string n)" "same_kind d1 d2" by (rule encodeString_absorbs [OF d1(2)])
  obtain d3 where d3: "encodeString s d2 = Some (length (encode_string s), d3)"
    "absorbs d3 ((([] @ ?l) @ encode_string n) @ encode_string s)" "same_kind d2 d3" by (rule encodeString_absorbs [OF d2(2)])
  have k: "same_kind d d3" using d1(3) d2(3) d3(3) by (blast intro: same_kind_trans)
  have "absorbs d3 ([] @ ?l @ encode_string n @ encode_string s)" using d3(2) by simp
  then obtain d4 where d4: "write_zeros (length (?l @ encode_string n @ encode_string s)) d3 = Some d4"
    "absorbs d4 ([] @ padded (rate d3) (?l @ encode_string n @ encode_string s))" "same_kind d3 d4"
    by (rule write_zeros_absorbs [OF _ refl])
  then show ?thesis using d1 d2 d3 k same_kindD(1) [OF k]
    by (intro that [of d4]) (auto simp: initCShake_def cshake_prefix_def add.assoc intro: same_kind_trans)
qed

definition cshake_rate :: "nat \<Rightarrow> nat" where
  "cshake_rate bits = (if bits = 128 then 168 else 136)"

definition cshake_start :: "nat \<Rightarrow> bytes \<Rightarrow> bytes \<Rightarrow> bytes" where
  "cshake_start bits n s = (if n = [] \<and> s = [] then [] else cshake_prefix (cshake_rate bits) n s)"

definition cshake_ds :: "bytes \<Rightarrow> bytes \<Rightarrow> byte" where
  "cshake_ds n s = (if n = [] \<and> s = [] then 0x1f else 0x04)"

lemma newCShake_absorbs:
  assumes "bits \<in> {128, 256}"
  obtains d where "newCShake bits n s = Some d" "absorbs d (cshake_start bits n s)"
    "rate d = cshake_rate bits" "dsbyte d = cshake_ds n s" "outputLen d = 0"
proof (cases "n = [] \<and> s = []")
  case True
  with assms show ?thesis
    by (intro that [of "sponge_new (cshake_rate bits) 0 0x1f"])
      (auto simp: newCShake_def cshake_start_def cshake_rate_def cshake_ds_def sponge_new_absorbs)
next
  case False
  let ?d = "sponge_new (cshake_rate bits) 0 0x04"
  have "absorbs ?d []" using assms by (intro sponge_new_absorbs) (auto simp: cshake_rate_def)
  then obtain d where d: "initCShake n s ?d = Some d" "absorbs d (cshake_prefix (cshake_rate bits) n s)" "same_kind ?d d"
    by (rule initCShake_absorbs) simp
  moreover have "newCShake bits n s = initCShake n s ?d" using assms False by (auto simp: newCShake_def cshake_rate_def)
  ultimately show ?thesis using False same_kindD [OF d(3)] by (intro that) (auto simp: cshake_start_def cshake_ds_def)
qed

lemma cshake_Sum128_eq:
  "cshake_Sum128 l x n s = Some (sponge_hash 168 (cshake_ds n s) (cshake_start 128 n s @ x) l)"
proof -
  have "(128 :: nat) \<in> {128, 256}" by simp
  then obtain d where "newCShake 128 n s = Some d" "absorbs d (cshake_start 128 n s)"
    "rate d = cshake_rate 128" "dsbyte d = cshake_ds n s" "outputLen d = 0" by (rule newCShake_absorbs)
  then show ?thesis using write_read_ready [of d "cshake_start 128 n s" l x]
    by (simp add: cshake_Sum128_def NewCShake128_def cshake_rate_def)
qed

abbreviation keyed_message :: "keyed \<Rightarrow> bytes \<Rightarrow> bytes" where
  "keyed_message k M \<equiv> M @ right_encode (word_of_int (8 * outputLen (inner k)))"

lemma keyed_Read_first:
  assumes "\<not> lengthEmitted k \<and> ready (inner k) M"
  shows "\<exists>k'. keyed_Read n k = Some (map (sponge_out (inner k) (keyed_message k M)) [0..<n], k') \<and>
    lengthEmitted k' \<and> drained (inner k') (sponge_out (inner k) (keyed_message k M)) n"
proof -
  obtain d1 where d1: "rightEncode (word_of_int (8 * outputLen (inner k))) (inner k) =
      Some (length (right_encode (word_of_int (8 * outputLen (inner k)))), d1)" "absorbs d1 (keyed_message k M)" "same_kind (inner k) d1"
    using assms rightEncode_absorbs [of "inner k" M] by blast
  obtain d2 where "Read n d1 = Some (sponge_hash (rate d1) (dsbyte d1) (keyed_message k M) n, d2)"
    "squeezing d2 (squeeze_start (rate d1) (dsbyte d1) (keyed_message k M)) n" "same_kind d1 d2" using Read_absorbs [OF d1(2)] by blast
  with d1 assms show ?thesis
    by (auto simp: keyed_Read_def encodeOutputLength_def sponge_hash_def same_kindD)
qed

lemma keyed_Sum_ready:
  assumes "\<not> lengthEmitted k \<and> ready (inner k) M"
  shows "keyed_Sum inp k = Some (inp @ map (sponge_out (inner k) (keyed_message k M)) [0..<nat (outputLen (inner k))])"
proof -
  from assms obtain d where d: "clone (inner k) = Some d" "absorbs d M" "same_kind (inner k) d" using clone_absorbs by blast
  let ?k = "k\<lparr>inner := d\<rparr>"
  have "\<not> lengthEmitted ?k \<and> ready (inner ?k) M" using assms d by (simp add: same_kindD)
  from keyed_Read_first [OF this, of "nat (outputLen (inner k))"] d assms show ?thesis
    by (auto simp: keyed_Sum_def keyed_clone_def same_kindD)
qed

interpretation keyeds: hash_object keyed_Write keyed_Read keyed_Sum "\<lambda>k M. \<not> lengthEmitted k \<and> ready (inner k) M"
  "\<lambda>k f n. lengthEmitted k \<and> drained (inner k) f n" "\<lambda>k M. sponge_out (inner k) (keyed_message k M)" "\<lambda>k. nat (outputLen (inner k))"
proof unfold_locales
  fix k :: keyed and M p
  assume k: "\<not> lengthEmitted k \<and> ready (inner k) M"
  then obtain d' where "Write p (inner k) = Some d'" "absorbs d' (M @ p)" "same_kind (inner k) d'" using Write_absorbs by blast
  with k show "\<exists>k'. keyed_Write p k = Some k' \<and> (\<not> lengthEmitted k' \<and> ready (inner k') (M @ p)) \<and>
      (\<lambda>M. sponge_out (inner k') (keyed_message k' M)) = (\<lambda>M. sponge_out (inner k) (keyed_message k M)) \<and>
      nat (outputLen (inner k')) = nat (outputLen (inner k))"
    by (auto simp: keyed_Write_def same_kindD)
next
  fix k :: keyed and M n
  assume k: "\<not> lengthEmitted k \<and> ready (inner k) M"
  then show "\<exists>k'. keyed_Read n k = Some (map (sponge_out (inner k) (keyed_message k M)) [0..<n], k') \<and>
      lengthEmitted k' \<and> drained (inner k') (sponge_out (inner k) (keyed_message k M)) n"
    by (rule keyed_Read_first)
next
  fix k :: keyed and f i n
  assume k: "lengthEmitted k \<and> drained (inner k) f i"
  with sponges.read_more [of "inner k" i f n] show "\<exists>k'. keyed_Read n k = Some (map f [i..<i + n], k') \<and> lengthEmitted k' \<and> drained (inner k') f (i + n)"
    by (auto simp: keyed_Read_def)
next
  fix k :: keyed and M inp
  assume k: "\<not> lengthEmitted k \<and> ready (inner k) M"
  then show "keyed_Sum inp k = Some (inp @ map (sponge_out (inner k) (keyed_message k M)) [0..<nat (outputLen (inner k))])"
    by (rule keyed_Sum_ready)
qed

lemma newKMAC_absorbs:
  assumes "bits \<in> {128, 256}"
  obtains k where "newKMAC bits key l s = Some k" "\<not> lengthEmitted k"
    "absorbs (inner k) (cshake_prefix (cshake_rate bits) (str ''KMAC'') s @ kmac_prefix (cshake_rate bits) key)"
    "rate (inner k) = cshake_rate bits" "dsbyte (inner k) = 0x04" "outputLen (inner k) = l"
proof -
  let ?N = "str ''KMAC''" let ?P = "cshake_prefix (cshake_rate bits) ?N s"
  obtain d where d: "newCShake bits ?N s = Some d" "absorbs d (cshake_start bits ?N s)" "rate d = cshake_rate bits"
    "dsbyte d = cshake_ds ?N s" "outputLen d = 0" by (rule newCShake_absorbs [OF assms])
  let ?d = "d\<lparr>outputLen := l\<rparr>" let ?l = "left_encode (of_nat (rate ?d))"
  have "?N \<noteq> []" by (simp add: str_def)
  then have "absorbs ?d ?P" using d by (simp add: absorbs_outputLen cshake_start_def)
  then obtain d1 where d1: "leftEncode (of_nat (rate ?d)) ?d = Some (length ?l, d1)" "absorbs d1 (?P @ ?l)" "same_kind ?d d1"
    by (rule leftEncode_absorbs)
  obtain d2 where d2: "encodeString key d1 = Some (length (encode_string key), d2)"
    "absorbs d2 ((?P @ ?l) @ encode_string key)" "same_kind d1 d2" by (rule encodeString_absorbs [OF d1(2)])
  have k: "same_kind ?d d2" using d1(3) d2(3) by (rule same_kind_trans)
  have "absorbs d2 (?P @ ?l @ encode_string key)" using d2(2) by simp
  then obtain d3 where d3: "write_zeros (length (?l @ encode_string key)) d2 = Some d3"
    "absorbs d3 (?P @ padded (rate d2) (?l @ encode_string key))" "same_kind d2 d3" by (rule write_zeros_absorbs [OF _ refl])
  have e: "rate d3 = cshake_rate bits" "rate d2 = cshake_rate bits" "dsbyte d3 = 0x04" "outputLen d3 = l"
    using same_kindD [OF k] same_kindD [OF d3(3)] d(3,4) \<open>?N \<noteq> []\<close> by (simp_all add: cshake_ds_def)
  show ?thesis
    using d(1,3) d1(1) d2(1) d3 e
    by (intro that [of "\<lparr>inner = d3, lengthEmitted = False\<rparr>"]) (simp_all add: newKMAC_def Let_def kmac_prefix_def)
qed

lemma encode_items_absorbs:
  assumes "absorbs d M"
  obtains d' where "encode_items xs d = Some d'" "absorbs d' (M @ concat (map encode_string xs))" "same_kind d d'"
  using assms
proof (induction xs arbitrary: d M thesis)
  case Nil
  then show ?case by simp
next
  case (Cons x xs)
  obtain d1 where d1: "encodeString x d = Some (length (encode_string x), d1)" "absorbs d1 (M @ encode_string x)" "same_kind d d1"
    by (rule encodeString_absorbs [OF Cons.prems(2)])
  obtain d2 where "encode_items xs d1 = Some d2" "absorbs d2 ((M @ encode_string x) @ concat (map encode_string xs))" "same_kind d1 d2"
    by (rule Cons.IH [OF _ d1(2)])
  with d1 show ?case by (intro Cons.prems(1) [of d2]) (auto intro: same_kind_trans)
qed

definition tuple_message :: "nat \<Rightarrow> bytes list \<Rightarrow> bytes \<Rightarrow> nat \<Rightarrow> bytes" where
  "tuple_message bits xs s l =
    cshake_prefix (cshake_rate bits) (str ''TupleHash'') s @ concat (map encode_string xs) @ right_encode (of_nat (l * 8))"

lemma tuple_sum_eq:
  assumes "bits \<in> {128, 256}"
  shows "tuple_sum bits xs s l = Some (sponge_hash (cshake_rate bits) 0x04 (tuple_message bits xs s l) l)"
proof -
  let ?N = "str ''TupleHash''" let ?P = "cshake_prefix (cshake_rate bits) ?N s"
  obtain d where d: "newCShake bits ?N s = Some d" "absorbs d (cshake_start bits ?N s)" "rate d = cshake_rate bits"
    "dsbyte d = cshake_ds ?N s" "outputLen d = 0" by (rule newCShake_absorbs [OF assms])
  have N: "?N \<noteq> []" by (simp add: str_def)
  then have "absorbs d ?P" using d by (simp add: cshake_start_def)
  then obtain d1 where d1: "encode_items xs d = Some d1" "absorbs d1 (?P @ concat (map encode_string xs))" "same_kind d d1"
    by (rule encode_items_absorbs)
  obtain d2 where d2: "rightEncode (of_nat (l * 8)) d1 = Some (length (right_encode (of_nat (l * 8))), d2)"
    "absorbs d2 ((?P @ concat (map encode_string xs)) @ right_encode (of_nat (l * 8)))" "same_kind d1 d2"
    by (rule rightEncode_absorbs [OF d1(2)])
  obtain d3 where d3: "Read l d2 = Some (sponge_hash (rate d2) (dsbyte d2) ((?P @ concat (map encode_string xs)) @ right_encode (of_nat (l * 8))) l, d3)"
    using Read_absorbs [OF d2(2)] by blast
  have "rate d2 = cshake_rate bits" "dsbyte d2 = 0x04"
    using same_kindD [OF d1(3)] same_kindD [OF d2(3)] d(3,4) N by (simp_all add: cshake_ds_def)
  with d(1) d1(1) d2(1) d3 show ?thesis by (simp add: tuple_sum_def newTupleHash_def tuple_message_def)
qed

section \<open>What users rely on\<close>

lemma length_sponge_hash [simp]: "length (sponge_hash r ds M n) = n"
  by (simp add: sponge_hash_def)

lemma sponge_streaming:
  assumes "ready d M"
  shows "\<exists>d1 d2. write_all Write ps d = Some d1 \<and>
    Sum inp d1 = Some (inp @ sponge_hash (rate d) (dsbyte d) (M @ concat ps) (nat (outputLen d))) \<and>
    read_all Read ns d1 = Some (sponge_hash (rate d) (dsbyte d) (M @ concat ps) (sum_list ns), d2)"
proof -
  obtain d1 d2 where d1: "write_all Write ps d = Some d1"
      "Sum inp d1 = Some (inp @ map (sponge_out d (M @ concat ps)) [0..<nat (outputLen d)])"
      "read_all Read (hd ns # tl ns) d1 = Some (map (sponge_out d (M @ concat ps)) [0..<hd ns + sum_list (tl ns)], d2)"
    using sponges.streaming [OF assms, of ps inp "hd ns" "tl ns"] by blast
  show ?thesis
  proof (cases ns)
    case Nil
    with d1(1,2) show ?thesis by (simp add: sponge_hash_def)
  next
    case (Cons n ns')
    with d1 show ?thesis by (simp add: sponge_hash_def)
  qed
qed

text \<open>
  C15: The hash objects compute the sponge of FIPS 202 however they are driven. For each of SHA3-224, 256, 384, 512,
  SHAKE128 and SHAKE256: writing any pieces to a new object does not panic and returns; on the written object \<^verbatim>\<open>Sum\<close> appends the hash of
  the pieces' concatenation to its argument, and reading in any pieces gives the successive bytes of the sponge's output. (Writing to an
  object, or calling \<^verbatim>\<open>Sum\<close> on it, after a read is another matter: see \<open>Sum_after_Read\<close>.)
\<close>

theorem hash_streaming:
  assumes "d \<in> {New224, New256, New384, New512, NewShake128, NewShake256}"
  shows "\<exists>d1 d2. write_all Write ps d = Some d1 \<and>
    Sum inp d1 = Some (inp @ sponge_hash (rate d) (dsbyte d) (concat ps) (nat (outputLen d))) \<and>
    read_all Read ns d1 = Some (sponge_hash (rate d) (dsbyte d) (concat ps) (sum_list ns), d2)"
proof -
  have "ready d []"
    using assms by (auto simp: New224_def New256_def New384_def New512_def NewShake128_def NewShake256_def sponge_new_absorbs)
  from sponge_streaming [OF this, of ps inp ns] show ?thesis by simp
qed

theorem hash_streaming_witness:
  "\<exists>d1 d2. write_all Write [[1], [], [2, 3]] New256 = Some d1 \<and>
    Sum [] d1 = Some (sponge_hash 136 0x06 [1, 2, 3] 32) \<and>
    read_all Read [7, 200] d1 = Some (sponge_hash 136 0x06 [1, 2, 3] 207, d2)"
  using hash_streaming [of New256 "[[1], [], [2, 3]]" "[]" "[7, 200]"] by (simp add: New256_def)

lemma clone_squeezing:
  assumes "squeezing d A k"
  defines "gap \<equiv> maxRate - rate d"
  shows "if k mod rate d < gap then clone d = None else \<exists>d'. clone d = Some d' \<and> squeezing d' A (k - gap) \<and> same_kind d d'"
proof (cases "k mod rate d < gap")
  case True
  with assms show ?thesis by (auto simp: clone_def squeezing_def buf_cap_def rate_ok_def)
next
  case False
  let ?i = "k mod rate d"
  have s: "0 < rate d" "rate d \<le> maxRate" "buf d = Some (?i, rate d - ?i)" "direction d = spongeSqueezing"
    using assms(1) by (auto simp: squeezing_def rate_ok_def)
  have i: "?i < rate d" "gap \<le> ?i" "?i \<le> k" using False s(1) by auto
  then have k: "(k - gap) div rate d = k div rate d" "(k - gap) mod rate d = ?i - gap"
    using div_mult_mod_eq [of k "rate d"]
    by (metis Nat.diff_add_assoc add.commute div_less div_mult_self3 add.right_neutral less_imp_diff_less s(1) less_not_refl2,
        metis Nat.diff_add_assoc mod_less mod_mult_self3 less_imp_diff_less)
  let ?d = "d\<lparr>buf := Some (?i - gap, rate d - (?i - gap))\<rparr>"
  have c: "buf_cap d = rate d - (?i - gap)" "\<not> rate d < buf_cap d" using i s by (auto simp: buf_cap_def gap_def)
  have "clone d = Some ?d" using s(4) c i by (simp add: clone_def)
  moreover have "squeezing ?d A (k - gap)" using assms(1) k by (simp add: squeezing_def)
  ultimately show ?thesis using False by (auto simp: same_kind_def)
qed

text \<open>
  \<^verbatim>\<open>Sum\<close> (and \<^verbatim>\<open>Clone\<close>) of an object that has been read is wrong, because \<^verbatim>\<open>clone\<close> takes the capacity of the buffer for
  the distance to the end of the block. After reading \<open>n\<close> bytes of a SHA3-256 object, \<^verbatim>\<open>Sum\<close> panics when fewer than 32
  bytes of the current block have been read, and otherwise it goes back 32 bytes and gives out bytes that were read before.
\<close>

theorem Sum_after_Read:
  assumes "Write x New256 = Some h" and "Read n h = Some (out, h')"
  shows "Sum inp h' = (if n mod 136 < 32 then None else Some (inp @ drop (n - 32) out))"
proof -
  have "absorbs New256 []" by (simp add: New256_def sponge_new_absorbs)
  then obtain d where "Write x New256 = Some d" "absorbs d ([] @ x)" "same_kind New256 d" by (rule Write_absorbs)
  with assms(1) have h: "absorbs h x" "rate h = 136" "dsbyte h = 0x06" "outputLen h = 32"
    by (auto simp: New256_def dest: same_kindD)
  obtain d' where "Read n h = Some (sponge_hash (rate h) (dsbyte h) x n, d')"
      "squeezing d' (squeeze_start (rate h) (dsbyte h) x) n" "same_kind h d'" by (rule Read_absorbs [OF h(1)])
  with assms(2) h have h': "out = sponge_hash 136 0x06 x n" "squeezing h' (squeeze_start 136 0x06 x) n" "rate h' = 136" "outputLen h' = 32"
    by (auto dest: same_kindD)
  show ?thesis
  proof (cases "n mod 136 < 32")
    case True
    with clone_squeezing [OF h'(2)] h'(3) show ?thesis by (simp add: Sum_def maxRate_def)
  next
    case False
    then have n: "32 \<le> n" using mod_less_eq_dividend [of n 136] by linarith
    from False clone_squeezing [OF h'(2)] h'(3) obtain e where
      e: "clone h' = Some e" "squeezing e (squeeze_start 136 0x06 x) (n - 32)" "same_kind h' e" by (auto simp: maxRate_def)
    obtain f where "Read 32 e = Some (map (squeeze_byte (rate e) (squeeze_start 136 0x06 x)) [n - 32..<n - 32 + 32], f)"
      by (rule Read_squeezing [OF e(2)])
    moreover have "drop (n - 32) out = map (squeeze_byte 136 (squeeze_start 136 0x06 x)) [n - 32..<n]"
      by (simp add: h'(1) sponge_hash_def drop_map)
    ultimately show ?thesis using False e(1) h'(3,4) same_kindD [OF e(3)] n by (simp add: Sum_def)
  qed
qed

theorem Sum_after_Read_witness:
  "\<exists>h h' out. Write [1] New256 = Some h \<and> Read 5 h = Some (out, h') \<and> Sum [] h' = None"
proof -
  have "absorbs New256 []" by (simp add: New256_def sponge_new_absorbs)
  then obtain h where h: "Write [1] New256 = Some h" "absorbs h ([] @ [1])" by (rule Write_absorbs)
  obtain h' where h': "Read 5 h = Some (sponge_hash (rate h) (dsbyte h) ([] @ [1]) 5, h')" by (rule Read_absorbs [OF h(2)])
  from Sum_after_Read [OF h(1) h', of "[]"] h(1) h' show ?thesis by simp
qed

text \<open>
  KMAC as NIST SP 800-185 defines it: \<open>bytepad\<close> adds no zeros when the length is already a multiple of the rate. The code then adds a
  whole block of them, which \<open>extra_block\<close> is.
\<close>

definition bytepad :: "bytes \<Rightarrow> nat \<Rightarrow> bytes" where
  "bytepad x w = (let z = left_encode (of_nat w) @ x in z @ replicate ((w - length z mod w) mod w) 0)"

definition KMAC :: "nat \<Rightarrow> bytes \<Rightarrow> bytes \<Rightarrow> int \<Rightarrow> bytes \<Rightarrow> bytes" where
  "KMAC r K X l S = sponge_hash r 0x04
     (bytepad (encode_string (str ''KMAC'') @ encode_string S) r @ bytepad (encode_string K) r @ X @ right_encode (word_of_int (8 * l))) (nat l)"

definition extra_block :: "nat \<Rightarrow> bytes \<Rightarrow> bytes" where
  "extra_block r x = (if r dvd length (left_encode (of_nat r) @ x) then replicate r 0 else [])"

lemma padded_bytepad: "0 < r \<Longrightarrow> padded r (left_encode (of_nat r) @ x) = bytepad x r @ extra_block r x"
  by (auto simp: padded_def bytepad_def extra_block_def Let_def dvd_eq_mod_eq_0)

text \<open>
  C17: KMAC. A new KMAC object, fed the message in any pieces, yields the output of the sponge on the encoded customization, the
  encoded key, the message and the encoded output length, with an additional block of zeros after a padded part whose length
  was a multiple of the rate before padding. Without such a part this is KMAC of SP 800-185. But \<^verbatim>\<open>Reset\<close> zeroes the sponge and so drops
  the key: a reset object hashes the message and the output length alone, whatever key it was created with.
\<close>

theorem KMAC_Reset_drops_key:
  fixes key s :: bytes
  assumes "bits \<in> {128, 256}" and "0 \<le> l"
  defines "r \<equiv> cshake_rate bits" and "L \<equiv> right_encode (word_of_int (8 * l))"
    and "c \<equiv> encode_string (str ''KMAC'') @ encode_string s" and "e \<equiv> encode_string key"
  shows "\<exists>k k1 k2. newKMAC bits key l s = Some k \<and>
    write_all keyed_Write ps k = Some k1 \<and>
    keyed_Sum [] k1 = Some (sponge_hash r 0x04 (bytepad c r @ extra_block r c @ bytepad e r @ extra_block r e @ concat ps @ L) (nat l)) \<and>
    (extra_block r c = [] \<longrightarrow> extra_block r e = [] \<longrightarrow> keyed_Sum [] k1 = Some (KMAC r key (concat ps) l s)) \<and>
    write_all keyed_Write ps (keyed_Reset k) = Some k2 \<and>
    keyed_Sum [] k2 = Some (sponge_hash r 0x04 (concat ps @ L) (nat l))"
proof -
  let ?P = "cshake_prefix r (str ''KMAC'') s @ kmac_prefix r key"
  have r: "0 < r" using assms(1) by (auto simp: r_def cshake_rate_def)
  have P: "?P = bytepad c r @ extra_block r c @ bytepad e r @ extra_block r e"
    by (simp add: cshake_prefix_def kmac_prefix_def padded_bytepad [OF r] c_def e_def)
  obtain k where k: "newKMAC bits key l s = Some k" "\<not> lengthEmitted k" "absorbs (inner k) ?P"
    "rate (inner k) = r" "dsbyte (inner k) = 0x04" "outputLen (inner k) = l"
    unfolding r_def by (rule newKMAC_absorbs [OF assms(1)])
  have "\<not> lengthEmitted k \<and> ready (inner k) ?P" using k assms(2) by simp
  then obtain k1 where k1: "write_all keyed_Write ps k = Some k1"
    "keyed_Sum [] k1 = Some ([] @ map (sponge_out (inner k) (keyed_message k (?P @ concat ps))) [0..<nat (outputLen (inner k))])"
    using keyeds.streaming [of k ?P ps "[]"] by blast
  let ?k = "keyed_Reset k"
  have K: "same_kind (inner k) (inner ?k)" "absorbs (inner ?k) []" "\<not> lengthEmitted ?k"
    using Reset_absorbs [of "inner k" ?P] k(3) by (simp_all add: keyed_Reset_def)
  then have "\<not> lengthEmitted ?k \<and> ready (inner ?k) []" using k(6) assms(2) by (simp add: same_kindD)
  then obtain k2 where k2: "write_all keyed_Write ps ?k = Some k2"
    "keyed_Sum [] k2 = Some ([] @ map (sponge_out (inner ?k) (keyed_message ?k ([] @ concat ps))) [0..<nat (outputLen (inner ?k))])"
    using keyeds.streaming [of ?k "[]" ps "[]"] by blast
  have "keyed_Sum [] k1 = Some (sponge_hash r 0x04 (?P @ concat ps @ L) (nat l))"
    using k k1(2) unfolding L_def by (simp add: sponge_hash_def)
  then have "keyed_Sum [] k1 = Some (sponge_hash r 0x04 (bytepad c r @ extra_block r c @ bytepad e r @ extra_block r e @ concat ps @ L) (nat l))"
    by (simp add: P)
  then show ?thesis using k k1(1) k2
    by (intro exI [of _ k] exI [of _ k1] exI [of _ k2]) (simp add: sponge_hash_def same_kindD [OF K(1)] KMAC_def L_def c_def e_def)
qed

theorem KMAC_Reset_drops_key_witness:
  "\<exists>k k1 k2. newKMAC 128 [1, 2, 3] 32 [] = Some k \<and>
    write_all keyed_Write [[4]] k = Some k1 \<and> keyed_Sum [] k1 = Some (KMAC 168 [1, 2, 3] [4] 32 []) \<and>
    write_all keyed_Write [[4]] (keyed_Reset k) = Some k2 \<and>
    keyed_Sum [] k2 = Some (sponge_hash 168 0x04 ([4] @ right_encode 256) 32)"
proof -
  have "extra_block 168 (encode_string (str ''KMAC'') @ encode_string []) = []" "extra_block 168 (encode_string [1, 2, 3]) = []"
    by code_simp+
  then show ?thesis using KMAC_Reset_drops_key [of 128 32 "[1, 2, 3]" "[]" "[[4]]"] by (simp add: cshake_rate_def) blast
qed

text \<open>TupleHash: the string that is hashed determines the tuple, the customization string and the output length.\<close>

lemma padded_prefix:
  assumes "\<And>X Y. b @ X = c @ Y \<Longrightarrow> b = c \<and> X = Y" and "padded r b @ X = padded r c @ Y"
  shows "b = c \<and> X = Y"
proof -
  from assms(2) have "b = c \<and> replicate (r - length b mod r) 0 @ X = replicate (r - length c mod r) 0 @ Y"
    unfolding padded_def append_assoc by (rule assms(1))
  then show ?thesis by auto
qed

lemma cshake_prefix_inject:
  assumes "\<forall>x\<in>{n, s, n', s'}. length x < 2 ^ 61" and "cshake_prefix r n s @ X = cshake_prefix r n' s' @ Y"
  shows "n = n' \<and> s = s' \<and> X = Y"
proof -
  let ?b = "left_encode (of_nat r) @ encode_string n @ encode_string s"
  let ?c = "left_encode (of_nat r) @ encode_string n' @ encode_string s'"
  have e: "n = n' \<and> s = s' \<and> X' = Y'" if "?b @ X' = ?c @ Y'" for X' Y'
  proof -
    from that have "encode_string n @ encode_string s @ X' = encode_string n' @ encode_string s' @ Y'" by simp
    with assms(1) have "n = n' \<and> encode_string s @ X' = encode_string s' @ Y'" by (intro encode_string_prefix) auto
    with assms(1) encode_string_prefix [of s s' X' Y'] show ?thesis by auto
  qed
  then have "?b = ?c \<and> X' = Y'" if "?b @ X' = ?c @ Y'" for X' Y' using that by blast
  then have "?b = ?c \<and> X = Y" using assms(2) unfolding cshake_prefix_def by (rule padded_prefix)
  with e [of "[]" "[]"] show ?thesis by simp
qed

lemma tuple_message_inject:
  assumes "\<forall>x\<in>set xs \<union> set ys \<union> {s, t}. length x < 2 ^ 61" and "l < 2 ^ 61" "m < 2 ^ 61"
    and "tuple_message bits xs s l = tuple_message bits ys t m"
  shows "xs = ys \<and> s = t \<and> l = m"
proof -
  let ?N = "str ''TupleHash''"
  have "length ?N < 2 ^ 61" by (simp add: str_def)
  then have e: "s = t \<and> concat (map encode_string xs) @ right_encode (of_nat (l * 8)) =
      concat (map encode_string ys) @ right_encode (of_nat (m * 8))"
    using cshake_prefix_inject [of ?N s ?N t] assms(1,4) by (simp add: tuple_message_def)
  then have "(of_nat (l * 8) :: uint64) = of_nat (m * 8)" "concat (map encode_string xs) = concat (map encode_string ys)"
    using right_encode_suffix by blast+
  moreover from this(1) have "l * 8 = m * 8"
    using assms(2,3) unfolding word_of_nat_eq_iff by (simp add: take_bit_nat_eq_self)
  ultimately show ?thesis using e encode_strings_inject [of xs ys] assms(1) by simp
qed

text \<open>The free list: every object in it is as good as new, so \<^verbatim>\<open>Sum256\<close> gives the hash whichever object it is handed.\<close>

definition pool_ok :: "pool \<Rightarrow> bool" where
  "pool_ok pl \<longleftrightarrow> (\<forall>h\<in>set pl. absorbs h [] \<and> same_kind New256 h)"

lemma pool_Sum256_correct:
  assumes "pool_ok pl"
  shows "\<exists>pl'. pool_Sum256 i n x pl = Some (sponge_hash 136 0x06 x n, pl') \<and> pool_ok pl'"
proof -
  obtain h pl1 where g: "Get256 i pl = (h, pl1)" by fastforce
  have h: "absorbs h []" "same_kind New256 h" "pool_ok pl1"
    using assms g nth_mem [of i pl] in_set_takeD [of _ i pl] in_set_dropD [of _ "Suc i" pl]
    by (auto simp: Get256_def pool_ok_def New256_def sponge_new_absorbs split: if_splits)
  obtain h1 where h1: "Write x h = Some h1" "absorbs h1 ([] @ x)" "same_kind h h1" by (rule Write_absorbs [OF h(1)])
  obtain h2 where h2: "Read n h1 = Some (sponge_hash (rate h1) (dsbyte h1) ([] @ x) n, h2)"
    "squeezing h2 (squeeze_start (rate h1) (dsbyte h1) ([] @ x)) n" "same_kind h1 h2" by (rule Read_absorbs [OF h1(2)])
  have k: "same_kind New256 h1" "same_kind New256 h2" using h(2) h1(3) h2(3) by (blast intro: same_kind_trans)+
  have "absorbs (Reset h2) []" "same_kind h2 (Reset h2)" using Reset_absorbs [of h2] h2(2) by blast+
  then have "pool_ok (Put256 h2 pl1)" using h(3) k(2) by (auto simp: pool_ok_def Put256_def intro: same_kind_trans)
  with g h1(1) h2(1) same_kindD [OF k(1)] show ?thesis by (simp add: pool_Sum256_def New256_def)
qed

end
