(* ===== verification/Sha3Crypto.thy ===== *)
theory Sha3Crypto
  imports Sha3 Crypto
begin

text \<open>
  The primitives of the protocol with the hash functions of \<^verbatim>\<open>crypto/sha3\<close> in place: what the other theories assume
  of a record of primitives (the sizes of digests) holds for the code's own functions, and \<^verbatim>\<open>VMHash\<close> separates its functions.
\<close>

definition with_sha3 :: "'z crypto_scheme \<Rightarrow> 'z crypto_scheme" where
  "with_sha3 C = C\<lparr>CShakeSum128 := \<lambda>l x n s. the (cshake_Sum128 l x n s), Sum256 := \<lambda>x. the (sha3_Sum256 x)\<rparr>"

lemma with_sha3_hashes:
  "CShakeSum128 (with_sha3 C) l x n s = sponge_hash 168 (cshake_ds n s) (cshake_start 128 n s @ x) l"
  "Sum256 (with_sha3 C) x = sponge_hash 136 0x06 x 32"
  by (simp_all add: with_sha3_def cshake_Sum128_eq Sum256_eq)

lemma with_sha3_lengths: "length (Sum256 (with_sha3 C) x) = 32" "length (VMHash (with_sha3 C) f x) = 32"
  by (simp_all add: with_sha3_hashes VMHash_def)

text \<open>
  C16: \<^verbatim>\<open>VMHash\<close> is the sponge on a string that determines the function name and the argument: two calls with the same hash
  have the same function name and argument, or they are a collision of the sponge on the two strings written out here. So
  the IDs of contracts, assets, transactions and blocks, which use different function names, cannot be confused.
\<close>

theorem VMHash_binds:
  assumes "length f < 2 ^ 60" and "length g < 2 ^ 60"
  defines "M \<equiv> \<lambda>f x. cshake_prefix 168 [] (str ''ChainVM.'' @ f) @ x"
  shows "VMHash (with_sha3 C) f x = sponge_hash 168 0x04 (M f x) 32 \<and>
    (VMHash (with_sha3 C) f x = VMHash (with_sha3 C) g y \<longrightarrow>
      f = g \<and> x = y \<or> M f x \<noteq> M g y \<and> sponge_hash 168 0x04 (M f x) 32 = sponge_hash 168 0x04 (M g y) 32)"
proof -
  have h: "VMHash (with_sha3 C) f x = sponge_hash 168 0x04 (M f x) 32" for f x
    by (simp add: VMHash_def with_sha3_hashes cshake_ds_def cshake_start_def cshake_rate_def M_def str_def)
  have "f = g \<and> x = y" if "M f x = M g y"
    using cshake_prefix_inject [of "[]" "str ''ChainVM.'' @ f" "[]" "str ''ChainVM.'' @ g" 168 x y] that assms(1,2)
    by (simp add: M_def str_def)
  then show ?thesis unfolding h by blast
qed

theorem VMHash_binds_witness:
  "VMHash (with_sha3 sample_crypto) (str ''TxID'') [1] =
     sponge_hash 168 0x04 (cshake_prefix 168 [] (str ''ChainVM.TxID'') @ [1]) 32 \<and>
   VMHash (with_sha3 sample_crypto) (str ''BlockHash'') [2] =
     sponge_hash 168 0x04 (cshake_prefix 168 [] (str ''ChainVM.BlockHash'') @ [2]) 32"
  using VMHash_binds [of "str ''TxID''" "str ''BlockHash''" sample_crypto "[1]"]
    VMHash_binds [of "str ''BlockHash''" "str ''TxID''" sample_crypto "[2]"]
  by (simp add: str_def)

end
